(* ===== verification/Prelude.thy ===== *)
theory Prelude
  imports Main "HOL-Library.Word"
begin

section \<open>Prelude: the types and the lemmas every component shares\<close>

text \<open>
  The machine integers and the C strings of the code, the result type of the operations that
  throw, and the generic facts on lists and words the component theories use.

  \<^item> \<open>Uint8\<close> .. \<open>Uint64\<close> of \<^verbatim>\<open>Pegasus/Common/Config.h\<close> are words of that width: \<open>+\<close>, \<open>-\<close>
    and \<open>*\<close> wrap, \<open>unat\<close> reads the value.
  \<^item> A \<open>const char*\<close> is \<open>cstr\<close>: the bytes before the terminating NUL. A pointer into the string is
    the suffix it points to, \<open>*p\<close> is \<open>cur p\<close>, which reads the terminator at the end. A pointer that
    may be null is a \<open>cstr option\<close>.
  \<^item> A Pegasus \<open>String\<close> is \<open>pstr\<close>, its list of 16-bit code units.
\<close>

unbundle bit_operations_syntax

type_synonym u8 = "8 word"
type_synonym u16 = "16 word"
type_synonym u32 = "32 word"
type_synonym u64 = "64 word"

type_synonym cstr = "u8 list"
type_synonym pstr = "u16 list"

abbreviation chr8 :: "char \<Rightarrow> u8" where
  "chr8 c \<equiv> of_char c"

abbreviation chr16 :: "char \<Rightarrow> u16" where
  "chr16 c \<equiv> of_char c"

definition bytes :: "string \<Rightarrow> cstr" where
  "bytes s = map of_char s"

definition units :: "string \<Rightarrow> pstr" where
  "units s = map of_char s"

definition cur :: "'a::zero list \<Rightarrow> 'a" where
  "cur p = (case p of [] \<Rightarrow> 0 | c # _ \<Rightarrow> c)"

definition peek :: "'a::zero list \<Rightarrow> nat \<Rightarrow> 'a" where
  "peek p i = (if i < length p then p ! i else 0)"

named_theorems cstr_simps \<open>reading through a pointer\<close>
named_theorems word_bounds \<open>values of words and of the operations on them, read with unat\<close>

lemma cur_Nil [simp, cstr_simps]: "cur [] = 0"
  by (simp add: cur_def)

lemma cur_Cons [simp, cstr_simps]: "cur (c # p) = c"
  by (simp add: cur_def)

lemma peek_Nil [simp, cstr_simps]: "peek [] i = 0"
  by (simp add: peek_def)

lemma peek_Cons_0 [simp, cstr_simps]: "peek (c # p) 0 = c"
  by (simp add: peek_def)

lemma peek_Cons_Suc [simp, cstr_simps]: "peek (c # p) (Suc i) = peek p i"
  by (simp add: peek_def)

lemma peek_numeral: "peek (c # p) (numeral k) = peek p (pred_numeral k)"
  by (simp add: numeral_eq_Suc)

lemma peek_0: "peek p 0 = cur p"
  by (cases p) simp_all

text \<open>A C string holds no NUL, so a read of NUL is the end of the string.\<close>

definition nul_free :: "'a::zero list \<Rightarrow> bool" where
  "nul_free p \<longleftrightarrow> 0 \<notin> set p"

lemma nul_free_simps [simp]:
  "nul_free ([] :: 'a::zero list)"
  "nul_free (c # p) \<longleftrightarrow> c \<noteq> 0 \<and> nul_free p"
  "nul_free (p @ q) \<longleftrightarrow> nul_free p \<and> nul_free q"
  by (auto simp: nul_free_def)

lemma cur_eq_0_iff: "nul_free p \<Longrightarrow> cur p = 0 \<longleftrightarrow> p = []"
  by (cases p) auto

subsection \<open>The ctype predicates of the C locale\<close>

definition isdigit :: "u8 \<Rightarrow> bool" where
  "isdigit c \<longleftrightarrow> 48 \<le> c \<and> c \<le> 57"

definition isupper :: "u8 \<Rightarrow> bool" where
  "isupper c \<longleftrightarrow> 65 \<le> c \<and> c \<le> 90"

definition isxdigit :: "u8 \<Rightarrow> bool" where
  "isxdigit c \<longleftrightarrow> isdigit c \<or> (65 \<le> c \<and> c \<le> 70) \<or> (97 \<le> c \<and> c \<le> 102)"

lemma ctype_0 [simp]: "\<not> isdigit 0" "\<not> isupper 0" "\<not> isxdigit 0"
  by (simp_all add: isdigit_def isupper_def isxdigit_def)

subsection \<open>Words read as numbers\<close>

lemma unat_less_2p64 [word_bounds]: "unat (x :: u64) < 2 ^ 64"
  using unsigned_less[of x] by simp

lemma unat_add_no_wrap [word_bounds]:
  "unat a + unat b < 2 ^ LENGTH('a) \<Longrightarrow> unat (a + b :: 'a::len word) = unat a + unat b"
  by (simp add: unat_word_ariths)

lemma unat_mult_no_wrap [word_bounds]:
  "unat a * unat b < 2 ^ LENGTH('a) \<Longrightarrow> unat (a * b :: 'a::len word) = unat a * unat b"
  by (simp add: unat_word_ariths)

lemma word_le_unat: "a \<le> b \<longleftrightarrow> unat a \<le> unat (b :: 'a::len word)"
  by (rule word_le_nat_alt)

lemma word_less_unat: "a < b \<longleftrightarrow> unat a < unat (b :: 'a::len word)"
  by (rule word_less_nat_alt)

subsection \<open>Masks and the two readings of a word\<close>

lemma unat_take_bit: "unat (take_bit n x) = take_bit n (unat (x::'a::len word))"
  by (simp add: unsigned_take_bit_eq)

lemma and_not_mask_eq_0: "x AND NOT (mask n) = 0 \<longleftrightarrow> unat (x::'a::len word) < 2 ^ n"
proof -
  have "x AND NOT (mask n) = 0 \<longleftrightarrow> take_bit n x = x"
    by (auto simp: bit_eq_iff bit_simps)
  also have "\<dots> \<longleftrightarrow> take_bit n (unat x) = unat x"
    by (metis unat_take_bit unsigned_word_eqI)
  also have "\<dots> \<longleftrightarrow> unat x < 2 ^ n" by (rule take_bit_nat_eq_self_iff)
  finally show ?thesis .
qed

lemma and_not_mask_eq: "x AND NOT (mask n) = NOT (mask n) \<longleftrightarrow> unat (NOT (x::'a::len word)) < 2 ^ n" 
proof -
  have "x AND NOT (mask n) = NOT (mask n) \<longleftrightarrow> NOT x AND NOT (mask n) = 0"
    by (auto simp: bit_eq_iff bit_simps)
  then show ?thesis by (simp add: and_not_mask_eq_0)
qed

lemma take_bit_uint: "take_bit LENGTH('a) (uint x) = uint (x::'a::len word)"
  by (rule take_bit_int_eq_self) simp_all

lemma uint_NOT: "uint (NOT x) = 2 ^ LENGTH('a) - 1 - uint x" for x :: "'a::len word"
  by (simp add: unsigned_not_eq take_bit_not_eq_mask_diff mask_eq_exp_minus_1 take_bit_uint)

lemma uint_ge_half: "2 ^ (LENGTH('a) - 1) \<le> uint x \<Longrightarrow> odd (uint x div 2 ^ (LENGTH('a) - 1))"
   for x :: "'a::len word"
proof -
  assume h: "2 ^ (LENGTH('a) - 1) \<le> uint x"
  have "(2::int) ^ LENGTH('a) = 2 * 2 ^ (LENGTH('a) - 1)"
    by (metis One_nat_def Suc_pred len_gt_0 power_Suc)
  moreover have "uint x < 2 ^ LENGTH('a)" by simp
  ultimately have "(uint x - 2 ^ (LENGTH('a) - 1)) div 2 ^ (LENGTH('a) - 1) = 0" using h
   by simp
  then have "uint x div 2 ^ (LENGTH('a) - 1) = 1"
    by (metis add_diff_cancel diff_add_cancel div_add_self2 add_0 power_not_zero zero_neq_numeral)
  then show ?thesis by simp
qed

lemma sint_cases: "sint x = (if uint x < 2 ^ (LENGTH('a) - 1) then uint x else uint x - 2 ^ LENGTH('a))" for x :: "'a::len word"
proof (cases "uint x < 2 ^ (LENGTH('a) - 1)")
  case True
  then show ?thesis by (simp add: sint_uint signed_take_bit_eq_take_bit_minus take_bit_uint bit_iff_odd)
next
  case False
  then show ?thesis using uint_ge_half[of x]
   by (simp add: sint_uint signed_take_bit_eq_take_bit_minus take_bit_uint bit_iff_odd)
qed

lemma sint_range_iff: "n < LENGTH('a) \<Longrightarrow> (- (2 ^ n) \<le> sint x \<and> sint x < 2 ^ n) \<longleftrightarrow> uint x < 2 ^ n \<or> uint (NOT x) < 2 ^ n"
  for x :: "'a::len word"
proof -
  assume n: "n < LENGTH('a)"
  have p: "(2::int) ^ n \<le> 2 ^ (LENGTH('a) - 1)" using n by (intro power_increasing) auto
  have q: "(2::int) ^ LENGTH('a) = 2 * 2 ^ (LENGTH('a) - 1)"
    by (metis One_nat_def Suc_pred len_gt_0 power_Suc)
  have b: "uint x < 2 ^ LENGTH('a)" "0 \<le> uint x" "(0::int) < 2 ^ n" by simp_all
  show ?thesis
  proof (cases "uint x < 2 ^ (LENGTH('a) - 1)")
    case True
    then show ?thesis unfolding sint_cases uint_NOT if_P[OF True] using p q b by linarith
  next
    case False
    then show ?thesis unfolding sint_cases uint_NOT if_not_P[OF False] using p q b by linarith
  qed
qed

lemma uint_unat_less: "uint (x :: 'a::len word) < 2 ^ n \<longleftrightarrow> unat x < 2 ^ n"
proof -
  have "uint x < 2 ^ n \<longleftrightarrow> int (unat x) < int (2 ^ n)" by simp
  then show ?thesis by (simp only: of_nat_less_iff)
qed

lemma unat_of_nat_small [word_bounds]:
  "n < 2 ^ LENGTH('a) \<Longrightarrow> unat (of_nat n :: 'a::len word) = n"
  by (simp add: unat_of_nat)

lemma unat_ucast_up:
  assumes "LENGTH('a) \<le> LENGTH('b)"
  shows "unat (ucast (x :: 'a::len word) :: 'b::len word) = unat x"
proof -
  have "unat x < 2 ^ LENGTH('a)" by (rule unsigned_less)
  also have "(2 :: nat) ^ LENGTH('a) \<le> 2 ^ LENGTH('b)" using assms by (intro power_increasing) auto
  finally show ?thesis by (simp add: unsigned_ucast_eq take_bit_nat_eq_self_iff)
qed

subsection \<open>Operations that throw\<close>

text \<open>
  An operation that may throw returns \<open>Inl\<close> the exception or \<open>Inr\<close> its result; \<open>bindE\<close> is what
  follows it.
\<close>

fun bindE :: "'e + 'a \<Rightarrow> ('a \<Rightarrow> 'e + 'b) \<Rightarrow> 'e + 'b" where
  "bindE (Inl e) f = Inl e"
| "bindE (Inr x) f = f x"

lemma bindE_eq_Inr: "bindE m f = Inr y \<longleftrightarrow> (\<exists>x. m = Inr x \<and> f x = Inr y)"
  by (cases m) auto

lemma bindE_eq_Inl: "bindE m f = Inl e \<longleftrightarrow> m = Inl e \<or> (\<exists>x. m = Inr x \<and> f x = Inl e)"
  by (cases m) auto

subsection \<open>Undefined behaviour\<close>

text \<open>
  Where the code reads or writes through pointers, an operation has three outcomes: it returns, it
  throws, or it leaves the objects it may touch, which C++ calls undefined behaviour. A theorem
  that an operation is \<open>Done\<close> or \<open>Throws\<close> is also a theorem of memory safety.
\<close>

datatype ('e, 'a) outcome = Done 'a | Throws 'e | Undefined

fun bindO :: "('e, 'a) outcome \<Rightarrow> ('a \<Rightarrow> ('e, 'b) outcome) \<Rightarrow> ('e, 'b) outcome" where
  "bindO (Done x) f = f x"
| "bindO (Throws e) f = Throws e"
| "bindO Undefined f = Undefined"

lemma bindO_eq_Done: "bindO m f = Done y \<longleftrightarrow> (\<exists>x. m = Done x \<and> f x = Done y)"
  by (cases m) auto

lemma bindO_eq_Undefined:
  "bindO m f = Undefined \<longleftrightarrow> m = Undefined \<or> (\<exists>x. m = Done x \<and> f x = Undefined)"
  by (cases m) auto

lemma bindO_if: "bindO (if b then m else n) f = (if b then bindO m f else bindO n f)"
  by simp

end
