(* ===== verification/StringConv.thy ===== *)
theory StringConv
  imports Prelude
begin

section \<open>StringConversion: integers and reals to and from text\<close>

text \<open>
  \<^verbatim>\<open>Pegasus/Common/StringConversion.cpp\<close>: the decimal printers of every integer width and the
  parsers of the decimal, hexadecimal, octal and binary integer formats of the CIM specification,
  with their overflow checks, and the grammar check in front of \<^verbatim>\<open>strtod\<close>. A parser returns the
  boolean of the code and the value it leaves in its output parameter.
\<close>

subsection \<open>Printing\<close>

text \<open>The table of the strings of the numbers below 128, each with its length.\<close>

definition Uint32Strings :: "(cstr \<times> nat) list" where
  "Uint32Strings =
  [(bytes ''0'', 1), (bytes ''1'', 1), (bytes ''2'', 1), (bytes ''3'', 1), (bytes ''4'', 1), (bytes ''5'', 1),
   (bytes ''6'', 1), (bytes ''7'', 1), (bytes ''8'', 1), (bytes ''9'', 1), (bytes ''10'', 2), (bytes ''11'', 2),
   (bytes ''12'', 2), (bytes ''13'', 2), (bytes ''14'', 2), (bytes ''15'', 2), (bytes ''16'', 2), (bytes ''17'', 2),
   (bytes ''18'', 2), (bytes ''19'', 2), (bytes ''20'', 2), (bytes ''21'', 2), (bytes ''22'', 2), (bytes ''23'', 2),
   (bytes ''24'', 2), (bytes ''25'', 2), (bytes ''26'', 2), (bytes ''27'', 2), (bytes ''28'', 2), (bytes ''29'', 2),
   (bytes ''30'', 2), (bytes ''31'', 2), (bytes ''32'', 2), (bytes ''33'', 2), (bytes ''34'', 2), (bytes ''35'', 2),
   (bytes ''36'', 2), (bytes ''37'', 2), (bytes ''38'', 2), (bytes ''39'', 2), (bytes ''40'', 2), (bytes ''41'', 2),
   (bytes ''42'', 2), (bytes ''43'', 2), (bytes ''44'', 2), (bytes ''45'', 2), (bytes ''46'', 2), (bytes ''47'', 2),
   (bytes ''48'', 2), (bytes ''49'', 2), (bytes ''50'', 2), (bytes ''51'', 2), (bytes ''52'', 2), (bytes ''53'', 2),
   (bytes ''54'', 2), (bytes ''55'', 2), (bytes ''56'', 2), (bytes ''57'', 2), (bytes ''58'', 2), (bytes ''59'', 2),
   (bytes ''60'', 2), (bytes ''61'', 2), (bytes ''62'', 2), (bytes ''63'', 2), (bytes ''64'', 2), (bytes ''65'', 2),
   (bytes ''66'', 2), (bytes ''67'', 2), (bytes ''68'', 2), (bytes ''69'', 2), (bytes ''70'', 2), (bytes ''71'', 2),
   (bytes ''72'', 2), (bytes ''73'', 2), (bytes ''74'', 2), (bytes ''75'', 2), (bytes ''76'', 2), (bytes ''77'', 2),
   (bytes ''78'', 2), (bytes ''79'', 2), (bytes ''80'', 2), (bytes ''81'', 2), (bytes ''82'', 2), (bytes ''83'', 2),
   (bytes ''84'', 2), (bytes ''85'', 2), (bytes ''86'', 2), (bytes ''87'', 2), (bytes ''88'', 2), (bytes ''89'', 2),
   (bytes ''90'', 2), (bytes ''91'', 2), (bytes ''92'', 2), (bytes ''93'', 2), (bytes ''94'', 2), (bytes ''95'', 2),
   (bytes ''96'', 2), (bytes ''97'', 2), (bytes ''98'', 2), (bytes ''99'', 2), (bytes ''100'', 3), (bytes ''101'', 3),
   (bytes ''102'', 3), (bytes ''103'', 3), (bytes ''104'', 3), (bytes ''105'', 3), (bytes ''106'', 3), (bytes ''107'', 3),
   (bytes ''108'', 3), (bytes ''109'', 3), (bytes ''110'', 3), (bytes ''111'', 3), (bytes ''112'', 3), (bytes ''113'', 3),
   (bytes ''114'', 3), (bytes ''115'', 3), (bytes ''116'', 3), (bytes ''117'', 3), (bytes ''118'', 3), (bytes ''119'', 3),
   (bytes ''120'', 3), (bytes ''121'', 3), (bytes ''122'', 3), (bytes ''123'', 3), (bytes ''124'', 3), (bytes ''125'', 3),
   (bytes ''126'', 3), (bytes ''127'', 3)]"

text \<open>
  The do-while loop that writes the digits of \<open>x\<close> in front of \<open>p\<close>; \<open>p\<close> is what the buffer holds
  from the pointer on.
\<close>

function uintDigits :: "nat \<Rightarrow> cstr \<Rightarrow> cstr" where
  "uintDigits x p =
     (let p' = of_nat (48 + x mod 10) # p; x' = x div 10
      in if x' \<noteq> 0 then uintDigits x' p' else p')"
  by pat_completeness auto
termination
  by (relation "measure fst") auto

declare uintDigits.simps [simp del]

definition uintToString :: "'a::len word \<Rightarrow> cstr \<times> nat" where
  "uintToString x =
     (if unat x < 128 then Uint32Strings ! unat x
      else (let p = uintDigits (unat x) [] in (p, length p)))"

definition sintToString :: "'a::len word \<Rightarrow> cstr \<times> nat" where
  "sintToString x =
     (if sint x < 0
      then (let p = chr8 (CHR ''-'') # uintDigits (unat (- x)) [] in (p, length p))
      else uintToString x)"

definition Uint8ToString :: "u8 \<Rightarrow> cstr \<times> nat" where
  "Uint8ToString x = uintToString x"

definition Uint16ToString :: "u16 \<Rightarrow> cstr \<times> nat" where
  "Uint16ToString x = uintToString x"

definition Uint32ToString :: "u32 \<Rightarrow> cstr \<times> nat" where
  "Uint32ToString x = uintToString x"

definition Uint64ToString :: "u64 \<Rightarrow> cstr \<times> nat" where
  "Uint64ToString x = uintToString x"

definition Sint8ToString :: "u8 \<Rightarrow> cstr \<times> nat" where
  "Sint8ToString x = sintToString x"

definition Sint16ToString :: "u16 \<Rightarrow> cstr \<times> nat" where
  "Sint16ToString x = sintToString x"

definition Sint32ToString :: "u32 \<Rightarrow> cstr \<times> nat" where
  "Sint32ToString x = sintToString x"

definition Sint64ToString :: "u64 \<Rightarrow> cstr \<times> nat" where
  "Sint64ToString x = sintToString x"

subsection \<open>Parsing unsigned integers\<close>

text \<open>
  Each loop returns whether it stayed within 64 bits, the accumulator and the rest of the string.
\<close>

fun decimalLoop :: "u64 \<Rightarrow> cstr \<Rightarrow> bool \<times> u64 \<times> cstr" where
  "decimalLoop x [] = (True, x, [])"
| "decimalLoop x (c # p) =
     (if isdigit c then
        (if x > 0xFFFFFFFFFFFFFFFF div 10 then (False, x, c # p)
         else (let x = 10 * x; newDigit = ucast (c - 48)
               in if 0xFFFFFFFFFFFFFFFF - x < newDigit then (False, x, p)
                  else decimalLoop (x + newDigit) p))
      else (True, x, c # p))"

definition decimalStringToUint64 :: "cstr option \<Rightarrow> bool \<Rightarrow> bool \<times> u64" where
  "decimalStringToUint64 stringValue allowLeadingZeros =
     (case stringValue of
        None \<Rightarrow> (False, 0)
      | Some p \<Rightarrow>
          if cur p = 0 then (False, 0)
          else if cur p = chr8 (CHR ''0'') \<and> \<not> allowLeadingZeros then (peek p 1 = 0, 0)
          else (case decimalLoop 0 p of (ok, x, p) \<Rightarrow> (ok \<and> cur p = 0, x)))"

definition hexCharToNumeric :: "u8 \<Rightarrow> u8" where
  "hexCharToNumeric c =
     (if isdigit c then c - 48 else if isupper c then c - 65 + 10 else c - 97 + 10)"

fun hexLoop :: "u64 \<Rightarrow> cstr \<Rightarrow> bool \<times> u64 \<times> cstr" where
  "hexLoop x [] = (True, x, [])"
| "hexLoop x (c # p) =
     (if isxdigit c then
        (if x AND 0xF000000000000000 \<noteq> 0 then (False, x, c # p)
         else hexLoop (push_bit 4 x + ucast (hexCharToNumeric c)) p)
      else (True, x, c # p))"

definition hexStringToUint64 :: "cstr option \<Rightarrow> bool \<Rightarrow> bool \<times> u64" where
  "hexStringToUint64 stringValue unused =
     (case stringValue of
        None \<Rightarrow> (False, 0)
      | Some p \<Rightarrow>
          if cur p = 0 then (False, 0)
          else if peek p 0 \<noteq> chr8 (CHR ''0'') \<or>
                  peek p 1 \<noteq> chr8 (CHR ''x'') \<and> peek p 1 \<noteq> chr8 (CHR ''X'') then (False, 0)
          else (let p = drop 2 p
                in if cur p = 0 then (False, 0)
                   else (case hexLoop 0 p of (ok, x, p) \<Rightarrow> (ok \<and> cur p = 0, x))))"

fun octalLoop :: "u64 \<Rightarrow> cstr \<Rightarrow> bool \<times> u64 \<times> cstr" where
  "octalLoop x [] = (True, x, [])"
| "octalLoop x (c # p) =
     (if chr8 (CHR ''0'') \<le> c \<and> c \<le> chr8 (CHR ''7'') then
        (if x AND 0xE000000000000000 \<noteq> 0 then (False, x, c # p)
         else octalLoop (push_bit 3 x + ucast (c - 48)) p)
      else (True, x, c # p))"

definition octalStringToUint64 :: "cstr option \<Rightarrow> bool \<Rightarrow> bool \<times> u64" where
  "octalStringToUint64 stringValue unused =
     (case stringValue of
        None \<Rightarrow> (False, 0)
      | Some p \<Rightarrow>
          if cur p = 0 then (False, 0)
          else if cur p \<noteq> chr8 (CHR ''0'') then (False, 0)
          else (let p = drop 1 p
                in if cur p = 0 then (False, 0)
                   else (case octalLoop 0 p of (ok, x, p) \<Rightarrow> (ok \<and> cur p = 0, x))))"

fun binaryLoop :: "u64 \<Rightarrow> cstr \<Rightarrow> bool \<times> u64 \<times> cstr" where
  "binaryLoop x [] = (True, x, [])"
| "binaryLoop x (c # p) =
     (if c = chr8 (CHR ''0'') \<or> c = chr8 (CHR ''1'') then
        (if x AND 0x8000000000000000 \<noteq> 0 then (False, x, c # p)
         else binaryLoop (push_bit 1 x + ucast (c - 48)) p)
      else (True, x, c # p))"

definition binaryStringToUint64 :: "cstr option \<Rightarrow> bool \<Rightarrow> bool \<times> u64" where
  "binaryStringToUint64 stringValue unused =
     (case stringValue of
        None \<Rightarrow> (False, 0)
      | Some p \<Rightarrow>
          if cur p = 0 then (False, 0)
          else if peek p 1 = 0 then (False, 0)
          else (case binaryLoop 0 p of
                  (ok, x, p) \<Rightarrow>
                    if \<not> ok then (False, x)
                    else if cur p \<noteq> chr8 (CHR ''b'') \<and> cur p \<noteq> chr8 (CHR ''B'') then (False, x)
                    else (peek p 1 = 0, x)))"

definition stringToUnsignedInteger :: "cstr option \<Rightarrow> bool \<times> u64" where
  "stringToUnsignedInteger stringValue =
     (case decimalStringToUint64 stringValue False of
        (True, x) \<Rightarrow> (True, x)
      | (False, _) \<Rightarrow> hexStringToUint64 stringValue False)"

subsection \<open>Parsing signed integers\<close>

text \<open>\<open>Sint64\<close> values are words read with \<open>sint\<close>.\<close>

definition stringToSint64 ::
  "cstr option \<Rightarrow> (cstr option \<Rightarrow> bool \<Rightarrow> bool \<times> u64) \<Rightarrow> bool \<times> u64" where
  "stringToSint64 stringValue uint64Converter =
     (case stringValue of
        None \<Rightarrow> (False, 0)
      | Some p \<Rightarrow>
          let negative = (cur p = chr8 (CHR ''-''));
              p = (if negative \<or> cur p = chr8 (CHR ''+'') then drop 1 p else p)
          in case uint64Converter (Some p) False of
               (False, _) \<Rightarrow> (False, 0)
             | (True, uint64Value) \<Rightarrow>
                 if negative then
                   (if uint64Value > 0x8000000000000000 then (False, 0)
                    else (True, - uint64Value))
                 else
                   (if uint64Value > 0x7FFFFFFFFFFFFFFF then (False, 0)
                    else (True, uint64Value)))"

definition stringToSignedInteger :: "cstr option \<Rightarrow> bool \<times> u64" where
  "stringToSignedInteger stringValue =
     (case stringToSint64 stringValue decimalStringToUint64 of
        (True, x) \<Rightarrow> (True, x)
      | (False, _) \<Rightarrow> stringToSint64 stringValue hexStringToUint64)"

subsection \<open>Bounds of the CIM integer types\<close>

text \<open>\<^verbatim>\<open>enum CIMType\<close> of \<^verbatim>\<open>CIMType.h\<close>.\<close>

datatype cimType =
  CIMTYPE_BOOLEAN | CIMTYPE_UINT8 | CIMTYPE_SINT8 | CIMTYPE_UINT16 | CIMTYPE_SINT16
| CIMTYPE_UINT32 | CIMTYPE_SINT32 | CIMTYPE_UINT64 | CIMTYPE_SINT64 | CIMTYPE_REAL32
| CIMTYPE_REAL64 | CIMTYPE_CHAR16 | CIMTYPE_STRING | CIMTYPE_DATETIME | CIMTYPE_REFERENCE
| CIMTYPE_OBJECT | CIMTYPE_INSTANCE

fun checkUintBounds :: "u64 \<Rightarrow> cimType \<Rightarrow> bool" where
  "checkUintBounds x CIMTYPE_UINT8 = (x AND 0xFFFFFFFFFFFFFF00 = 0)"
| "checkUintBounds x CIMTYPE_UINT16 = (x AND 0xFFFFFFFFFFFF0000 = 0)"
| "checkUintBounds x CIMTYPE_UINT32 = (x AND 0xFFFFFFFF00000000 = 0)"
| "checkUintBounds x CIMTYPE_UINT64 = True"
| "checkUintBounds x _ = False"

fun checkSintBounds :: "u64 \<Rightarrow> cimType \<Rightarrow> bool" where
  "checkSintBounds x CIMTYPE_SINT8 =
     (x AND 0xFFFFFFFFFFFFFF80 = 0 \<or> x AND 0xFFFFFFFFFFFFFF80 = 0xFFFFFFFFFFFFFF80)"
| "checkSintBounds x CIMTYPE_SINT16 =
     (x AND 0xFFFFFFFFFFFF8000 = 0 \<or> x AND 0xFFFFFFFFFFFF8000 = 0xFFFFFFFFFFFF8000)"
| "checkSintBounds x CIMTYPE_SINT32 =
     (x AND 0xFFFFFFFF80000000 = 0 \<or> x AND 0xFFFFFFFF80000000 = 0xFFFFFFFF80000000)"
| "checkSintBounds x CIMTYPE_SINT64 = True"
| "checkSintBounds x _ = False"

definition decimalStringToUint32 :: "cstr option \<Rightarrow> bool \<times> u32" where
  "decimalStringToUint32 stringWithValue =
     (let (ok, val) = decimalStringToUint64 stringWithValue False;
          retCode = ok \<and> checkUintBounds val CIMTYPE_UINT32
      in (retCode, if retCode then ucast val else 0))"

subsection \<open>Parsing reals\<close>

fun skipDigits :: "cstr \<Rightarrow> cstr" where
  "skipDigits [] = []"
| "skipDigits (c # p) = (if isdigit c then skipDigits p else c # p)"

definition skipSign :: "cstr \<Rightarrow> cstr" where
  "skipSign p = (if cur p = chr8 (CHR ''+'') \<or> cur p = chr8 (CHR ''-'') then drop 1 p else p)"

text \<open>
  The grammar check, up to the call of \<^verbatim>\<open>strtod\<close>. The C library's \<^verbatim>\<open>strtod\<close> is the parameter: the
  value, the rest of the string it did not convert, and whether it set \<^verbatim>\<open>errno\<close> to \<^verbatim>\<open>ERANGE\<close>.
\<close>

definition realExponent :: "cstr \<Rightarrow> bool" where
  "realExponent p =
     (if cur p \<noteq> 0 then
        (if cur p \<noteq> chr8 (CHR ''e'') \<and> cur p \<noteq> chr8 (CHR ''E'') then False
         else (let p = skipSign (drop 1 p)
               in if \<not> isdigit (cur p) then False
                  else cur (skipDigits (drop 1 p)) = 0))
      else True)"

definition realSyntax :: "cstr \<Rightarrow> bool" where
  "realSyntax stringValue =
     (if cur stringValue = 0 then False
      else (let p = skipDigits (skipSign stringValue)
            in if cur p \<noteq> chr8 (CHR ''.'') then False
               else (let p = drop 1 p
                     in if \<not> isdigit (cur p) then False
                        else realExponent (skipDigits (drop 1 p)))))"

definition stringToReal64 ::
  "(cstr \<Rightarrow> 'r \<times> cstr \<times> bool) \<Rightarrow> cstr option \<Rightarrow> bool \<times> 'r option" where
  "stringToReal64 strtod stringValue =
     (case stringValue of
        None \<Rightarrow> (False, None)
      | Some s \<Rightarrow>
          if \<not> realSyntax s then (False, None)
          else (case strtod s of (x, endp, erange) \<Rightarrow> (cur endp = 0 \<and> \<not> erange, Some x)))"

subsection \<open>The value of a numeral\<close>

definition digitValue :: "u8 \<Rightarrow> nat" where
  "digitValue c = unat (hexCharToNumeric c)"

definition numval :: "nat \<Rightarrow> nat \<Rightarrow> cstr \<Rightarrow> nat" where
  "numval base = foldl (\<lambda>v c. v * base + digitValue c)"

lemma numval_simps [simp]:
  "numval base v [] = v"
  "numval base v (c # p) = numval base (v * base + digitValue c) p"
  "numval base v (p @ [c]) = numval base v p * base + digitValue c"
  by (simp_all add: numval_def)

lemma numval_mono: "0 < base \<Longrightarrow> v \<le> numval base v p"
proof (induction p arbitrary: v)
  case (Cons c p)
  have "v \<le> v * base + digitValue c" using Cons.prems by (simp add: trans_le_add1)
  also have "\<dots> \<le> numval base (v * base + digitValue c) p" by (rule Cons.IH[OF Cons.prems])
  finally show ?case by simp
qed simp

locale digit_accumulator =
  fixes base :: nat
    and is_dig :: "u8 \<Rightarrow> bool"
    and loop :: "u64 \<Rightarrow> cstr \<Rightarrow> bool \<times> u64 \<times> cstr"
  assumes base_pos: "0 < base"
    and stop_Nil: "loop x [] = (True, x, [])"
    and stop_Cons: "\<not> is_dig c \<Longrightarrow> loop x (c # p) = (True, x, c # p)"
    and step: "is_dig c \<Longrightarrow> unat x * base + digitValue c < 2 ^ 64 \<Longrightarrow>
      loop x (c # p) = loop (of_nat (unat x * base + digitValue c)) p"
    and overflow: "is_dig c \<Longrightarrow> 2 ^ 64 \<le> unat x * base + digitValue c \<Longrightarrow> \<not> fst (loop x (c # p))"
begin

lemma loop_digits:
  "list_all is_dig ds \<Longrightarrow> numval base (unat x) ds < 2 ^ 64 \<Longrightarrow>
     loop x (ds @ rest) = loop (of_nat (numval base (unat x) ds)) rest"
proof (induction ds arbitrary: x)
  case (Cons c ds)
  let ?v = "unat x * base + digitValue c"
  have v: "?v < 2 ^ 64"
    using Cons.prems(2) numval_mono[OF base_pos, of ?v ds] by simp
  then have "unat (of_nat ?v :: u64) = ?v" by (intro unat_of_nat_small) simp
  with Cons v show ?case by (simp add: step del: of_nat_add of_nat_mult)
qed simp

lemma loop_overflow:
  "list_all is_dig ds \<Longrightarrow> 2 ^ 64 \<le> numval base (unat x) ds \<Longrightarrow> \<not> fst (loop x (ds @ rest))"
proof (induction ds arbitrary: x)
  case Nil
  then show ?case using unat_less_2p64[of x] by simp
next
  case (Cons c ds)
  let ?v = "unat x * base + digitValue c"
  show ?case
  proof (cases "?v < 2 ^ 64")
    case True
    then have "unat (of_nat ?v :: u64) = ?v" by (intro unat_of_nat_small) simp
    with Cons True show ?thesis by (simp add: step del: of_nat_add of_nat_mult)
  qed (use Cons.prems in \<open>simp add: overflow\<close>)
qed

lemma loop_result:
  "loop 0 p = (True, x, q) \<longleftrightarrow>
     q = dropWhile is_dig p \<and> numval base 0 (takeWhile is_dig p) = unat x"
proof -
  let ?ds = "takeWhile is_dig p"
  have p: "p = ?ds @ dropWhile is_dig p" by simp
  have ds: "list_all is_dig ?ds" by (auto simp: list_all_iff dest: set_takeWhileD)
  have stop: "loop y (dropWhile is_dig p) = (True, y, dropWhile is_dig p)" for y
  proof (cases "dropWhile is_dig p")
    case (Cons c q)
    then have "\<not> is_dig c" by (simp add: dropWhile_eq_Cons_conv)
    with Cons show ?thesis by (simp add: stop_Cons)
  next
    case Nil
    show ?thesis unfolding Nil by (rule stop_Nil)
  qed
  show ?thesis
  proof (cases "numval base 0 ?ds < 2 ^ 64")
    case True
    have "loop 0 p = (True, of_nat (numval base 0 ?ds), dropWhile is_dig p)"
      using loop_digits[OF ds, of 0 "dropWhile is_dig p"] True stop p by simp
    moreover have "of_nat (numval base 0 ?ds) = x \<longleftrightarrow> numval base 0 ?ds = unat x"
      using True by (auto simp: unat_of_nat)
    ultimately show ?thesis by auto
  next
    case False
    then have "\<not> fst (loop 0 p)"
      using loop_overflow[OF ds, of 0 "dropWhile is_dig p"] p by simp
    then have "loop 0 p \<noteq> (True, x, q)" by auto
    then show ?thesis using False unat_less_2p64[of x] by auto
  qed
qed

lemma loop_all:
  assumes "nul_free p" "\<not> is_dig 0"
  shows "(case loop 0 p of (ok, x, q) \<Rightarrow> (ok \<and> cur q = 0, x)) = (True, y) \<longleftrightarrow>
     list_all is_dig p \<and> numval base 0 p = unat y"
proof -
  have nf: "nul_free (dropWhile is_dig p)"
    using assms(1) by (auto simp: nul_free_def dest: set_dropWhileD)
  have "cur q = 0 \<longleftrightarrow> q = []" if "loop 0 p = (True, z, q)" for z q
    using that nf by (auto simp: loop_result cur_eq_0_iff)
  then have "(case loop 0 p of (ok, x, q) \<Rightarrow> (ok \<and> cur q = 0, x)) = (True, y) \<longleftrightarrow>
    loop 0 p = (True, y, [])"
    by (cases "loop 0 p") auto
  also have "\<dots> \<longleftrightarrow> list_all is_dig p \<and> numval base 0 p = unat y"
  proof -
    have "[] = dropWhile is_dig p \<longleftrightarrow> list_all is_dig p"
      by (metis dropWhile_eq_Nil_conv list_all_iff)
    moreover have "list_all is_dig p \<Longrightarrow> takeWhile is_dig p = p"
      by (simp add: list_all_iff takeWhile_eq_all_conv)
    ultimately show ?thesis unfolding loop_result by metis
  qed
  finally show ?thesis .
qed

end

lemma unat_diff_word: "b \<le> a \<Longrightarrow> unat (a - b :: 'a::len word) = unat a - unat b"
  by (simp add: unat_sub_if' word_le_unat)

lemma digitValue_decimal: "isdigit c \<Longrightarrow> digitValue c = unat c - 48"
  by (simp add: digitValue_def hexCharToNumeric_def isdigit_def unat_diff_word)

lemma digitValue_le: "isxdigit c \<Longrightarrow> digitValue c < 16"
  by (auto simp: digitValue_def hexCharToNumeric_def isxdigit_def isdigit_def isupper_def
    unat_diff_word unat_word_ariths word_le_unat)

lemma shift_in: "push_bit k x + ucast d = (of_nat (unat x * 2 ^ k + unat d) :: u64)" for d :: u8
  by (simp add: push_bit_eq_mult unsigned_ucast_eq)

lemma ucast_eq: "(ucast (d::u8) :: u64) = of_nat (unat d)"
  by (metis of_nat_unat)

interpretation decimal: digit_accumulator 10 isdigit decimalLoop
proof (standard, goal_cases)
  case (4 c x p)
  let ?d = "digitValue c"
  have d: "?d \<le> 9" "unat (c - 48) = ?d" using 4
     by (auto simp: digitValue_decimal isdigit_def unat_diff_word word_le_unat)
  have x: "\<not> x > 0xFFFFFFFFFFFFFFFF div 10" using 4 by (simp add: word_less_unat)
  have m: "unat (10 * x) = 10 * unat x" using 4 by (subst unat_mult_no_wrap) simp_all
  have n: "unat (ucast (c - 48) :: u64) = ?d"
    unfolding ucast_eq d(2) using d(1) by (intro unat_of_nat_small) simp
  have o: "\<not> (0xFFFFFFFFFFFFFFFF - 10 * x < ucast (c - 48))"
    unfolding word_less_unat n using 4 by (subst unat_diff_word) (simp_all add: m word_le_unat)
  have "10 * x + ucast (c - 48) = (of_nat (unat x * 10 + ?d) :: u64)"
    unfolding d(2)[symmetric] by simp
  then show ?case using 4(1) x o by (simp add: Let_def del: of_nat_add of_nat_mult)
next
  case (5 c x p)
  let ?d = "digitValue c"
  have d: "?d \<le> 9" "unat (c - 48) = ?d" using 5
     by (auto simp: digitValue_decimal isdigit_def unat_diff_word word_le_unat)
  have n: "unat (ucast (c - 48) :: u64) = ?d"
    unfolding ucast_eq d(2) using d(1) by (intro unat_of_nat_small) simp
  show ?case
  proof (cases "x > 0xFFFFFFFFFFFFFFFF div 10")
   case True then show ?thesis using 5 by simp
  next
   case False
   then have m: "unat (10 * x) = 10 * unat x" by (subst unat_mult_no_wrap) (simp_all add: word_less_unat)
    have o: "(0xFFFFFFFFFFFFFFFF - 10 * x < ucast (c - 48))"
    unfolding word_less_unat n using 5 False by (subst unat_diff_word) (simp_all add: m word_le_unat word_less_unat)
   then show ?thesis using 5 False by (simp add: Let_def)
  qed
qed auto

lemma top_masks:
  "0xF000000000000000 = NOT (mask 60 :: u64)" "0xE000000000000000 = NOT (mask 61 :: u64)"
  "0x8000000000000000 = NOT (mask 63 :: u64)" "0xFFFFFFFFFFFFFF00 = NOT (mask 8 :: u64)"
  "0xFFFFFFFFFFFF0000 = NOT (mask 16 :: u64)" "0xFFFFFFFF00000000 = NOT (mask 32 :: u64)"
  "0xFFFFFFFFFFFFFF80 = NOT (mask 7 :: u64)" "0xFFFFFFFFFFFF8000 = NOT (mask 15 :: u64)"
  "0xFFFFFFFF80000000 = NOT (mask 31 :: u64)"
  by (simp_all add: mask_eq_exp_minus_1)

lemma top_bits_clear:
  "(x :: u64) AND 0xF000000000000000 = 0 \<longleftrightarrow> unat x < 2 ^ 60"
  "x AND 0xE000000000000000 = 0 \<longleftrightarrow> unat x < 2 ^ 61"
  "x AND 0x8000000000000000 = 0 \<longleftrightarrow> unat x < 2 ^ 63"
  unfolding top_masks by (rule and_not_mask_eq_0)+

lemma unat_minus_48: "48 \<le> c \<Longrightarrow> c \<le> 57 \<Longrightarrow> unat (c - 48) = digitValue c" for c :: u8
  by (simp add: digitValue_def hexCharToNumeric_def isdigit_def)

interpretation hex: digit_accumulator 16 isxdigit hexLoop
proof (standard, goal_cases)
  case (4 c x p)
  have "\<not> x AND 0xF000000000000000 \<noteq> 0" using 4 by (simp add: top_bits_clear)
  then show ?case using 4(1) shift_in[of 4 x "hexCharToNumeric c"] by (simp add: digitValue_def)
next
  case (5 c x p)
  have "x AND 0xF000000000000000 \<noteq> 0" using 5 digitValue_le[of c] by (simp add: top_bits_clear)
  then show ?case using 5(1) by simp
qed auto

interpretation octal: digit_accumulator 8 "\<lambda>c. chr8 (CHR ''0'') \<le> c \<and> c \<le> chr8 (CHR ''7'')" octalLoop
proof (standard, goal_cases)
  case (4 c x p)
  have "\<not> x AND 0xE000000000000000 \<noteq> 0" using 4 by (simp add: top_bits_clear)
  moreover have "unat (c - 48) = digitValue c" using 4(1) by (intro unat_minus_48) (auto simp: word_le_unat)
  ultimately show ?case using 4(1) shift_in[of 3 x "c - 48"] by simp
next
  case (5 c x p)
  have "unat (c - 48) = digitValue c" using 5(1) by (intro unat_minus_48) (auto simp: word_le_unat)
  then have "digitValue c < 8" using 5(1) by (auto simp: unat_diff_word word_le_unat)
  then have "x AND 0xE000000000000000 \<noteq> 0" using 5 by (simp add: top_bits_clear)
  then show ?case using 5(1) by simp
qed auto

interpretation binary: digit_accumulator 2 "\<lambda>c. c = chr8 (CHR ''0'') \<or> c = chr8 (CHR ''1'')" binaryLoop
proof (standard, goal_cases)
  case (4 c x p)
  have "\<not> x AND 0x8000000000000000 \<noteq> 0" using 4 by (simp add: top_bits_clear)
  moreover have "unat (c - 48) = digitValue c" using 4(1) by (intro unat_minus_48) auto
  ultimately show ?case using 4(1) shift_in[of 1 x "c - 48"] by auto
next
  case (5 c x p)
  have "digitValue c < 2" using 5(1) by (auto simp: digitValue_def hexCharToNumeric_def isdigit_def)
  then have "x AND 0x8000000000000000 \<noteq> 0" using 5 by (simp add: top_bits_clear)
  then show ?case using 5(1) by auto
qed auto

subsection \<open>The digits that the printers write\<close>

lemma uintDigits_append_gen: "uintDigits x (p @ q) = uintDigits x p @ q"
proof (induction x p rule: uintDigits.induct)
  case (1 x p)
  let ?p' = "of_nat (48 + x mod 10) # p"
  have "uintDigits (x div 10) (?p' @ q) = uintDigits (x div 10) ?p' @ q" if "x div 10 \<noteq> 0"
    by (rule 1[OF refl refl that])
  then show ?case
    by (simp only: uintDigits.simps[of x] Let_def append_Cons split: if_splits) simp
qed

lemma uintDigits_append: "uintDigits x p = uintDigits x [] @ p"
  using uintDigits_append_gen[of x "[]" p] by simp

lemma uintDigits_rec:
  "uintDigits x [] = (if x < 10 then [] else uintDigits (x div 10) []) @ [of_nat (48 + x mod 10)]"
  by (subst uintDigits.simps) (simp add: Let_def uintDigits_append[of "x div 10" "[_]"] div_eq_0_iff)

lemma unat_digit: "unat (of_nat (48 + x mod 10) :: u8) = 48 + x mod 10"
  by (intro unat_of_nat_small) simp

lemma digit_of_mod:
  "isdigit (of_nat (48 + x mod 10))" "digitValue (of_nat (48 + x mod 10)) = x mod 10"
proof -
  have "x mod 10 \<le> 9" by simp
  then show "isdigit (of_nat (48 + x mod 10))"
    unfolding isdigit_def word_le_unat unat_digit by simp
  then have "digitValue (of_nat (48 + x mod 10)) = unat (of_nat (48 + x mod 10) :: u8) - 48"
    by (rule digitValue_decimal)
  then show "digitValue (of_nat (48 + x mod 10)) = x mod 10"
    unfolding unat_digit by simp
qed

lemma uintDigits_nonempty [simp]: "uintDigits x [] \<noteq> []"
  by (subst uintDigits_rec) simp

lemma uintDigits_digits: "list_all isdigit (uintDigits x [])"
  by (induction x rule: less_induct) (subst uintDigits_rec, simp add: digit_of_mod del: of_nat_add)

lemma uintDigits_value: "numval 10 0 (uintDigits x []) = x"
proof (induction x rule: less_induct)
  case (less x)
  show ?case by (subst uintDigits_rec) (use less[of "x div 10"] in \<open>auto simp: digit_of_mod simp del: of_nat_add\<close>)
qed

lemma cur_append: "p \<noteq> [] \<Longrightarrow> cur (p @ q) = cur p"
  by (cases p) auto

lemma digit_eq_0: "x < 10 \<Longrightarrow> of_nat (48 + x) = (48 :: u8) \<longleftrightarrow> x = 0"
  using unat_digit[of x] by (auto simp del: of_nat_add)

lemma uintDigits_no_leading_zero: "cur (uintDigits x []) = 48 \<longleftrightarrow> x = 0"
proof (induction x rule: less_induct)
  case (less x)
  show ?case
  proof (cases "x < 10")
    case True
    then show ?thesis by (subst uintDigits_rec) (simp add: digit_eq_0 del: of_nat_add)
  next
    case False
    then have "cur (uintDigits (x div 10) []) \<noteq> 48" using less[of "x div 10"] by auto
    with False show ?thesis by (subst uintDigits_rec) (simp add: cur_append del: of_nat_add)
  qed
qed

lemma uintDigits_length: "0 < k \<Longrightarrow> x < 10 ^ k \<Longrightarrow> length (uintDigits x []) \<le> k"
proof (induction k arbitrary: x)
  case (Suc k)
  show ?case
  proof (cases "x < 10")
    case False
    then have "0 < k" using Suc.prems by (cases k) auto
    moreover have "x div 10 < 10 ^ k" using Suc.prems by (simp add: less_mult_imp_div_less mult.commute)
    ultimately show ?thesis by (subst uintDigits_rec) (use Suc.IH[of "x div 10"] in simp)
  qed (subst uintDigits_rec, simp)
qed simp

lemma Uint32Strings_map: "Uint32Strings = map (\<lambda>x. (uintDigits x [], length (uintDigits x []))) [0..<128]"
  by code_simp

subsection \<open>The numeral formats and the converters\<close>

text \<open>The formats that the comments of the code give, each with the number it denotes.\<close>

definition decimalLiteral :: "cstr \<Rightarrow> nat \<Rightarrow> bool" where
  "decimalLiteral p n \<longleftrightarrow> p \<noteq> [] \<and> list_all isdigit p \<and>
     (cur p = chr8 (CHR ''0'') \<longrightarrow> length p = 1) \<and> numval 10 0 p = n"

definition hexLiteral :: "cstr \<Rightarrow> nat \<Rightarrow> bool" where
  "hexLiteral p n \<longleftrightarrow> 3 \<le> length p \<and> peek p 0 = chr8 (CHR ''0'') \<and>
     (peek p 1 = chr8 (CHR ''x'') \<or> peek p 1 = chr8 (CHR ''X'')) \<and>
     list_all isxdigit (drop 2 p) \<and> numval 16 0 (drop 2 p) = n"

definition octalLiteral :: "cstr \<Rightarrow> nat \<Rightarrow> bool" where
  "octalLiteral p n \<longleftrightarrow> 2 \<le> length p \<and> cur p = chr8 (CHR ''0'') \<and>
     list_all (\<lambda>c. chr8 (CHR ''0'') \<le> c \<and> c \<le> chr8 (CHR ''7'')) (drop 1 p) \<and>
     numval 8 0 (drop 1 p) = n"

definition binaryLiteral :: "cstr \<Rightarrow> nat \<Rightarrow> bool" where
  "binaryLiteral p n \<longleftrightarrow> 2 \<le> length p \<and>
     (last p = chr8 (CHR ''b'') \<or> last p = chr8 (CHR ''B'')) \<and>
     list_all (\<lambda>c. c = chr8 (CHR ''0'') \<or> c = chr8 (CHR ''1'')) (butlast p) \<and>
     numval 2 0 (butlast p) = n"

definition unsignedLiteral :: "cstr \<Rightarrow> nat \<Rightarrow> bool" where
  "unsignedLiteral p n \<longleftrightarrow> decimalLiteral p n \<or> hexLiteral p n"

text \<open>The widths the bounds checks know.\<close>

fun uintWidth :: "cimType \<Rightarrow> nat option" where
  "uintWidth CIMTYPE_UINT8 = Some 8"
| "uintWidth CIMTYPE_UINT16 = Some 16"
| "uintWidth CIMTYPE_UINT32 = Some 32"
| "uintWidth CIMTYPE_UINT64 = Some 64"
| "uintWidth _ = None"

fun sintWidth :: "cimType \<Rightarrow> nat option" where
  "sintWidth CIMTYPE_SINT8 = Some 8"
| "sintWidth CIMTYPE_SINT16 = Some 16"
| "sintWidth CIMTYPE_SINT32 = Some 32"
| "sintWidth CIMTYPE_SINT64 = Some 64"
| "sintWidth _ = None"

lemma uintToString_digits:
  "LENGTH('a::len) \<le> 64 \<Longrightarrow> uintToString (x :: 'a word) = (uintDigits (unat x) [], length (uintDigits (unat x) []))"
  by (simp add: uintToString_def Uint32Strings_map Let_def)

lemma nul_free_digits: "list_all isdigit p \<Longrightarrow> nul_free p"
  by (auto simp: list_all_iff nul_free_def)

lemma decimalStringToUint64_literal:
  assumes "nul_free p"
  shows "decimalStringToUint64 (Some p) False = (True, x) \<longleftrightarrow> decimalLiteral p (unat x)"
proof (cases p)
  case Nil
  then show ?thesis by (simp add: decimalStringToUint64_def decimalLiteral_def)
next
  case (Cons c q)
  show ?thesis
  proof (cases "c = 48")
    case True
    then show ?thesis using Cons assms
      by (cases q) (auto simp: decimalStringToUint64_def decimalLiteral_def digitValue_def
          hexCharToNumeric_def isdigit_def unat_eq_0)
  next
    case False
    then show ?thesis using Cons assms decimal.loop_all[OF assms, of x]
      by (simp add: decimalStringToUint64_def decimalLiteral_def)
  qed
qed

lemma hexStringToUint64_literal:
  assumes "nul_free p"
  shows "hexStringToUint64 (Some p) b = (True, x) \<longleftrightarrow> hexLiteral p (unat x)"
proof (cases "3 \<le> length p")
  case True
  then obtain a c d q where p: "p = a # c # d # q"
    by (metis One_nat_def Suc_le_length_iff numeral_3_eq_3)
  with assms have nf: "nul_free (d # q)" by simp
  show ?thesis using assms p hex.loop_all[OF nf, of x]
    by (simp add: hexStringToUint64_def hexLiteral_def numeral_2_eq_2 del: hexLoop.simps)
next
  case False
  then show ?thesis
    by (cases p; cases "tl p"; cases "tl (tl p)")
      (auto simp: hexStringToUint64_def hexLiteral_def numeral_2_eq_2)
qed

lemma octalStringToUint64_literal:
  assumes "nul_free p"
  shows "octalStringToUint64 (Some p) b = (True, x) \<longleftrightarrow> octalLiteral p (unat x)"
proof (cases "2 \<le> length p")
  case True
  then obtain a c q where p: "p = a # c # q"
    by (metis One_nat_def Suc_le_length_iff numeral_2_eq_2)
  with assms have nf: "nul_free (c # q)" by simp
  show ?thesis using assms p octal.loop_all[OF nf, of x]
    by (simp add: octalStringToUint64_def octalLiteral_def del: octalLoop.simps)
next
  case False
  then show ?thesis
    by (cases p; cases "tl p") (auto simp: octalStringToUint64_def octalLiteral_def)
qed

lemma butlast_last_dropWhile:
  assumes "p \<noteq> []" "list_all P (butlast p)" "\<not> P (last p)"
  shows "takeWhile P p = butlast p" "dropWhile P p = [last p]"
proof -
  obtain q c where "p = q @ [c]" using assms(1) by (cases p rule: rev_exhaust) auto
  with assms show "takeWhile P p = butlast p" "dropWhile P p = [last p]"
    by (simp_all add: list_all_iff)
qed

lemma binary_end_literal:
  fixes p :: cstr
  defines "d \<equiv> (\<lambda>c. c = chr8 (CHR ''0'') \<or> c = chr8 (CHR ''1''))"
  assumes "nul_free p" "2 \<le> length p"
  shows "(cur (dropWhile d p) = chr8 (CHR ''b'') \<or> cur (dropWhile d p) = chr8 (CHR ''B'')) \<and>
      peek (dropWhile d p) 1 = 0 \<and> numval 2 0 (takeWhile d p) = n \<longleftrightarrow> binaryLiteral p n"
    (is "?l \<longleftrightarrow> ?r")
proof
  assume l: ?l
  then obtain c q where r: "dropWhile d p = c # q" by (cases "dropWhile d p") auto
  have "nul_free (dropWhile d p)"
    using assms(2) by (auto simp: nul_free_def dest: set_dropWhileD)
  with l r have "q = []" by (cases q) auto
  with r have p: "p = takeWhile d p @ [c]" by (metis takeWhile_dropWhile_id)
  have "list_all d (takeWhile d p)" by (auto simp: list_all_iff dest: set_takeWhileD)
  moreover have "butlast p = takeWhile d p" "last p = c" by (subst p, simp)+
  ultimately show ?r using l r assms(3) by (simp add: binaryLiteral_def d_def)
next
  assume r: ?r
  then have "p \<noteq> []" "list_all d (butlast p)" "\<not> d (last p)"
    by (auto simp: binaryLiteral_def d_def)
  note b = butlast_last_dropWhile[OF this]
  from r show ?l unfolding b by (auto simp: binaryLiteral_def)
qed

lemma binaryStringToUint64_literal:
  assumes "nul_free p"
  shows "binaryStringToUint64 (Some p) b = (True, x) \<longleftrightarrow> binaryLiteral p (unat x)"
proof (cases "2 \<le> length p")
  case True
  let ?d = "\<lambda>c. c = chr8 (CHR ''0'') \<or> c = chr8 (CHR ''1'')"
  from True obtain a c q where p: "p = a # c # q"
    by (metis One_nat_def Suc_le_length_iff numeral_2_eq_2)
  have nf: "nul_free (dropWhile ?d p)"
    using assms by (auto simp: nul_free_def dest: set_dropWhileD)
  have "binaryStringToUint64 (Some p) b = (True, x) \<longleftrightarrow>
    (\<exists>q. binaryLoop 0 p = (True, x, q) \<and> (cur q = chr8 (CHR ''b'') \<or> cur q = chr8 (CHR ''B'')) \<and> peek q 1 = 0)"
    using assms p by (auto simp: binaryStringToUint64_def simp del: binaryLoop.simps split: prod.splits)
  also have "\<dots> \<longleftrightarrow> (cur (dropWhile ?d p) = chr8 (CHR ''b'') \<or> cur (dropWhile ?d p) = chr8 (CHR ''B'')) \<and>
      peek (dropWhile ?d p) 1 = 0 \<and> numval 2 0 (takeWhile ?d p) = unat x"
    unfolding binary.loop_result by auto
  also have "\<dots> \<longleftrightarrow> binaryLiteral p (unat x)"
    by (rule binary_end_literal[OF assms True])
  finally show ?thesis .
next
  case False
  then show ?thesis
    by (cases p; cases "tl p") (auto simp: binaryStringToUint64_def binaryLiteral_def)
qed

lemma stringToUnsignedInteger_literal:
  assumes "nul_free p"
  shows "stringToUnsignedInteger (Some p) = (True, x) \<longleftrightarrow> unsignedLiteral p (unat x)"
proof -
  have "\<not> hexLiteral p (unat x)" if "decimalLiteral p m" for m
    using that by (auto simp: decimalLiteral_def hexLiteral_def peek_0)
  then have d: "decimalLiteral p m \<Longrightarrow> unsignedLiteral p (unat x) \<longleftrightarrow> decimalLiteral p (unat x)" for m
    by (auto simp: unsignedLiteral_def)
  show ?thesis
  proof (cases "decimalStringToUint64 (Some p) False")
    case (Pair ok y)
    show ?thesis
    proof (cases ok)
      case True
      then have "decimalLiteral p (unat y)"
        using Pair decimalStringToUint64_literal[OF assms] by simp
      then show ?thesis using Pair True decimalStringToUint64_literal[OF assms, of x]
        by (simp add: stringToUnsignedInteger_def d)
    next
      case False
      then have "\<not> decimalLiteral p (unat x)"
        using Pair decimalStringToUint64_literal[OF assms, of x] by simp
      then show ?thesis using Pair False hexStringToUint64_literal[OF assms]
        by (simp add: stringToUnsignedInteger_def unsignedLiteral_def)
    qed
  qed
qed

lemma nul_free_drop: "nul_free p \<Longrightarrow> nul_free (drop n p)"
  by (auto simp: nul_free_def dest: in_set_dropD)

lemma skipSign_nul_free: "nul_free p \<Longrightarrow> nul_free (skipSign p)"
  by (simp add: skipSign_def nul_free_drop)

lemma sint_small: "unat x < 2 ^ 63 \<Longrightarrow> sint (x :: u64) = int (unat x)"
  using uint_unat_less[of x 63] by (simp add: sint_cases)

lemma sint_uminus_small:
  assumes "unat x \<le> 2 ^ 63"
  shows "sint (- x :: u64) = - int (unat x)"
proof (cases "x = 0")
  case False
  then have p: "0 < uint x" "uint x < 2 ^ 64" "int (unat x) = uint x"
    using uint_unat_less[of x 64] unat_less_2p64[of x] by (simp_all add: word_neq_0_conv word_less_def)
  have "int (unat x) \<le> int (2 ^ 63)" using assms by (simp only: of_nat_le_iff)
  then have l: "uint x \<le> 2 ^ 63" unfolding p(3) by simp
  have "uint (- x) = 2 ^ 64 - uint x"
    using p by (simp add: uint_word_ariths zmod_zminus1_eq_if)
  with p l show ?thesis by (simp add: sint_cases)
qed simp

lemma signed_literal:
  assumes nf: "nul_free p"
    and conv: "\<And>q x. nul_free q \<Longrightarrow> uint64Converter (Some q) False = (True, x) \<longleftrightarrow> literal q (unat x)"
  shows "stringToSint64 (Some p) uint64Converter = (True, x) \<longleftrightarrow>
    (\<exists>n. literal (skipSign p) n \<and>
       (if cur p = chr8 (CHR ''-'') then n \<le> 2 ^ 63 \<and> sint x = - int n
        else n < 2 ^ 63 \<and> sint x = int n))" (is "_ \<longleftrightarrow> ?r")
proof -
  let ?neg = "cur p = chr8 (CHR ''-'')"
  have q: "(if ?neg \<or> cur p = chr8 (CHR ''+'') then drop 1 p else p) = skipSign p"
    by (auto simp: skipSign_def)
  let ?c = "uint64Converter (Some (skipSign p)) False"
  have c: "?c = (True, y) \<longleftrightarrow> literal (skipSign p) (unat y)" for y
    using conv[OF skipSign_nul_free[OF nf]] .
  have le: "y \<le> 0x8000000000000000 \<longleftrightarrow> unat y \<le> 2 ^ 63"
    "y \<le> 0x7FFFFFFFFFFFFFFF \<longleftrightarrow> unat y < 2 ^ 63" for y :: u64
    by (auto simp: word_le_unat)
  have "stringToSint64 (Some p) uint64Converter = (True, x) \<longleftrightarrow>
    (\<exists>y. ?c = (True, y) \<and> (if ?neg then y \<le> 0x8000000000000000 \<and> x = - y
       else y \<le> 0x7FFFFFFFFFFFFFFF \<and> x = y))"
    unfolding stringToSint64_def option.case Let_def q
    by (auto simp: not_less split: prod.splits bool.splits if_splits)
  also have "\<dots> \<longleftrightarrow> ?r"
  proof
    assume "\<exists>y. ?c = (True, y) \<and> (if ?neg then y \<le> 0x8000000000000000 \<and> x = - y
       else y \<le> 0x7FFFFFFFFFFFFFFF \<and> x = y)"
    then obtain y where y: "literal (skipSign p) (unat y)"
      "if ?neg then unat y \<le> 2 ^ 63 \<and> x = - y else unat y < 2 ^ 63 \<and> x = y"
      unfolding c le by blast
    then show ?r
      by (intro exI[of _ "unat y"]) (auto simp: sint_uminus_small sint_small split: if_splits)
  next
    assume ?r
    then obtain n where n: "literal (skipSign p) n"
      "if ?neg then n \<le> 2 ^ 63 \<and> sint x = - int n else n < 2 ^ 63 \<and> sint x = int n"
      by blast
    let ?y = "of_nat n :: u64"
    have u: "unat ?y = n" using n(2) by (intro unat_of_nat_small) (simp split: if_splits)
    have "?c = (True, ?y)" using n(1) by (simp only: c u)
    moreover have "if ?neg then ?y \<le> 0x8000000000000000 \<and> x = - ?y
       else ?y \<le> 0x7FFFFFFFFFFFFFFF \<and> x = ?y"
    proof (cases ?neg)
      case True
      with n(2) have "sint x = sint (- ?y)" by (simp add: sint_uminus_small u)
      then have "x = - ?y" by (rule signed_word_eqI)
      with True n(2) show ?thesis by (simp add: le u)
    next
      case False
      with n(2) have "sint x = sint ?y" by (simp add: sint_small u)
      then have "x = ?y" by (rule signed_word_eqI)
      with False n(2) show ?thesis by (simp add: le u)
    qed
    ultimately show "\<exists>y. ?c = (True, y) \<and> (if ?neg then y \<le> 0x8000000000000000 \<and> x = - y
       else y \<le> 0x7FFFFFFFFFFFFFFF \<and> x = y)"
      by blast
  qed
  finally show ?thesis .
qed

lemma literals_exclusive: "decimalLiteral p m \<Longrightarrow> \<not> hexLiteral p n"
  by (auto simp: decimalLiteral_def hexLiteral_def peek_0)

lemma signed_integer_literal:
  assumes nf: "nul_free p"
  shows "stringToSignedInteger (Some p) = (True, x) \<longleftrightarrow>
    (\<exists>n. unsignedLiteral (skipSign p) n \<and>
       (if cur p = chr8 (CHR ''-'') then n \<le> 2 ^ 63 \<and> sint x = - int n
        else n < 2 ^ 63 \<and> sint x = int n))"
proof -
  let ?v = "\<lambda>x n. if cur p = chr8 (CHR ''-'') then n \<le> 2 ^ 63 \<and> sint x = - int n
        else n < 2 ^ 63 \<and> sint x = int n"
  have d: "stringToSint64 (Some p) decimalStringToUint64 = (True, x) \<longleftrightarrow>
    (\<exists>n. decimalLiteral (skipSign p) n \<and> ?v x n)" for x
    by (rule signed_literal[OF nf]) (rule decimalStringToUint64_literal)
  have h: "stringToSint64 (Some p) hexStringToUint64 = (True, x) \<longleftrightarrow>
    (\<exists>n. hexLiteral (skipSign p) n \<and> ?v x n)" for x
    by (rule signed_literal[OF nf]) (rule hexStringToUint64_literal)
  show ?thesis
  proof (cases "stringToSint64 (Some p) decimalStringToUint64")
    case (Pair ok y)
    show ?thesis
    proof (cases ok)
      case True
      then obtain m where "decimalLiteral (skipSign p) m" using Pair d[of y] by auto
      then have "unsignedLiteral (skipSign p) = decimalLiteral (skipSign p)"
        by (auto simp: fun_eq_iff unsignedLiteral_def dest: literals_exclusive)
      then show ?thesis using Pair True d[of x] by (simp add: stringToSignedInteger_def)
    next
      case False
      then have s: "stringToSignedInteger (Some p) = stringToSint64 (Some p) hexStringToUint64"
        using Pair by (simp add: stringToSignedInteger_def)
      have "\<not> (\<exists>n. decimalLiteral (skipSign p) n \<and> ?v x n)"
        unfolding d[symmetric] using Pair False by simp
      then show ?thesis unfolding s h unsignedLiteral_def by blast
    qed
  qed
qed

lemma sint_range64: "- (2 ^ 63) \<le> sint (x :: u64)" "sint (x :: u64) < 2 ^ 63"
  using sint_ge[of x] sint_lt[of x] by simp_all

lemma uintToString_literal:
  "LENGTH('a::len) \<le> 64 \<Longrightarrow> decimalLiteral (fst (uintToString (x :: 'a word))) (unat x)"
proof -
  let ?d = "uintDigits (unat x) []"
  have "length ?d = 1" if "cur ?d = 48"
  proof -
    have "unat x = 0" using that by (simp only: uintDigits_no_leading_zero)
    then show ?thesis by (simp add: uintDigits_rec)
  qed
  then show "LENGTH('a::len) \<le> 64 \<Longrightarrow> ?thesis"
    by (simp add: uintToString_digits decimalLiteral_def uintDigits_digits uintDigits_value)
qed

lemma uint_roundtrip:
  fixes x :: "'a::len word"
  assumes "LENGTH('a) \<le> 64"
  shows "decimalStringToUint64 (Some (fst (uintToString x))) False = (True, ucast x)"
proof -
  have "nul_free (fst (uintToString x))"
    using assms by (simp add: uintToString_digits nul_free_digits uintDigits_digits)
  moreover have "unat (ucast x :: u64) = unat x" using assms by (simp add: unat_ucast_up)
  ultimately show ?thesis
    using uintToString_literal[OF assms, of x] by (simp add: decimalStringToUint64_literal)
qed

lemma sint_roundtrip:
  fixes x :: "'a::len word"
  assumes w: "LENGTH('a) \<le> 64"
  shows "stringToSignedInteger (Some (fst (sintToString x))) = (True, scast x)"
proof -
  let ?p = "fst (sintToString x)"
  have L: "(2::int) ^ (LENGTH('a) - 1) \<le> 2 ^ 63" using w by (intro power_increasing) auto
  have r: "- (2 ^ (LENGTH('a) - 1)) \<le> sint x" "sint x < 2 ^ (LENGTH('a) - 1)"
    by (rule sint_ge, rule sint_lt)
  have sx: "sint (scast x :: u64) = sint x"
    using L r by (simp add: signed_scast_eq signed_take_bit_int_eq_self_iff)
  have q: "(2::int) ^ LENGTH('a) = 2 * 2 ^ (LENGTH('a) - 1)"
    by (metis One_nat_def Suc_pred len_gt_0 power_Suc)
  show ?thesis
  proof (cases "sint x < 0")
    case True
    have p: "?p = chr8 (CHR ''-'') # uintDigits (unat (- x)) []"
      using True by (simp add: sintToString_def Let_def)
    have neg: "int (unat (- x)) = - sint x"
    proof -
      have "uint (- x) = 2 ^ LENGTH('a) - uint x"
        using True sint_cases[of x] by (cases "uint x = 0") (simp_all add: uint_word_ariths zmod_zminus1_eq_if)
      with True show ?thesis by (simp add: sint_cases split: if_splits)
    qed
    have "length (uintDigits (unat (- x)) []) = 1" if "cur (uintDigits (unat (- x)) []) = 48"
      using that by (simp only: uintDigits_no_leading_zero) (simp add: uintDigits_rec)
    then have "unsignedLiteral (skipSign ?p) (unat (- x))"
      by (simp add: p skipSign_def unsignedLiteral_def decimalLiteral_def uintDigits_digits uintDigits_value)
    moreover have "nul_free ?p" by (simp add: p nul_free_digits uintDigits_digits)
    moreover have "int (unat (- x)) \<le> int (2 ^ 63)" using neg r L by simp
    then have "unat (- x) \<le> 2 ^ 63" by (simp only: of_nat_le_iff)
    ultimately show ?thesis
      by (subst signed_integer_literal) (use neg sx p in auto)
  next
    case False
    have p: "?p = uintDigits (unat x) []"
      using False w by (simp add: sintToString_def uintToString_digits)
    have "list_all isdigit ?p" "?p \<noteq> []" unfolding p by (simp_all add: uintDigits_digits)
    then have "isdigit (cur ?p)" by (cases ?p) auto
    then have c: "cur ?p \<noteq> chr8 (CHR ''-'')" "skipSign ?p = ?p"
      by (auto simp: skipSign_def isdigit_def)
    have "unsignedLiteral (skipSign ?p) (unat x)"
      unfolding c using False uintToString_literal[OF w, of x]
      by (simp add: unsignedLiteral_def sintToString_def)
    moreover have "nul_free ?p" by (simp add: p nul_free_digits uintDigits_digits)
    moreover have n: "int (unat x) = sint x"
      using False by (simp add: sint_cases split: if_splits)
    moreover have "int (unat x) < int (2 ^ 63)" using n r L by simp
    then have "unat x < 2 ^ 63" by (simp only: of_nat_less_iff)
    ultimately show ?thesis
      by (subst signed_integer_literal) (use n sx c in auto)
  qed
qed

lemma uintDigits_buffer: "LENGTH('a) \<le> 64 \<Longrightarrow> length (uintDigits (unat (x :: 'a::len word)) []) \<le> 20"
proof (rule uintDigits_length)
  assume w: "LENGTH('a) \<le> 64"
  have "unat x < 2 ^ LENGTH('a)" by (rule unsigned_less)
  also have "(2 :: nat) ^ LENGTH('a) \<le> 2 ^ 64" using w by (intro power_increasing) auto
  finally show "unat x < 10 ^ 20" by simp
qed simp

lemma printed_size:
  assumes "LENGTH('a::len) \<le> 64"
  shows "snd (uintToString (x :: 'a word)) = length (fst (uintToString x))"
    "length (fst (uintToString x)) \<le> 20"
    "snd (sintToString x) = length (fst (sintToString x))"
    "length (fst (sintToString x)) \<le> 21"
  using assms uintDigits_buffer[of x] uintDigits_buffer[of "- x"]
  by (auto simp: sintToString_def uintToString_digits Let_def)

lemma checkUintBounds_range:
  "checkUintBounds x t \<longleftrightarrow> (case uintWidth t of None \<Rightarrow> False | Some w \<Rightarrow> unat x < 2 ^ w)"
  using unat_less_2p64[of x] by (cases t) (simp_all only: checkUintBounds.simps uintWidth.simps
    option.case top_masks and_not_mask_eq_0)

lemma sign_bits:
  "n < 64 \<Longrightarrow> (x AND NOT (mask n) = 0 \<or> x AND NOT (mask n) = NOT (mask n)) \<longleftrightarrow>
     - (2 ^ n) \<le> sint (x :: u64) \<and> sint x < 2 ^ n"
  by (subst sint_range_iff) (simp_all add: and_not_mask_eq_0 and_not_mask_eq uint_unat_less)

lemma checkSintBounds_range:
  "checkSintBounds x t \<longleftrightarrow> (case sintWidth t of None \<Rightarrow> False
     | Some w \<Rightarrow> - (2 ^ (w - 1)) \<le> sint x \<and> sint x < 2 ^ (w - 1))"
  using sint_range64[of x]
  by (cases t) (simp_all only: checkSintBounds.simps sintWidth.simps option.case top_masks sign_bits, simp_all)

subsection \<open>Properties\<close>

text \<open>
  C35: on a C string, each unsigned converter returns true with the value \<open>x\<close> exactly when the
  string is a literal of its format whose mathematical value is \<open>x\<close>; so an overflow of 64 bits is
  always detected and never a value that fits, in all four bases.
\<close>

theorem unsigned_parse_exact:
  assumes "nul_free p"
  shows "(decimalStringToUint64 (Some p) False = (True, x) \<longleftrightarrow> decimalLiteral p (unat x)) \<and>
    (hexStringToUint64 (Some p) b = (True, x) \<longleftrightarrow> hexLiteral p (unat x)) \<and>
    (octalStringToUint64 (Some p) b = (True, x) \<longleftrightarrow> octalLiteral p (unat x)) \<and>
    (binaryStringToUint64 (Some p) b = (True, x) \<longleftrightarrow> binaryLiteral p (unat x)) \<and>
    (stringToUnsignedInteger (Some p) = (True, x) \<longleftrightarrow> unsignedLiteral p (unat x))"
  using decimalStringToUint64_literal[OF assms] hexStringToUint64_literal[OF assms]
    octalStringToUint64_literal[OF assms] binaryStringToUint64_literal[OF assms]
    stringToUnsignedInteger_literal[OF assms] by blast

lemma unsigned_parse_exact_witness:
  "nul_free (bytes ''18446744073709551615'') \<and>
   decimalLiteral (bytes ''18446744073709551615'') (unat (18446744073709551615 :: u64)) \<and>
   \<not> hexLiteral (bytes ''18446744073709551615'') (unat (18446744073709551615 :: u64))"
proof -
  let ?p = "bytes ''18446744073709551615''"
  have nf: "nul_free ?p" by (simp add: bytes_def)
  have "decimalStringToUint64 (Some ?p) False = (True, 18446744073709551615)"
    "hexStringToUint64 (Some ?p) False \<noteq> (True, 18446744073709551615)"
    by code_simp+
  then show ?thesis using nf unsigned_parse_exact[OF nf, of 18446744073709551615 False] by blast
qed

text \<open>
  C36: \<open>stringToSignedInteger\<close> returns true with \<open>x\<close> exactly when the string, less an optional sign,
  is a decimal or hexadecimal literal, and \<open>x\<close>, read as a two's complement number, is its signed
  value; so \<open>- (2 ^ 63)\<close> is accepted, \<open>2 ^ 63\<close> is not, and no value wraps.
\<close>

theorem signed_parse_exact:
  assumes "nul_free p"
  shows "stringToSignedInteger (Some p) = (True, x) \<longleftrightarrow>
    (\<exists>n. unsignedLiteral (skipSign p) n \<and>
       sint x = (if cur p = chr8 (CHR ''-'') then - int n else int n))"
proof -
  have "n \<le> 2 ^ 63" if "sint x = - int n" for n
  proof -
    have "int n \<le> int (2 ^ 63)" using sint_range64(1)[of x] that by simp
    then show ?thesis by (simp only: of_nat_le_iff)
  qed
  moreover have "n < 2 ^ 63" if "sint x = int n" for n
  proof -
    have "int n < int (2 ^ 63)" using sint_range64(2)[of x] that by simp
    then show ?thesis by (simp only: of_nat_less_iff)
  qed
  ultimately show ?thesis unfolding signed_integer_literal[OF assms] by (metis (full_types))
qed

lemma signed_parse_exact_witness:
  "\<exists>n. unsignedLiteral (skipSign (bytes ''-9223372036854775808'')) n \<and>
     sint (0x8000000000000000 :: u64) =
       (if cur (bytes ''-9223372036854775808'') = chr8 (CHR ''-'') then - int n else int n)"
proof -
  let ?p = "bytes ''-9223372036854775808''"
  have nf: "nul_free ?p" by (simp add: bytes_def)
  have "stringToSignedInteger (Some ?p) = (True, 0x8000000000000000)" by code_simp
  then show ?thesis using signed_parse_exact[OF nf, of "0x8000000000000000"] by blast
qed

text \<open>
  C37: what the printers write for any value of any of the eight integer types, the matching parser
  reads back as that value; the reported size is the length of the text, and with the terminating
  NUL it fits the 22 bytes of the caller's buffer.
\<close>

theorem print_parse_roundtrip:
  "decimalStringToUint64 (Some (fst (Uint8ToString a))) False = (True, ucast a) \<and>
   decimalStringToUint64 (Some (fst (Uint16ToString b))) False = (True, ucast b) \<and>
   decimalStringToUint64 (Some (fst (Uint32ToString c))) False = (True, ucast c) \<and>
   decimalStringToUint64 (Some (fst (Uint64ToString d))) False = (True, d) \<and>
   stringToSignedInteger (Some (fst (Sint8ToString a))) = (True, scast a) \<and>
   stringToSignedInteger (Some (fst (Sint16ToString b))) = (True, scast b) \<and>
   stringToSignedInteger (Some (fst (Sint32ToString c))) = (True, scast c) \<and>
   stringToSignedInteger (Some (fst (Sint64ToString d))) = (True, d) \<and>
   snd (Uint64ToString d) = length (fst (Uint64ToString d)) \<and>
   length (fst (Uint64ToString d)) + 1 \<le> 22 \<and>
   snd (Sint64ToString d) = length (fst (Sint64ToString d)) \<and>
   length (fst (Sint64ToString d)) + 1 \<le> 22"
  unfolding Uint8ToString_def Uint16ToString_def Uint32ToString_def Uint64ToString_def
    Sint8ToString_def Sint16ToString_def Sint32ToString_def Sint64ToString_def
  by (intro conjI uint_roundtrip sint_roundtrip printed_size(1)[of d] printed_size(3)[of d])
    (use uint_roundtrip[of d] sint_roundtrip[of d] printed_size[of d] in simp_all)

text \<open>
  The mask tests of \<open>checkUintBounds\<close> and \<open>checkSintBounds\<close> hold exactly when the value is in
  the range of the CIM integer type, and are false for every other CIM type.
\<close>

lemma bounds_checks_exact:
  "(checkUintBounds x t \<longleftrightarrow> (case uintWidth t of None \<Rightarrow> False | Some w \<Rightarrow> unat x < 2 ^ w)) \<and>
   (checkSintBounds x t \<longleftrightarrow> (case sintWidth t of None \<Rightarrow> False
     | Some w \<Rightarrow> - (2 ^ (w - 1)) \<le> sint x \<and> sint x < 2 ^ (w - 1)))"
  using checkUintBounds_range checkSintBounds_range by blast

end
