(* ===== verification/Calendar.thy ===== *)
theory Calendar
  imports Prelude
begin

section \<open>The Gregorian calendar of CIMDateTime\<close>

text \<open>
  The leap year rule and the month lengths of \<^verbatim>\<open>Pegasus/Common/CIMDateTime.cpp\<close> and the Julian
  day conversions of \<^verbatim>\<open>CIMDateTimeInline.h\<close>. The reference they are compared with is the
  calendar itself: the date after a date, iterated from January 1 of the year 0.

  The code computes with \<open>int\<close>; every intermediate value is nonnegative except in the expression for
  the year, which is written over the integers, so that the division of naturals is C's.
\<close>

definition JULIAN_ONE_BCE :: nat where "JULIAN_ONE_BCE = 1721060"

subsection \<open>The conversions\<close>

definition isLeapYear :: "nat \<Rightarrow> bool" where
  "isLeapYear year \<longleftrightarrow> year mod 400 = 0 \<or> (year mod 4 = 0 \<and> year mod 100 \<noteq> 0)"

definition getDaysPerMonth :: "nat \<Rightarrow> nat \<Rightarrow> nat" where
  "getDaysPerMonth year month =
     (if month = 2 \<and> isLeapYear year then 29
      else [31, 28, 31, 30, 31, 30, 31, 31, 30, 31, 30, 31] ! (month - 1))"

definition toJulianDay :: "nat \<Rightarrow> nat \<Rightarrow> nat \<Rightarrow> nat" where
  "toJulianDay year month day =
     (let a = (14 - month) div 12;
          y = year + 4800 - a;
          m = month + 12 * a - 3
      in day + (153 * m + 2) div 5 + y * 365 + y div 4 - y div 100 + y div 400 - 32045)"

definition fromJulianDay :: "nat \<Rightarrow> nat \<times> nat \<times> nat" where
  "fromJulianDay jd =
     (let a = jd + 32044;
          b = (4 * a + 3) div 146097;
          c = a - (b * 146097) div 4;
          d = (4 * c + 3) div 1461;
          e = c - (1461 * d) div 4;
          m = (5 * e + 2) div 153;
          day = e - (153 * m + 2) div 5 + 1;
          month = m + 3 - 12 * (m div 10);
          year = nat (int (b * 100 + d) - 4800 + int (m div 10))
      in (year, month, day))"

subsection \<open>The reference\<close>

text \<open>A date of the Gregorian calendar, and the day after it.\<close>

definition validDate :: "nat \<times> nat \<times> nat \<Rightarrow> bool" where
  "validDate = (\<lambda>(year, month, day). 1 \<le> month \<and> month \<le> 12 \<and> 1 \<le> day \<and> day \<le> getDaysPerMonth year month)"

definition nextDate :: "nat \<times> nat \<times> nat \<Rightarrow> nat \<times> nat \<times> nat" where
  "nextDate = (\<lambda>(year, month, day).
     if day < getDaysPerMonth year month then (year, month, day + 1)
     else if month < 12 then (year, month + 1, 1)
     else (year + 1, 1, 1))"

subsection \<open>From the day number to the date\<close>

lemma div_eqI_nat: "k * q \<le> n \<Longrightarrow> n < k * q + k \<Longrightarrow> n div k = (q::nat)"
  by (metis add.commute div_nat_eqI mult_Suc_right)

lemma div_lo: "k * (n div k) \<le> (n::nat)" 
  by (rule times_div_less_eq_dividend)

lemma div_hi: "0 < k \<Longrightarrow> n < k * (n div k) + (k::nat)"
  using dividend_less_times_div[of k n] by simp

lemma march_century:
  assumes D: "D < 365 \<or> D = 365 \<and> isLeapYear (Y + 1)"
  defines "a \<equiv> D + 365 * Y + Y div 4 - Y div 100 + Y div 400"
  shows "(4 * a + 3) div 146097 = Y div 100"
    and "a - (Y div 100 * 146097) div 4 = 365 * (Y mod 100) + (Y mod 100) div 4 + D"
proof -
  define b r where "b = Y div 100" and "r = Y mod 100"
  have Y: "Y = 100 * b + r" and r: "r < 100" by (simp_all add: b_def r_def)
  have q: "Y div 4 = 25 * b + r div 4" "Y div 100 = b" "Y div 400 = b div 4"
    using Y r by auto
  define b4 r4 where "b4 = b div 4" and "r4 = r div 4"
  have cc: "(b * 146097) div 4 = 36524 * b + b4" unfolding b4_def by simp
  have a: "a = 36524 * b + b4 + (365 * r + r4 + D)"
    unfolding a_def q b4_def r4_def using Y by simp
  have "b mod 4 = 3" if "D = 365" "r = 99"
  proof -
    have "Y + 1 = 100 * (b + 1)" using Y that by simp
    moreover from this have "isLeapYear (100 * (b + 1))" using D that by simp
    ultimately have "100 * (b + 1) mod (100 * 4) = 0" unfolding isLeapYear_def by simp
    then have "(b + 1) mod 4 = 0" unfolding mult_mod_right[symmetric] by simp
    then show ?thesis by presburger
  qed
  then have leap: "b = 4 * b4 + 3" if "D = 365 \<and> r = 99" unfolding b4_def using that by presburger
  have lo: "4 * b4 \<le> b" "b < 4 * b4 + 4" unfolding b4_def using div_lo div_hi[of 4] by simp_all
  have r4: "4 * r4 \<le> r" unfolding r4_def by (rule div_lo)
  have "4 * a + 3 < 146097 * b + 146097"
  proof (cases "D = 365 \<and> r = 99")
    case True
    then show ?thesis using leap[OF True] r4 unfolding a by presburger
  next
    case False
    then have "365 * r + D \<le> 36499" using D r by auto
    moreover have "4 * a + 3 = 146096 * b + 4 * b4 + 4 * (365 * r + D) + 4 * r4 + 3"
      unfolding a by simp
    moreover have "r4 \<le> 24" using r4 r by simp
    ultimately show ?thesis using lo by simp
  qed
  moreover have "146097 * b \<le> 4 * a + 3" unfolding a using lo by simp
  ultimately show "(4 * a + 3) div 146097 = Y div 100" unfolding q by (intro div_eqI_nat)
  show "a - (Y div 100 * 146097) div 4 = 365 * (Y mod 100) + (Y mod 100) div 4 + D"
    unfolding q cc a r_def[symmetric] r4_def[symmetric] by simp
qed

lemma march_year:
  fixes D r :: nat
  assumes "D < 365 \<or> D = 365 \<and> r mod 4 = 3"
  defines "c \<equiv> 365 * r + r div 4 + D"
  shows "(4 * c + 3) div 1461 = r" "c - (1461 * r) div 4 = D"
proof -
  define q where "q = r div 4"
  have r: "4 * q \<le> r" "r < 4 * q + 4" unfolding q_def using div_lo div_hi[of 4] by simp_all
  have m: "r = 4 * q + 3" if "r mod 4 = 3" unfolding q_def using that by presburger
  have c: "c = 365 * r + q + D" by (simp add: c_def q_def)
  have "1461 * r \<le> 4 * c + 3" unfolding c using r by presburger
  moreover have "4 * c + 3 < 1461 * r + 1461" using assms(1)
  proof
    assume "D < 365"
    then show ?thesis unfolding c using r by presburger
  next
    assume "D = 365 \<and> r mod 4 = 3"
    then have "D = 365" "r = 4 * q + 3" using m by auto
    then show ?thesis unfolding c by simp
  qed
  ultimately show "(4 * c + 3) div 1461 = r" by (intro div_eqI_nat)
  have "(1461 * r) div 4 = 365 * r + q" unfolding q_def by simp
  then show "c - (1461 * r) div 4 = D" unfolding c by simp
qed

lemma march_month:
  fixes D M :: nat
  assumes "(153 * M + 2) div 5 \<le> D" "D < (153 * (M + 1) + 2) div 5"
  shows "(5 * D + 2) div 153 = M"
proof -
  define p q where "p = (153 * M + 2) div 5" and "q = (153 * (M + 1) + 2) div 5"
  have "153 * M + 2 < 5 * p + 5" unfolding p_def by (rule div_hi) simp
  moreover have "5 * q \<le> 153 * (M + 1) + 2" unfolding q_def by (rule div_lo)
  moreover have "p \<le> D" "D < q" using assms by (simp_all add: p_def q_def)
  ultimately show ?thesis by (intro div_eqI_nat) (simp_all add: algebra_simps)
qed

lemma month_cases:
  "1 \<le> m \<Longrightarrow> m \<le> 12 \<Longrightarrow> m = 1 \<or> m = 2 \<or> m = 3 \<or> m = 4 \<or> m = 5 \<or> m = 6 \<or> m = 7 \<or>
    m = 8 \<or> m = 9 \<or> m = 10 \<or> m = 11 \<or> m = (12::nat)"
  by arith

lemma month_table:
  assumes "1 \<le> m" "m \<le> 12"
  defines "A \<equiv> (14 - m) div 12" and "M \<equiv> m + 12 * ((14 - m) div 12) - 3"
  shows "M + 3 - 12 * (M div 10) = m" "M div 10 = A" "A \<le> 1"
    "m \<noteq> 2 \<Longrightarrow> (153 * M + 2) div 5 + getDaysPerMonth y m \<le> (153 * (M + 1) + 2) div 5"
    "m \<noteq> 2 \<Longrightarrow> (153 * (M + 1) + 2) div 5 \<le> 337"
    "m = 2 \<Longrightarrow> M = 11 \<and> A = 1"
  using month_cases[OF assms(1,2)] unfolding A_def M_def
  by (auto simp: getDaysPerMonth_def)

lemma getDaysPerMonth_Feb: "getDaysPerMonth y 2 = (if isLeapYear y then 29 else 28)"
  by (simp add: getDaysPerMonth_def)

lemma isLeapYear_4800: "isLeapYear (y + 4800) = isLeapYear y" "isLeapYear (4800 + y) = isLeapYear y"
proof -
  have "(y + 4800) mod 400 = y mod 400" "(y + 4800) mod 4 = y mod 4" "(y + 4800) mod 100 = y mod 100"
    using mod_mult_self1[of y 12 400] mod_mult_self1[of y 1200 4] mod_mult_self1[of y 48 100]
    by simp_all
  then show "isLeapYear (y + 4800) = isLeapYear y" by (simp only: isLeapYear_def)
  then show "isLeapYear (4800 + y) = isLeapYear y" by (simp only: add.commute)
qed

lemma leap_mod_4: "isLeapYear (Y + 1) \<Longrightarrow> (Y mod 100) mod 4 = 3"
proof -
  assume "isLeapYear (Y + 1)"
  then have "(Y + 1) mod 4 = 0"
    unfolding isLeapYear_def using mod_mod_cancel[of 4 400 "Y + 1"] by auto
  then have "Y mod 4 = 3" by presburger
  then show ?thesis using mod_mod_cancel[of 4 100 Y] by simp
qed

lemma fromJulianDay_toJulianDay:
  assumes "validDate (y, m, d)"
  shows "fromJulianDay (toJulianDay y m d) = (y, m, d)"
proof -
  have v: "1 \<le> m" "m \<le> 12" "1 \<le> d" "d \<le> getDaysPerMonth y m"
    using assms by (auto simp: validDate_def)
  define A where "A = (14 - m) div 12"
  define M where "M = m + 12 * A - 3"
  define Y where "Y = y + 4800 - A"
  define P where "P = (153 * M + 2) div 5"
  define D where "D = P + d - 1"
  define a where "a = D + 365 * Y + Y div 4 - Y div 100 + Y div 400"
  note t = month_table[OF v(1,2), folded A_def, folded M_def, folded P_def]
  have nm: "D < (153 * (M + 1) + 2) div 5 \<and> (D < 365 \<or> D = 365 \<and> isLeapYear (Y + 1))"
  proof (cases "m = 2")
    case True
    then have "M = 11" "Y + 1 = y + 4800" using t(6) by (auto simp: Y_def)
    moreover from this have "P = 337" by (simp add: P_def)
    ultimately have "D < 367 \<and> (D < 365 \<or> D = 365 \<and> isLeapYear (Y + 1)) \<and> M = 11"
      using v(3,4) True by (auto simp: D_def getDaysPerMonth_Feb isLeapYear_4800 split: if_splits)
    then show ?thesis by auto
  next
    case False
    then show ?thesis using t(4)[of y] t(5) v(3,4) by (auto simp: D_def)
  qed
  then have next_month: "D < (153 * (M + 1) + 2) div 5"
    and year_day: "D < 365 \<or> D = 365 \<and> isLeapYear (Y + 1)" by blast+
  have PD: "P \<le> D" "D - P + 1 = d" using v(3) by (auto simp: D_def)
  have year4: "D < 365 \<or> D = 365 \<and> (Y mod 100) mod 4 = 3"
    using year_day leap_mod_4 by blast
  have "d + P + Y * 365 + q - Q + R - 32045 + 32044 = P + d - 1 + 365 * Y + q - Q + R"
    if "Q \<le> Y" "4799 \<le> Y" for q Q R :: nat
    using that v(3) by (simp add: algebra_simps)
  moreover have "4799 \<le> Y" using t(3) by (simp add: Y_def)
  ultimately have jd: "toJulianDay y m d + 32044 = a"
    unfolding toJulianDay_def Let_def A_def[symmetric] M_def[symmetric] Y_def[symmetric]
      P_def[symmetric] a_def D_def by simp
  have c: "(4 * a + 3) div 146097 = Y div 100"
    "a - (Y div 100 * 146097) div 4 = 365 * (Y mod 100) + (Y mod 100) div 4 + D"
    unfolding a_def by (rule march_century[OF year_day])+
  have mo: "(5 * D + 2) div 153 = M"
    by (rule march_month) (use next_month PD(1) in \<open>simp_all add: P_def\<close>)
  have "Y div 100 * 100 + Y mod 100 = Y" by simp
  moreover have "nat (int Y - 4800 + int A) = y" using t(3) by (simp add: Y_def)
  moreover have "M + 3 - 12 * A = m" using t(1) unfolding t(2) .
  ultimately show ?thesis
    unfolding fromJulianDay_def Let_def jd c march_year[OF year4] mo P_def[symmetric] PD(2) t(2)
    by simp
qed

subsection \<open>The day number counts days\<close>

text \<open>The days of the March-based years before year \<open>Y\<close>.\<close>

definition yearDays :: "nat \<Rightarrow> nat" where
  "yearDays Y = 365 * Y + Y div 4 - Y div 100 + Y div 400"

lemma yearDays_Suc: "yearDays (Y + 1) = yearDays Y + (if isLeapYear (Y + 1) then 366 else 365)"
proof -
  define q4 q100 q400 where "q4 = Y div 4" and "q100 = Y div 100" and "q400 = Y div 400"
  have le: "q100 \<le> Y" by (simp add: q100_def)
  have s: "Suc Y div 4 = (if Suc Y mod 4 = 0 then Suc q4 else q4)"
    "Suc Y div 100 = (if Suc Y mod 100 = 0 then Suc q100 else q100)"
    "Suc Y div 400 = (if Suc Y mod 400 = 0 then Suc q400 else q400)"
    unfolding q4_def q100_def q400_def by (rule div_Suc)+
  have m: "Suc Y mod 400 = 0 \<Longrightarrow> Suc Y mod 100 = 0 \<and> Suc Y mod 4 = 0"
    "Suc Y mod 100 = 0 \<Longrightarrow> Suc Y mod 4 = 0"
    using mod_mod_cancel[of 100 400 "Suc Y"] mod_mod_cancel[of 4 400 "Suc Y"]
      mod_mod_cancel[of 4 100 "Suc Y"] by auto
  show ?thesis
    unfolding yearDays_def isLeapYear_def Suc_eq_plus1[symmetric] s
      q4_def[symmetric] q100_def[symmetric] q400_def[symmetric]
    using m le by (cases "Suc Y mod 400 = 0"; cases "Suc Y mod 100 = 0"; cases "Suc Y mod 4 = 0") simp_all
qed

lemma yearDays_ge: "32045 \<le> yearDays (Y + 4799)"
proof -
  have "(Y + 4799) div 100 \<le> Y + 4799" by simp
  moreover have "32045 \<le> 365 * (Y + 4799) + a - b + c" if "b \<le> Y + 4799" for a b c :: nat
    using that by simp
  ultimately show ?thesis unfolding yearDays_def by blast
qed

lemma toJulianDay_yearDays:
  assumes "1 \<le> m" "m \<le> 12"
  shows "toJulianDay y m d =
    d + (153 * (m + 12 * ((14 - m) div 12) - 3) + 2) div 5 + yearDays (y + 4800 - (14 - m) div 12) - 32045"
proof -
  define Y where "Y = y + 4800 - (14 - m) div 12"
  have "Y div 100 \<le> Y" by simp
  then have "c + Y * 365 + Y div 4 - Y div 100 + Y div 400 - 32045 =
    c + (365 * Y + Y div 4 - Y div 100 + Y div 400) - 32045" for c
    by simp
  then show ?thesis unfolding toJulianDay_def yearDays_def Let_def Y_def[symmetric] .
qed

lemma toJulianDay_next:
  assumes "validDate (y, m, d)"
  shows "validDate (nextDate (y, m, d)) \<and>
    (case nextDate (y, m, d) of (y', m', d') \<Rightarrow> toJulianDay y' m' d') = toJulianDay y m d + 1"
proof -
  have v: "1 \<le> m" "m \<le> 12" "1 \<le> d" "d \<le> getDaysPerMonth y m"
    using assms by (auto simp: validDate_def)
  have g: "32045 \<le> yearDays (y + 4799)" "32045 \<le> yearDays (y + 4800)"
    using yearDays_ge[of y] yearDays_ge[of "y + 1"] by (simp_all add: add.commute)
  have f: "yearDays (y + 4800) = yearDays (y + 4799) + (if isLeapYear y then 366 else 365)"
    using yearDays_Suc[of "y + 4799"] by (simp add: isLeapYear_4800 add.commute[of 4800])
  show ?thesis
  proof (cases "d < getDaysPerMonth y m")
    case True
    have "(14 - m) div 12 = 0 \<or> (14 - m) div 12 = 1"
      using month_table(3)[OF v(1,2)] by linarith
    then have "32045 \<le> yearDays (y + 4800 - (14 - m) div 12)"
      using g by (elim disjE) (simp_all add: add.commute[of _ y])
    moreover have "(d + 1) + K + Y - 32045 = (d + K + Y - 32045) + 1" if "32045 \<le> Y" for K Y :: nat
      using that by simp
    ultimately have "toJulianDay y m (d + 1) = toJulianDay y m d + 1"
      unfolding toJulianDay_yearDays[OF v(1,2)] by blast
    with True v show ?thesis by (simp add: nextDate_def validDate_def)
  next
    case False
    with v(4) have d: "d = getDaysPerMonth y m" by simp
    show ?thesis using month_cases[OF v(1,2)] g f d
      by (cases "isLeapYear y"; elim disjE)
        (simp_all add: nextDate_def validDate_def toJulianDay_yearDays getDaysPerMonth_def
          add.commute[of _ y])
  qed
qed

lemma nextDate_iterate:
  "validDate ((nextDate ^^ n) (0, 1, 1)) \<and>
   (case (nextDate ^^ n) (0, 1, 1) of (y, m, d) \<Rightarrow> toJulianDay y m d) = JULIAN_ONE_BCE + n"
proof (induction n)
  case 0
  show ?case by (simp add: validDate_def getDaysPerMonth_def JULIAN_ONE_BCE_def toJulianDay_def Let_def)
next
  case (Suc n)
  obtain y m d where e: "(nextDate ^^ n) (0, 1, 1) = (y, m, d)" by (cases "(nextDate ^^ n) (0, 1, 1)")
  with Suc.IH show ?case using toJulianDay_next[of y m d] by simp
qed

lemma fromJulianDay_iterate: "fromJulianDay (JULIAN_ONE_BCE + n) = (nextDate ^^ n) (0, 1, 1)"
  using nextDate_iterate[of n] fromJulianDay_toJulianDay
  by (cases "(nextDate ^^ n) (0, 1, 1)") (metis (no_types, lifting) case_prod_conv)

lemma yearDays_mono: "Y \<le> Y' \<Longrightarrow> yearDays Y \<le> yearDays Y'"
proof (rule lift_Suc_mono_le[of yearDays])
  show "yearDays n \<le> yearDays (Suc n)" for n using yearDays_Suc[of n] by simp
qed

lemma yearDays_values:
  "yearDays 4799 = 1752798" "yearDays 4800 = 1753164" "yearDays 14798 = 5404858" "yearDays 14799 = 5405223"
  by (simp_all add: yearDays_def)

lemma toJulianDay_bounds:
  assumes "validDate (y, m, d)"
  shows "JULIAN_ONE_BCE \<le> toJulianDay y m d"
    and "y \<le> 9999 \<Longrightarrow> toJulianDay y m d < JULIAN_ONE_BCE + 3652425"
proof -
  have v: "1 \<le> m" "m \<le> 12" "1 \<le> d" "d \<le> getDaysPerMonth y m"
    using assms by (auto simp: validDate_def)
  have lo: "yearDays 4799 \<le> yearDays (y + 4799)" "yearDays 4800 \<le> yearDays (y + 4800)"
    by (intro yearDays_mono; simp)+
  show "JULIAN_ONE_BCE \<le> toJulianDay y m d"
    using month_cases[OF v(1,2)] lo v(3)
    by (elim disjE)
      (simp_all add: toJulianDay_yearDays JULIAN_ONE_BCE_def yearDays_values add.commute[of _ y])
  assume "y \<le> 9999"
  then have hi: "yearDays (y + 4799) \<le> yearDays 14798" "yearDays (y + 4800) \<le> yearDays 14799"
    by (intro yearDays_mono; simp)+
  have "d \<le> 31" using v(4) month_cases[OF v(1,2)]
    by (auto simp: getDaysPerMonth_def split: if_splits)
  then show "toJulianDay y m d < JULIAN_ONE_BCE + 3652425"
    using month_cases[OF v(1,2)] hi
    by (elim disjE)
      (simp_all add: toJulianDay_yearDays JULIAN_ONE_BCE_def yearDays_values add.commute[of _ y])
qed

lemma validDate_iterate:
  assumes "validDate (y, m, d)"
  shows "(nextDate ^^ (toJulianDay y m d - JULIAN_ONE_BCE)) (0, 1, 1) = (y, m, d)"
  using fromJulianDay_iterate[of "toJulianDay y m d - JULIAN_ONE_BCE"] toJulianDay_bounds(1)[OF assms]
    fromJulianDay_toJulianDay[OF assms] by simp

subsection \<open>Properties\<close>

text \<open>
  C21: the Julian day conversions are the calendar: day number \<open>JULIAN_ONE_BCE + n\<close> is the date
  reached from January 1 of the year 0 by \<open>n\<close> steps to the next date, for every \<open>n\<close>, that date is a
  valid one and converts back to the same number; and every valid date is reached in this way, at its
  own day number.
\<close>

theorem julian_day_counts_days:
  assumes "validDate (year, month, day)"
  shows "fromJulianDay (JULIAN_ONE_BCE + n) = (nextDate ^^ n) (0, 1, 1) \<and>
    (case fromJulianDay (JULIAN_ONE_BCE + n) of (y, m, d) \<Rightarrow>
       validDate (y, m, d) \<and> toJulianDay y m d = JULIAN_ONE_BCE + n) \<and>
    fromJulianDay (toJulianDay year month day) = (year, month, day) \<and>
    (nextDate ^^ (toJulianDay year month day - JULIAN_ONE_BCE)) (0, 1, 1) = (year, month, day)"
  using fromJulianDay_iterate[of n] nextDate_iterate[of n] fromJulianDay_toJulianDay[OF assms]
    validDate_iterate[OF assms] by (auto split: prod.splits)

lemma julian_day_counts_days_witness:
  "validDate (2000, 2, 29) \<and> toJulianDay 2000 2 29 = 2451604 \<and>
   fromJulianDay (toJulianDay 2000 2 29) = (2000, 2, 29)"
proof -
  have v: "validDate (2000, 2, 29)"
    by (simp add: validDate_def getDaysPerMonth_def isLeapYear_def)
  then show ?thesis using julian_day_counts_days[OF v, of 0]
    by (simp add: toJulianDay_def)
qed

end
