(* ===== verification/DateTime.thy ===== *)
theory DateTime
  imports Calendar
begin

section \<open>CIMDateTime: time stamps and intervals\<close>

text \<open>
  \<^verbatim>\<open>Pegasus/Common/CIMDateTime.cpp\<close>, \<^verbatim>\<open>CIMDateTimeInline.h\<close> and \<^verbatim>\<open>CIMDateTimeRep.h\<close>: the
  conversions between Gregorian dates and Julian days, the parser and the printer of the 25
  character format with its wildcards, the range checks of the setters, the comparison and the
  arithmetic.

  The microseconds are a \<open>u64\<close>, whose wrap-around the arithmetic can reach. The \<open>Uint32\<close> values of
  the calendar computations and of the components are naturals: every value the code computes from
  checked components or from a \<open>u64\<close> stays far below \<open>2 ^ 31\<close>, so neither \<open>int\<close> nor \<open>Uint32\<close>
  wraps there. \<open>Sint32\<close> offsets are integers.
\<close>

subsection \<open>Constants and the representation\<close>

definition SECOND :: u64 where "SECOND = 1000000"

definition MINUTE :: u64 where "MINUTE = 60 * SECOND"

definition HOUR :: u64 where "HOUR = 60 * MINUTE"

definition DAY :: u64 where "DAY = 24 * HOUR"

definition TEN_THOUSAND_YEARS :: u64 where "TEN_THOUSAND_YEARS = 315569520000000000"

definition HUNDRED_MILLION_DAYS :: u64 where "HUNDRED_MILLION_DAYS = 8640000000000000000"

definition POSIX_1970_EPOCH_OFFSET :: u64 where "POSIX_1970_EPOCH_OFFSET = 62167219200000000"

definition WILDCARD :: nat where "WILDCARD = 2 ^ 32 - 1"

record CIMDateTimeRep =
  usec :: u64
  utcOffset :: nat
  sign :: u16
  numWildcards :: nat

datatype dtException =
  InvalidDateTimeFormatException
| DateTimeOutOfRangeException
| TypeMismatchException
| DivideByZeroException

definition clearRep :: CIMDateTimeRep where
  "clearRep = \<lparr>usec = 0, utcOffset = 0, sign = chr16 (CHR '':''), numWildcards = 0\<rparr>"

subsection \<open>Parsing components\<close>

definition strToUint32_n2 :: "pstr \<Rightarrow> nat option" where
  "strToUint32_n2 s =
     (let c0 = (ucast (peek s 0) - 48 :: u32)
      in if c0 > 9 then None
         else (let c1 = (ucast (peek s 1) - 48 :: u32)
               in if c1 > 9 then None else Some (10 * unat c0 + unat c1)))"

definition tens :: "nat list" where
  "tens = [1, 10, 100, 1000, 10000, 100000, 1000000, 10000000]"

text \<open>The loop over the first \<open>n\<close> characters from the last one; \<open>m\<close> indexes \<open>tens\<close>.\<close>

fun strToUint32Loop :: "pstr \<Rightarrow> nat \<Rightarrow> nat \<Rightarrow> nat \<Rightarrow> nat option" where
  "strToUint32Loop s 0 m x = Some x"
| "strToUint32Loop s (Suc n) m x =
     (let c = peek s n - 48
      in if c > 9 then None else strToUint32Loop s n (Suc m) (x + tens ! m * unat c))"

definition strToUint32 :: "pstr \<Rightarrow> nat \<Rightarrow> nat option" where
  "strToUint32 s n = (if n = 2 then strToUint32_n2 s else strToUint32Loop s n 0 0)"

definition allAsterisks :: "pstr \<Rightarrow> nat \<Rightarrow> bool" where
  "allAsterisks s n = list_all (\<lambda>i. peek s i = chr16 (CHR ''*'')) [0..<n]"

definition parseComponent ::
  "pstr \<Rightarrow> nat \<Rightarrow> bool \<Rightarrow> dtException + (nat \<times> pstr \<times> bool)" where
  "parseComponent s n priorWildcards =
     (if peek s 0 = chr16 (CHR ''*'') \<and> allAsterisks s n then Inr (WILDCARD, drop n s, True)
      else if priorWildcards then Inl InvalidDateTimeFormatException
      else (case strToUint32 s n of
              None \<Rightarrow> Inl InvalidDateTimeFormatException
            | Some x \<Rightarrow> Inr (x, drop n s, priorWildcards)))"

definition microMult :: "nat list" where
  "microMult = [100000, 10000, 1000, 100, 10, 1]"

text \<open>The loop over the six characters: \<open>k\<close> are left, the next one has index \<open>6 - k\<close>.\<close>

fun parseMicrosecondsLoop :: "pstr \<Rightarrow> nat \<Rightarrow> nat \<Rightarrow> dtException + (nat \<times> nat)" where
  "parseMicrosecondsLoop s 0 x = Inr (x, 6)"
| "parseMicrosecondsLoop s (Suc k) x =
     (let i = 6 - Suc k; c = (ucast (peek s i) - 48 :: u32)
      in if c < 10 then parseMicrosecondsLoop s k (x + unat c * microMult ! i)
         else if c = ucast (chr16 (CHR ''*'')) - 48 then
           (if allAsterisks (drop i s) (6 - i) then Inr (x, i)
            else Inl InvalidDateTimeFormatException)
         else Inl InvalidDateTimeFormatException)"

definition parseMicroseconds ::
  "pstr \<Rightarrow> bool \<Rightarrow> dtException + (nat \<times> nat \<times> pstr)" where
  "parseMicroseconds s priorWildcards =
     (if priorWildcards \<and> peek s 0 \<noteq> chr16 (CHR ''*'') then Inl InvalidDateTimeFormatException
      else bindE (parseMicrosecondsLoop s 6 0) (\<lambda>(x, digits). Inr (x, digits, drop 6 s)))"

subsection \<open>The setters\<close>

text \<open>
  The setters throw at the first component out of range. \<open>checkComponent\<close> is the shape their checks
  share: a wildcard gives the default value and, when none was seen before, sets the number of
  wildcards; a value that fails the test throws.
\<close>

definition checkComponent ::
  "nat \<Rightarrow> (nat \<Rightarrow> bool) \<Rightarrow> nat \<Rightarrow> nat \<Rightarrow> nat \<Rightarrow> dtException + (nat \<times> nat)" where
  "checkComponent x bad dflt wild numWild =
     (if x = WILDCARD then Inr (dflt, if numWild = 0 then wild else numWild)
      else if bad x then Inl DateTimeOutOfRangeException
      else Inr (x, numWild))"

definition setTimeStamp ::
  "nat \<Rightarrow> nat \<Rightarrow> nat \<Rightarrow> nat \<Rightarrow> nat \<Rightarrow> nat \<Rightarrow> nat \<Rightarrow> nat \<Rightarrow> int \<Rightarrow> dtException + CIMDateTimeRep" where
  "setTimeStamp year month day hours minutes seconds microseconds
       numSignificantMicrosecondDigits offset =
     bindE (checkComponent year (\<lambda>x. x > 9999) 0 20 0) (\<lambda>(year, nw).
     bindE (checkComponent month (\<lambda>x. x < 1 \<or> x > 12) 1 16 nw) (\<lambda>(month, nw).
     bindE (checkComponent day (\<lambda>x. x < 1 \<or> x > getDaysPerMonth year month) 1 14 nw) (\<lambda>(day, nw).
     bindE (checkComponent hours (\<lambda>x. x > 23) 0 12 nw) (\<lambda>(hours, nw).
     bindE (checkComponent minutes (\<lambda>x. x > 59) 0 10 nw) (\<lambda>(minutes, nw).
     bindE (checkComponent seconds (\<lambda>x. x > 59) 0 8 nw) (\<lambda>(seconds, nw).
     if numSignificantMicrosecondDigits > 6 then Inl DateTimeOutOfRangeException
     else if microseconds > 999999 then Inl DateTimeOutOfRangeException
     else
       let nw = (if nw = 0 then 6 - numSignificantMicrosecondDigits else nw)
       in if offset < -999 \<or> offset > 999 then Inl DateTimeOutOfRangeException
          else
            let days = toJulianDay year month day - JULIAN_ONE_BCE
            in Inr \<lparr>usec = of_nat microseconds + of_nat seconds * SECOND + of_nat minutes * MINUTE +
                       of_nat hours * HOUR + of_nat days * DAY,
                    utcOffset = nat (if offset < 0 then - offset else offset),
                    sign = (if offset < 0 then chr16 (CHR ''-'') else chr16 (CHR ''+'')),
                    numWildcards = nw\<rparr>))))))"

definition setInterval ::
  "nat \<Rightarrow> nat \<Rightarrow> nat \<Rightarrow> nat \<Rightarrow> nat \<Rightarrow> nat \<Rightarrow> dtException + CIMDateTimeRep" where
  "setInterval days hours minutes seconds microseconds numSignificantMicrosecondDigits =
     bindE (checkComponent days (\<lambda>x. x > 99999999) 1 20 0) (\<lambda>(days, nw).
     bindE (checkComponent hours (\<lambda>x. x > 23) 0 12 nw) (\<lambda>(hours, nw).
     bindE (checkComponent minutes (\<lambda>x. x > 59) 0 10 nw) (\<lambda>(minutes, nw).
     bindE (checkComponent seconds (\<lambda>x. x > 59) 0 8 nw) (\<lambda>(seconds, nw).
     if numSignificantMicrosecondDigits > 6 then Inl DateTimeOutOfRangeException
     else if microseconds > 999999 then Inl DateTimeOutOfRangeException
     else
       let nw = (if nw = 0 then 6 - numSignificantMicrosecondDigits else nw)
       in Inr \<lparr>usec = of_nat microseconds + of_nat seconds * SECOND + of_nat minutes * MINUTE +
                  of_nat hours * HOUR + of_nat days * DAY,
               utcOffset = 0, sign = chr16 (CHR '':''), numWildcards = nw\<rparr>))))"

text \<open>
  \<open>CIMDateTime::set\<close> clears the object, parses and sets. \<open>parseDateTime\<close> is the parse with its final
  call; \<open>dt_set\<close> adds the state in which an exception leaves the object.
\<close>

definition parseInterval :: "pstr \<Rightarrow> dtException + CIMDateTimeRep" where
  "parseInterval s =
     bindE (parseComponent s 8 False) (\<lambda>(days, s, pw).
     bindE (parseComponent s 2 pw) (\<lambda>(hours, s, pw).
     bindE (parseComponent s 2 pw) (\<lambda>(minutes, s, pw).
     bindE (parseComponent s 2 pw) (\<lambda>(seconds, s, pw).
     if peek s 0 \<noteq> chr16 (CHR ''.'') then Inl InvalidDateTimeFormatException
     else
       bindE (parseMicroseconds (drop 1 s) pw) (\<lambda>(microseconds, digits, s).
       let s = drop 1 s
       in if \<not> (peek s 0 = chr16 (CHR ''0'') \<and> peek s 1 = chr16 (CHR ''0'') \<and>
                 peek s 2 = chr16 (CHR ''0''))
          then Inl InvalidDateTimeFormatException
          else setInterval days hours minutes seconds microseconds digits)))))"

definition parseTimeStamp :: "u16 \<Rightarrow> pstr \<Rightarrow> dtException + CIMDateTimeRep" where
  "parseTimeStamp sg s =
     bindE (parseComponent s 4 False) (\<lambda>(year, s, pw).
     bindE (parseComponent s 2 pw) (\<lambda>(month, s, pw).
     bindE (parseComponent s 2 pw) (\<lambda>(day, s, pw).
     bindE (parseComponent s 2 pw) (\<lambda>(hours, s, pw).
     bindE (parseComponent s 2 pw) (\<lambda>(minutes, s, pw).
     bindE (parseComponent s 2 pw) (\<lambda>(seconds, s, pw).
     if peek s 0 \<noteq> chr16 (CHR ''.'') then Inl InvalidDateTimeFormatException
     else
       bindE (parseMicroseconds (drop 1 s) pw) (\<lambda>(microseconds, digits, s).
       case strToUint32 (drop 1 s) 3 of
         None \<Rightarrow> Inl InvalidDateTimeFormatException
       | Some offset \<Rightarrow>
           setTimeStamp year month day hours minutes seconds microseconds digits
             (if sg = chr16 (CHR ''+'') then int offset else - int offset))))))))"

definition parseDateTime :: "pstr \<Rightarrow> dtException + CIMDateTimeRep" where
  "parseDateTime str =
     (if length str \<noteq> 25 then Inl InvalidDateTimeFormatException
      else (let sg = peek str 21
            in if sg = chr16 (CHR '':'') then parseInterval str
               else if sg = chr16 (CHR ''-'') \<or> sg = chr16 (CHR ''+'') then parseTimeStamp sg str
               else Inl InvalidDateTimeFormatException))"

definition dt_set :: "pstr \<Rightarrow> dtException option \<times> CIMDateTimeRep" where
  "dt_set str =
     (case parseDateTime str of
        Inl e \<Rightarrow> (Some e, clearRep)
      | Inr rep \<Rightarrow> (None, rep))"

definition fromMicroseconds :: "u64 \<Rightarrow> bool \<Rightarrow> dtException + CIMDateTimeRep" where
  "fromMicroseconds us isInt =
     (if \<not> isInt \<and> us \<ge> TEN_THOUSAND_YEARS then Inl DateTimeOutOfRangeException
      else if isInt \<and> us \<ge> HUNDRED_MILLION_DAYS then Inl DateTimeOutOfRangeException
      else Inr \<lparr>usec = us, utcOffset = 0,
                sign = (if isInt then chr16 (CHR '':'') else chr16 (CHR ''+'')), numWildcards = 0\<rparr>)"

text \<open>
  \<open>getCurrentDateTime\<close> on Unix: the seconds and microseconds of \<^verbatim>\<open>gettimeofday\<close> and the minutes
  east of Greenwich of \<^verbatim>\<open>localtime_r\<close> are the arguments.
\<close>

definition currentDateTime :: "int \<Rightarrow> nat \<Rightarrow> int \<Rightarrow> CIMDateTimeRep" where
  "currentDateTime sec us tzMinutesEast =
     \<lparr>usec = POSIX_1970_EPOCH_OFFSET + of_int (sec + tzMinutesEast * 60) * 1000000 + of_nat us,
      utcOffset = nat (if tzMinutesEast < 0 then - tzMinutesEast else tzMinutesEast),
      sign = (if tzMinutesEast < 0 then chr16 (CHR ''-'') else chr16 (CHR ''+'')),
      numWildcards = 0\<rparr>"

subsection \<open>Printing\<close>

definition intToStrTable :: "pstr list" where
  "intToStrTable =
  [units ''00'', units ''01'', units ''02'', units ''03'', units ''04'', units ''05'', units ''06'', units ''07'', units ''08'', units ''09'',
   units ''10'', units ''11'', units ''12'', units ''13'', units ''14'', units ''15'', units ''16'', units ''17'', units ''18'', units ''19'',
   units ''20'', units ''21'', units ''22'', units ''23'', units ''24'', units ''25'', units ''26'', units ''27'', units ''28'', units ''29'',
   units ''30'', units ''31'', units ''32'', units ''33'', units ''34'', units ''35'', units ''36'', units ''37'', units ''38'', units ''39'',
   units ''40'', units ''41'', units ''42'', units ''43'', units ''44'', units ''45'', units ''46'', units ''47'', units ''48'', units ''49'',
   units ''50'', units ''51'', units ''52'', units ''53'', units ''54'', units ''55'', units ''56'', units ''57'', units ''58'', units ''59'',
   units ''60'', units ''61'', units ''62'', units ''63'', units ''64'', units ''65'', units ''66'', units ''67'', units ''68'', units ''69'',
   units ''70'', units ''71'', units ''72'', units ''73'', units ''74'', units ''75'', units ''76'', units ''77'', units ''78'', units ''79'',
   units ''80'', units ''81'', units ''82'', units ''83'', units ''84'', units ''85'', units ''86'', units ''87'', units ''88'', units ''89'',
   units ''90'', units ''91'', units ''92'', units ''93'', units ''94'', units ''95'', units ''96'', units ''97'', units ''98'', units ''99'']"

fun intToChar16Loop :: "nat \<Rightarrow> nat \<Rightarrow> pstr" where
  "intToChar16Loop x 0 = []"
| "intToChar16Loop x (Suc numDigits) =
     (let d = tens ! numDigits; n = x div d
      in of_nat (n + 48) # intToChar16Loop (x mod d) numDigits)"

definition intToChar16String :: "nat \<Rightarrow> nat \<Rightarrow> pstr" where
  "intToChar16String x numDigits =
     (if numDigits = 2 then intToStrTable ! x else intToChar16Loop x numDigits)"

text \<open>
  The loop that fills the buffer with asterisks from position \<open>first\<close> downwards, over \<open>k\<close>
  positions, leaving the dot; the same loop is written for 16-bit and for 8-bit characters.
\<close>

fun starLoop :: "nat \<Rightarrow> nat \<Rightarrow> 'a::len word list \<Rightarrow> 'a word list" where
  "starLoop 0 first d = d"
| "starLoop (Suc k) first d =
     starLoop k (first - 1)
       (if d ! first \<noteq> of_char (CHR ''.'') then d[first := of_char (CHR ''*'')] else d)"

definition starFill :: "nat \<Rightarrow> 'a::len word list \<Rightarrow> 'a word list" where
  "starFill numWild d = starLoop (if numWild > 6 then numWild + 1 else numWild) 20 d"

definition splitTime :: "u64 \<Rightarrow> nat \<times> nat \<times> nat \<times> nat \<times> nat" where
  "splitTime us =
     (unat (us div DAY), unat ((us div HOUR) mod 24), unat ((us div MINUTE) mod 60),
      unat ((us div SECOND) mod 60), unat (us mod SECOND))"

definition toChar16Str :: "CIMDateTimeRep \<Rightarrow> pstr" where
  "toChar16Str rep =
     (case splitTime (usec rep) of (days, hours, minutes, seconds, microseconds) \<Rightarrow>
        starFill (numWildcards rep)
          (if sign rep = chr16 (CHR '':'') then
             intToChar16String days 8 @ intToChar16String hours 2 @ intToChar16String minutes 2 @
             intToChar16String seconds 2 @ units ''.'' @ intToChar16String microseconds 6 @
             units '':000''
           else
             (case fromJulianDay (days + JULIAN_ONE_BCE) of (year, month, day) \<Rightarrow>
                intToChar16String year 4 @ intToChar16String month 2 @ intToChar16String day 2 @
                intToChar16String hours 2 @ intToChar16String minutes 2 @
                intToChar16String seconds 2 @ units ''.'' @ intToChar16String microseconds 6 @
                [sign rep] @ intToChar16String (utcOffset rep) 3)))"

definition dt_toString :: "CIMDateTimeRep \<Rightarrow> pstr" where
  "dt_toString rep = toChar16Str rep"

subsection \<open>The 8-bit format, for the comparison\<close>

definition intToNumStrTable :: "cstr list" where
  "intToNumStrTable =
  [bytes ''00'', bytes ''01'', bytes ''02'', bytes ''03'', bytes ''04'', bytes ''05'', bytes ''06'', bytes ''07'', bytes ''08'', bytes ''09'',
   bytes ''10'', bytes ''11'', bytes ''12'', bytes ''13'', bytes ''14'', bytes ''15'', bytes ''16'', bytes ''17'', bytes ''18'', bytes ''19'',
   bytes ''20'', bytes ''21'', bytes ''22'', bytes ''23'', bytes ''24'', bytes ''25'', bytes ''26'', bytes ''27'', bytes ''28'', bytes ''29'',
   bytes ''30'', bytes ''31'', bytes ''32'', bytes ''33'', bytes ''34'', bytes ''35'', bytes ''36'', bytes ''37'', bytes ''38'', bytes ''39'',
   bytes ''40'', bytes ''41'', bytes ''42'', bytes ''43'', bytes ''44'', bytes ''45'', bytes ''46'', bytes ''47'', bytes ''48'', bytes ''49'',
   bytes ''50'', bytes ''51'', bytes ''52'', bytes ''53'', bytes ''54'', bytes ''55'', bytes ''56'', bytes ''57'', bytes ''58'', bytes ''59'']"

definition microsFormat :: "nat \<Rightarrow> cstr" where
  "microsFormat us =
     [of_nat (us div 100000 + 48), of_nat ((us mod 100000) div 10000 + 48),
      of_nat ((us mod 10000) div 1000 + 48), of_nat ((us mod 1000) div 100 + 48),
      of_nat ((us mod 100) div 10 + 48), of_nat (us mod 10 + 48)]"

definition fullYearFormat ::
  "nat \<Rightarrow> nat \<Rightarrow> nat \<Rightarrow> nat \<Rightarrow> nat \<Rightarrow> nat \<Rightarrow> nat \<Rightarrow> u8 \<Rightarrow> nat \<Rightarrow> cstr" where
  "fullYearFormat year month day hours minutes seconds microseconds sg offset =
     [of_nat (year div 1000 + 48), of_nat ((year mod 1000) div 100 + 48),
      of_nat ((year mod 100) div 10 + 48), of_nat (year mod 10 + 48)] @
     intToNumStrTable ! month @ intToNumStrTable ! day @ intToNumStrTable ! hours @
     intToNumStrTable ! minutes @ intToNumStrTable ! seconds @ bytes ''.'' @
     microsFormat microseconds @ [sg] @
     [of_nat (offset div 100 + 48), of_nat ((offset mod 100) div 10 + 48), of_nat (offset mod 10 + 48)]"

definition fullDayFormat :: "nat \<Rightarrow> nat \<Rightarrow> nat \<Rightarrow> nat \<Rightarrow> nat \<Rightarrow> cstr" where
  "fullDayFormat day hours minutes seconds microseconds =
     [of_nat (day div 10000000 + 48), of_nat ((day mod 10000000) div 1000000 + 48),
      of_nat ((day mod 1000000) div 100000 + 48), of_nat ((day mod 100000) div 10000 + 48),
      of_nat ((day mod 10000) div 1000 + 48), of_nat ((day mod 1000) div 100 + 48),
      of_nat ((day mod 100) div 10 + 48), of_nat (day mod 10 + 48)] @
     intToNumStrTable ! hours @ intToNumStrTable ! minutes @ intToNumStrTable ! seconds @
     bytes ''.'' @ microsFormat microseconds @ bytes '':000''"

definition DateTimetoCStr :: "CIMDateTimeRep \<Rightarrow> cstr" where
  "DateTimetoCStr rep =
     (case splitTime (usec rep) of (days, hours, minutes, seconds, microseconds) \<Rightarrow>
        starFill (numWildcards rep)
          (if sign rep = chr16 (CHR '':'') then fullDayFormat days hours minutes seconds microseconds
           else
             (case fromJulianDay (days + JULIAN_ONE_BCE) of (year, month, day) \<Rightarrow>
                fullYearFormat year month day hours minutes seconds microseconds
                  (ucast (sign rep)) (utcOffset rep))))"

subsection \<open>Comparison\<close>

fun matchLoop :: "cstr \<Rightarrow> cstr \<Rightarrow> int" where
  "matchLoop (c1 # s1) (c2 # s2) =
     (if c1 = chr8 (CHR ''*'') \<or> c2 = chr8 (CHR ''*'') then matchLoop s1 s2
      else (let r = sint c1 - sint c2 in if r \<noteq> 0 then r else matchLoop s1 s2))"
| "matchLoop _ _ = 0"

definition matchTimeStampStrings :: "cstr \<Rightarrow> cstr \<Rightarrow> int" where
  "matchTimeStampStrings s1 s2 = matchLoop (take 25 s1) (take 25 s2)"

definition normalize :: "CIMDateTimeRep \<Rightarrow> CIMDateTimeRep" where
  "normalize rep =
     (if sign rep \<noteq> chr16 (CHR '':'') then
        (let hours = of_nat (utcOffset rep div 60) * HOUR;
             minutes = of_nat (utcOffset rep mod 60) * MINUTE;
             us = (if numWildcards rep < 10 then
                     (if sign rep = chr16 (CHR ''+'') then usec rep - (hours + minutes)
                      else usec rep + (hours + minutes))
                   else if numWildcards rep < 12 then
                     (if sign rep = chr16 (CHR ''+'') then usec rep - hours
                      else usec rep + hours)
                   else usec rep)
         in rep\<lparr>usec := us, utcOffset := 0, sign := chr16 (CHR ''+'')\<rparr>)
      else rep)"

definition toMicroSeconds :: "CIMDateTimeRep \<Rightarrow> u64" where
  "toMicroSeconds rep =
     (if sign rep = chr16 (CHR '':'') then usec rep else usec (normalize rep))"

definition dt_compare :: "CIMDateTimeRep \<Rightarrow> CIMDateTimeRep \<Rightarrow> dtException + int" where
  "dt_compare x y =
     (let xIsInterval = (sign x = chr16 (CHR '':'')); yIsInterval = (sign y = chr16 (CHR '':''))
      in if xIsInterval \<noteq> yIsInterval then Inl TypeMismatchException
         else if numWildcards x = 0 \<and> numWildcards y = 0 then
           (let xm = toMicroSeconds x; ym = toMicroSeconds y
            in if xm < ym then Inr (-1) else if xm > ym then Inr 1 else Inr 0)
         else if \<not> xIsInterval then
           Inr (matchTimeStampStrings (DateTimetoCStr (normalize x)) (DateTimetoCStr (normalize y)))
         else Inr (matchTimeStampStrings (DateTimetoCStr x) (DateTimetoCStr y)))"

definition dt_equal :: "CIMDateTimeRep \<Rightarrow> CIMDateTimeRep \<Rightarrow> dtException + bool" where
  "dt_equal x y = bindE (dt_compare x y) (\<lambda>r. Inr (r = 0))"

definition dt_less :: "CIMDateTimeRep \<Rightarrow> CIMDateTimeRep \<Rightarrow> dtException + bool" where
  "dt_less x y = bindE (dt_compare x y) (\<lambda>r. Inr (r < 0))"

definition dt_less_eq :: "CIMDateTimeRep \<Rightarrow> CIMDateTimeRep \<Rightarrow> dtException + bool" where
  "dt_less_eq x y = bindE (dt_compare x y) (\<lambda>r. Inr (r \<le> 0))"

definition dt_greater :: "CIMDateTimeRep \<Rightarrow> CIMDateTimeRep \<Rightarrow> dtException + bool" where
  "dt_greater x y = bindE (dt_compare x y) (\<lambda>r. Inr (r > 0))"

definition dt_greater_eq :: "CIMDateTimeRep \<Rightarrow> CIMDateTimeRep \<Rightarrow> dtException + bool" where
  "dt_greater_eq x y = bindE (dt_compare x y) (\<lambda>r. Inr (r \<ge> 0))"

definition dt_not_equal :: "CIMDateTimeRep \<Rightarrow> CIMDateTimeRep \<Rightarrow> dtException + bool" where
  "dt_not_equal x y = bindE (dt_compare x y) (\<lambda>r. Inr (r \<noteq> 0))"

subsection \<open>Arithmetic\<close>

definition isInterval :: "CIMDateTimeRep \<Rightarrow> bool" where
  "isInterval rep \<longleftrightarrow> sign rep = chr16 (CHR '':'')"

definition isTimeStamp :: "CIMDateTimeRep \<Rightarrow> bool" where
  "isTimeStamp rep \<longleftrightarrow> sign rep \<noteq> chr16 (CHR '':'')"

definition getDifference :: "CIMDateTimeRep \<Rightarrow> CIMDateTimeRep \<Rightarrow> dtException + u64" where
  "getDifference x y =
     (if isInterval x \<noteq> isInterval y then Inl InvalidDateTimeFormatException
      else Inr (toMicroSeconds y - toMicroSeconds x))"

text \<open>The assigning operators return the object they change.\<close>

definition dt_plus_assign :: "CIMDateTimeRep \<Rightarrow> CIMDateTimeRep \<Rightarrow> dtException + CIMDateTimeRep" where
  "dt_plus_assign this x =
     (if \<not> isInterval x then Inl TypeMismatchException
      else if isInterval this then Inr (this\<lparr>usec := usec this + usec x\<rparr>)
      else Inr (this\<lparr>usec := usec this + toMicroSeconds x\<rparr>))"

definition dt_plus :: "CIMDateTimeRep \<Rightarrow> CIMDateTimeRep \<Rightarrow> dtException + CIMDateTimeRep" where
  "dt_plus this x = (let result = this in dt_plus_assign result x)"

definition dt_minus :: "CIMDateTimeRep \<Rightarrow> CIMDateTimeRep \<Rightarrow> dtException + CIMDateTimeRep" where
  "dt_minus this dt =
     (if isInterval this \<and> \<not> isInterval dt then Inl TypeMismatchException
      else
        let x = toMicroSeconds this; y = toMicroSeconds dt
        in if x < y then Inl DateTimeOutOfRangeException
           else if isInterval this = isInterval dt then fromMicroseconds (x - y) True
           else bindE (fromMicroseconds (x - y) False) (\<lambda>tmp.
                  Inr (tmp\<lparr>sign := sign this, utcOffset := utcOffset this,
                           numWildcards := numWildcards this\<rparr>)))"

definition dt_minus_assign :: "CIMDateTimeRep \<Rightarrow> CIMDateTimeRep \<Rightarrow> dtException + CIMDateTimeRep" where
  "dt_minus_assign this x =
     (if \<not> isInterval x then Inl TypeMismatchException
      else if usec this < usec x then Inl DateTimeOutOfRangeException
      else if isInterval this then Inr (this\<lparr>usec := usec this - usec x\<rparr>)
      else Inr (this\<lparr>usec := usec this - toMicroSeconds x\<rparr>))"

definition dt_times_assign :: "CIMDateTimeRep \<Rightarrow> u64 \<Rightarrow> dtException + CIMDateTimeRep" where
  "dt_times_assign this x =
     (if \<not> isInterval this then Inl TypeMismatchException
      else Inr (this\<lparr>usec := usec this * x\<rparr>))"

definition dt_times :: "CIMDateTimeRep \<Rightarrow> u64 \<Rightarrow> dtException + CIMDateTimeRep" where
  "dt_times this x = (let result = this in dt_times_assign result x)"

definition dt_divide_assign :: "CIMDateTimeRep \<Rightarrow> u64 \<Rightarrow> dtException + CIMDateTimeRep" where
  "dt_divide_assign this x =
     (if \<not> isInterval this then Inl TypeMismatchException
      else if x = 0 then Inl DivideByZeroException
      else Inr (this\<lparr>usec := usec this div x\<rparr>))"

definition dt_divide :: "CIMDateTimeRep \<Rightarrow> u64 \<Rightarrow> dtException + CIMDateTimeRep" where
  "dt_divide this x = (let result = this in dt_divide_assign result x)"

definition dt_divide_interval :: "CIMDateTimeRep \<Rightarrow> CIMDateTimeRep \<Rightarrow> dtException + u64" where
  "dt_divide_interval this x =
     (if \<not> isInterval this \<or> \<not> isInterval x then Inl TypeMismatchException
      else if usec x = 0 then Inl DivideByZeroException
      else Inr (usec this div usec x))"

subsection \<open>The instant of a representation\<close>

text \<open>
  The microseconds of the UTC instant of a time stamp, and of the length of an interval, as an integer
  that does not wrap.
\<close>

definition instant :: "CIMDateTimeRep \<Rightarrow> int" where
  "instant rep =
     (if sign rep = chr16 (CHR '':'') then int (unat (usec rep))
      else if sign rep = chr16 (CHR ''+'') then int (unat (usec rep)) - int (utcOffset rep) * 60000000
      else int (unat (usec rep)) + int (utcOffset rep) * 60000000)"

lemma offset_micros: "of_nat (n div 60) * HOUR + of_nat (n mod 60) * MINUTE = (of_nat (n * 60000000) :: u64)"
proof -
  have "of_nat (n div 60) * HOUR + of_nat (n mod 60) * MINUTE =
    (of_nat (n div 60 * 3600000000 + n mod 60 * 60000000) :: u64)"
    by (simp add: HOUR_def MINUTE_def SECOND_def)
  moreover have "n div 60 * 3600000000 + n mod 60 * 60000000 = (60 * (n div 60) + n mod 60) * 60000000"
    unfolding add_mult_distrib by simp
  ultimately show ?thesis by (simp only: mult_div_mod_eq)
qed

lemma toMicroSeconds_instant:
  "numWildcards rep < 10 \<Longrightarrow> toMicroSeconds rep = of_int (instant rep)"
  unfolding toMicroSeconds_def normalize_def instant_def Let_def offset_micros by simp

lemma unat_of_int_small: "0 \<le> k \<Longrightarrow> k < 2 ^ 64 \<Longrightarrow> int (unat (of_int k :: u64)) = k"
  by (simp add: unsigned_of_int take_bit_int_eq_self_iff)

definition instantFits :: "CIMDateTimeRep \<Rightarrow> bool" where
  "instantFits rep \<longleftrightarrow> 0 \<le> instant rep \<and> instant rep < 2 ^ 64"

lemma dt_compare_instant:
  assumes "numWildcards x = 0" "numWildcards y = 0" "instantFits x" "instantFits y"
  shows "dt_compare x y =
    (if isInterval x \<noteq> isInterval y then Inl TypeMismatchException
     else Inr (sgn (instant x - instant y)))"
proof -
  have "int (unat (toMicroSeconds x)) = instant x" "int (unat (toMicroSeconds y)) = instant y"
    using assms unat_of_int_small[of "instant x"] unat_of_int_small[of "instant y"]
    by (simp_all add: toMicroSeconds_instant instantFits_def)
  then have "toMicroSeconds x < toMicroSeconds y \<longleftrightarrow> instant x < instant y"
    "toMicroSeconds y < toMicroSeconds x \<longleftrightarrow> instant y < instant x"
    by (simp_all add: word_less_def)
  then show ?thesis using assms(1,2)
    by (auto simp: dt_compare_def isInterval_def Let_def sgn_if)
qed

lemma plus_minus:
  assumes "isInterval i" "unat (usec t) + unat (usec i) < 2 ^ 64"
  shows "bindE (dt_plus t i) (\<lambda>r. dt_minus_assign r i) = Inr t"
proof -
  have "unat (usec t + usec i) = unat (usec t) + unat (usec i)" using assms(2) by (intro unat_add_no_wrap) simp
  then have "\<not> usec t + usec i < usec i" by (simp add: word_less_unat)
  then show ?thesis using assms(1)
    by (simp add: dt_plus_def dt_plus_assign_def dt_minus_assign_def isInterval_def toMicroSeconds_def)
qed

lemma minus_differ:
  assumes "isTimeStamp t" "isInterval i" "numWildcards t < 10"
    "dt_minus t i = Inr r" "dt_minus_assign t i = Inr r'"
  shows "usec r' - usec r = (if sign t = chr16 (CHR ''+'') then of_nat (utcOffset t) * MINUTE
     else - (of_nat (utcOffset t) * MINUTE)) \<and> sign r = sign t \<and> utcOffset r = utcOffset t"
proof -
  have "usec r = toMicroSeconds t - usec i" "sign r = sign t" "utcOffset r = utcOffset t"
    using assms by (auto simp: dt_minus_def isTimeStamp_def isInterval_def fromMicroseconds_def
      toMicroSeconds_def Let_def split: if_splits)
  moreover have "usec r' = usec t - usec i"
    using assms by (auto simp: dt_minus_assign_def isTimeStamp_def isInterval_def toMicroSeconds_def split: if_splits)
  ultimately show ?thesis using assms(1,3)
    by (auto simp: toMicroSeconds_instant instant_def isTimeStamp_def MINUTE_def SECOND_def)
qed

subsection \<open>Properties\<close>



lemma compare_wraps_before_epoch:
  "dt_compare \<lparr>usec = 0, utcOffset = 60, sign = chr16 (CHR ''+''), numWildcards = 0\<rparr>
     \<lparr>usec = TEN_THOUSAND_YEARS - 1, utcOffset = 0, sign = chr16 (CHR ''+''), numWildcards = 0\<rparr> = Inr 1"
  by (simp add: dt_compare_def toMicroSeconds_def normalize_def HOUR_def MINUTE_def SECOND_def
      TEN_THOUSAND_YEARS_def Let_def)

text \<open>
  Subtracting with \<open>operator-=\<close> an interval that \<open>operator+\<close> added gives the value back, when the
  sum of the microseconds fits 64 bits.
\<close>

lemma plus_then_minus_assign:
  assumes "isInterval i" "unat (usec t) + unat (usec i) < 2 ^ 64"
  shows "bindE (dt_plus t i) (\<lambda>r. dt_minus_assign r i) = Inr t"
  by (rule plus_minus[OF assms])

lemma plus_then_minus_assign_witness:
  "let t = \<lparr>usec = 39600000000, utcOffset = 60, sign = chr16 (CHR ''+''), numWildcards = 0\<rparr>;
       i = \<lparr>usec = 5000000, utcOffset = 0, sign = chr16 (CHR '':''), numWildcards = 0\<rparr>
   in bindE (dt_plus t i) (\<lambda>r. dt_minus_assign r i) = Inr t"
  unfolding Let_def by (rule plus_then_minus_assign) (simp_all add: isInterval_def)

text \<open>
  \<open>operator-\<close> and \<open>operator-=\<close> disagree on a time stamp with a UTC offset: \<open>operator-\<close> subtracts
  from the normalized microseconds and then puts the sign and the offset back, so its result is off
  by the offset, while \<open>operator-=\<close> subtracts from the microseconds as stored.
\<close>

lemma minus_operators_differ:
  assumes "isTimeStamp t" "isInterval i" "numWildcards t < 10"
    "dt_minus t i = Inr r" "dt_minus_assign t i = Inr r'"
  shows "usec r' - usec r = (if sign t = chr16 (CHR ''+'') then of_nat (utcOffset t) * MINUTE
     else - (of_nat (utcOffset t) * MINUTE)) \<and> sign r = sign t \<and> utcOffset r = utcOffset t"
  by (rule minus_differ[OF assms])

lemma minus_operators_differ_witness:
  "\<exists>t i r r'. dt_minus t i = Inr r \<and> dt_minus_assign t i = Inr r' \<and> usec i = 0 \<and> r' = t \<and>
     usec r' - usec r = of_nat (utcOffset t) * MINUTE \<and> r \<noteq> r'"
proof -
  let ?t = "\<lparr>usec = 43200000000, utcOffset = 60, sign = chr16 (CHR ''+''), numWildcards = 0\<rparr>"
  let ?i = "\<lparr>usec = 0, utcOffset = 0, sign = chr16 (CHR '':''), numWildcards = 0\<rparr>"
  have a: "isTimeStamp ?t" "isInterval ?i" "numWildcards ?t < 10"
    by (simp_all add: isTimeStamp_def isInterval_def)
  have m: "dt_minus ?t ?i = Inr (?t\<lparr>usec := 39600000000\<rparr>)" "dt_minus_assign ?t ?i = Inr ?t"
    by (simp_all add: dt_minus_def dt_minus_assign_def toMicroSeconds_def normalize_def isInterval_def
      HOUR_def MINUTE_def SECOND_def fromMicroseconds_def TEN_THOUSAND_YEARS_def Let_def)
  from minus_operators_differ[OF a m] show ?thesis
    by (intro exI[of _ ?t] exI[of _ ?i] exI[of _ "?t\<lparr>usec := 39600000000\<rparr>"] exI[of _ ?t])
      (use m in \<open>simp add: MINUTE_def SECOND_def\<close>)
qed

end
