(* ===== verification/DateTimeText.thy ===== *)
theory DateTimeText
  imports DateTime
begin

section \<open>CIMDateTime: the text format\<close>

text \<open>
  What the parser of the 25 character format accepts, what the printer writes, and that the two are
  inverse to each other.
\<close>

abbreviation star :: u16 where "star \<equiv> chr16 (CHR ''*'')"

subsection \<open>Digits\<close>

lemma tens_nth: "n < 8 \<Longrightarrow> tens ! n = 10 ^ n"
proof -
  assume "n < 8"
  then have "n = 0 \<or> n = 1 \<or> n = 2 \<or> n = 3 \<or> n = 4 \<or> n = 5 \<or> n = 6 \<or> n = 7" by arith
  then show ?thesis by (elim disjE) (simp_all add: tens_def)
qed

lemma length_intToChar16Loop [simp]: "length (intToChar16Loop x n) = n"
  by (induction x n rule: intToChar16Loop.induct) (simp_all add: Let_def)

lemma intToChar16Loop_snoc:
  "n < 8 \<Longrightarrow> c \<le> 9 \<Longrightarrow> v < 10 ^ n \<Longrightarrow> intToChar16Loop (10 * v + c) (Suc n) = intToChar16Loop v n @ [of_nat (c + 48)]"
proof (induction n arbitrary: v)
  case (Suc n)
  have "(10 * v + c) div 10 ^ Suc n = v div 10 ^ n" 
    using Suc.prems by (simp add: div_mult2_eq)
  moreover have "(10 * v + c) mod 10 ^ Suc n = 10 * (v mod 10 ^ n) + c"
    using Suc.prems by (simp add: mod_mult2_eq)
  moreover have "tens ! Suc n = 10 ^ Suc n" "tens ! n = 10 ^ n"
    using Suc.prems by (simp_all only: tens_nth)
  moreover have "intToChar16Loop (10 * (v mod 10 ^ n) + c) (Suc n) =
    intToChar16Loop (v mod 10 ^ n) n @ [of_nat (c + 48)]"
    using Suc by simp
  ultimately show ?case
    by (simp only: intToChar16Loop.simps(2)[of _ "Suc n"] intToChar16Loop.simps(2)[of v n] Let_def append_Cons)
qed (simp add: tens_def)

lemma digit16: "(ucast (c :: u16) - 48 :: u32) > 9 \<longleftrightarrow> c - 48 > 9"
  "\<not> c - 48 > 9 \<Longrightarrow> unat (ucast (c :: u16) - 48 :: u32) = unat (c - 48)"
  "\<not> c - 48 > 9 \<Longrightarrow> c = of_nat (unat (c - 48) + 48)"
proof -
  have 1: "unat (c - 48) = (if 48 \<le> unat c then unat c - 48 else unat c + 2 ^ 16 - 48)"
    by (simp add: unat_sub_if')
  have 2: "unat (ucast c - 48 :: u32) = (if 48 \<le> unat c then unat c - 48 else unat c + 2 ^ 32 - 48)"
    by (simp add: unat_sub_if' unat_ucast_up)
  show "(ucast c - 48 :: u32) > 9 \<longleftrightarrow> c - 48 > 9"
    unfolding word_less_unat 1 2 by simp
  assume "\<not> c - 48 > 9"
  then have c: "48 \<le> unat c" unfolding word_less_unat 1 by (simp split: if_splits)
  then show "unat (ucast c - 48 :: u32) = unat (c - 48)" unfolding 1 2 by simp
  show "c = of_nat (unat (c - 48) + 48)" unfolding 1 using c by simp
qed

lemma strToUint32_n2_loop: "strToUint32_n2 s = strToUint32Loop s 2 0 0"
  unfolding strToUint32_n2_def numeral_2_eq_2 Let_def strToUint32Loop.simps digit16(1)
  by (simp add: digit16(2) tens_def)

lemma strToUint32Loop_digits:
  "strToUint32Loop s n m x0 = Some x \<Longrightarrow> n + m \<le> 8 \<Longrightarrow> n \<le> length s \<Longrightarrow>
     \<exists>v < 10 ^ n. x = x0 + 10 ^ m * v \<and> intToChar16Loop v n = take n s"
proof (induction n arbitrary: m x0)
  case (Suc n)
  let ?c = "s ! n - 48"
  have c: "\<not> ?c > 9" using Suc.prems by (auto simp: peek_def Let_def split: if_splits)
  with Suc.prems have "strToUint32Loop s n (Suc m) (x0 + tens ! m * unat ?c) = Some x"
    by (simp add: Let_def peek_def)
  from Suc.IH[OF this] Suc.prems obtain v
    where v: "v < 10 ^ n" "x = x0 + 10 ^ m * unat ?c + 10 ^ Suc m * v"
      "intToChar16Loop v n = take n s"
    by (auto simp: tens_nth)
  have c9: "unat ?c \<le> 9" using c by (simp add: word_less_unat)
  have "intToChar16Loop (10 * v + unat ?c) (Suc n) = take (Suc n) s"
    using intToChar16Loop_snoc[OF _ c9 v(1)] v(3) Suc.prems digit16(3)[OF c]
    by (simp add: take_Suc_conv_app_nth del: intToChar16Loop.simps of_nat_add)
  moreover have "10 * v + unat ?c < 10 ^ Suc n" using v(1) c9 by simp
  moreover have "x = x0 + 10 ^ m * (10 * v + unat ?c)" using v(2) by (simp add: algebra_simps)
  ultimately show ?case by blast
qed simp

lemma upt_100: "[0..<100] = [0, 1] @ [2..<100]"
  by (simp add: upt_conv_Cons numeral_2_eq_2)

lemma intToChar16Loop_2: "intToChar16Loop x 2 = [of_nat (x div 10 + 48), of_nat (x mod 10 + 48)]"
  by (simp add: numeral_2_eq_2 tens_def Let_def)

lemma intToStrTable_map: "intToStrTable = map (\<lambda>x. intToChar16Loop x 2) [0..<100]"
  unfolding upt_100 intToChar16Loop_2
  by (simp add: intToStrTable_def units_def upt_rec_numeral)

lemma intToChar16String_loop: "n = 2 \<longrightarrow> x < 100 \<Longrightarrow> intToChar16String x n = intToChar16Loop x n"
  by (auto simp: intToChar16String_def intToStrTable_map)

lemma intToChar16Loop_chars:
  "x < 10 ^ n \<Longrightarrow> n \<le> 8 \<Longrightarrow> c \<in> set (intToChar16Loop x n) \<Longrightarrow> \<exists>d \<le> 9. c = of_nat (d + 48)"
proof (induction n arbitrary: x)
  case (Suc n)
  have d: "x div 10 ^ n \<le> 9"
    using Suc.prems(1) by (simp add: less_mult_imp_div_less mult.commute flip: less_Suc_eq_le)
  have "tens ! n = 10 ^ n" using Suc.prems by (simp only: tens_nth)
  then have "c = of_nat (x div 10 ^ n + 48) \<or> c \<in> set (intToChar16Loop (x mod 10 ^ n) n)"
    using Suc.prems(3) by (simp add: Let_def del: of_nat_add)
  then show ?case
  proof
    assume "c = of_nat (x div 10 ^ n + 48)"
    with d show ?thesis by blast
  next
    assume "c \<in> set (intToChar16Loop (x mod 10 ^ n) n)"
    then show ?thesis using Suc.IH[of "x mod 10 ^ n"] Suc.prems(2) by simp
  qed
qed simp

lemma digit_not_dot: "d \<le> 9 \<Longrightarrow> of_nat (d + 48) \<noteq> chr16 (CHR ''.'')"
  using unat_of_nat_small[where 'a=16, of "d + 48"] by (auto simp del: of_nat_add)

subsection \<open>The wildcard fill\<close>

definition starMap :: "u16 \<Rightarrow> u16" where
  "starMap c = (if c \<noteq> chr16 (CHR ''.'') then star else c)"

lemma length_starLoop [simp]: "length (starLoop k f d) = length d"
  by (induction k f d rule: starLoop.induct) simp_all

lemma starLoop_nth:
  "i < length d \<Longrightarrow> f < length d \<Longrightarrow> k \<le> f + 1 \<Longrightarrow>
     starLoop k f d ! i = (if f + 1 - k \<le> i \<and> i \<le> f then starMap (d ! i) else d ! i)"
proof (induction k arbitrary: f d)
  case (Suc k)
  show ?case
  proof (cases f)
    case 0
    then show ?thesis using Suc.prems by (auto simp: starMap_def nth_list_update)
  next
    case (Suc g)
    then show ?thesis using Suc.prems Suc.IH[of _ g]
      by (auto simp: starMap_def nth_list_update)
  qed
qed auto

lemma starFill_eq:
  assumes "length d = 25" "k = (if nw > 6 then nw + 1 else nw)" "nw \<le> 20"
  shows "starFill nw d = take (21 - k) d @ map starMap (take k (drop (21 - k) d)) @ drop 21 d"
proof (rule nth_equalityI)
  show "length (starFill nw d) = length (take (21 - k) d @ map starMap (take k (drop (21 - k) d)) @ drop 21 d)"
    using assms by (simp add: starFill_def)
  fix i assume "i < length (starFill nw d)"
  then have i: "i < 25" using assms by (simp add: starFill_def)
  have k: "k \<le> 21" using assms by auto
  have "starFill nw d ! i = (if 21 - k \<le> i \<and> i \<le> 20 then starMap (d ! i) else d ! i)"
    unfolding starFill_def using i assms k by (subst starLoop_nth) auto
  then show "starFill nw d ! i = (take (21 - k) d @ map starMap (take k (drop (21 - k) d)) @ drop 21 d) ! i"
    using i k assms(1) by (auto simp: nth_append min_def not_less)
qed

lemma starMap_digits: "x < 10 ^ n \<Longrightarrow> n \<le> 8 \<Longrightarrow> map starMap (intToChar16Loop x n) = replicate n star"
proof -
  assume "x < 10 ^ n" "n \<le> 8"
  then have "c \<in> set (intToChar16Loop x n) \<Longrightarrow> starMap c = star" for c
    using intToChar16Loop_chars digit_not_dot by (fastforce simp: starMap_def)
  then have "map starMap (intToChar16Loop x n) = map (\<lambda>_. star) (intToChar16Loop x n)" by simp
  then show ?thesis by (simp add: map_replicate_const)
qed

subsection \<open>Parsed components\<close>

lemma allAsterisks_replicate: "n \<le> length s \<Longrightarrow> allAsterisks s n \<longleftrightarrow> take n s = replicate n star"
  by (auto simp: allAsterisks_def list_all_iff list_eq_iff_nth_eq peek_def)

lemma strToUint32_digits:
  assumes "strToUint32 s n = Some x" "n \<le> 8" "n \<le> length s"
  shows "x < 10 ^ n \<and> intToChar16Loop x n = take n s"
proof -
  have "strToUint32Loop s n 0 0 = Some x"
    using assms(1) by (cases "n = 2") (simp_all add: strToUint32_def strToUint32_n2_loop)
  from strToUint32Loop_digits[OF this] assms show ?thesis by simp
qed

lemma parseComponent_Inr:
  assumes "parseComponent s n pw = Inr (x, s', pw')" "n \<le> 8" "n \<le> length s"
  shows "s' = drop n s \<and>
    (pw' \<and> x = WILDCARD \<and> take n s = replicate n star \<or>
     \<not> pw \<and> \<not> pw' \<and> x < 10 ^ n \<and> take n s = intToChar16Loop x n)"
  using assms strToUint32_digits[of s n]
  by (auto simp: parseComponent_def allAsterisks_replicate split: if_splits option.splits)

lemma intToChar16Loop_take:
  "v < 10 ^ i \<Longrightarrow> i + k \<le> 8 \<Longrightarrow> take i (intToChar16Loop (v * 10 ^ k) (i + k)) = intToChar16Loop v i"
proof (induction i arbitrary: v)
  case (Suc i)
  have t: "tens ! (i + k) = 10 ^ (i + k)" "tens ! i = 10 ^ i"
    using Suc.prems by (simp_all only: tens_nth)
  have "v * 10 ^ k div 10 ^ (i + k) = v div 10 ^ i"
    by (simp add: power_add)
  moreover have "v * 10 ^ k mod 10 ^ (i + k) = (v mod 10 ^ i) * 10 ^ k"
    by (simp add: power_add mult_mod_left)
  ultimately show ?case using Suc.IH[of "v mod 10 ^ i"] Suc.prems(2) t
    by (simp add: Let_def del: of_nat_add)
qed simp

lemma parseMicrosecondsLoop_Inr:
  "parseMicrosecondsLoop s k (v * 10 ^ k) = Inr (x, i) \<Longrightarrow> k \<le> 6 \<Longrightarrow> 6 \<le> length s \<Longrightarrow>
     v < 10 ^ (6 - k) \<Longrightarrow> intToChar16Loop v (6 - k) = take (6 - k) s \<Longrightarrow>
     i \<le> 6 \<and> x < 10 ^ 6 \<and> take i (intToChar16Loop x 6) = take i s \<and>
     take (6 - i) (drop i s) = replicate (6 - i) star"
proof (induction k arbitrary: v)
  case (Suc k)
  let ?c = "s ! (5 - k) - 48"
  have m: "microMult ! (5 - k) = 10 ^ k"
  proof -
    have "k = 0 \<or> k = 1 \<or> k = 2 \<or> k = 3 \<or> k = 4 \<or> k = 5" using Suc.prems(2) by arith
    then show ?thesis by (elim disjE) (simp_all add: microMult_def)
  qed
  have pk: "peek s (5 - k) = s ! (5 - k)" using Suc.prems(2,3) by (auto simp: peek_def)
  show ?case
  proof (cases "?c > 9")
    case False
    have c9: "unat ?c \<le> 9" using False by (simp add: word_less_unat)
    have "(ucast (s ! (5 - k)) - 48 :: u32) < 10"
      using c9 digit16(2)[OF False] by (simp add: word_less_unat)
    then have "parseMicrosecondsLoop s k ((10 * v + unat ?c) * 10 ^ k) = Inr (x, i)"
      using Suc.prems(1,2,3) m digit16(2)[OF False] by (simp add: Let_def pk algebra_simps)
    moreover have "6 - k = Suc (6 - Suc k)" using Suc.prems(2) by simp
    moreover from this have "10 * v + unat ?c < 10 ^ (6 - k)" using c9 Suc.prems(4) by simp
    moreover have "intToChar16Loop (10 * v + unat ?c) (6 - k) = take (6 - k) s"
      using intToChar16Loop_snoc[OF _ c9 Suc.prems(4)] Suc.prems(2,3,5) digit16(3)[OF False]
        \<open>6 - k = Suc (6 - Suc k)\<close>
      by (simp add: take_Suc_conv_app_nth del: intToChar16Loop.simps of_nat_add)
    ultimately show ?thesis using Suc.IH[of "10 * v + unat ?c"] Suc.prems(2,3) by simp
  next
    case True
    then have "\<not> (ucast (s ! (5 - k)) - 48 :: u32) < 10"
      using digit16(1)[of "s ! (5 - k)"] by (auto simp: word_less_unat)
    then have "x = v * 10 ^ Suc k \<and> i = 5 - k \<and> take (Suc k) (drop (5 - k) s) = replicate (Suc k) star"
      using Suc.prems(1,2,3)
      by (auto simp: Let_def pk allAsterisks_replicate split: if_splits)
    moreover have "6 - Suc k = 5 - k" "6 - (5 - k) = Suc k" "5 - k + Suc k = 6" using Suc.prems(2) by auto
    moreover have "v * 10 ^ Suc k < 10 ^ (6 - Suc k) * 10 ^ Suc k" using Suc.prems(4) by simp
    then have "v * 10 ^ Suc k < 10 ^ 6"
      unfolding power_add[symmetric] \<open>6 - Suc k = 5 - k\<close> \<open>5 - k + Suc k = 6\<close> .
    ultimately show ?thesis
      using intToChar16Loop_take[of v "5 - k" "Suc k"] Suc.prems(4,5) by simp
  qed
qed (simp add: word_less_unat)

lemma parseMicroseconds_Inr:
  assumes "parseMicroseconds s pw = Inr (x, i, s')" "6 \<le> length s"
  shows "s' = drop 6 s \<and> i \<le> 6 \<and> x < 10 ^ 6 \<and> take i (intToChar16Loop x 6) = take i s \<and>
    take (6 - i) (drop i s) = replicate (6 - i) star \<and> (pw \<longrightarrow> s ! 0 = star)"
  using assms parseMicrosecondsLoop_Inr[of s 6 0 x i]
  by (auto simp: parseMicroseconds_def bindE_eq_Inr peek_def split: if_splits)


subsection \<open>The microseconds and their fields\<close>

lemma unit_values [simp]:
  "unat SECOND = 1000000" "unat MINUTE = 60000000" "unat HOUR = 3600000000" "unat DAY = 86400000000"
  by (simp_all add: SECOND_def MINUTE_def HOUR_def DAY_def)

definition totalMicros :: "nat \<Rightarrow> nat \<Rightarrow> nat \<Rightarrow> nat \<Rightarrow> nat \<Rightarrow> nat" where
  "totalMicros days hours minutes seconds us =
     us + seconds * 1000000 + minutes * 60000000 + hours * 3600000000 + days * 86400000000"

definition inFields :: "nat \<Rightarrow> nat \<Rightarrow> nat \<Rightarrow> nat \<Rightarrow> nat \<Rightarrow> bool" where
  "inFields days hours minutes seconds us \<longleftrightarrow>
     days < 100000000 \<and> hours < 24 \<and> minutes < 60 \<and> seconds < 60 \<and> us < 1000000"

lemma usec_total:
  "of_nat us + of_nat seconds * SECOND + of_nat minutes * MINUTE + of_nat hours * HOUR +
     of_nat days * DAY = (of_nat (totalMicros days hours minutes seconds us) :: u64)"
  by (simp add: totalMicros_def SECOND_def MINUTE_def HOUR_def DAY_def)

lemma totalMicros_fields:
  assumes "inFields d h m s us"
  shows "totalMicros d h m s us div 86400000000 = d"
    "totalMicros d h m s us div 3600000000 mod 24 = h"
    "totalMicros d h m s us div 60000000 mod 60 = m"
    "totalMicros d h m s us div 1000000 mod 60 = s"
    "totalMicros d h m s us mod 1000000 = us"
    "totalMicros d h m s us < d * 86400000000 + 86400000000"
proof -
  let ?N = "totalMicros d h m s us"
  note b = assms[unfolded inFields_def]
  have q: "?N div 86400000000 = d" "?N div 3600000000 = h + 24 * d"
    "?N div 60000000 = m + 60 * (h + 24 * d)" "?N div 1000000 = s + 60 * (m + 60 * (h + 24 * d))"
    by (rule div_eqI_nat; use b in \<open>simp add: totalMicros_def\<close>)+
  show "?N div 86400000000 = d" by (rule q)
  show "?N div 3600000000 mod 24 = h" unfolding q mod_mult_self2 using b by simp
  show "?N div 60000000 mod 60 = m" unfolding q mod_mult_self2 using b by simp
  show "?N div 1000000 mod 60 = s" unfolding q mod_mult_self2 using b by simp
  have e: "?N = us + 1000000 * (s + 60 * (m + 60 * (h + 24 * d)))" by (simp add: totalMicros_def)
  show "?N mod 1000000 = us" unfolding e mod_mult_self2 using b by simp
  show "?N < d * 86400000000 + 86400000000" using b by (simp add: totalMicros_def)
qed

lemma unat_totalMicros:
  "inFields d h m s us \<Longrightarrow> unat (of_nat (totalMicros d h m s us) :: u64) = totalMicros d h m s us"
  using totalMicros_fields(6)[of d h m s us]
  by (intro unat_of_nat_small) (simp add: inFields_def)

lemma splitTime_totalMicros:
  "inFields d h m s us \<Longrightarrow> splitTime (of_nat (totalMicros d h m s us)) = (d, h, m, s, us)"
  unfolding splitTime_def
  by (simp add: unat_div unat_mod unat_totalMicros totalMicros_fields del: of_nat_add)


subsection \<open>The printed text\<close>

lemma starFill_components:
  assumes "length P + length Q = 14" "Q \<noteq> []" "length M = 6" "length T = 4"
  shows "starFill (length Q + 6) (P @ Q @ [chr16 (CHR ''.'')] @ M @ T) =
    P @ map starMap Q @ [chr16 (CHR ''.'')] @ map starMap M @ T"
proof -
  have q: "length Q + 6 > 6" "length Q + 6 \<le> 20" using assms by auto
  have "21 - (length Q + 6 + 1) = length P" using assms by simp
  then show ?thesis
    using q assms
    by (subst starFill_eq[where k = "length Q + 7"]) (auto simp: starMap_def)
qed

lemma starFill_micros:
  assumes "length P = 14" "length M = 6" "length T = 4" "i \<le> 6"
  shows "starFill (6 - i) (P @ [chr16 (CHR ''.'')] @ M @ T) =
    P @ [chr16 (CHR ''.'')] @ take i M @ map starMap (drop i M) @ T"
proof -
  have "21 - (6 - i) = 15 + i" using assms by simp
  then show ?thesis
    using assms by (subst starFill_eq[where k = "6 - i"]) auto
qed

lemma checkComponent_Inr:
  "checkComponent x bad dflt w nw = Inr (v, nw') \<longleftrightarrow>
     (x = WILDCARD \<and> v = dflt \<and> nw' = (if nw = 0 then w else nw)) \<or>
     (x \<noteq> WILDCARD \<and> \<not> bad x \<and> v = x \<and> nw' = nw)"
  by (auto simp: checkComponent_def)

definition timeStampText ::
  "nat \<times> nat \<times> nat \<Rightarrow> nat \<Rightarrow> nat \<Rightarrow> nat \<Rightarrow> nat \<Rightarrow> u16 \<Rightarrow> nat \<Rightarrow> pstr" where
  "timeStampText date h m s us sg offset =
     (case date of (year, month, day) \<Rightarrow>
        intToChar16Loop year 4 @ intToChar16Loop month 2 @ intToChar16Loop day 2 @
        intToChar16Loop h 2 @ intToChar16Loop m 2 @ intToChar16Loop s 2 @ [chr16 (CHR ''.'')] @
        intToChar16Loop us 6 @ [sg] @ intToChar16Loop offset 3)"

lemma toChar16Str_timeStamp:
  assumes v: "validDate (y, mo, d)" and y: "y \<le> 9999"
    and f: "h < 24" "m < 60" "s < 60" "us < 1000000"
    and sg: "sg \<noteq> chr16 (CHR '':'')"
  shows "toChar16Str
      \<lparr>usec = of_nat (totalMicros (toJulianDay y mo d - JULIAN_ONE_BCE) h m s us),
       utcOffset = offset, sign = sg, numWildcards = nw\<rparr> =
    starFill nw (timeStampText (y, mo, d) h m s us sg offset)"
proof -
  let ?days = "toJulianDay y mo d - JULIAN_ONE_BCE"
  have b: "JULIAN_ONE_BCE \<le> toJulianDay y mo d" "toJulianDay y mo d < JULIAN_ONE_BCE + 3652425"
    using toJulianDay_bounds[OF v] y by auto
  then have i: "inFields ?days h m s us" using f by (simp add: inFields_def)
  have jd: "fromJulianDay (?days + JULIAN_ONE_BCE) = (y, mo, d)"
    using fromJulianDay_toJulianDay[OF v] b by simp
  have "mo < 100" "d < 100" using v month_cases[of mo]
    by (auto simp: validDate_def getDaysPerMonth_def split: if_splits)
  then show ?thesis
    unfolding toChar16Str_def
    using sg f by (simp add: splitTime_totalMicros[OF i] jd timeStampText_def intToChar16String_loop units_def)
qed

lemma toChar16Str_interval:
  assumes "inFields d h m s us"
  shows "toChar16Str
      \<lparr>usec = of_nat (totalMicros d h m s us), utcOffset = 0, sign = chr16 (CHR '':''), numWildcards = nw\<rparr> =
    starFill nw (intToChar16Loop d 8 @ intToChar16Loop h 2 @ intToChar16Loop m 2 @ intToChar16Loop s 2 @
      [chr16 (CHR ''.'')] @ intToChar16Loop us 6 @ units '':000'')"
  unfolding toChar16Str_def
  using assms by (simp add: splitTime_totalMicros[OF assms] intToChar16String_loop units_def inFields_def)

subsection \<open>The text that the parser reads\<close>

lemma split_drop: "drop a s = take b (drop a s) @ drop (a + b) s"
  by (metis append_take_drop_id drop_drop add.commute)

lemma timestamp_pieces:
  "length s = 25 \<Longrightarrow> s = take 4 s @ take 2 (drop 4 s) @ take 2 (drop 6 s) @ take 2 (drop 8 s) @
    take 2 (drop 10 s) @ take 2 (drop 12 s) @ [s ! 14] @ take 6 (drop 15 s) @ [s ! 21] @ drop 22 s"
  using split_drop[of 0 s 4] split_drop[of 4 s 2] split_drop[of 6 s 2] split_drop[of 8 s 2]
    split_drop[of 10 s 2] split_drop[of 12 s 2] split_drop[of 15 s 6]
    Cons_nth_drop_Suc[of 14 s] Cons_nth_drop_Suc[of 21 s] by simp

lemma interval_pieces:
  "length s = 25 \<Longrightarrow> s = take 8 s @ take 2 (drop 8 s) @
    take 2 (drop 10 s) @ take 2 (drop 12 s) @ [s ! 14] @ take 6 (drop 15 s) @ [s ! 21] @ drop 22 s"
  using split_drop[of 0 s 8] split_drop[of 8 s 2]
    split_drop[of 10 s 2] split_drop[of 12 s 2] split_drop[of 15 s 6]
    Cons_nth_drop_Suc[of 14 s] Cons_nth_drop_Suc[of 21 s] by simp

definition compText :: "nat \<Rightarrow> nat \<Rightarrow> pstr" where
  "compText n x = (if x = WILDCARD then replicate n star else intToChar16Loop x n)"

lemma parseComponent_text:
  assumes "parseComponent s n pw = Inr (x, s', pw')" "n \<le> 8" "n \<le> length s"
  shows "s' = drop n s" "take n s = compText n x" "pw' \<longleftrightarrow> x = WILDCARD" "pw \<longrightarrow> x = WILDCARD"
    "x \<noteq> WILDCARD \<longrightarrow> x < 10 ^ n"
proof -
  have "(10 :: nat) ^ n \<le> 10 ^ 8" using assms(2) by (intro power_increasing) auto
  then have "x < 10 ^ n \<Longrightarrow> x \<noteq> WILDCARD" by (auto simp: WILDCARD_def)
  then show "s' = drop n s" "take n s = compText n x" "pw' \<longleftrightarrow> x = WILDCARD" "pw \<longrightarrow> x = WILDCARD"
    "x \<noteq> WILDCARD \<longrightarrow> x < 10 ^ n"
    using parseComponent_Inr[OF assms] by (auto simp: compText_def)
qed

definition microsText :: "nat \<Rightarrow> nat \<Rightarrow> pstr" where
  "microsText us i = take i (intToChar16Loop us 6) @ replicate (6 - i) star"

lemma parseMicroseconds_text:
  assumes "parseMicroseconds s pw = Inr (x, i, s')" "6 \<le> length s"
  shows "s' = drop 6 s" "i \<le> 6" "x < 10 ^ 6" "take 6 s = microsText x i" "pw \<longrightarrow> i = 0"
proof -
  note r = parseMicroseconds_Inr[OF assms]
  then show "s' = drop 6 s" "i \<le> 6" "x < 10 ^ 6" by auto
  have "take 6 s = take i s @ take (6 - i) (drop i s)" using r by (metis le_add_diff_inverse take_add)
  then show "take 6 s = microsText x i" using r by (simp add: microsText_def)
  show "pw \<longrightarrow> i = 0"
  proof
    assume "pw"
    then have "s ! 0 = star" using r by simp
    moreover have "s ! 0 \<noteq> star" if "0 < i"
    proof -
      have "s ! 0 = take i (intToChar16Loop x 6) ! 0" using r that by simp
      then have "s ! 0 \<in> set (intToChar16Loop x 6)" using that by simp
      then obtain d where "d \<le> 9" "s ! 0 = of_nat (d + 48)"
        using intToChar16Loop_chars[of x 6 "s ! 0"] r by auto
      then show ?thesis using unat_of_nat_small[where 'a=16, of "d + 48"] by (auto simp del: of_nat_add)
    qed
    ultimately show "i = 0" by blast
  qed
qed

lemma parseTimeStamp_text:
  assumes p: "parseTimeStamp sg s = Inr r" and l: "length s = 25"
  obtains y mo d h m se us i off where
    "s = compText 4 y @ compText 2 mo @ compText 2 d @ compText 2 h @ compText 2 m @ compText 2 se @
       [chr16 (CHR ''.'')] @ microsText us i @ [s ! 21] @ intToChar16Loop off 3"
    "y = WILDCARD \<longrightarrow> mo = WILDCARD" "mo = WILDCARD \<longrightarrow> d = WILDCARD" "d = WILDCARD \<longrightarrow> h = WILDCARD"
    "h = WILDCARD \<longrightarrow> m = WILDCARD" "m = WILDCARD \<longrightarrow> se = WILDCARD" "se = WILDCARD \<longrightarrow> i = 0"
    "i \<le> 6" "us < 10 ^ 6" "off < 1000"
    "setTimeStamp y mo d h m se us i (if sg = chr16 (CHR ''+'') then int off else - int off) = Inr r"
proof -
  from p obtain y mo d h m se us i off s1 s2 s3 s4 s5 s6 s7 w1 w2 w3 w4 w5 w6 where
    c: "parseComponent s 4 False = Inr (y, s1, w1)" "parseComponent s1 2 w1 = Inr (mo, s2, w2)"
      "parseComponent s2 2 w2 = Inr (d, s3, w3)" "parseComponent s3 2 w3 = Inr (h, s4, w4)"
      "parseComponent s4 2 w4 = Inr (m, s5, w5)" "parseComponent s5 2 w5 = Inr (se, s6, w6)"
    and dot: "peek s6 0 = chr16 (CHR ''.'')"
    and mi: "parseMicroseconds (drop 1 s6) w6 = Inr (us, i, s7)"
    and of: "strToUint32 (drop 1 s7) 3 = Some off"
    and set: "setTimeStamp y mo d h m se us i (if sg = chr16 (CHR ''+'') then int off else - int off) = Inr r"
    unfolding parseTimeStamp_def
    by (auto simp: bindE_eq_Inr split: if_splits option.splits)
  have s1: "s1 = drop 4 s" using parseComponent_text(1)[OF c(1)] l by simp
  have s2: "s2 = drop 6 s" using parseComponent_text(1)[OF c(2)] l s1 by simp
  have s3: "s3 = drop 8 s" using parseComponent_text(1)[OF c(3)] l s2 by simp
  have s4: "s4 = drop 10 s" using parseComponent_text(1)[OF c(4)] l s3 by simp
  have s5: "s5 = drop 12 s" using parseComponent_text(1)[OF c(5)] l s4 by simp
  have s6: "s6 = drop 14 s" using parseComponent_text(1)[OF c(6)] l s5 by simp
  have s7: "s7 = drop 21 s" using parseMicroseconds_text(1)[OF mi] l s6 by simp
  note t = parseComponent_text(2-4)[OF c(1)] parseComponent_text(2-4)[OF c(2)]
    parseComponent_text(2-4)[OF c(3)] parseComponent_text(2-4)[OF c(4)]
    parseComponent_text(2-4)[OF c(5)] parseComponent_text(2-4)[OF c(6)]
  have o: "off < 1000 \<and> intToChar16Loop off 3 = drop 22 s"
    using strToUint32_digits[OF of] l s7 by simp
  show thesis
  proof (rule that)
    show "s = compText 4 y @ compText 2 mo @ compText 2 d @ compText 2 h @ compText 2 m @ compText 2 se @
       [chr16 (CHR ''.'')] @ microsText us i @ [s ! 21] @ intToChar16Loop off 3"
      using timestamp_pieces[OF l] t dot parseMicroseconds_text(4)[OF mi] o l s1 s2 s3 s4 s5 s6
      by (simp add: peek_def)
    show "setTimeStamp y mo d h m se us i (if sg = chr16 (CHR ''+'') then int off else - int off) = Inr r"
      by (rule set)
  qed (use t o parseMicroseconds_text(2,3,5)[OF mi] l s1 s2 s3 s4 s5 s6 in auto)
qed

subsection \<open>What the setters accept and set\<close>

text \<open>A wildcard stands for its default value.\<close>

definition orElse :: "nat \<Rightarrow> nat \<Rightarrow> nat" where
  "orElse x dflt = (if x = WILDCARD then dflt else x)"

definition timeStampArgs ::
  "nat \<Rightarrow> nat \<Rightarrow> nat \<Rightarrow> nat \<Rightarrow> nat \<Rightarrow> nat \<Rightarrow> nat \<Rightarrow> nat \<Rightarrow> int \<Rightarrow> bool" where
  "timeStampArgs y mo d h m se us i offset \<longleftrightarrow>
     orElse y 0 \<le> 9999 \<and> validDate (orElse y 0, orElse mo 1, orElse d 1) \<and>
     orElse h 0 < 24 \<and> orElse m 0 < 60 \<and> orElse se 0 < 60 \<and> us < 1000000 \<and> i \<le> 6 \<and>
     -999 \<le> offset \<and> offset \<le> 999"

definition timeStampWildcards ::
  "nat \<Rightarrow> nat \<Rightarrow> nat \<Rightarrow> nat \<Rightarrow> nat \<Rightarrow> nat \<Rightarrow> nat \<Rightarrow> nat" where
  "timeStampWildcards y mo d h m se i =
     (if y = WILDCARD then 20 else if mo = WILDCARD then 16 else if d = WILDCARD then 14
      else if h = WILDCARD then 12 else if m = WILDCARD then 10 else if se = WILDCARD then 8 else 6 - i)"

definition timeStampRep ::
  "nat \<Rightarrow> nat \<Rightarrow> nat \<Rightarrow> nat \<Rightarrow> nat \<Rightarrow> nat \<Rightarrow> nat \<Rightarrow> nat \<Rightarrow> int \<Rightarrow> CIMDateTimeRep" where
  "timeStampRep y mo d h m se us i offset =
     \<lparr>usec = of_nat (totalMicros (toJulianDay (orElse y 0) (orElse mo 1) (orElse d 1) - JULIAN_ONE_BCE)
               (orElse h 0) (orElse m 0) (orElse se 0) us),
      utcOffset = nat \<bar>offset\<bar>,
      sign = (if offset < 0 then chr16 (CHR ''-'') else chr16 (CHR ''+'')),
      numWildcards = timeStampWildcards y mo d h m se i\<rparr>"

lemma getDaysPerMonth_pos: "1 \<le> m \<Longrightarrow> m \<le> 12 \<Longrightarrow> 28 \<le> getDaysPerMonth y m"
  using month_cases[of m] by (auto simp: getDaysPerMonth_def)

lemma checkComponent_orElse:
  "checkComponent x bad dflt w nw =
     (if x \<noteq> WILDCARD \<and> bad x then Inl DateTimeOutOfRangeException
      else Inr (orElse x dflt, if x = WILDCARD \<and> nw = 0 then w else nw))"
  by (simp add: checkComponent_def orElse_def)

lemma bindE_if: "bindE (if P then Inl e else Inr x) f = (if P then Inl e else f x)"
  by simp

lemma if_or: "(if P then e else if Q then e else x) = (if P \<or> Q then e else x)"
  by simp

lemma setTimeStamp_eq:
  "setTimeStamp y mo d h m se us i offset =
     (if timeStampArgs y mo d h m se us i offset then Inr (timeStampRep y mo d h m se us i offset)
      else Inl DateTimeOutOfRangeException)"
proof -
  have W: "WILDCARD = 4294967295" by (simp add: WILDCARD_def)
  have g: "1 \<le> mo \<Longrightarrow> mo \<le> 12 \<Longrightarrow> Suc 0 \<le> getDaysPerMonth yy mo" for yy
    using getDaysPerMonth_pos[of mo yy] by simp
  have g1: "Suc 0 \<le> getDaysPerMonth yy (Suc 0)" for yy by (simp add: getDaysPerMonth_def)
  show ?thesis
  proof (cases "timeStampArgs y mo d h m se us i offset")
    case True
    then have ok: "\<not> (y \<noteq> WILDCARD \<and> y > 9999)" "\<not> (mo \<noteq> WILDCARD \<and> (mo < 1 \<or> mo > 12))"
      "\<not> (d \<noteq> WILDCARD \<and> (d < 1 \<or> d > getDaysPerMonth (orElse y 0) (orElse mo 1)))"
      "\<not> (h \<noteq> WILDCARD \<and> h > 23)" "\<not> (m \<noteq> WILDCARD \<and> m > 59)" "\<not> (se \<noteq> WILDCARD \<and> se > 59)"
      by (auto simp: timeStampArgs_def orElse_def validDate_def split: if_splits)
    have gs: "\<not> i > 6" "\<not> us > 999999" "\<not> (offset < -999 \<or> offset > 999)"
      using True by (auto simp: timeStampArgs_def)
    have a: "nat (if offset < 0 then - offset else offset) = nat \<bar>offset\<bar>" by (simp add: abs_if)
    define n1 where "n1 = (if y = WILDCARD \<and> (0::nat) = 0 then 20 else (0::nat))"
    define n2 where "n2 = (if mo = WILDCARD \<and> n1 = 0 then 16 else n1)"
    define n3 where "n3 = (if d = WILDCARD \<and> n2 = 0 then 14 else n2)"
    define n4 where "n4 = (if h = WILDCARD \<and> n3 = 0 then 12 else n3)"
    define n5 where "n5 = (if m = WILDCARD \<and> n4 = 0 then 10 else n4)"
    define n6 where "n6 = (if se = WILDCARD \<and> n5 = 0 then 8 else n5)"
    have n: "(if n6 = 0 then 6 - i else n6) = timeStampWildcards y mo d h m se i"
      by (simp add: timeStampWildcards_def n6_def n5_def n4_def n3_def n2_def n1_def)
    have "setTimeStamp y mo d h m se us i offset = Inr (timeStampRep y mo d h m se us i offset)"
      unfolding setTimeStamp_def checkComponent_orElse timeStampRep_def
      by (simp only: ok gs if_False bindE.simps prod.case Let_def usec_total a n1_def[symmetric]
          n2_def[symmetric] n3_def[symmetric] n4_def[symmetric] n5_def[symmetric] n6_def[symmetric] n)
    with True show ?thesis by simp
  next
    case False
    let ?bad = "(y \<noteq> WILDCARD \<and> y > 9999) \<or> (mo \<noteq> WILDCARD \<and> (mo < 1 \<or> mo > 12)) \<or>
      (d \<noteq> WILDCARD \<and> (d < 1 \<or> d > getDaysPerMonth (orElse y 0) (orElse mo 1))) \<or>
      (h \<noteq> WILDCARD \<and> h > 23) \<or> (m \<noteq> WILDCARD \<and> m > 59) \<or> (se \<noteq> WILDCARD \<and> se > 59) \<or>
      i > 6 \<or> us > 999999 \<or> (offset < -999 \<or> offset > 999)"
    have bad: ?bad
    proof (rule ccontr)
      assume nb: "\<not> ?bad"
      then have mo: "1 \<le> orElse mo 1 \<and> orElse mo 1 \<le> 12" by (auto simp: orElse_def not_less)
      then have "1 \<le> orElse d 1 \<and> orElse d 1 \<le> getDaysPerMonth (orElse y 0) (orElse mo 1)"
        using nb getDaysPerMonth_pos[of "orElse mo 1" "orElse y 0"] by (cases "d = WILDCARD") (auto simp: orElse_def)
      moreover have "orElse y 0 \<le> 9999" "orElse h 0 < 24" "orElse m 0 < 60" "orElse se 0 < 60"
        using nb by (auto simp: orElse_def not_less)
      ultimately have "timeStampArgs y mo d h m se us i offset"
        using nb mo by (simp add: timeStampArgs_def validDate_def)
      with False show False ..
    qed
    have "setTimeStamp y mo d h m se us i offset = Inl DateTimeOutOfRangeException"
      unfolding setTimeStamp_def checkComponent_orElse bindE_if prod.case Let_def if_or
      by (rule if_P) (use bad in blast)
    with False show ?thesis by simp
  qed
qed

definition intervalArgs :: "nat \<Rightarrow> nat \<Rightarrow> nat \<Rightarrow> nat \<Rightarrow> nat \<Rightarrow> nat \<Rightarrow> bool" where
  "intervalArgs d h m se us i \<longleftrightarrow> inFields (orElse d 1) (orElse h 0) (orElse m 0) (orElse se 0) us \<and> i \<le> 6"

definition intervalWildcards :: "nat \<Rightarrow> nat \<Rightarrow> nat \<Rightarrow> nat \<Rightarrow> nat \<Rightarrow> nat" where
  "intervalWildcards d h m se i =
     (if d = WILDCARD then 20 else if h = WILDCARD then 12 else if m = WILDCARD then 10
      else if se = WILDCARD then 8 else 6 - i)"

definition intervalRep :: "nat \<Rightarrow> nat \<Rightarrow> nat \<Rightarrow> nat \<Rightarrow> nat \<Rightarrow> nat \<Rightarrow> CIMDateTimeRep" where
  "intervalRep d h m se us i =
     \<lparr>usec = of_nat (totalMicros (orElse d 1) (orElse h 0) (orElse m 0) (orElse se 0) us),
      utcOffset = 0, sign = chr16 (CHR '':''), numWildcards = intervalWildcards d h m se i\<rparr>"

lemma setInterval_eq:
  "setInterval d h m se us i =
     (if intervalArgs d h m se us i then Inr (intervalRep d h m se us i)
      else Inl DateTimeOutOfRangeException)"
proof -
  define n1 where "n1 = (if d = WILDCARD \<and> (0::nat) = 0 then 20 else (0::nat))"
  define n2 where "n2 = (if h = WILDCARD \<and> n1 = 0 then 12 else n1)"
  define n3 where "n3 = (if m = WILDCARD \<and> n2 = 0 then 10 else n2)"
  define n4 where "n4 = (if se = WILDCARD \<and> n3 = 0 then 8 else n3)"
  have n: "(if n4 = 0 then 6 - i else n4) = intervalWildcards d h m se i"
    by (simp add: intervalWildcards_def n4_def n3_def n2_def n1_def)
  have iff: "intervalArgs d h m se us i \<longleftrightarrow>
    \<not> ((d \<noteq> WILDCARD \<and> d > 99999999) \<or> (h \<noteq> WILDCARD \<and> h > 23) \<or> (m \<noteq> WILDCARD \<and> m > 59) \<or>
       (se \<noteq> WILDCARD \<and> se > 59) \<or> i > 6 \<or> us > 999999)"
    by (auto simp: intervalArgs_def inFields_def orElse_def)
  show ?thesis
    unfolding iff setInterval_def checkComponent_orElse bindE_if prod.case Let_def if_or intervalRep_def
      usec_total n1_def[symmetric] n2_def[symmetric] n3_def[symmetric] n4_def[symmetric] n
    by (simp only: disj_assoc if_not_P split: if_split) blast
qed

subsection \<open>Printing what was parsed\<close>

lemma intToChar16Loop_Nil [simp]: "intToChar16Loop x n = [] \<longleftrightarrow> n = 0"
  by (metis length_0_conv length_intToChar16Loop)

lemma drop_star: "map starMap (drop i (intToChar16Loop us 6)) = replicate (6 - i) star" if "us < 10 ^ 6"
  using starMap_digits[OF that] by (simp add: drop_map[symmetric])

lemma timeStamp_fill:
  assumes chain: "y = WILDCARD \<longrightarrow> mo = WILDCARD" "mo = WILDCARD \<longrightarrow> d = WILDCARD" "d = WILDCARD \<longrightarrow> h = WILDCARD"
    "h = WILDCARD \<longrightarrow> m = WILDCARD" "m = WILDCARD \<longrightarrow> se = WILDCARD" "se = WILDCARD \<longrightarrow> i = 0" "i \<le> 6"
    and lt: "orElse y 0 < 10 ^ 4" "orElse mo 1 < 10 ^ 2" "orElse d 1 < 10 ^ 2" "orElse h 0 < 10 ^ 2"
      "orElse m 0 < 10 ^ 2" "orElse se 0 < 10 ^ 2" "us < 10 ^ 6"
    and T: "length T = 4"
  shows "starFill (timeStampWildcards y mo d h m se i)
      (intToChar16Loop (orElse y 0) 4 @ intToChar16Loop (orElse mo 1) 2 @ intToChar16Loop (orElse d 1) 2 @
       intToChar16Loop (orElse h 0) 2 @ intToChar16Loop (orElse m 0) 2 @ intToChar16Loop (orElse se 0) 2 @
       [chr16 (CHR ''.'')] @ intToChar16Loop us 6 @ T) =
    compText 4 y @ compText 2 mo @ compText 2 d @ compText 2 h @ compText 2 m @ compText 2 se @
       [chr16 (CHR ''.'')] @ microsText us i @ T"
proof -
  let ?A = "intToChar16Loop (orElse y 0) 4" and ?B = "intToChar16Loop (orElse mo 1) 2"
    and ?C = "intToChar16Loop (orElse d 1) 2" and ?D = "intToChar16Loop (orElse h 0) 2"
    and ?E = "intToChar16Loop (orElse m 0) 2" and ?F = "intToChar16Loop (orElse se 0) 2"
    and ?M = "intToChar16Loop us 6"
  note st = starMap_digits[OF lt(1)] starMap_digits[OF lt(2)] starMap_digits[OF lt(3)]
    starMap_digits[OF lt(4)] starMap_digits[OF lt(5)] starMap_digits[OF lt(6)] starMap_digits[OF lt(7)]
  note fill = starFill_components[OF _ _ _ T, of _ _ ?M]
  consider "se \<noteq> WILDCARD" | "se = WILDCARD" "m \<noteq> WILDCARD" | "m = WILDCARD" "h \<noteq> WILDCARD"
    | "h = WILDCARD" "d \<noteq> WILDCARD" | "d = WILDCARD" "mo \<noteq> WILDCARD"
    | "mo = WILDCARD" "y \<noteq> WILDCARD" | "y = WILDCARD"
    by blast
  then show ?thesis
  proof cases
    case 1
    then have "y \<noteq> WILDCARD" "mo \<noteq> WILDCARD" "d \<noteq> WILDCARD" "h \<noteq> WILDCARD" "m \<noteq> WILDCARD"
      using chain by auto
    then show ?thesis using 1 starFill_micros[of "?A @ ?B @ ?C @ ?D @ ?E @ ?F" ?M T i] T chain(7) lt(7)
      by (simp add: timeStampWildcards_def compText_def orElse_def microsText_def drop_star)
  next
    case 2
    then have "y \<noteq> WILDCARD" "mo \<noteq> WILDCARD" "d \<noteq> WILDCARD" "h \<noteq> WILDCARD"
      using chain by auto
    then show ?thesis using 2 chain st fill[of "?A @ ?B @ ?C @ ?D @ ?E" "?F"]
      by (simp add: timeStampWildcards_def compText_def microsText_def) (simp add: orElse_def)
  next
    case 3
    then have "y \<noteq> WILDCARD" "mo \<noteq> WILDCARD" "d \<noteq> WILDCARD" using chain by auto
    then show ?thesis using 3 chain st fill[of "?A @ ?B @ ?C @ ?D" "?E @ ?F"]
      by (simp add: timeStampWildcards_def compText_def microsText_def) (simp add: orElse_def)
  next
    case 4
    then have "y \<noteq> WILDCARD" "mo \<noteq> WILDCARD" using chain by auto
    then show ?thesis using 4 chain st fill[of "?A @ ?B @ ?C" "?D @ ?E @ ?F"]
      by (simp add: timeStampWildcards_def compText_def microsText_def) (simp add: orElse_def)
  next
    case 5
    then have "y \<noteq> WILDCARD" using chain by auto
    then show ?thesis using 5 chain st fill[of "?A @ ?B" "?C @ ?D @ ?E @ ?F"]
      by (simp add: timeStampWildcards_def compText_def microsText_def) (simp add: orElse_def)
  next
    case 6
    then show ?thesis using 6 chain st fill[of "?A" "?B @ ?C @ ?D @ ?E @ ?F"]
      by (simp add: timeStampWildcards_def compText_def microsText_def) (simp add: orElse_def)
  next
    case 7
    then show ?thesis using chain st fill[of "[]" "?A @ ?B @ ?C @ ?D @ ?E @ ?F"]
      by (simp add: timeStampWildcards_def compText_def microsText_def)
  qed
qed

lemma interval_fill:
  assumes chain: "d = WILDCARD \<longrightarrow> h = WILDCARD"
    "h = WILDCARD \<longrightarrow> m = WILDCARD" "m = WILDCARD \<longrightarrow> se = WILDCARD" "se = WILDCARD \<longrightarrow> i = 0" "i \<le> 6"
    and lt: "orElse d 1 < 10 ^ 8" "orElse h 0 < 10 ^ 2"
      "orElse m 0 < 10 ^ 2" "orElse se 0 < 10 ^ 2" "us < 10 ^ 6"
    and T: "length T = 4"
  shows "starFill (intervalWildcards d h m se i)
      (intToChar16Loop (orElse d 1) 8 @ intToChar16Loop (orElse h 0) 2 @ intToChar16Loop (orElse m 0) 2 @
       intToChar16Loop (orElse se 0) 2 @ [chr16 (CHR ''.'')] @ intToChar16Loop us 6 @ T) =
    compText 8 d @ compText 2 h @ compText 2 m @ compText 2 se @
       [chr16 (CHR ''.'')] @ microsText us i @ T"
proof -
  let ?C = "intToChar16Loop (orElse d 1) 8" and ?D = "intToChar16Loop (orElse h 0) 2"
    and ?E = "intToChar16Loop (orElse m 0) 2" and ?F = "intToChar16Loop (orElse se 0) 2"
    and ?M = "intToChar16Loop us 6"
  note st = starMap_digits[OF lt(1)] starMap_digits[OF lt(2)] starMap_digits[OF lt(3)]
    starMap_digits[OF lt(4)] starMap_digits[OF lt(5)]
  note fill = starFill_components[OF _ _ _ T, of _ _ ?M]
  consider "se \<noteq> WILDCARD" | "se = WILDCARD" "m \<noteq> WILDCARD" | "m = WILDCARD" "h \<noteq> WILDCARD"
    | "h = WILDCARD" "d \<noteq> WILDCARD" | "d = WILDCARD"
    by blast
  then show ?thesis
  proof cases
    case 1
    then have "d \<noteq> WILDCARD" "h \<noteq> WILDCARD" "m \<noteq> WILDCARD" using chain by auto
    then show ?thesis using 1 starFill_micros[of "?C @ ?D @ ?E @ ?F" ?M T i] T chain(5) lt(5)
      by (simp add: intervalWildcards_def compText_def orElse_def microsText_def drop_star)
  next
    case 2
    then have "d \<noteq> WILDCARD" "h \<noteq> WILDCARD" using chain by auto
    then show ?thesis using 2 chain st fill[of "?C @ ?D @ ?E" "?F"]
      by (simp add: intervalWildcards_def compText_def microsText_def) (simp add: orElse_def)
  next
    case 3
    then have "d \<noteq> WILDCARD" using chain by auto
    then show ?thesis using 3 chain st fill[of "?C @ ?D" "?E @ ?F"]
      by (simp add: intervalWildcards_def compText_def microsText_def) (simp add: orElse_def)
  next
    case 4
    then show ?thesis using chain st fill[of "?C" "?D @ ?E @ ?F"]
      by (simp add: intervalWildcards_def compText_def microsText_def) (simp add: orElse_def)
  next
    case 5
    then show ?thesis using chain st fill[of "[]" "?C @ ?D @ ?E @ ?F"]
      by (simp add: intervalWildcards_def compText_def microsText_def)
  qed
qed

lemma parseInterval_text:
  assumes p: "parseInterval s = Inr r" and l: "length s = 25"
  obtains d h m se us i where
    "s = compText 8 d @ compText 2 h @ compText 2 m @ compText 2 se @
       [chr16 (CHR ''.'')] @ microsText us i @ [s ! 21] @ units ''000''"
    "d = WILDCARD \<longrightarrow> h = WILDCARD"
    "h = WILDCARD \<longrightarrow> m = WILDCARD" "m = WILDCARD \<longrightarrow> se = WILDCARD" "se = WILDCARD \<longrightarrow> i = 0"
    "i \<le> 6" "us < 10 ^ 6" "setInterval d h m se us i = Inr r"
proof -
  from p obtain d h m se us i s3 s4 s5 s6 s7 w3 w4 w5 w6 where
    c: "parseComponent s 8 False = Inr (d, s3, w3)" "parseComponent s3 2 w3 = Inr (h, s4, w4)"
      "parseComponent s4 2 w4 = Inr (m, s5, w5)" "parseComponent s5 2 w5 = Inr (se, s6, w6)"
    and dot: "peek s6 0 = chr16 (CHR ''.'')"
    and mi: "parseMicroseconds (drop 1 s6) w6 = Inr (us, i, s7)"
    and z: "peek (drop 1 s7) 0 = chr16 (CHR ''0'')" "peek (drop 1 s7) 1 = chr16 (CHR ''0'')"
      "peek (drop 1 s7) 2 = chr16 (CHR ''0'')"
    and set: "setInterval d h m se us i = Inr r"
    unfolding parseInterval_def Let_def
    by (auto simp: bindE_eq_Inr split: if_splits)
  have s3: "s3 = drop 8 s" using parseComponent_text(1)[OF c(1)] l by simp
  have s4: "s4 = drop 10 s" using parseComponent_text(1)[OF c(2)] l s3 by simp
  have s5: "s5 = drop 12 s" using parseComponent_text(1)[OF c(3)] l s4 by simp
  have s6: "s6 = drop 14 s" using parseComponent_text(1)[OF c(4)] l s5 by simp
  have s7: "s7 = drop 21 s" using parseMicroseconds_text(1)[OF mi] l s6 by simp
  note t = parseComponent_text(2-4)[OF c(1)] parseComponent_text(2-4)[OF c(2)]
    parseComponent_text(2-4)[OF c(3)] parseComponent_text(2-4)[OF c(4)]
  have o: "drop 22 s = units ''000''"
  proof -
    have "s ! 22 = 48" "s ! 23 = 48" "s ! 24 = 48"
      using z l s7 by (simp_all add: peek_def)
    then show ?thesis using l Cons_nth_drop_Suc[of 22 s] Cons_nth_drop_Suc[of 23 s] Cons_nth_drop_Suc[of 24 s]
      by (simp add: units_def)
  qed
  show thesis
  proof (rule that)
    show "s = compText 8 d @ compText 2 h @ compText 2 m @ compText 2 se @
       [chr16 (CHR ''.'')] @ microsText us i @ [s ! 21] @ units ''000''"
      using interval_pieces[OF l] t dot parseMicroseconds_text(4)[OF mi] o l s3 s4 s5 s6
      by (simp add: peek_def)
    show "setInterval d h m se us i = Inr r" by (rule set)
  qed (use t parseMicroseconds_text(2,3,5)[OF mi] l s3 s4 s5 s6 in auto)
qed

text \<open>The parser reads the offset \<open>-000\<close> as \<open>+000\<close>.\<close>

definition canonicalText :: "pstr \<Rightarrow> pstr" where
  "canonicalText s = (if drop 21 s = units ''-000'' then take 21 s @ units ''+000'' else s)"

lemma interval_print_parse:
  assumes "parseInterval s = Inr r" "length s = 25" "s ! 21 = chr16 (CHR '':'')"
  shows "toChar16Str r = s"
proof -
  from parseInterval_text[OF assms(1,2)] obtain d h m se us i where
    s: "s = compText 8 d @ compText 2 h @ compText 2 m @ compText 2 se @
       [chr16 (CHR ''.'')] @ microsText us i @ [s ! 21] @ units ''000''"
    and ch: "d = WILDCARD \<longrightarrow> h = WILDCARD"
    "h = WILDCARD \<longrightarrow> m = WILDCARD" "m = WILDCARD \<longrightarrow> se = WILDCARD" "se = WILDCARD \<longrightarrow> i = 0" "i \<le> 6"
    and set: "setInterval d h m se us i = Inr r"
    by metis
  have a: "intervalArgs d h m se us i" and r: "r = intervalRep d h m se us i"
    using set by (auto simp: setInterval_eq split: if_splits)
  have f: "inFields (orElse d 1) (orElse h 0) (orElse m 0) (orElse se 0) us" using a by (simp add: intervalArgs_def)
  show ?thesis unfolding r intervalRep_def toChar16Str_interval[OF f]
    using interval_fill[OF ch, of us "units '':000''"] f assms(3)
    by (subst s) (simp add: inFields_def units_def)
qed

lemma intToChar16Loop_3_zero: "x < 1000 \<Longrightarrow> intToChar16Loop x 3 = units ''000'' \<longleftrightarrow> x = 0"
proof
  assume x: "x < 1000" "intToChar16Loop x 3 = units ''000''"
  have z: "n = 0" if "of_nat (n + 48) = (48 :: u16)" "n \<le> 9" for n
    using that unat_of_nat_small[where 'a=16, of "n + 48"] by (auto simp del: of_nat_add)
  have e: "of_nat (x div 100 + 48) = (48::u16)" "of_nat (x mod 100 div 10 + 48) = (48::u16)"
    "of_nat (x mod 100 mod 10 + 48) = (48::u16)"
    using x(2) by (simp_all add: numeral_3_eq_3 tens_def Let_def units_def)
  have "x div 100 = 0" "x mod 100 div 10 = 0" "x mod 100 mod 10 = 0"
    using x(1) by (intro z[OF e(1)] z[OF e(2)] z[OF e(3)]; simp)+
  then have "x div 100 = 0" "x mod 100 = 0" by (metis div_mult_mod_eq mult_is_0 add_0)+
  then show "x = 0" by (metis div_mult_mod_eq mult_is_0 add_0)
qed (simp add: numeral_3_eq_3 tens_def Let_def units_def)

lemma timeStamp_print_parse:
  assumes "parseTimeStamp sg s = Inr r" "length s = 25" "s ! 21 = sg"
    "sg = chr16 (CHR ''-'') \<or> sg = chr16 (CHR ''+'')"
  shows "toChar16Str r = canonicalText s"
proof -
  obtain y mo d h m se us i off where
    s: "s = compText 4 y @ compText 2 mo @ compText 2 d @ compText 2 h @ compText 2 m @ compText 2 se @
       [chr16 (CHR ''.'')] @ microsText us i @ [s ! 21] @ intToChar16Loop off 3"
    and ch: "y = WILDCARD \<longrightarrow> mo = WILDCARD" "mo = WILDCARD \<longrightarrow> d = WILDCARD" "d = WILDCARD \<longrightarrow> h = WILDCARD"
    "h = WILDCARD \<longrightarrow> m = WILDCARD" "m = WILDCARD \<longrightarrow> se = WILDCARD" "se = WILDCARD \<longrightarrow> i = 0"
    "i \<le> 6" and "us < 10 ^ 6" and off: "off < 1000"
    and set: "setTimeStamp y mo d h m se us i (if sg = chr16 (CHR ''+'') then int off else - int off) = Inr r"
    by (rule parseTimeStamp_text[OF assms(1,2)])
  define os where "os = (if sg = chr16 (CHR ''+'') then int off else - int off)"
  have a: "timeStampArgs y mo d h m se us i os" and r: "r = timeStampRep y mo d h m se us i os"
    using set by (auto simp: setTimeStamp_eq os_def split: if_splits)
  let ?sg = "if os < 0 then chr16 (CHR ''-'') else chr16 (CHR ''+'')"
  have v: "validDate (orElse y 0, orElse mo 1, orElse d 1)" "orElse y 0 \<le> 9999"
    "orElse h 0 < 24" "orElse m 0 < 60" "orElse se 0 < 60" "us < 1000000"
    using a by (simp_all add: timeStampArgs_def)
  have md: "orElse mo 1 < 100" "orElse d 1 < 100" using v(1) month_cases[of "orElse mo 1"]
    by (auto simp: validDate_def getDaysPerMonth_def split: if_splits)
  define H where "H = compText 4 y @ compText 2 mo @ compText 2 d @ compText 2 h @ compText 2 m @
      compText 2 se @ [chr16 (CHR ''.'')] @ microsText us i"
  have sH: "s = H @ [sg] @ intToChar16Loop off 3" using s assms(3) by (simp add: H_def)
  have lH: "length H = 21" using ch(7) by (simp add: H_def compText_def microsText_def)
  define sg' where "sg' = ?sg"
  have os: "nat \<bar>os\<bar> = off" "sg' \<noteq> chr16 (CHR '':'')" by (simp_all add: os_def sg'_def)
  have rH: "toChar16Str r = H @ [sg'] @ intToChar16Loop off 3"
    unfolding r timeStampRep_def sg'_def[symmetric] os(1)
    using timeStamp_fill[OF ch, of us "sg' # intToChar16Loop off 3"] v md
    by (subst toChar16Str_timeStamp[OF v os(2)]) (simp add: timeStampText_def H_def)
  show ?thesis
  proof (cases "sg = chr16 (CHR ''-'') \<and> off = 0")
    case True
    then show ?thesis using lH intToChar16Loop_3_zero[OF off]
      unfolding rH canonicalText_def sH by (simp add: os_def sg'_def units_def)
  next
    case False
    then have "drop 21 s \<noteq> units ''-000''" "sg' = sg"
      using assms(4) lH intToChar16Loop_3_zero[OF off] by (auto simp: sH units_def os_def sg'_def)
    then show ?thesis unfolding canonicalText_def rH by (simp add: sH)
  qed
qed

lemma dt_set_text:
  assumes "dt_set str = (None, r)"
  shows "dt_toString r = canonicalText str"
proof -
  have p: "parseDateTime str = Inr r" using assms by (auto simp: dt_set_def split: sum.splits)
  then have l: "length str = 25" by (auto simp: parseDateTime_def split: if_splits)
  then have k: "peek str 21 = str ! 21" by (simp add: peek_def)
  show ?thesis
  proof (cases "str ! 21 = chr16 (CHR '':'')")
    case True
    then have "drop 21 str \<noteq> units ''-000''"
      using l Cons_nth_drop_Suc[of 21 str] by (auto simp: units_def)
    moreover have "parseInterval str = Inr r" using p True k l by (simp add: parseDateTime_def Let_def)
    ultimately show ?thesis using interval_print_parse[OF _ l True]
      by (simp add: dt_toString_def canonicalText_def)
  next
    case False
    then show ?thesis using p k l timeStamp_print_parse[OF _ l refl]
      by (auto simp: parseDateTime_def Let_def dt_toString_def split: if_splits)
  qed
qed

subsection \<open>Evaluation on concrete texts\<close>

lemma allAsterisks_Suc: "allAsterisks (c # s) (Suc n) \<longleftrightarrow> c = chr16 (CHR ''*'') \<and> allAsterisks s n"
  "allAsterisks s 0"
  "allAsterisks (c # s) (numeral k) \<longleftrightarrow> c = chr16 (CHR ''*'') \<and> allAsterisks s (pred_numeral k)"
proof -
  have e: "[0..<Suc n] = 0 # map Suc [0..<n]" for n by (simp add: map_Suc_upt upt_conv_Cons)
  show 1: "allAsterisks (c # s) (Suc n) \<longleftrightarrow> c = chr16 (CHR ''*'') \<and> allAsterisks s n" for n
    unfolding allAsterisks_def e by (simp add: list.pred_map o_def del: upt_Suc)
  show "allAsterisks s 0" by (simp add: allAsterisks_def)
  show "allAsterisks (c # s) (numeral k) \<longleftrightarrow> c = chr16 (CHR ''*'') \<and> allAsterisks s (pred_numeral k)"
    by (simp add: numeral_eq_Suc 1)
qed

lemma strToUint32Loop_numeral: "strToUint32Loop s (numeral k) m x =
     (let c = peek s (pred_numeral k) - 48
      in if c > 9 then None else strToUint32Loop s (pred_numeral k) (Suc m) (x + tens ! m * unat c))"
  by (simp add: numeral_eq_Suc)

lemma parseMicrosecondsLoop_numeral: "parseMicrosecondsLoop s (numeral k) x =
     (let i = 6 - numeral k; c = (ucast (peek s i) - 48 :: u32)
      in if c < 10 then parseMicrosecondsLoop s (pred_numeral k) (x + unat c * microMult ! i)
         else if c = ucast (chr16 (CHR ''*'')) - 48 then
           (if allAsterisks (drop i s) (6 - i) then Inr (x, i)
            else Inl InvalidDateTimeFormatException)
         else Inl InvalidDateTimeFormatException)"
  by (simp add: numeral_eq_Suc)

lemmas parse_eval = parseDateTime_def parseTimeStamp_def units_def allAsterisks_Suc peek_numeral
  strToUint32Loop_numeral parseComponent_def strToUint32_def strToUint32_n2_def tens_def
  parseMicroseconds_def parseMicrosecondsLoop_numeral

lemmas timeStampArgs_eval = timeStampArgs_def orElse_def WILDCARD_def validDate_def
  getDaysPerMonth_def isLeapYear_def

subsection \<open>Properties\<close>

text \<open>
  C22: \<open>setTimeStamp\<close> and \<open>setInterval\<close> succeed exactly when every component is a wildcard or in its
  range (the day in the month's length, leap years included), and then store the microseconds of
  the components, the offset with its sign and the number of wildcard characters; in every other case
  they throw \<open>DateTimeOutOfRangeException\<close>.
\<close>

theorem setters_exact:
  "setTimeStamp year month day hours minutes seconds us digits offset =
     (if timeStampArgs year month day hours minutes seconds us digits offset
      then Inr (timeStampRep year month day hours minutes seconds us digits offset)
      else Inl DateTimeOutOfRangeException) \<and>
   setInterval days hours minutes seconds us digits =
     (if intervalArgs days hours minutes seconds us digits
      then Inr (intervalRep days hours minutes seconds us digits)
      else Inl DateTimeOutOfRangeException)"
  using setTimeStamp_eq setInterval_eq by blast

text \<open>
  C4: a text that \<open>CIMDateTime::set\<close> accepts is printed back by \<open>toString\<close> character by character,
  wildcards included, except that the offset \<open>-000\<close> is printed \<open>+000\<close>.
\<close>

theorem set_print_roundtrip:
  assumes "dt_set str = (None, r)"
  shows "dt_toString r = canonicalText str"
  by (rule dt_set_text[OF assms])

lemma set_print_roundtrip_witness:
  "\<exists>r. dt_set (units ''20000229******.******-000'') = (None, r) \<and>
     dt_toString r = units ''20000229******.******+000''"
proof -
  let ?s = "units ''20000229******.******-000''"
  have "timeStampArgs 2000 (Suc (Suc 0)) 29 WILDCARD WILDCARD WILDCARD 0 0 0" by (simp add: timeStampArgs_eval)
  then have p: "dt_set ?s = (None, timeStampRep 2000 (Suc (Suc 0)) 29 WILDCARD WILDCARD WILDCARD 0 0 0)"
    by (simp add: dt_set_def parse_eval setTimeStamp_eq)
  then show ?thesis using set_print_roundtrip[OF p] by (auto simp: canonicalText_def units_def)
qed

end
