(* ===== verification/CharSetModel.thy ===== *)
theory CharSetModel
  imports Prelude
begin

section \<open>CharSet: the character tables\<close>

text \<open>
  \<^verbatim>\<open>Pegasus/Common/CharSet.cpp\<close> and \<^verbatim>\<open>CharSet.h\<close>: the 256-entry tables, as the source lists them,
  and their accessors. Each table is shown to be the ASCII predicate or conversion it stands for.
\<close>

subsection \<open>The tables\<close>

definition isAlphaUnderTable :: "u8 list" where
  "isAlphaUnderTable =
  [0, 0, 0, 0, 0, 0, 0, 0, 0, 0, 0, 0, 0, 0, 0, 0, 0, 0, 0, 0, 0, 0, 0, 0, 0, 0, 0, 0, 0, 0, 0, 0,
   0, 0, 0, 0, 0, 0, 0, 0, 0, 0, 0, 0, 0, 0, 0, 0, 0, 0, 0, 0, 0, 0, 0, 0, 0, 0, 0, 0, 0, 0, 0, 0,
   0, 1, 1, 1, 1, 1, 1, 1, 1, 1, 1, 1, 1, 1, 1, 1, 1, 1, 1, 1, 1, 1, 1, 1, 1, 1, 1, 0, 0, 0, 0, 1,
   0, 1, 1, 1, 1, 1, 1, 1, 1, 1, 1, 1, 1, 1, 1, 1, 1, 1, 1, 1, 1, 1, 1, 1, 1, 1, 1, 0, 0, 0, 0, 0,
   0, 0, 0, 0, 0, 0, 0, 0, 0, 0, 0, 0, 0, 0, 0, 0, 0, 0, 0, 0, 0, 0, 0, 0, 0, 0, 0, 0, 0, 0, 0, 0,
   0, 0, 0, 0, 0, 0, 0, 0, 0, 0, 0, 0, 0, 0, 0, 0, 0, 0, 0, 0, 0, 0, 0, 0, 0, 0, 0, 0, 0, 0, 0, 0,
   0, 0, 0, 0, 0, 0, 0, 0, 0, 0, 0, 0, 0, 0, 0, 0, 0, 0, 0, 0, 0, 0, 0, 0, 0, 0, 0, 0, 0, 0, 0, 0,
   0, 0, 0, 0, 0, 0, 0, 0, 0, 0, 0, 0, 0, 0, 0, 0, 0, 0, 0, 0, 0, 0, 0, 0, 0, 0, 0, 0, 0, 0, 0, 0]"

definition isAlNumUnderTable :: "u8 list" where
  "isAlNumUnderTable =
  [0, 0, 0, 0, 0, 0, 0, 0, 0, 0, 0, 0, 0, 0, 0, 0, 0, 0, 0, 0, 0, 0, 0, 0, 0, 0, 0, 0, 0, 0, 0, 0,
   0, 0, 0, 0, 0, 0, 0, 0, 0, 0, 0, 0, 0, 0, 0, 0, 1, 1, 1, 1, 1, 1, 1, 1, 1, 1, 0, 0, 0, 0, 0, 0,
   0, 1, 1, 1, 1, 1, 1, 1, 1, 1, 1, 1, 1, 1, 1, 1, 1, 1, 1, 1, 1, 1, 1, 1, 1, 1, 1, 0, 0, 0, 0, 1,
   0, 1, 1, 1, 1, 1, 1, 1, 1, 1, 1, 1, 1, 1, 1, 1, 1, 1, 1, 1, 1, 1, 1, 1, 1, 1, 1, 0, 0, 0, 0, 0,
   0, 0, 0, 0, 0, 0, 0, 0, 0, 0, 0, 0, 0, 0, 0, 0, 0, 0, 0, 0, 0, 0, 0, 0, 0, 0, 0, 0, 0, 0, 0, 0,
   0, 0, 0, 0, 0, 0, 0, 0, 0, 0, 0, 0, 0, 0, 0, 0, 0, 0, 0, 0, 0, 0, 0, 0, 0, 0, 0, 0, 0, 0, 0, 0,
   0, 0, 0, 0, 0, 0, 0, 0, 0, 0, 0, 0, 0, 0, 0, 0, 0, 0, 0, 0, 0, 0, 0, 0, 0, 0, 0, 0, 0, 0, 0, 0,
   0, 0, 0, 0, 0, 0, 0, 0, 0, 0, 0, 0, 0, 0, 0, 0, 0, 0, 0, 0, 0, 0, 0, 0, 0, 0, 0, 0, 0, 0, 0, 0]"

definition isSpaceTable :: "u8 list" where
  "isSpaceTable =
  [0, 0, 0, 0, 0, 0, 0, 0, 0, 1, 1, 1, 1, 1, 0, 0, 0, 0, 0, 0, 0, 0, 0, 0, 0, 0, 0, 0, 0, 0, 0, 0,
   1, 0, 0, 0, 0, 0, 0, 0, 0, 0, 0, 0, 0, 0, 0, 0, 0, 0, 0, 0, 0, 0, 0, 0, 0, 0, 0, 0, 0, 0, 0, 0,
   0, 0, 0, 0, 0, 0, 0, 0, 0, 0, 0, 0, 0, 0, 0, 0, 0, 0, 0, 0, 0, 0, 0, 0, 0, 0, 0, 0, 0, 0, 0, 0,
   0, 0, 0, 0, 0, 0, 0, 0, 0, 0, 0, 0, 0, 0, 0, 0, 0, 0, 0, 0, 0, 0, 0, 0, 0, 0, 0, 0, 0, 0, 0, 0,
   0, 0, 0, 0, 0, 0, 0, 0, 0, 0, 0, 0, 0, 0, 0, 0, 0, 0, 0, 0, 0, 0, 0, 0, 0, 0, 0, 0, 0, 0, 0, 0,
   0, 0, 0, 0, 0, 0, 0, 0, 0, 0, 0, 0, 0, 0, 0, 0, 0, 0, 0, 0, 0, 0, 0, 0, 0, 0, 0, 0, 0, 0, 0, 0,
   0, 0, 0, 0, 0, 0, 0, 0, 0, 0, 0, 0, 0, 0, 0, 0, 0, 0, 0, 0, 0, 0, 0, 0, 0, 0, 0, 0, 0, 0, 0, 0,
   0, 0, 0, 0, 0, 0, 0, 0, 0, 0, 0, 0, 0, 0, 0, 0, 0, 0, 0, 0, 0, 0, 0, 0, 0, 0, 0, 0, 0, 0, 0, 0]"

definition isXmlWhiteSpaceTable :: "u8 list" where
  "isXmlWhiteSpaceTable =
  [0, 0, 0, 0, 0, 0, 0, 0, 0, 1, 1, 0, 0, 1, 0, 0, 0, 0, 0, 0, 0, 0, 0, 0, 0, 0, 0, 0, 0, 0, 0, 0,
   1, 0, 0, 0, 0, 0, 0, 0, 0, 0, 0, 0, 0, 0, 0, 0, 0, 0, 0, 0, 0, 0, 0, 0, 0, 0, 0, 0, 0, 0, 0, 0,
   0, 0, 0, 0, 0, 0, 0, 0, 0, 0, 0, 0, 0, 0, 0, 0, 0, 0, 0, 0, 0, 0, 0, 0, 0, 0, 0, 0, 0, 0, 0, 0,
   0, 0, 0, 0, 0, 0, 0, 0, 0, 0, 0, 0, 0, 0, 0, 0, 0, 0, 0, 0, 0, 0, 0, 0, 0, 0, 0, 0, 0, 0, 0, 0,
   0, 0, 0, 0, 0, 0, 0, 0, 0, 0, 0, 0, 0, 0, 0, 0, 0, 0, 0, 0, 0, 0, 0, 0, 0, 0, 0, 0, 0, 0, 0, 0,
   0, 0, 0, 0, 0, 0, 0, 0, 0, 0, 0, 0, 0, 0, 0, 0, 0, 0, 0, 0, 0, 0, 0, 0, 0, 0, 0, 0, 0, 0, 0, 0,
   0, 0, 0, 0, 0, 0, 0, 0, 0, 0, 0, 0, 0, 0, 0, 0, 0, 0, 0, 0, 0, 0, 0, 0, 0, 0, 0, 0, 0, 0, 0, 0,
   0, 0, 0, 0, 0, 0, 0, 0, 0, 0, 0, 0, 0, 0, 0, 0, 0, 0, 0, 0, 0, 0, 0, 0, 0, 0, 0, 0, 0, 0, 0, 0]"

definition toUpperTable :: "u8 list" where
  "toUpperTable =
  [0x00, 0x01, 0x02, 0x03, 0x04, 0x05, 0x06, 0x07, 0x08, 0x09, 0x0A, 0x0B, 0x0C, 0x0D, 0x0E, 0x0F,
   0x10, 0x11, 0x12, 0x13, 0x14, 0x15, 0x16, 0x17, 0x18, 0x19, 0x1A, 0x1B, 0x1C, 0x1D, 0x1E, 0x1F,
   0x20, 0x21, 0x22, 0x23, 0x24, 0x25, 0x26, 0x27, 0x28, 0x29, 0x2A, 0x2B, 0x2C, 0x2D, 0x2E, 0x2F,
   0x30, 0x31, 0x32, 0x33, 0x34, 0x35, 0x36, 0x37, 0x38, 0x39, 0x3A, 0x3B, 0x3C, 0x3D, 0x3E, 0x3F,
   0x40, 0x41, 0x42, 0x43, 0x44, 0x45, 0x46, 0x47, 0x48, 0x49, 0x4A, 0x4B, 0x4C, 0x4D, 0x4E, 0x4F,
   0x50, 0x51, 0x52, 0x53, 0x54, 0x55, 0x56, 0x57, 0x58, 0x59, 0x5A, 0x5B, 0x5C, 0x5D, 0x5E, 0x5F,
   0x60, 0x41, 0x42, 0x43, 0x44, 0x45, 0x46, 0x47, 0x48, 0x49, 0x4A, 0x4B, 0x4C, 0x4D, 0x4E, 0x4F,
   0x50, 0x51, 0x52, 0x53, 0x54, 0x55, 0x56, 0x57, 0x58, 0x59, 0x5A, 0x7B, 0x7C, 0x7D, 0x7E, 0x7F,
   0x80, 0x81, 0x82, 0x83, 0x84, 0x85, 0x86, 0x87, 0x88, 0x89, 0x8A, 0x8B, 0x8C, 0x8D, 0x8E, 0x8F,
   0x90, 0x91, 0x92, 0x93, 0x94, 0x95, 0x96, 0x97, 0x98, 0x99, 0x9A, 0x9B, 0x9C, 0x9D, 0x9E, 0x9F,
   0xA0, 0xA1, 0xA2, 0xA3, 0xA4, 0xA5, 0xA6, 0xA7, 0xA8, 0xA9, 0xAA, 0xAB, 0xAC, 0xAD, 0xAE, 0xAF,
   0xB0, 0xB1, 0xB2, 0xB3, 0xB4, 0xB5, 0xB6, 0xB7, 0xB8, 0xB9, 0xBA, 0xBB, 0xBC, 0xBD, 0xBE, 0xBF,
   0xC0, 0xC1, 0xC2, 0xC3, 0xC4, 0xC5, 0xC6, 0xC7, 0xC8, 0xC9, 0xCA, 0xCB, 0xCC, 0xCD, 0xCE, 0xCF,
   0xD0, 0xD1, 0xD2, 0xD3, 0xD4, 0xD5, 0xD6, 0xD7, 0xD8, 0xD9, 0xDA, 0xDB, 0xDC, 0xDD, 0xDE, 0xDF,
   0xE0, 0xE1, 0xE2, 0xE3, 0xE4, 0xE5, 0xE6, 0xE7, 0xE8, 0xE9, 0xEA, 0xEB, 0xEC, 0xED, 0xEE, 0xEF,
   0xF0, 0xF1, 0xF2, 0xF3, 0xF4, 0xF5, 0xF6, 0xF7, 0xF8, 0xF9, 0xFA, 0xFB, 0xFC, 0xFD, 0xFE, 0xFF]"

definition toLowerTable :: "u8 list" where
  "toLowerTable =
  [0x00, 0x01, 0x02, 0x03, 0x04, 0x05, 0x06, 0x07, 0x08, 0x09, 0x0A, 0x0B, 0x0C, 0x0D, 0x0E, 0x0F,
   0x10, 0x11, 0x12, 0x13, 0x14, 0x15, 0x16, 0x17, 0x18, 0x19, 0x1A, 0x1B, 0x1C, 0x1D, 0x1E, 0x1F,
   0x20, 0x21, 0x22, 0x23, 0x24, 0x25, 0x26, 0x27, 0x28, 0x29, 0x2A, 0x2B, 0x2C, 0x2D, 0x2E, 0x2F,
   0x30, 0x31, 0x32, 0x33, 0x34, 0x35, 0x36, 0x37, 0x38, 0x39, 0x3A, 0x3B, 0x3C, 0x3D, 0x3E, 0x3F,
   0x40, 0x61, 0x62, 0x63, 0x64, 0x65, 0x66, 0x67, 0x68, 0x69, 0x6A, 0x6B, 0x6C, 0x6D, 0x6E, 0x6F,
   0x70, 0x71, 0x72, 0x73, 0x74, 0x75, 0x76, 0x77, 0x78, 0x79, 0x7A, 0x5B, 0x5C, 0x5D, 0x5E, 0x5F,
   0x60, 0x61, 0x62, 0x63, 0x64, 0x65, 0x66, 0x67, 0x68, 0x69, 0x6A, 0x6B, 0x6C, 0x6D, 0x6E, 0x6F,
   0x70, 0x71, 0x72, 0x73, 0x74, 0x75, 0x76, 0x77, 0x78, 0x79, 0x7A, 0x7B, 0x7C, 0x7D, 0x7E, 0x7F,
   0x80, 0x81, 0x82, 0x83, 0x84, 0x85, 0x86, 0x87, 0x88, 0x89, 0x8A, 0x8B, 0x8C, 0x8D, 0x8E, 0x8F,
   0x90, 0x91, 0x92, 0x93, 0x94, 0x95, 0x96, 0x97, 0x98, 0x99, 0x9A, 0x9B, 0x9C, 0x9D, 0x9E, 0x9F,
   0xA0, 0xA1, 0xA2, 0xA3, 0xA4, 0xA5, 0xA6, 0xA7, 0xA8, 0xA9, 0xAA, 0xAB, 0xAC, 0xAD, 0xAE, 0xAF,
   0xB0, 0xB1, 0xB2, 0xB3, 0xB4, 0xB5, 0xB6, 0xB7, 0xB8, 0xB9, 0xBA, 0xBB, 0xBC, 0xBD, 0xBE, 0xBF,
   0xC0, 0xC1, 0xC2, 0xC3, 0xC4, 0xC5, 0xC6, 0xC7, 0xC8, 0xC9, 0xCA, 0xCB, 0xCC, 0xCD, 0xCE, 0xCF,
   0xD0, 0xD1, 0xD2, 0xD3, 0xD4, 0xD5, 0xD6, 0xD7, 0xD8, 0xD9, 0xDA, 0xDB, 0xDC, 0xDD, 0xDE, 0xDF,
   0xE0, 0xE1, 0xE2, 0xE3, 0xE4, 0xE5, 0xE6, 0xE7, 0xE8, 0xE9, 0xEA, 0xEB, 0xEC, 0xED, 0xEE, 0xEF,
   0xF0, 0xF1, 0xF2, 0xF3, 0xF4, 0xF5, 0xF6, 0xF7, 0xF8, 0xF9, 0xFA, 0xFB, 0xFC, 0xFD, 0xFE, 0xFF]"

definition isNotSpaceNorTermTable :: "u8 list" where
  "isNotSpaceNorTermTable =
  [0, 1, 1, 1, 1, 1, 1, 1, 1, 0, 0, 1, 1, 0, 1, 1, 1, 1, 1, 1, 1, 1, 1, 1, 1, 1, 1, 1, 1, 1, 1, 1,
   0, 1, 1, 1, 1, 1, 1, 1, 1, 1, 1, 1, 1, 1, 1, 1, 1, 1, 1, 1, 1, 1, 1, 1, 1, 1, 1, 1, 1, 1, 1, 1,
   1, 1, 1, 1, 1, 1, 1, 1, 1, 1, 1, 1, 1, 1, 1, 1, 1, 1, 1, 1, 1, 1, 1, 1, 1, 1, 1, 1, 1, 1, 1, 1,
   1, 1, 1, 1, 1, 1, 1, 1, 1, 1, 1, 1, 1, 1, 1, 1, 1, 1, 1, 1, 1, 1, 1, 1, 1, 1, 1, 1, 1, 1, 1, 1,
   1, 1, 1, 1, 1, 1, 1, 1, 1, 1, 1, 1, 1, 1, 1, 1, 1, 1, 1, 1, 1, 1, 1, 1, 1, 1, 1, 1, 1, 1, 1, 1,
   1, 1, 1, 1, 1, 1, 1, 1, 1, 1, 1, 1, 1, 1, 1, 1, 1, 1, 1, 1, 1, 1, 1, 1, 1, 1, 1, 1, 1, 1, 1, 1,
   1, 1, 1, 1, 1, 1, 1, 1, 1, 1, 1, 1, 1, 1, 1, 1, 1, 1, 1, 1, 1, 1, 1, 1, 1, 1, 1, 1, 1, 1, 1, 1,
   1, 1, 1, 1, 1, 1, 1, 1, 1, 1, 1, 1, 1, 1, 1, 1, 1, 1, 1, 1, 1, 1, 1, 1, 1, 1, 1, 1, 1, 1, 1, 1]"

definition toUpperHashTable :: "u16 list" where
  "toUpperHashTable =
  [0x0000, 0x0001, 0x0004, 0x0005, 0x0010, 0x0011, 0x0014, 0x0015,
   0x0040, 0x0041, 0x0044, 0x0045, 0x0050, 0x0051, 0x0054, 0x0055,
   0x0100, 0x0101, 0x0104, 0x0105, 0x0110, 0x0111, 0x0114, 0x0115,
   0x0140, 0x0141, 0x0144, 0x0145, 0x0150, 0x0151, 0x0154, 0x0155,
   0x0400, 0x0401, 0x0404, 0x0405, 0x0410, 0x0411, 0x0414, 0x0415,
   0x0440, 0x0441, 0x0444, 0x0445, 0x0450, 0x0451, 0x0454, 0x0455,
   0x0500, 0x0501, 0x0504, 0x0505, 0x0510, 0x0511, 0x0514, 0x0515,
   0x0540, 0x0541, 0x0544, 0x0545, 0x0550, 0x0551, 0x0554, 0x0555,
   0x1000, 0x1001, 0x1004, 0x1005, 0x1010, 0x1011, 0x1014, 0x1015,
   0x1040, 0x1041, 0x1044, 0x1045, 0x1050, 0x1051, 0x1054, 0x1055,
   0x1100, 0x1101, 0x1104, 0x1105, 0x1110, 0x1111, 0x1114, 0x1115,
   0x1140, 0x1141, 0x1144, 0x1145, 0x1150, 0x1151, 0x1154, 0x1155,
   0x1400, 0x1001, 0x1004, 0x1005, 0x1010, 0x1011, 0x1014, 0x1015,
   0x1040, 0x1041, 0x1044, 0x1045, 0x1050, 0x1051, 0x1054, 0x1055,
   0x1100, 0x1101, 0x1104, 0x1105, 0x1110, 0x1111, 0x1114, 0x1115,
   0x1140, 0x1141, 0x1144, 0x1545, 0x1550, 0x1551, 0x1554, 0x1555,
   0x4000, 0x4001, 0x4004, 0x4005, 0x4010, 0x4011, 0x4014, 0x4015,
   0x4040, 0x4041, 0x4044, 0x4045, 0x4050, 0x4051, 0x4054, 0x4055,
   0x4100, 0x4101, 0x4104, 0x4105, 0x4110, 0x4111, 0x4114, 0x4115,
   0x4140, 0x4141, 0x4144, 0x4145, 0x4150, 0x4151, 0x4154, 0x4155,
   0x4400, 0x4401, 0x4404, 0x4405, 0x4410, 0x4411, 0x4414, 0x4415,
   0x4440, 0x4441, 0x4444, 0x4445, 0x4450, 0x4451, 0x4454, 0x4455,
   0x4500, 0x4501, 0x4504, 0x4505, 0x4510, 0x4511, 0x4514, 0x4515,
   0x4540, 0x4541, 0x4544, 0x4545, 0x4550, 0x4551, 0x4554, 0x4555,
   0x5000, 0x5001, 0x5004, 0x5005, 0x5010, 0x5011, 0x5014, 0x5015,
   0x5040, 0x5041, 0x5044, 0x5045, 0x5050, 0x5051, 0x5054, 0x5055,
   0x5100, 0x5101, 0x5104, 0x5105, 0x5110, 0x5111, 0x5114, 0x5115,
   0x5140, 0x5141, 0x5144, 0x5145, 0x5150, 0x5151, 0x5154, 0x5155,
   0x5400, 0x5401, 0x5404, 0x5405, 0x5410, 0x5411, 0x5414, 0x5415,
   0x5440, 0x5441, 0x5444, 0x5445, 0x5450, 0x5451, 0x5454, 0x5455,
   0x5500, 0x5501, 0x5504, 0x5505, 0x5510, 0x5511, 0x5514, 0x5515,
   0x5540, 0x5541, 0x5544, 0x5545, 0x5550, 0x5551, 0x5554, 0x5555]"

subsection \<open>The accessors\<close>

definition isAlphaUnder :: "u8 \<Rightarrow> bool" where
  "isAlphaUnder c \<longleftrightarrow> isAlphaUnderTable ! unat c \<noteq> 0"

definition isAlNumUnder :: "u8 \<Rightarrow> bool" where
  "isAlNumUnder c \<longleftrightarrow> isAlNumUnderTable ! unat c \<noteq> 0"

definition isSpace :: "u8 \<Rightarrow> bool" where
  "isSpace c \<longleftrightarrow> isSpaceTable ! unat c \<noteq> 0"

definition isXmlWhiteSpace :: "u8 \<Rightarrow> bool" where
  "isXmlWhiteSpace c \<longleftrightarrow> isXmlWhiteSpaceTable ! unat c \<noteq> 0"

definition toUpper :: "u8 \<Rightarrow> u8" where
  "toUpper c = toUpperTable ! unat c"

definition toLower :: "u8 \<Rightarrow> u8" where
  "toLower c = toLowerTable ! unat c"

definition isNotSpaceNorTerm :: "u8 \<Rightarrow> bool" where
  "isNotSpaceNorTerm c \<longleftrightarrow> isNotSpaceNorTermTable ! unat c \<noteq> 0"

definition toUpperHash :: "u8 \<Rightarrow> u16" where
  "toUpperHash c = toUpperHashTable ! unat c"

subsection \<open>What the tables stand for\<close>

definition isLowerAscii :: "u8 \<Rightarrow> bool" where
  "isLowerAscii c \<longleftrightarrow> 97 \<le> c \<and> c \<le> 122"

definition upperAscii :: "u8 \<Rightarrow> u8" where
  "upperAscii c = (if isLowerAscii c then c - 32 else c)"

definition lowerAscii :: "u8 \<Rightarrow> u8" where
  "lowerAscii c = (if isupper c then c + 32 else c)"

definition isAlphaUnderAscii :: "u8 \<Rightarrow> bool" where
  "isAlphaUnderAscii c \<longleftrightarrow> isupper c \<or> isLowerAscii c \<or> c = 95"

definition isAlNumUnderAscii :: "u8 \<Rightarrow> bool" where
  "isAlNumUnderAscii c \<longleftrightarrow> isAlphaUnderAscii c \<or> isdigit c"

definition isSpaceAscii :: "u8 \<Rightarrow> bool" where
  "isSpaceAscii c \<longleftrightarrow> 9 \<le> c \<and> c \<le> 13 \<or> c = 32"

definition isXmlSpace :: "u8 \<Rightarrow> bool" where
  "isXmlSpace c \<longleftrightarrow> c = 9 \<or> c = 10 \<or> c = 13 \<or> c = 32"

definition isTokenChar :: "u8 \<Rightarrow> bool" where
  "isTokenChar c \<longleftrightarrow> \<not> isXmlSpace c \<and> 1 \<le> c"

text \<open>The bits of \<open>n\<close> moved to the even positions.\<close>

fun stretch :: "nat \<Rightarrow> nat" where
  "stretch n = (if n = 0 then 0 else n mod 2 + 4 * stretch (n div 2))"

declare stretch.simps [simp del]

lemma upt_256: "[0..<256] = [0, 1] @ [2..<256]"
  by (simp add: upt_conv_Cons numeral_2_eq_2)

lemma word_le_1: "(numeral k :: u8) \<le> 1 \<longleftrightarrow> unat (numeral k :: u8) \<le> 1"
  by (simp add: word_le_nat_alt)

lemmas ascii_defs = upperAscii_def lowerAscii_def isLowerAscii_def isupper_def isdigit_def
  isAlphaUnderAscii_def isAlNumUnderAscii_def isSpaceAscii_def isXmlSpace_def isTokenChar_def

lemma table_lookup:
  "table = map (\<lambda>n. f (of_nat n)) [0..<256] \<Longrightarrow> table ! unat (c :: u8) = f c"
  using unsigned_less[of c, where ?'a = nat] by simp

lemma isAlphaUnderTable_map:
  "map (\<lambda>t. t \<noteq> 0) isAlphaUnderTable = map (\<lambda>n. isAlphaUnderAscii (of_nat n)) [0..<256]"
  unfolding upt_256
  by (simp add: isAlphaUnderTable_def ascii_defs upt_rec_numeral word_le_1)

lemma isAlNumUnderTable_map:
  "map (\<lambda>t. t \<noteq> 0) isAlNumUnderTable = map (\<lambda>n. isAlNumUnderAscii (of_nat n)) [0..<256]"
  unfolding upt_256
  by (simp add: isAlNumUnderTable_def ascii_defs upt_rec_numeral word_le_1)

lemma isSpaceTable_map:
  "map (\<lambda>t. t \<noteq> 0) isSpaceTable = map (\<lambda>n. isSpaceAscii (of_nat n)) [0..<256]"
  unfolding upt_256
  by (simp add: isSpaceTable_def ascii_defs upt_rec_numeral word_le_1)

lemma isXmlWhiteSpaceTable_map:
  "map (\<lambda>t. t \<noteq> 0) isXmlWhiteSpaceTable = map (\<lambda>n. isXmlSpace (of_nat n)) [0..<256]"
  unfolding upt_256
  by (simp add: isXmlWhiteSpaceTable_def ascii_defs upt_rec_numeral word_le_1)

lemma isNotSpaceNorTermTable_map:
  "map (\<lambda>t. t \<noteq> 0) isNotSpaceNorTermTable = map (\<lambda>n. isTokenChar (of_nat n)) [0..<256]"
  unfolding upt_256
  by (simp add: isNotSpaceNorTermTable_def ascii_defs upt_rec_numeral word_le_1)

lemma toUpperTable_map: "toUpperTable = map (\<lambda>n. upperAscii (of_nat n)) [0..<256]"
  unfolding upt_256
  by (simp add: toUpperTable_def ascii_defs upt_rec_numeral word_le_1)

lemma toLowerTable_map: "toLowerTable = map (\<lambda>n. lowerAscii (of_nat n)) [0..<256]"
  unfolding upt_256
  by (simp add: toLowerTable_def ascii_defs upt_rec_numeral word_le_1)

lemma stretch_eval:
  "stretch 0 = 0" "stretch (Suc 0) = 1"
  "stretch (numeral k) = numeral k mod 2 + 4 * stretch (numeral k div 2)"
  by (simp_all add: stretch.simps)

lemma toUpperHashTable_map:
  "toUpperHashTable = map (\<lambda>n. of_nat (stretch (unat (upperAscii (of_nat n))))) [0..<256]"
  unfolding upt_256
  by (simp add: toUpperHashTable_def ascii_defs upt_rec_numeral word_le_1 stretch_eval)

lemma bool_table_lookup:
  "map (\<lambda>t. t \<noteq> 0) table = map (\<lambda>n. f (of_nat n)) [0..<256] \<Longrightarrow> (table ! unat (c :: u8) \<noteq> 0) = f c"
proof -
  assume m: "map (\<lambda>t. t \<noteq> 0) table = map (\<lambda>n. f (of_nat n)) [0..<256]"
  have c: "unat c < 256" using unsigned_less[of c, where ?'a = nat] by simp
  have "length table = 256" using arg_cong[OF m, of length] by simp
  then have "(table ! unat c \<noteq> 0) = map (\<lambda>t. t \<noteq> 0) table ! unat c" using c by simp
  also have "\<dots> = f c" using c by (simp add: m)
  finally show ?thesis .
qed

lemmas charset_lookup =
  bool_table_lookup[OF isAlphaUnderTable_map] bool_table_lookup[OF isAlNumUnderTable_map]
  bool_table_lookup[OF isSpaceTable_map] bool_table_lookup[OF isXmlWhiteSpaceTable_map]
  bool_table_lookup[OF isNotSpaceNorTermTable_map] table_lookup[OF toUpperTable_map]
  table_lookup[OF toLowerTable_map] table_lookup[OF toUpperHashTable_map]

lemma charset_eq:
  "isAlphaUnder c = isAlphaUnderAscii c" "isAlNumUnder c = isAlNumUnderAscii c"
  "isSpace c = isSpaceAscii c" "isXmlWhiteSpace c = isXmlSpace c"
  "isNotSpaceNorTerm c = isTokenChar c" "toUpper c = upperAscii c" "toLower c = lowerAscii c"
  "toUpperHash c = of_nat (stretch (unat (upperAscii c)))"
  by (simp_all only: isAlphaUnder_def isAlNumUnder_def isSpace_def isXmlWhiteSpace_def
      isNotSpaceNorTerm_def toUpper_def toLower_def toUpperHash_def charset_lookup)

lemma stretch_inj: "stretch m = stretch n \<longleftrightarrow> m = n"
proof (induction m arbitrary: n rule: less_induct)
  case (less m)
  have nz: "stretch k = 0 \<longleftrightarrow> k = 0" for k
    by (induction k rule: less_induct) (subst stretch.simps, auto)
  show ?case
  proof (cases "m = 0 \<or> n = 0")
    case True
    then show ?thesis using nz[of m] nz[of n] by auto
  next
    case False
    then have e: "stretch m = m mod 2 + 4 * stretch (m div 2)" "stretch n = n mod 2 + 4 * stretch (n div 2)"
      by (simp_all add: stretch.simps[of m] stretch.simps[of n])
    have "stretch m = stretch n \<longleftrightarrow> m mod 2 = n mod 2 \<and> stretch (m div 2) = stretch (n div 2)"
    proof -
      have "a + 4 * x = b + 4 * y \<longleftrightarrow> a = b \<and> x = y" if "a < 2" "b < 2" for a b x y :: nat
        using that by arith
      then show ?thesis unfolding e by simp
    qed
    also have "\<dots> \<longleftrightarrow> m mod 2 = n mod 2 \<and> m div 2 = n div 2"
      using less[of "m div 2" "n div 2"] False by simp
    also have "\<dots> \<longleftrightarrow> m = n" by (metis div_mult_mod_eq)
    finally show ?thesis .
  qed
qed

lemma stretch_bound: "n < 2 ^ k \<Longrightarrow> stretch n < 4 ^ k"
proof (induction k arbitrary: n)
  case (Suc k)
  then have "stretch (n div 2) < 4 ^ k" by (auto simp: less_mult_imp_div_less)
  then show ?case by (subst stretch.simps) auto
qed (simp add: stretch.simps)

lemma toUpperHash_inj: "toUpperHash c = toUpperHash d \<longleftrightarrow> toUpper c = toUpper d"
proof -
  have b: "stretch (unat x) < 2 ^ LENGTH(16)" for x :: u8
    using stretch_bound[of "unat x" 8] unsigned_less[of x, where ?'a = nat] by simp
  have "(of_nat (stretch (unat x)) :: u16) = of_nat (stretch (unat y)) \<longleftrightarrow> x = y" for x y :: u8
    using unat_of_nat_small[OF b, of x] unat_of_nat_small[OF b, of y] stretch_inj[of "unat x" "unat y"]
    by (metis unsigned_word_eqI)
  then show ?thesis by (simp add: charset_eq)
qed

subsection \<open>Case\<close>

lemma case_folding [simp]:
  "upperAscii (lowerAscii c) = upperAscii c" "lowerAscii (upperAscii c) = lowerAscii c"
  "upperAscii (upperAscii c) = upperAscii c" "lowerAscii (lowerAscii c) = lowerAscii c"
proof -
  have a: "unat (c + 32) = unat c + 32" if "isupper c"
    by (subst unat_add_no_wrap) (use that in \<open>auto simp: isupper_def word_le_unat\<close>)
  have s: "unat (c - 32) = unat c - 32" if "isLowerAscii c"
    using that by (simp add: isLowerAscii_def unat_sub_if' word_le_unat)
  show "upperAscii (lowerAscii c) = upperAscii c" "lowerAscii (upperAscii c) = lowerAscii c"
    "upperAscii (upperAscii c) = upperAscii c" "lowerAscii (lowerAscii c) = lowerAscii c"
    using a s by (auto simp: upperAscii_def lowerAscii_def isLowerAscii_def isupper_def word_le_unat)
qed

lemma upper_eq_iff_lower_eq: "upperAscii c = upperAscii d \<longleftrightarrow> lowerAscii c = lowerAscii d"
  by (metis case_folding)

subsection \<open>Properties\<close>

text \<open>
  Every table of \<open>CharSet\<close> is the ASCII predicate or conversion it is named for, at each of the
  256 bytes, and \<open>toUpperHash\<close> is injective up to the case of letters: two bytes have the same hash
  exactly when they have the same upper case.
\<close>

lemma charset_tables_exact:
  "isAlphaUnder c = isAlphaUnderAscii c \<and> isAlNumUnder c = isAlNumUnderAscii c \<and>
   isSpace c = isSpaceAscii c \<and> isXmlWhiteSpace c = isXmlSpace c \<and>
   isNotSpaceNorTerm c = isTokenChar c \<and> toUpper c = upperAscii c \<and> toLower c = lowerAscii c \<and>
   (toUpperHash c = toUpperHash d \<longleftrightarrow> toUpper c = toUpper d)"
  using charset_eq toUpperHash_inj by blast

end
