(* ===== verification/PegString.thy ===== *)
theory PegString
  imports CharSetModel
begin

section \<open>String: the operations that read a string\<close>

text \<open>
  \<^verbatim>\<open>Pegasus/Common/String.cpp\<close> and \<^verbatim>\<open>StringInline.h\<close>, built without ICU: case conversion of
  16-bit characters, the rounding of capacities, searching, and the comparisons. A string is its
  list of code units; the buffer behind it has a NUL after them, which is what \<open>cur\<close> reads at the
  end. The operations that change a string, its copy-on-write representation and its buffer are in
  the theory \<^theory_text>\<open>StringHeap\<close>.
\<close>

subsection \<open>Case conversion\<close>

definition strUpperTable :: "u8 list" where
  "strUpperTable =
  [0x00, 0x01, 0x02, 0x03, 0x04, 0x05, 0x06, 0x07, 0x08, 0x09, 0x0A, 0x0B, 0x0C, 0x0D, 0x0E, 0x0F,
   0x10, 0x11, 0x12, 0x13, 0x14, 0x15, 0x16, 0x17, 0x18, 0x19, 0x1A, 0x1B, 0x1C, 0x1D, 0x1E, 0x1F,
   0x20, 0x21, 0x22, 0x23, 0x24, 0x25, 0x26, 0x27, 0x28, 0x29, 0x2A, 0x2B, 0x2C, 0x2D, 0x2E, 0x2F,
   0x30, 0x31, 0x32, 0x33, 0x34, 0x35, 0x36, 0x37, 0x38, 0x39, 0x3A, 0x3B, 0x3C, 0x3D, 0x3E, 0x3F,
   0x40, 0x41, 0x42, 0x43, 0x44, 0x45, 0x46, 0x47, 0x48, 0x49, 0x4A, 0x4B, 0x4C, 0x4D, 0x4E, 0x4F,
   0x50, 0x51, 0x52, 0x53, 0x54, 0x55, 0x56, 0x57, 0x58, 0x59, 0x5A, 0x5B, 0x5C, 0x5D, 0x5E, 0x5F,
   0x60, 0x41, 0x42, 0x43, 0x44, 0x45, 0x46, 0x47, 0x48, 0x49, 0x4A, 0x4B, 0x4C, 0x4D, 0x4E, 0x4F,
   0x50, 0x51, 0x52, 0x53, 0x54, 0x55, 0x56, 0x57, 0x58, 0x59, 0x5A, 0x7B, 0x7C, 0x7D, 0x7E, 0x7F,
   0x80, 0x81, 0x82, 0x83, 0x84, 0x85, 0x86, 0x87, 0x88, 0x89, 0x8A, 0x8B, 0x8C, 0x8D, 0x8E, 0x8F,
   0x90, 0x91, 0x92, 0x93, 0x94, 0x95, 0x96, 0x97, 0x98, 0x99, 0x9A, 0x9B, 0x9C, 0x9D, 0x9E, 0x9F,
   0xA0, 0xA1, 0xA2, 0xA3, 0xA4, 0xA5, 0xA6, 0xA7, 0xA8, 0xA9, 0xAA, 0xAB, 0xAC, 0xAD, 0xAE, 0xAF,
   0xB0, 0xB1, 0xB2, 0xB3, 0xB4, 0xB5, 0xB6, 0xB7, 0xB8, 0xB9, 0xBA, 0xBB, 0xBC, 0xBD, 0xBE, 0xBF,
   0xC0, 0xC1, 0xC2, 0xC3, 0xC4, 0xC5, 0xC6, 0xC7, 0xC8, 0xC9, 0xCA, 0xCB, 0xCC, 0xCD, 0xCE, 0xCF,
   0xD0, 0xD1, 0xD2, 0xD3, 0xD4, 0xD5, 0xD6, 0xD7, 0xD8, 0xD9, 0xDA, 0xDB, 0xDC, 0xDD, 0xDE, 0xDF,
   0xE0, 0xE1, 0xE2, 0xE3, 0xE4, 0xE5, 0xE6, 0xE7, 0xE8, 0xE9, 0xEA, 0xEB, 0xEC, 0xED, 0xEE, 0xEF,
   0xF0, 0xF1, 0xF2, 0xF3, 0xF4, 0xF5, 0xF6, 0xF7, 0xF8, 0xF9, 0xFA, 0xFB, 0xFC, 0xFD, 0xFE, 0xFF]"

definition strLowerTable :: "u8 list" where
  "strLowerTable =
  [0x00, 0x01, 0x02, 0x03, 0x04, 0x05, 0x06, 0x07, 0x08, 0x09, 0x0A, 0x0B, 0x0C, 0x0D, 0x0E, 0x0F,
   0x10, 0x11, 0x12, 0x13, 0x14, 0x15, 0x16, 0x17, 0x18, 0x19, 0x1A, 0x1B, 0x1C, 0x1D, 0x1E, 0x1F,
   0x20, 0x21, 0x22, 0x23, 0x24, 0x25, 0x26, 0x27, 0x28, 0x29, 0x2A, 0x2B, 0x2C, 0x2D, 0x2E, 0x2F,
   0x30, 0x31, 0x32, 0x33, 0x34, 0x35, 0x36, 0x37, 0x38, 0x39, 0x3A, 0x3B, 0x3C, 0x3D, 0x3E, 0x3F,
   0x40, 0x61, 0x62, 0x63, 0x64, 0x65, 0x66, 0x67, 0x68, 0x69, 0x6A, 0x6B, 0x6C, 0x6D, 0x6E, 0x6F,
   0x70, 0x71, 0x72, 0x73, 0x74, 0x75, 0x76, 0x77, 0x78, 0x79, 0x7A, 0x5B, 0x5C, 0x5D, 0x5E, 0x5F,
   0x60, 0x61, 0x62, 0x63, 0x64, 0x65, 0x66, 0x67, 0x68, 0x69, 0x6A, 0x6B, 0x6C, 0x6D, 0x6E, 0x6F,
   0x70, 0x71, 0x72, 0x73, 0x74, 0x75, 0x76, 0x77, 0x78, 0x79, 0x7A, 0x7B, 0x7C, 0x7D, 0x7E, 0x7F,
   0x80, 0x81, 0x82, 0x83, 0x84, 0x85, 0x86, 0x87, 0x88, 0x89, 0x8A, 0x8B, 0x8C, 0x8D, 0x8E, 0x8F,
   0x90, 0x91, 0x92, 0x93, 0x94, 0x95, 0x96, 0x97, 0x98, 0x99, 0x9A, 0x9B, 0x9C, 0x9D, 0x9E, 0x9F,
   0xA0, 0xA1, 0xA2, 0xA3, 0xA4, 0xA5, 0xA6, 0xA7, 0xA8, 0xA9, 0xAA, 0xAB, 0xAC, 0xAD, 0xAE, 0xAF,
   0xB0, 0xB1, 0xB2, 0xB3, 0xB4, 0xB5, 0xB6, 0xB7, 0xB8, 0xB9, 0xBA, 0xBB, 0xBC, 0xBD, 0xBE, 0xBF,
   0xC0, 0xC1, 0xC2, 0xC3, 0xC4, 0xC5, 0xC6, 0xC7, 0xC8, 0xC9, 0xCA, 0xCB, 0xCC, 0xCD, 0xCE, 0xCF,
   0xD0, 0xD1, 0xD2, 0xD3, 0xD4, 0xD5, 0xD6, 0xD7, 0xD8, 0xD9, 0xDA, 0xDB, 0xDC, 0xDD, 0xDE, 0xDF,
   0xE0, 0xE1, 0xE2, 0xE3, 0xE4, 0xE5, 0xE6, 0xE7, 0xE8, 0xE9, 0xEA, 0xEB, 0xEC, 0xED, 0xEE, 0xEF,
   0xF0, 0xF1, 0xF2, 0xF3, 0xF4, 0xF5, 0xF6, 0xF7, 0xF8, 0xF9, 0xFA, 0xFB, 0xFC, 0xFD, 0xFE, 0xFF]"

definition toUpper16 :: "u16 \<Rightarrow> u16" where
  "toUpper16 x = (if x AND 0xFF00 \<noteq> 0 then x else ucast (strUpperTable ! unat x))"

definition toLower16 :: "u16 \<Rightarrow> u16" where
  "toLower16 x = (if x AND 0xFF00 \<noteq> 0 then x else ucast (strLowerTable ! unat x))"

text \<open>\<open>toLower\<close> tests the high byte before it calls \<open>_toLower\<close>, \<open>toUpper\<close> does not.\<close>

definition toLowerUnits :: "pstr \<Rightarrow> pstr" where
  "toLowerUnits s = map (\<lambda>c. if c AND 0xFF00 = 0 then toLower16 c else c) s"

definition toUpperUnits :: "pstr \<Rightarrow> pstr" where
  "toUpperUnits s = map toUpper16 s"

lemma strTables_eq: "strUpperTable = toUpperTable" "strLowerTable = toLowerTable"
  by (simp_all only: strUpperTable_def toUpperTable_def strLowerTable_def toLowerTable_def)

lemma high_byte_zero: "(x :: u16) AND 0xFF00 = 0 \<longleftrightarrow> unat x < 256"
proof -
  have m: "(0xFF00 :: u16) = NOT (mask 8)" by (simp add: mask_eq_exp_minus_1)
  show ?thesis unfolding m and_not_mask_eq_0 by simp
qed

lemma low_byte_lookup:
  assumes "unat (x :: u16) < 256" and "t = map (\<lambda>n. f (of_nat n)) [0..<256]"
  shows "t ! unat x = f (ucast x :: u8)"
proof -
  have "of_nat (unat x) = (ucast x :: u8)" by (rule of_nat_unat)
  then show ?thesis using assms by simp
qed

lemma toUpper16_eq: "toUpper16 x = (if unat x < 256 then ucast (upperAscii (ucast x)) else x)"
  by (simp add: toUpper16_def high_byte_zero strTables_eq low_byte_lookup [OF _ toUpperTable_map])

lemma toLower16_eq: "toLower16 x = (if unat x < 256 then ucast (lowerAscii (ucast x)) else x)"
  by (simp add: toLower16_def high_byte_zero strTables_eq low_byte_lookup [OF _ toLowerTable_map])

lemma toLowerUnits_eq: "toLowerUnits s = map toLower16 s"
  by (simp add: toLowerUnits_def toLower16_def)

text \<open>Both case maps keep the high bytes apart, so they identify the same characters.\<close>

lemma ucast_byte: "unat (ucast (c :: u8) :: u16) = unat c"
  by (rule unat_ucast_up) simp

lemma ucast_byte_inj: "(ucast (c :: u8) :: u16) = ucast d \<longleftrightarrow> c = d"
  by (metis ucast_byte unsigned_word_eqI)

lemma ucast_byte_small: "unat (ucast (c :: u8) :: u16) < 256"
  using unsigned_less [of c, where ?'a = nat] by (simp add: ucast_byte)

lemma ucast_low_byte: "unat (x :: u16) < 256 \<Longrightarrow> ucast (ucast x :: u8) = x"
  by (rule unsigned_word_eqI [where ?'a = nat]) (simp add: ucast_byte unsigned_ucast_eq unsigned_take_bit_eq take_bit_nat_eq_self)

lemma toUpper16_eq_iff: "toUpper16 x = toUpper16 y \<longleftrightarrow> toLower16 x = toLower16 y"
proof -
  have ne: "ucast (f (ucast a)) \<noteq> b" if "unat a < 256" "\<not> unat b < 256" for f :: "u8 \<Rightarrow> u8" and a b :: u16
    using ucast_byte_small that(2) by metis
  show ?thesis
    by (auto simp: toUpper16_eq toLower16_eq ucast_byte_inj upper_eq_iff_lower_eq dest: ne ne [symmetric])
qed

lemma lowerAscii_0 [simp]: "lowerAscii c = 0 \<longleftrightarrow> c = 0"
proof (cases "isupper c")
  case True
  then have "unat (c + 32) = unat c + 32"
    by (subst unat_add_no_wrap) (auto simp: isupper_def word_le_unat)
  then have "c + 32 \<noteq> 0" by (metis add_is_0 unsigned_0 zero_neq_numeral)
  with True show ?thesis by (auto simp: lowerAscii_def)
qed (auto simp: lowerAscii_def)

lemma toLower16_0 [simp]: "toLower16 c = 0 \<longleftrightarrow> c = 0"
proof (cases "unat c < 256")
  case True
  have z: "(ucast (d :: u8) :: u16) = 0 \<longleftrightarrow> d = 0" for d
    using ucast_byte_inj [of d 0] by simp
  have "toLower16 c = 0 \<longleftrightarrow> (ucast c :: u8) = 0" using True by (simp add: toLower16_eq z)
  also have "\<dots> \<longleftrightarrow> (ucast (ucast c :: u8) :: u16) = 0" by (simp only: z)
  finally show ?thesis using True by (simp only: ucast_low_byte)
qed (auto simp: toLower16_eq)

subsection \<open>Capacities\<close>

text \<open>\<open>PEGASUS_CHECK_CAPACITY_OVERFLOW\<close> (\<^verbatim>\<open>InternalException.h\<close>) throws \<open>bad_alloc\<close>.\<close>

datatype stringError = BadAlloc | IndexOutOfBounds | NullPointer | BadUTF8 nat

definition capacityOverflow :: "u32 \<Rightarrow> bool" where
  "capacityOverflow capacity \<longleftrightarrow> capacity > 0x3FFFFFFF"

definition roundUpToPow2 :: "u32 \<Rightarrow> stringError + u32" where
  "roundUpToPow2 x =
    (if capacityOverflow x then Inl BadAlloc
     else if x < 8 then Inr 8
     else
       (let x = x - 1;
            x = x OR drop_bit 1 x;
            x = x OR drop_bit 2 x;
            x = x OR drop_bit 4 x;
            x = x OR drop_bit 8 x;
            x = x OR drop_bit 16 x
        in Inr (x + 1)))"

text \<open>
  After the shift by \<open>k\<close>, the bits of \<open>x\<close> are the bits of the start at a distance below \<open>2 * k\<close>
  above; after the last, every bit below the highest one of \<open>x\<close> is set.
\<close>

definition smeared :: "u32 \<Rightarrow> nat \<Rightarrow> u32 \<Rightarrow> bool" where
  "smeared x d y \<longleftrightarrow> (\<forall>i<32. bit y i \<longleftrightarrow> (\<exists>j. i \<le> j \<and> j < i + d \<and> j < 32 \<and> bit x j))"

lemma smeared_0: "smeared x 1 x"
proof -
  have "bit x i \<longleftrightarrow> (\<exists>j. i \<le> j \<and> j < i + 1 \<and> j < 32 \<and> bit x j)" if "i < 32" for i
  proof
    assume "\<exists>j. i \<le> j \<and> j < i + 1 \<and> j < 32 \<and> bit x j"
    then obtain j where "i \<le> j" "j < i + 1" "bit x j" by blast
    then show "bit x i" by (metis Suc_eq_plus1 le_antisym less_Suc_eq_le)
  qed (use that in auto)
  then show ?thesis by (simp add: smeared_def)
qed

lemma smeared_step:
  assumes "smeared x d y"
  shows "smeared x (2 * d) (y OR drop_bit d y)"
  unfolding smeared_def
proof (intro allI impI)
  fix i :: nat assume i: "i < 32"
  have y: "bit y k \<longleftrightarrow> (\<exists>j. k \<le> j \<and> j < k + d \<and> j < 32 \<and> bit x j)" for k
  proof (cases "k < 32")
    case False
    then have "\<not> bit y k" using bit_imp_le_length [of y k] by auto
    with False show ?thesis by auto
  qed (use assms in \<open>simp add: smeared_def\<close>)
  have "bit (y OR drop_bit d y) i \<longleftrightarrow> bit y i \<or> bit y (i + d)"
    by (simp add: bit_or_iff bit_drop_bit_eq add.commute)
  also have "\<dots> \<longleftrightarrow> (\<exists>j. i \<le> j \<and> j < i + 2 * d \<and> j < 32 \<and> bit x j)"
    unfolding y
  proof
    assume "\<exists>j. i \<le> j \<and> j < i + 2 * d \<and> j < 32 \<and> bit x j"
    then obtain j where j: "i \<le> j" "j < i + 2 * d" "j < 32" "bit x j" by blast
    then show "(\<exists>j. i \<le> j \<and> j < i + d \<and> j < 32 \<and> bit x j) \<or>
               (\<exists>j. i + d \<le> j \<and> j < i + d + d \<and> j < 32 \<and> bit x j)"
      by (cases "j < i + d") auto
  next
    assume "(\<exists>j. i \<le> j \<and> j < i + d \<and> j < 32 \<and> bit x j) \<or>
            (\<exists>j. i + d \<le> j \<and> j < i + d + d \<and> j < 32 \<and> bit x j)"
    then obtain j where "i \<le> j" "j < i + 2 * d" "j < 32" "bit x j" by (metis add.assoc le_add1 le_trans mult_2 trans_less_add1)
    then show "\<exists>j. i \<le> j \<and> j < i + 2 * d \<and> j < 32 \<and> bit x j" by blast
  qed
  finally show "bit (y OR drop_bit d y) i \<longleftrightarrow> (\<exists>j. i \<le> j \<and> j < i + 2 * d \<and> j < 32 \<and> bit x j)" .
qed

lemma smeared_mask:
  assumes "smeared x 32 y" and "2 ^ k \<le> unat x" and "unat x < 2 ^ Suc k"
  shows "y = mask (Suc k)"
proof (rule bit_word_eqI)
  fix i assume i: "i < LENGTH(32)"
  have k: "k < 32"
  proof (rule ccontr)
    assume "\<not> k < 32"
    then have "(2 :: nat) ^ 32 \<le> 2 ^ k" by (intro power_increasing) simp_all
    then show False using assms(2) unsigned_less [of x, where ?'a = nat] by simp
  qed
  have x: "bit x j \<longleftrightarrow> bit (unat x) j" for j
    by (simp add: bit_unsigned_iff)
  have high: "\<not> bit x j" if "k < j" for j
  proof -
    have "(2 :: nat) ^ Suc k \<le> 2 ^ j" using that by (intro power_increasing) simp_all
    then have "unat x div 2 ^ j = 0" using assms(3) by simp
    then show ?thesis unfolding x by (simp add: bit_iff_odd)
  qed
  have "unat x div 2 ^ k = 1" by (rule div_nat_eqI) (use assms(2,3) in simp_all)
  then have top: "bit x k" unfolding x by (simp add: bit_iff_odd)
  have "bit y i \<longleftrightarrow> (\<exists>j. i \<le> j \<and> j < i + 32 \<and> j < 32 \<and> bit x j)"
    using assms(1) i by (simp add: smeared_def)
  also have "\<dots> \<longleftrightarrow> i \<le> k"
    using high top k by (meson le_add2 leI le_trans less_le_trans trans_less_add2)
  finally show "bit y i \<longleftrightarrow> bit (mask (Suc k) :: u32) i" using i by (simp add: bit_mask_iff less_Suc_eq_le)
qed

lemma roundUpToPow2_word:
  assumes "8 \<le> unat x" and "unat x \<le> 0x3FFFFFFF"
  shows "\<exists>k. 2 \<le> k \<and> k < 30 \<and> 2 ^ k < unat x \<and> unat x \<le> 2 ^ Suc k \<and>
             roundUpToPow2 x = Inr (2 ^ Suc k)"
proof -
  have x1: "unat (x - 1) = unat x - 1" using assms by (simp add: unat_sub_if')
  then have "1 \<le> unat (x - 1)" using assms by simp
  then obtain k where k: "2 ^ k \<le> unat (x - 1)" "unat (x - 1) < 2 ^ Suc k"
    using ex_power_ivl1 [of 2 "unat (x - 1)"] by auto
  let ?y1 = "(x - 1) OR drop_bit 1 (x - 1)"
  let ?y2 = "?y1 OR drop_bit 2 ?y1"
  let ?y4 = "?y2 OR drop_bit 4 ?y2"
  let ?y8 = "?y4 OR drop_bit 8 ?y4"
  let ?y16 = "?y8 OR drop_bit 16 ?y8"
  have "smeared (x - 1) 2 ?y1" using smeared_step [OF smeared_0] by simp
  from smeared_step [OF this] have "smeared (x - 1) 4 ?y2" by simp
  from smeared_step [OF this] have "smeared (x - 1) 8 ?y4" by simp
  from smeared_step [OF this] have "smeared (x - 1) 16 ?y8" by simp
  from smeared_step [OF this] have "smeared (x - 1) 32 ?y16" by simp
  from smeared_mask [OF this k] have y: "?y16 + 1 = 2 ^ Suc k" by (simp add: mask_eq_exp_minus_1)
  have "roundUpToPow2 x = Inr (?y16 + 1)"
    using assms by (simp add: roundUpToPow2_def capacityOverflow_def Let_def word_less_unat)
  then have "roundUpToPow2 x = Inr (2 ^ Suc k)" unfolding y .
  moreover have "k < 30"
  proof (rule ccontr)
    assume "\<not> k < 30"
    then have "(2 :: nat) ^ 30 \<le> 2 ^ k" by (intro power_increasing) simp_all
    then show False using k(1) x1 assms by simp
  qed
  moreover have "2 \<le> k"
  proof (rule ccontr)
    assume "\<not> 2 \<le> k"
    then have "(2 :: nat) ^ Suc k \<le> 2 ^ 2" by (intro power_increasing) simp_all
    then show False using k(2) x1 assms by simp
  qed
  moreover have "2 ^ k < unat x" "unat x \<le> 2 ^ Suc k" using k x1 assms by simp_all
  ultimately show ?thesis by blast
qed

text \<open>
  \<open>_roundUpToPow2\<close> throws exactly for a capacity above \<open>0x3FFFFFFF\<close>; for every other it returns
  the least power of two that is at least 8 and at least the capacity.
\<close>

theorem roundUpToPow2_exact:
  "(roundUpToPow2 x = Inl BadAlloc \<longleftrightarrow> 0x3FFFFFFF < unat x) \<and>
   (unat x \<le> 0x3FFFFFFF \<longrightarrow>
      (\<exists>k. 3 \<le> k \<and> k \<le> 30 \<and> roundUpToPow2 x = Inr (2 ^ k) \<and> unat x \<le> 2 ^ k \<and>
           (\<forall>j\<ge>3. unat x \<le> 2 ^ j \<longrightarrow> k \<le> j)))"
proof (intro conjI impI)
  show "roundUpToPow2 x = Inl BadAlloc \<longleftrightarrow> 0x3FFFFFFF < unat x"
    by (simp add: roundUpToPow2_def capacityOverflow_def Let_def word_less_unat)
next
  assume x: "unat x \<le> 0x3FFFFFFF"
  show "\<exists>k. 3 \<le> k \<and> k \<le> 30 \<and> roundUpToPow2 x = Inr (2 ^ k) \<and> unat x \<le> 2 ^ k \<and>
            (\<forall>j\<ge>3. unat x \<le> 2 ^ j \<longrightarrow> k \<le> j)"
  proof (cases "unat x < 8")
    case True
    then have "roundUpToPow2 x = Inr (2 ^ 3)"
      using x by (simp add: roundUpToPow2_def capacityOverflow_def word_less_unat)
    with True show ?thesis by (intro exI [of _ 3]) simp
  next
    case False
    with x obtain k where k: "2 \<le> k" "k < 30" "2 ^ k < unat x" "unat x \<le> 2 ^ Suc k"
      "roundUpToPow2 x = Inr (2 ^ Suc k)" using roundUpToPow2_word [of x] by auto
    have "Suc k \<le> j" if "unat x \<le> 2 ^ j" for j
      using k(3) that by (metis Suc_leI le_trans linorder_not_less power_increasing one_le_numeral)
    with k show ?thesis by (intro exI [of _ "Suc k"]) simp
  qed
qed

theorem roundUpToPow2_exact_witness:
  "\<exists>k. 3 \<le> k \<and> k \<le> 30 \<and> roundUpToPow2 100 = Inr (2 ^ k) \<and> 100 \<le> (2 :: nat) ^ k"
  using roundUpToPow2_exact [of 100] by simp blast

subsection \<open>Searching\<close>

definition notFound :: u32 where
  "notFound = 0xFFFFFFFF"

text \<open>\<open>findUnit s n c\<close> is the static function \<open>_find\<close>: its loop compares four characters a turn, and
  three single tests handle the rest.\<close>

definition findTail :: "pstr \<Rightarrow> u16 \<Rightarrow> nat option" where
  "findTail s c =
    (case s of [] \<Rightarrow> None
     | a # s1 \<Rightarrow> if a = c then Some 0 else
        (case s1 of [] \<Rightarrow> None
         | b # s2 \<Rightarrow> if b = c then Some 1 else
            (case s2 of [] \<Rightarrow> None
             | d # s3 \<Rightarrow> if d = c then Some 2 else None)))"

fun findUnit :: "pstr \<Rightarrow> u16 \<Rightarrow> nat option" where
  "findUnit (s0 # s1 # s2 # s3 # s) c =
    (if s0 = c then Some 0 else if s1 = c then Some 1 else if s2 = c then Some 2
     else if s3 = c then Some 3 else map_option ((+) 4) (findUnit s c))"
| "findUnit s c = findTail s c"

definition findChar :: "pstr \<Rightarrow> u16 \<Rightarrow> u32" where
  "findChar s c = (case findUnit s c of Some p \<Rightarrow> of_nat p | None \<Rightarrow> notFound)"

definition findCharFrom :: "pstr \<Rightarrow> u32 \<Rightarrow> u16 \<Rightarrow> stringError + u32" where
  "findCharFrom s index c =
    (if unat index > length s then Inl IndexOutOfBounds
     else if unat index \<ge> length s then Inr notFound
     else (case findUnit (drop (unat index) s) c of
             Some p \<Rightarrow> Inr (of_nat (unat index + p)) | None \<Rightarrow> Inr notFound))"

text \<open>
  \<open>StringFindAux\<close> compares \<open>n\<close> characters wherever the first one of the pattern occurs, without a
  test that so many remain; \<open>buf\<close> is the whole allocated buffer and \<open>Undefined\<close> a read past it.
\<close>

lemma findTail_bound: "findTail s c = Some p \<Longrightarrow> p < length s"
  by (auto simp: findTail_def split: list.splits if_splits)

lemma findUnit_bound: "findUnit s c = Some p \<Longrightarrow> p < length s"
proof (induction s c arbitrary: p rule: findUnit.induct)
  case (1 s0 s1 s2 s3 s c)
  then show ?case by (auto split: if_splits)
qed (auto dest: findTail_bound)

function findAuxLoop :: "pstr \<Rightarrow> pstr \<Rightarrow> nat \<Rightarrow> nat \<Rightarrow> (stringError, u32) outcome" where
  "findAuxLoop buf t pos rem =
    (if length t \<le> rem then
       (case findUnit (take rem (drop pos buf)) (cur t) of
          None \<Rightarrow> Done notFound
        | Some k \<Rightarrow>
            if length buf < pos + k + length t then Undefined
            else if take (length t) (drop (pos + k) buf) = t then Done (of_nat (pos + k))
            else findAuxLoop buf t (pos + k + 1) (rem - (k + 1)))
     else Done notFound)"
  by pat_completeness auto
termination
  by (relation "measure (\<lambda>(buf, t, pos, rem). rem)") (auto dest!: findUnit_bound)

declare findAuxLoop.simps [simp del]

definition StringFindAux :: "pstr \<Rightarrow> nat \<Rightarrow> pstr \<Rightarrow> (stringError, u32) outcome" where
  "StringFindAux buf sz t = findAuxLoop buf t 0 sz"

fun reverseLoop :: "pstr \<Rightarrow> nat \<Rightarrow> u16 \<Rightarrow> u32" where
  "reverseLoop s 0 x = notFound"
| "reverseLoop s (Suc q) x = (if s ! q = x then of_nat q else reverseLoop s q x)"

definition reverseFind :: "pstr \<Rightarrow> u16 \<Rightarrow> u32" where
  "reverseFind s c = reverseLoop s (length s) c"

text \<open>The reference: the first index of a character.\<close>

fun firstIndex :: "pstr \<Rightarrow> u16 \<Rightarrow> nat option" where
  "firstIndex [] c = None"
| "firstIndex (a # s) c = (if a = c then Some 0 else map_option Suc (firstIndex s c))"

lemma findUnit_eq: "findUnit s c = firstIndex s c"
proof (induction s c rule: findUnit.induct)
  case (1 s0 s1 s2 s3 s c)
  then show ?case by (cases "firstIndex s c") simp_all
qed (simp_all add: findTail_def)

lemma firstIndex_None: "firstIndex s c = None \<longleftrightarrow> c \<notin> set s"
  by (induction s) auto

lemma firstIndex_Some:
  "firstIndex s c = Some p \<Longrightarrow> p < length s \<and> s ! p = c \<and> (\<forall>i<p. s ! i \<noteq> c)"
proof (induction s arbitrary: p)
  case (Cons a s)
  show ?case
  proof (cases "a = c")
    case False
    then obtain q where "firstIndex s c = Some q" "p = Suc q" using Cons.prems by auto
    with Cons.IH [of q] False show ?thesis by (auto simp: nth_Cons split: nat.splits)
  qed (use Cons.prems in auto)
qed simp

lemma reverseLoop_exact:
  "q \<le> length s \<Longrightarrow> q < 2 ^ 32 - 1 \<Longrightarrow>
   (reverseLoop s q c = notFound \<and> (\<forall>i<q. s ! i \<noteq> c)) \<or>
   (\<exists>p<q. reverseLoop s q c = of_nat p \<and> s ! p = c \<and> (\<forall>i. p < i \<and> i < q \<longrightarrow> s ! i \<noteq> c))"
proof (induction q)
  case (Suc q)
  show ?case
  proof (cases "s ! q = c")
    case False
    then show ?thesis using Suc by (auto simp: less_Suc_eq)
  qed (intro disjI2 exI [of _ q], auto)
qed simp

lemma of_nat_not_notFound: "p < 2 ^ 32 - 1 \<Longrightarrow> of_nat p \<noteq> notFound"
  by (rule notI, drule arg_cong [where f = unat]) (simp add: notFound_def unat_of_nat_small)

definition occursAt :: "pstr \<Rightarrow> pstr \<Rightarrow> nat \<Rightarrow> bool" where
  "occursAt t s i \<longleftrightarrow> i + length t \<le> length s \<and> take (length t) (drop i s) = t"

lemma occursAt_first:
  assumes "occursAt t s i" and "t \<noteq> []"
  shows "i < length s \<and> s ! i = cur t"
proof -
  have t: "i + length t \<le> length s" "take (length t) (drop i s) ! 0 = t ! 0" "0 < length t"
    using assms by (simp_all add: occursAt_def)
  have "cur t = t ! 0" using assms(2) by (cases t) simp_all
  with t show ?thesis by (simp del: length_greater_0_conv)
qed

lemma match_in_buffer:
  assumes "nul_free t" and "p < length s" and "p + length t \<le> length (s @ 0 # junk)"
  shows "take (length t) (drop p (s @ 0 # junk)) = t \<longleftrightarrow> occursAt t s p"
proof (cases "p + length t \<le> length s")
  case False
  have "take (length t) (drop p (s @ 0 # junk)) \<noteq> t"
  proof
    assume m: "take (length t) (drop p (s @ 0 # junk)) = t"
    have "t ! (length s - p) = 0"
      by (subst m [symmetric]) (use assms False in \<open>simp add: nth_append\<close>)
    moreover have "length s - p < length t" using False assms(2) by linarith
    ultimately show False using assms(1) nth_mem [of "length s - p" t] by (simp add: nul_free_def)
  qed
  with False show ?thesis by (simp add: occursAt_def)
qed (simp add: occursAt_def)

lemma findAuxLoop_exact:
  assumes "nul_free t" and "t \<noteq> []" and "length s < 2 ^ 32 - 1"
    and "pos + rem = length s" and "\<forall>i<pos. \<not> occursAt t s i"
  shows "(case findAuxLoop (s @ 0 # junk) t pos rem of
            Done r \<Rightarrow> if r = notFound then \<forall>i. \<not> occursAt t s i
                      else occursAt t s (unat r) \<and> (\<forall>i<unat r. \<not> occursAt t s i)
          | Throws e \<Rightarrow> False
          | Undefined \<Rightarrow> length junk + 2 < length t)"
  using assms(4,5)
proof (induction rem arbitrary: pos rule: less_induct)
  case (less rem)
  let ?buf = "s @ 0 # junk"
  have window: "take rem (drop pos ?buf) = drop pos s" using less.prems(1) by simp
  note step = findAuxLoop.simps [of ?buf t pos rem, unfolded window]
  have early: "\<not> occursAt t s i" if "i < pos \<or> length s < i + length t" for i
    using that less.prems(2) by (auto simp: occursAt_def)
  show ?case
  proof (cases "length t \<le> rem")
    case False
    then have "\<not> occursAt t s i" for i using early [of i] less.prems(1) by linarith
    with False show ?thesis by (simp add: step)
  next
    case small: True
    show ?thesis
    proof (cases "findUnit (drop pos s) (cur t)")
      case None
      then have none: "cur t \<notin> set (drop pos s)" by (simp add: findUnit_eq firstIndex_None)
      have "\<not> occursAt t s i" for i
      proof (cases "i < pos")
        case False
        then show ?thesis
          using none occursAt_first [of t s i] assms(2) by (fastforce simp: in_set_conv_nth dest: spec [of _ "i - pos"])
      qed (use early in blast)
      with None small show ?thesis by (simp add: step)
    next
      case (Some k)
      then have k: "pos + k < length s" "s ! (pos + k) = cur t" "\<forall>i<k. s ! (pos + i) \<noteq> cur t"
        using firstIndex_Some [of "drop pos s" "cur t" k] less.prems(1) by (auto simp: findUnit_eq)
      have skipped: "\<not> occursAt t s i" if "i < pos + k" for i
      proof (cases "i < pos")
        case False
        then show ?thesis using that k(3) [rule_format, of "i - pos"] occursAt_first [of t s i] assms(2) by auto
      qed (use early in blast)
      show ?thesis
      proof (cases "length ?buf < pos + k + length t")
        case True
        with Some small k(1) show ?thesis by (simp add: step)
      next
        case fits: False
        show ?thesis
        proof (cases "occursAt t s (pos + k)")
          case True
          then have "take (length t) (drop (pos + k) ?buf) = t"
            using match_in_buffer [of t "pos + k" s junk] assms(1) k(1) fits by simp
          moreover have "unat (of_nat (pos + k) :: u32) = pos + k"
            using k(1) assms(3) by (intro unat_of_nat_small) simp
          moreover have "of_nat (pos + k) \<noteq> notFound" using k(1) assms(3) by (intro of_nat_not_notFound) simp
          ultimately show ?thesis using Some small fits True skipped by (simp add: step del: of_nat_add)
        next
          case False
          then have "findAuxLoop ?buf t pos rem = findAuxLoop ?buf t (pos + k + 1) (rem - (k + 1))"
            using match_in_buffer [of t "pos + k" s junk] assms(1) k(1) fits Some small by (simp add: step)
          moreover have "\<forall>i<pos + k + 1. \<not> occursAt t s i" using skipped False by (simp add: less_Suc_eq)
          ultimately show ?thesis
            using less.IH [of "rem - (k + 1)" "pos + k + 1"] k(1) less.prems(1) by simp
        qed
      qed
    qed
  qed
qed

lemma char_of_position:
  assumes "length s < 2 ^ 32 - 1" and "p < length s"
  shows "unat (of_nat p :: u32) = p" and "of_nat p \<noteq> notFound"
  using assms by (simp_all add: unat_of_nat_small of_nat_not_notFound)

lemma findChar_spec:
  assumes "length s < 2 ^ 32 - 1"
  shows "if findChar s c = notFound then c \<notin> set s
         else s ! unat (findChar s c) = c \<and> unat (findChar s c) < length s \<and>
              (\<forall>i<unat (findChar s c). s ! i \<noteq> c)"
proof (cases "firstIndex s c")
  case None
  then have "findChar s c = notFound" "c \<notin> set s"
    by (simp_all add: findChar_def findUnit_eq) (simp add: firstIndex_None)
  then show ?thesis by simp
next
  case (Some p)
  then show ?thesis
    using firstIndex_Some [OF Some] char_of_position [OF assms, of p]
    by (simp add: findChar_def findUnit_eq)
qed

lemma findCharFrom_eq:
  assumes "length s < 2 ^ 32 - 1"
  shows "findCharFrom s index c =
           (if length s < unat index then Inl IndexOutOfBounds
            else Inr (if findChar (drop (unat index) s) c = notFound then notFound
                      else index + findChar (drop (unat index) s) c))"
proof (cases "findUnit (drop (unat index) s) c")
  case (Some p)
  then have "of_nat p \<noteq> notFound" using findUnit_bound [OF Some] assms by (intro of_nat_not_notFound) simp
  then show ?thesis using Some findUnit_bound [OF Some] by (auto simp: findCharFrom_def findChar_def)
qed (auto simp: findCharFrom_def findChar_def)

text \<open>
  \<open>find(c)\<close> is the index of the first occurrence of the character and \<open>reverseFind(c)\<close> of the last,
  \<open>PEG_NOT_FOUND\<close> exactly when there is none; \<open>find(index, c)\<close> is the first occurrence not before
  \<open>index\<close>, and throws exactly for an index beyond the end.
\<close>

lemma find_char_exact:
  assumes "length s < 2 ^ 32 - 1"
  shows "(if findChar s c = notFound then c \<notin> set s
          else s ! unat (findChar s c) = c \<and> unat (findChar s c) < length s \<and>
               (\<forall>i<unat (findChar s c). s ! i \<noteq> c)) \<and>
         (if reverseFind s c = notFound then c \<notin> set s
          else s ! unat (reverseFind s c) = c \<and> unat (reverseFind s c) < length s \<and>
               (\<forall>i. unat (reverseFind s c) < i \<and> i < length s \<longrightarrow> s ! i \<noteq> c)) \<and>
         findCharFrom s index c =
           (if length s < unat index then Inl IndexOutOfBounds
            else Inr (if findChar (drop (unat index) s) c = notFound then notFound
                      else index + findChar (drop (unat index) s) c))"
proof (intro conjI)
  show "if findChar s c = notFound then c \<notin> set s
        else s ! unat (findChar s c) = c \<and> unat (findChar s c) < length s \<and>
             (\<forall>i<unat (findChar s c). s ! i \<noteq> c)"
    by (rule findChar_spec [OF assms])
next
  have "reverseFind s c = notFound \<and> (\<forall>i<length s. s ! i \<noteq> c) \<or>
        (\<exists>p<length s. reverseFind s c = of_nat p \<and> s ! p = c \<and> (\<forall>i. p < i \<and> i < length s \<longrightarrow> s ! i \<noteq> c))"
    unfolding reverseFind_def by (rule reverseLoop_exact) (use assms in simp_all)
  then show "if reverseFind s c = notFound then c \<notin> set s
        else s ! unat (reverseFind s c) = c \<and> unat (reverseFind s c) < length s \<and>
             (\<forall>i. unat (reverseFind s c) < i \<and> i < length s \<longrightarrow> s ! i \<noteq> c)"
    by (elim disjE exE conjE) (auto simp: in_set_conv_nth char_of_position [OF assms])
next
  show "findCharFrom s index c =
           (if length s < unat index then Inl IndexOutOfBounds
            else Inr (if findChar (drop (unat index) s) c = notFound then notFound
                      else index + findChar (drop (unat index) s) c))"
    by (rule findCharFrom_eq [OF assms])
qed

theorem find_char_exact_witness:
  "findCharFrom [1, 2, 1] 5 1 = Inl IndexOutOfBounds \<and>
   (findChar [1, 2, 1] 1 = notFound \<or> [1, 2, 1 :: u16] ! unat (findChar [1, 2, 1] 1) = 1)"
  using find_char_exact [of "[1, 2, 1]" 1 5] by (auto split: if_splits)

text \<open>
  When it returns, \<open>find(const String&)\<close> returns the index of the first occurrence of a nonempty
  pattern, or \<open>PEG_NOT_FOUND\<close> when the pattern does not occur; it throws nothing, and it reads past
  its buffer only where fewer units than the pattern has are allocated after the text.
\<close>

theorem find_string_first:
  assumes "nul_free t" and "t \<noteq> []" and "length s < 2 ^ 32 - 1"
  shows "(case StringFindAux (s @ 0 # junk) (length s) t of
            Done r \<Rightarrow> if r = notFound then \<forall>i. \<not> occursAt t s i
                      else occursAt t s (unat r) \<and> (\<forall>i<unat r. \<not> occursAt t s i)
          | Throws e \<Rightarrow> False
          | Undefined \<Rightarrow> length junk + 2 < length t)"
  unfolding StringFindAux_def by (rule findAuxLoop_exact) (use assms in simp_all)

theorem find_string_first_witness:
  "(case StringFindAux (units ''xab'' @ 0 # []) (length (units ''xab'')) (units ''ab'') of
      Done r \<Rightarrow> if r = notFound then \<forall>i. \<not> occursAt (units ''ab'') (units ''xab'') i
                else occursAt (units ''ab'') (units ''xab'') (unat r) \<and>
                     (\<forall>i<unat r. \<not> occursAt (units ''ab'') (units ''xab'') i)
    | Throws e \<Rightarrow> False
    | Undefined \<Rightarrow> length ([] :: pstr) + 2 < length (units ''ab''))"
  by (rule find_string_first) (simp_all add: units_def nul_free_def)

text \<open>The read past the buffer does occur: searching "abc" in the three units of "xxa".\<close>

lemma find_string_reads_past_end:
  "StringFindAux (units ''xxa'' @ 0 # []) 3 (units ''abc'') = Undefined"
  by (simp add: StringFindAux_def units_def findAuxLoop.simps findTail_def)

subsection \<open>Comparing\<close>

text \<open>The static function \<open>_compare\<close>, which \<open>String::compare\<close> calls on the two buffers.\<close>

function compareUnits :: "pstr \<Rightarrow> pstr \<Rightarrow> int" where
  "compareUnits s1 s2 =
    (if cur s1 \<noteq> 0 \<and> cur s2 \<noteq> 0 then
       (let r = uint (cur s1) - uint (cur s2)
        in if r \<noteq> 0 then r else compareUnits (tl s1) (tl s2))
     else if cur s2 \<noteq> 0 then -1
     else if cur s1 \<noteq> 0 then 1
     else 0)"
  by pat_completeness auto
termination
  by (relation "measure (\<lambda>(s1, s2). length s1)") (auto simp: cur_def split: list.splits)

declare compareUnits.simps [simp del]

function compareNoCase :: "pstr \<Rightarrow> pstr \<Rightarrow> int" where
  "compareNoCase s1 s2 =
    (if cur s1 \<noteq> 0 \<and> cur s2 \<noteq> 0 then
       (let r = uint (toLower16 (cur s1)) - uint (toLower16 (cur s2))
        in if r \<noteq> 0 then r else compareNoCase (tl s1) (tl s2))
     else if cur s2 \<noteq> 0 then -1
     else if cur s1 \<noteq> 0 then 1
     else 0)"
  by pat_completeness auto
termination
  by (relation "measure (\<lambda>(s1, s2). length s1)") (auto simp: cur_def split: list.splits)

declare compareNoCase.simps [simp del]

fun compareFirst :: "pstr \<Rightarrow> pstr \<Rightarrow> nat \<Rightarrow> int" where
  "compareFirst s1 s2 0 = 0"
| "compareFirst s1 s2 (Suc n) =
    (let r = uint (cur s1) - uint (cur s2)
     in if r \<noteq> 0 then r
        else if cur s1 = 0 then 0
        else compareFirst (tl s1) (tl s2) n)"

definition stringEqual :: "pstr \<Rightarrow> pstr \<Rightarrow> bool" where
  "stringEqual s1 s2 \<longleftrightarrow> length s1 = length s2 \<and> take (length s1) s1 = take (length s1) s2"

definition differs :: "u16 \<Rightarrow> u16 \<Rightarrow> bool" where
  "differs p q \<longleftrightarrow> uint p - uint q \<noteq> 0 \<and> uint (toUpper16 p) - uint (toUpper16 q) \<noteq> 0"

fun equalSingles :: "pstr \<Rightarrow> pstr \<Rightarrow> nat \<Rightarrow> bool" where
  "equalSingles p q 0 = True"
| "equalSingles p q (Suc n) = (if differs (p ! 0) (q ! 0) then False else equalSingles (drop 1 p) (drop 1 q) n)"

function equalFours :: "pstr \<Rightarrow> pstr \<Rightarrow> nat \<Rightarrow> bool" where
  "equalFours p q n =
    (if n \<ge> 4 then
       (if differs (p ! 0) (q ! 0) \<or> differs (p ! 1) (q ! 1) \<or>
           differs (p ! 2) (q ! 2) \<or> differs (p ! 3) (q ! 3) then False
        else equalFours (drop 4 p) (drop 4 q) (n - 4))
     else equalSingles p q n)"
  by pat_completeness auto
termination by (relation "measure (\<lambda>(p, q, n). n)") auto

function equalEights :: "pstr \<Rightarrow> pstr \<Rightarrow> nat \<Rightarrow> bool" where
  "equalEights p q n =
    (if n \<ge> 8 then
       (if differs (p ! 0) (q ! 0) \<or> differs (p ! 1) (q ! 1) \<or>
           differs (p ! 2) (q ! 2) \<or> differs (p ! 3) (q ! 3) \<or>
           differs (p ! 4) (q ! 4) \<or> differs (p ! 5) (q ! 5) \<or>
           differs (p ! 6) (q ! 6) \<or> differs (p ! 7) (q ! 7) then False
        else equalEights (drop 8 p) (drop 8 q) (n - 8))
     else equalFours p q n)"
  by pat_completeness auto
termination by (relation "measure (\<lambda>(p, q, n). n)") auto

declare equalFours.simps [simp del] equalEights.simps [simp del]

definition StringEqualNoCase :: "pstr \<Rightarrow> pstr \<Rightarrow> bool" where
  "StringEqualNoCase s1 s2 = equalEights s1 s2 (length s2)"

definition equalNoCase :: "pstr \<Rightarrow> pstr \<Rightarrow> bool" where
  "equalNoCase s1 s2 \<longleftrightarrow> length s1 = length s2 \<and> StringEqualNoCase s1 s2"

text \<open>
  The relational operators on \<open>String\<close> (\<^verbatim>\<open>StringInline.h\<close>) test the sign of \<open>compare\<close>.
\<close>

definition stringLess :: "pstr \<Rightarrow> pstr \<Rightarrow> bool" where
  "stringLess s1 s2 \<longleftrightarrow> compareUnits s1 s2 < 0"

definition stringLessEq :: "pstr \<Rightarrow> pstr \<Rightarrow> bool" where
  "stringLessEq s1 s2 \<longleftrightarrow> compareUnits s1 s2 \<le> 0"

subsubsection \<open>The unrolled comparison\<close>

lemma differs_iff: "differs p q \<longleftrightarrow> toLower16 p \<noteq> toLower16 q"
  by (auto simp: differs_def toUpper16_eq_iff simp flip: word_uint_eq_iff)

lemma equalSingles_eq:
  "length p = n \<Longrightarrow> length q = n \<Longrightarrow> equalSingles p q n \<longleftrightarrow> map toLower16 p = map toLower16 q"
proof (induction n arbitrary: p q)
  case (Suc n)
  then obtain a p' b q' where "p = a # p'" "q = b # q'" by (metis length_Suc_conv)
  with Suc show ?case by (simp add: differs_iff)
qed simp

lemma drop_map_eq:
  assumes "length p = length q" and "k \<le> length q"
  shows "map toLower16 p = map toLower16 q \<longleftrightarrow>
         (\<forall>i<k. toLower16 (p ! i) = toLower16 (q ! i)) \<and> map toLower16 (drop k p) = map toLower16 (drop k q)"
    (is "?l \<longleftrightarrow> ?r")
proof
  assume l: ?l
  then have "drop k (map toLower16 p) = drop k (map toLower16 q)" by simp
  with l show ?r using assms by (auto simp: drop_map list_eq_iff_nth_eq)
next
  assume ?r
  then have "take k (map toLower16 p) @ drop k (map toLower16 p) = take k (map toLower16 q) @ drop k (map toLower16 q)"
    using assms by (intro arg_cong2 [where f = append] nth_equalityI) (simp_all add: drop_map)
  then show ?l by simp
qed

lemma equalFours_eq:
  "length p = n \<Longrightarrow> length q = n \<Longrightarrow> equalFours p q n \<longleftrightarrow> map toLower16 p = map toLower16 q"
proof (induction n arbitrary: p q rule: less_induct)
  case (less n)
  show ?case
  proof (cases "n \<ge> 4")
    case True
    with less.prems have "map toLower16 p = map toLower16 q \<longleftrightarrow>
      (\<forall>i<4. toLower16 (p ! i) = toLower16 (q ! i)) \<and> map toLower16 (drop 4 p) = map toLower16 (drop 4 q)"
      by (intro drop_map_eq) simp_all
    then show ?thesis
      using True less.prems less.IH [of "n - 4" "drop 4 p" "drop 4 q"]
      by (auto simp: equalFours.simps [of p q n] differs_iff numeral_eq_Suc All_less_Suc)
  qed (use less.prems in \<open>simp add: equalFours.simps [of p q n] equalSingles_eq\<close>)
qed

lemma equalEights_eq:
  "length p = n \<Longrightarrow> length q = n \<Longrightarrow> equalEights p q n \<longleftrightarrow> map toLower16 p = map toLower16 q"
proof (induction n arbitrary: p q rule: less_induct)
  case (less n)
  show ?case
  proof (cases "n \<ge> 8")
    case True
    with less.prems have "map toLower16 p = map toLower16 q \<longleftrightarrow>
      (\<forall>i<8. toLower16 (p ! i) = toLower16 (q ! i)) \<and> map toLower16 (drop 8 p) = map toLower16 (drop 8 q)"
      by (intro drop_map_eq) simp_all
    then show ?thesis
      using True less.prems less.IH [of "n - 8" "drop 8 p" "drop 8 q"]
      by (auto simp: equalEights.simps [of p q n] differs_iff numeral_eq_Suc All_less_Suc)
  qed (use less.prems in \<open>simp add: equalEights.simps [of p q n] equalFours_eq\<close>)
qed

lemma equalNoCase_eq: "equalNoCase s1 s2 \<longleftrightarrow> map toLower16 s1 = map toLower16 s2"
  using equalEights_eq [of s1 "length s2" s2] map_eq_imp_length_eq [of toLower16 s1 toLower16 s2]
  by (auto simp: equalNoCase_def StringEqualNoCase_def)

subsubsection \<open>The loops over two strings\<close>

text \<open>
  Both comparison loops run over the characters before the first NUL and compare keys: the
  characters themselves or their lower case. The locale is what they share.
\<close>

definition beforeNul :: "pstr \<Rightarrow> pstr" where
  "beforeNul s = takeWhile (\<lambda>c. c \<noteq> 0) s"

locale unit_order =
  fixes key :: "u16 \<Rightarrow> u16" and cmp :: "pstr \<Rightarrow> pstr \<Rightarrow> int"
  assumes key_0: "key c = 0 \<longleftrightarrow> c = 0"
    and cmp_rec: "cmp s1 s2 =
      (if cur s1 \<noteq> 0 \<and> cur s2 \<noteq> 0 then
         (let r = uint (key (cur s1)) - uint (key (cur s2))
          in if r \<noteq> 0 then r else cmp (tl s1) (tl s2))
       else if cur s2 \<noteq> 0 then -1 else if cur s1 \<noteq> 0 then 1 else 0)"
begin

lemma keys_step:
  "map key (beforeNul s) = (if cur s = 0 then [] else key (cur s) # map key (beforeNul (tl s)))"
  by (cases s) (simp_all add: beforeNul_def)

lemma cmp_order:
  "(cmp s1 s2 = 0 \<longleftrightarrow> map key (beforeNul s1) = map key (beforeNul s2)) \<and>
   (cmp s1 s2 < 0 \<longleftrightarrow> ord_class.lexordp (map key (beforeNul s1)) (map key (beforeNul s2))) \<and>
   (cmp s1 s2 > 0 \<longleftrightarrow> ord_class.lexordp (map key (beforeNul s2)) (map key (beforeNul s1)))"
proof (induction "length s1" arbitrary: s1 s2 rule: less_induct)
  case less
  show ?case
  proof (cases "cur s1 \<noteq> 0 \<and> cur s2 \<noteq> 0")
    case True
    then have "length (tl s1) < length s1" by (cases s1) auto
    from less [OF this, of "tl s2"] True show ?thesis
      unfolding cmp_rec [of s1 s2] keys_step [of s1] keys_step [of s2]
      by (auto simp: Let_def word_less_def word_uint_eq_iff [of "key (cur s1)"] word_uint_eq_iff [of "key (cur s2)"])
  next
    case False
    then show ?thesis
      unfolding cmp_rec [of s1 s2] keys_step [of s1] keys_step [of s2] by auto
  qed
qed

lemma cmp_eq_0: "cmp s1 s2 = 0 \<longleftrightarrow> map key (beforeNul s1) = map key (beforeNul s2)"
  using cmp_order by blast

lemma cmp_less_0: "cmp s1 s2 < 0 \<longleftrightarrow> 
     ord_class.lexordp (map key (beforeNul s1)) (map key (beforeNul s2))"
  using cmp_order by blast

lemma cmp_greater_0: "cmp s1 s2 > 0 \<longleftrightarrow> cmp s2 s1 < 0"
  using cmp_order by blast

lemma cmp_trans: "cmp s1 s2 < 0 \<Longrightarrow> cmp s2 s3 < 0 \<Longrightarrow> cmp s1 s3 < 0"
  unfolding cmp_less_0 by (rule lexordp_trans)

end

interpretation byUnit: unit_order "\<lambda>c. c" compareUnits
  by unfold_locales (rule refl, rule compareUnits.simps)

interpretation byLower: unit_order toLower16 compareNoCase
  by unfold_locales (rule toLower16_0, rule compareNoCase.simps)

lemma compareFirst_sgn: "sgn (compareFirst s1 s2 n) = sgn (compareUnits (take n s1) (take n s2))"
proof (induction n arbitrary: s1 s2)
  case (Suc n)
  have c: "cur (take (Suc n) s) = cur s" "tl (take (Suc n) s) = take n (tl s)" for s :: pstr
    by (cases s; simp)+
  show ?case
    using Suc.IH [of "tl s1" "tl s2"]
    by (subst compareUnits.simps) (auto simp: c Let_def simp flip: word_uint_eq_iff)
qed (simp add: compareUnits.simps)

text \<open>
  C34: \<open>compare\<close> and \<open>compareNoCase\<close> are the lexicographic order of the characters before the first NUL,
  of their lower case for the second: negative, zero and positive exactly where the first text is
  before, equal to and after the second; \<open>compare\<close> of the first \<open>n\<close> characters has the sign of
  \<open>compare\<close> on the two prefixes.
\<close>

theorem compare_orders:
  "(compareUnits s1 s2 = 0 \<longleftrightarrow> beforeNul s1 = beforeNul s2) \<and>
   (compareUnits s1 s2 < 0 \<longleftrightarrow> ord_class.lexordp (beforeNul s1) (beforeNul s2)) \<and>
   (compareUnits s1 s2 > 0 \<longleftrightarrow> compareUnits s2 s1 < 0) \<and>
   (compareNoCase s1 s2 = 0 \<longleftrightarrow> toLowerUnits (beforeNul s1) = toLowerUnits (beforeNul s2)) \<and>
   (compareNoCase s1 s2 < 0 \<longleftrightarrow>
      ord_class.lexordp (toLowerUnits (beforeNul s1)) (toLowerUnits (beforeNul s2))) \<and>
   (compareNoCase s1 s2 > 0 \<longleftrightarrow> compareNoCase s2 s1 < 0) \<and>
   sgn (compareFirst s1 s2 n) = sgn (compareUnits (take n s1) (take n s2))"
  using byUnit.cmp_eq_0 [of s1 s2] byUnit.cmp_less_0 [of s1 s2] byUnit.cmp_greater_0 [of s1 s2]
    byLower.cmp_eq_0 [of s1 s2] byLower.cmp_less_0 [of s1 s2] byLower.cmp_greater_0 [of s1 s2]
    compareFirst_sgn [of s1 s2 n]
  by (simp add: toLowerUnits_eq)

lemma beforeNul_nul_free [simp]: "nul_free s \<Longrightarrow> beforeNul s = s"
  by (simp add: beforeNul_def nul_free_def takeWhile_eq_all_conv) metis

text \<open>
  The unrolled \<open>equalNoCase\<close>, which folds to upper case, is the equality of the lower-case texts;
  on strings without NUL it holds exactly where \<open>compareNoCase\<close> is zero, and \<open>equal\<close> exactly where
  \<open>compare\<close> is.
\<close>

lemma equality_agrees_with_compare:
  assumes "nul_free s1" and "nul_free s2"
  shows "(equalNoCase s1 s2 \<longleftrightarrow> compareNoCase s1 s2 = 0) \<and>
         (equalNoCase s1 s2 \<longleftrightarrow> toUpperUnits s1 = toUpperUnits s2) \<and>
         (stringEqual s1 s2 \<longleftrightarrow> compareUnits s1 s2 = 0) \<and>
         (stringLessEq s1 s2 \<longleftrightarrow> \<not> stringLess s2 s1)"
proof -
  have "toUpperUnits s1 = toUpperUnits s2 \<longleftrightarrow> map toLower16 s1 = map toLower16 s2"
    by (auto simp: toUpperUnits_def list_eq_iff_nth_eq toUpper16_eq_iff)
  moreover have "stringEqual s1 s2 \<longleftrightarrow> s1 = s2" by (auto simp: stringEqual_def)
  moreover have "stringLessEq s1 s2 \<longleftrightarrow> \<not> stringLess s2 s1"
    using byUnit.cmp_greater_0 [of s1 s2] by (auto simp: stringLessEq_def stringLess_def)
  ultimately show ?thesis
    using assms byUnit.cmp_eq_0 [of s1 s2] byLower.cmp_eq_0 [of s1 s2] by (simp add: equalNoCase_eq)
qed

theorem equality_agrees_with_compare_witness:
  "equalNoCase (units ''CIM_a'') (units ''cim_A'') \<longleftrightarrow> compareNoCase (units ''CIM_a'') (units ''cim_A'') = 0"
  using equality_agrees_with_compare [of "units ''CIM_a''" "units ''cim_A''"]
  by (simp add: units_def nul_free_def)

end
