(* ===== verification/CommonUtf.thy ===== *)
theory CommonUtf
  imports PegString
begin

section \<open>CommonUTF: UTF-8, UTF-16 and the conversion of C strings\<close>

text \<open>
  \<^verbatim>\<open>Pegasus/Common/CommonUTF.cpp\<close>, \<open>_copyFromUTF8\<close> of \<^verbatim>\<open>StringRep.h\<close> and \<open>_copyToUTF8\<close> of
  \<^verbatim>\<open>String.cpp\<close>. A source range is a list and the index of the next element; a target range is
  what has been written and the number of elements it has room for. The unrolled and the
  table-driven code is related to the encodings \<open>utf8\<close> and \<open>utf16\<close> of a code point.
\<close>

subsection \<open>The tables and the code points\<close>

definition halfBase :: u32 where "halfBase = 0x10000"
definition halfMask :: u32 where "halfMask = 0x3FF"

definition firstByteMark :: "u8 list" where
  "firstByteMark = [0x00, 0x00, 0xC0, 0xE0, 0xF0, 0xF8, 0xFC]"

definition offsetsFromUTF8 :: "u32 list" where
  "offsetsFromUTF8 = [0x00000000, 0x00003080, 0x000E2080, 0x03C82080, 0xFA082080, 0x82082080]"

definition trailingBytesForUTF8 :: "nat list" where
  "trailingBytesForUTF8 =
  [0, 0, 0, 0, 0, 0, 0, 0, 0, 0, 0, 0, 0, 0, 0, 0, 0, 0, 0, 0, 0, 0, 0, 0, 0, 0, 0, 0, 0, 0, 0, 0,
   0, 0, 0, 0, 0, 0, 0, 0, 0, 0, 0, 0, 0, 0, 0, 0, 0, 0, 0, 0, 0, 0, 0, 0, 0, 0, 0, 0, 0, 0, 0, 0,
   0, 0, 0, 0, 0, 0, 0, 0, 0, 0, 0, 0, 0, 0, 0, 0, 0, 0, 0, 0, 0, 0, 0, 0, 0, 0, 0, 0, 0, 0, 0, 0,
   0, 0, 0, 0, 0, 0, 0, 0, 0, 0, 0, 0, 0, 0, 0, 0, 0, 0, 0, 0, 0, 0, 0, 0, 0, 0, 0, 0, 0, 0, 0, 0,
   0, 0, 0, 0, 0, 0, 0, 0, 0, 0, 0, 0, 0, 0, 0, 0, 0, 0, 0, 0, 0, 0, 0, 0, 0, 0, 0, 0, 0, 0, 0, 0,
   0, 0, 0, 0, 0, 0, 0, 0, 0, 0, 0, 0, 0, 0, 0, 0, 0, 0, 0, 0, 0, 0, 0, 0, 0, 0, 0, 0, 0, 0, 0, 0,
   1, 1, 1, 1, 1, 1, 1, 1, 1, 1, 1, 1, 1, 1, 1, 1, 1, 1, 1, 1, 1, 1, 1, 1, 1, 1, 1, 1, 1, 1, 1, 1,
   2, 2, 2, 2, 2, 2, 2, 2, 2, 2, 2, 2, 2, 2, 2, 2, 3, 3, 3, 3, 3, 3, 3, 3, 4, 4, 4, 4, 5, 5, 5, 5]"

definition trailBytes :: "u8 \<Rightarrow> nat" where
  "trailBytes leadByte = trailingBytesForUTF8 ! unat leadByte"

definition isHighSurrogate :: "u32 \<Rightarrow> bool" where
  "isHighSurrogate c \<longleftrightarrow> c \<ge> 0xD800 \<and> c \<le> 0xDBFF"

definition isLowSurrogate :: "u32 \<Rightarrow> bool" where
  "isLowSurrogate c \<longleftrightarrow> c \<ge> 0xDC00 \<and> c \<le> 0xDFFF"

text \<open>The reference: the encodings of one code point.\<close>

definition utf8 :: "nat \<Rightarrow> u8 list" where
  "utf8 n =
    (if n < 0x80 then [of_nat n]
     else if n < 0x800 then [of_nat (0xC0 + n div 64), of_nat (0x80 + n mod 64)]
     else if n < 0x10000 then
       [of_nat (0xE0 + n div 4096), of_nat (0x80 + n div 64 mod 64), of_nat (0x80 + n mod 64)]
     else
       [of_nat (0xF0 + n div 262144), of_nat (0x80 + n div 4096 mod 64),
        of_nat (0x80 + n div 64 mod 64), of_nat (0x80 + n mod 64)])"

definition utf16 :: "nat \<Rightarrow> u16 list" where
  "utf16 n =
    (if n < 0x10000 then [of_nat n]
     else [of_nat (0xD800 + (n - 0x10000) div 1024), of_nat (0xDC00 + (n - 0x10000) mod 1024)])"

definition surrogate :: "nat \<Rightarrow> bool" where
  "surrogate n \<longleftrightarrow> 0xD800 \<le> n \<and> n \<le> 0xDFFF"

definition codePoint :: "nat \<Rightarrow> bool" where
  "codePoint n \<longleftrightarrow> n \<le> 0x10FFFF"

text \<open>What the decoder writes for a code point: surrogates and U+FFFE, U+FFFF are replaced.\<close>

definition decoded :: "nat \<Rightarrow> u16 list" where
  "decoded n = (if surrogate n \<or> n = 0xFFFE \<or> n = 0xFFFF then [0xFFFD] else utf16 n)"

subsection \<open>Validation\<close>

definition isValid_U8 :: "u8 list \<Rightarrow> nat \<Rightarrow> bool" where
  "isValid_U8 src size' \<longleftrightarrow>
    (if size' = 0 \<or> size' > 4 then False
     else if size' = 4 \<and> (src ! 3 < 0x80 \<or> src ! 3 > 0xBF) then False
     else if size' \<ge> 3 \<and> (src ! 2 < 0x80 \<or> src ! 2 > 0xBF) then False
     else if size' \<ge> 2 \<and>
       (src ! 1 > 0xBF \<or>
        (if src ! 0 = 0xE0 then src ! 1 < 0xA0
         else if src ! 0 = 0xF0 then src ! 1 < 0x90
         else if src ! 0 = 0xF4 then src ! 1 > 0x8F
         else src ! 1 < 0x80)) then False
     else if src ! 0 \<ge> 0x80 \<and> src ! 0 < 0xC2 then False
     else if src ! 0 > 0xF4 then False
     else True)"

subsection \<open>UTF-8 to UTF-16\<close>

text \<open>
  The shifts and additions of the fall-through \<open>switch\<close>: every byte but the last is added and shifted.
\<close>

fun accBytes :: "u32 \<Rightarrow> u8 list \<Rightarrow> u32" where
  "accBytes t [] = t"
| "accBytes t [c] = t + ucast c"
| "accBytes t (c # cs) = accBytes (push_bit 6 (t + ucast c)) cs"

text \<open>
  \<open>UTF8toUTF16\<close> returns the code, the position reached and the units written. A lead byte with four
  or five trailing bytes matches no case of the \<open>switch\<close>, so the position does not move, and the
  correction of the position can then leave the range.
\<close>

function UTF8toUTF16 :: "u8 list \<Rightarrow> nat \<Rightarrow> nat \<Rightarrow> nat \<Rightarrow> pstr \<Rightarrow> int \<times> int \<times> pstr" where
  "UTF8toUTF16 b i srcEnd room out =
    (if i < srcEnd then
       (let moreBytes = trailBytes (b ! i) in
        if i + moreBytes \<ge> srcEnd then (- 1, int i, out)
        else
          (let t = accBytes 0 (if moreBytes \<le> 3 then take (moreBytes + 1) (drop i b) else []);
               i' = (if moreBytes \<le> 3 then i + moreBytes + 1 else i);
               c = t - offsetsFromUTF8 ! moreBytes
           in if length out \<ge> room then (- 1, int i' - (int moreBytes + 1), out)
              else if c \<le> 0xFFFF then
                (if (c \<ge> 0xD800 \<and> c \<le> 0xDFFF) \<or> c AND 0xFFFE = 0xFFFE
                 then UTF8toUTF16 b i' srcEnd room (out @ [0xFFFD])
                 else UTF8toUTF16 b i' srcEnd room (out @ [ucast c]))
              else if c > 0x10FFFF then UTF8toUTF16 b i' srcEnd room (out @ [0xFFFD])
              else if length out + 1 \<ge> room then (- 1, int i' - (int moreBytes + 1), out)
              else
                (let d = c - halfBase
                 in UTF8toUTF16 b i' srcEnd room
                      (out @ [ucast (drop_bit 10 d + 0xD800), ucast ((d AND halfMask) + 0xDC00)]))))
     else (0, int i, out))"
  by pat_completeness auto
termination
  by (relation "measure (\<lambda>(b, i, srcEnd, room, out). room - length out)") auto

declare UTF8toUTF16.simps [simp del]

text \<open>\<open>_copyFromUTF8\<close>: the unrolled ASCII prefix, the \<open>switch\<close> on a short rest, and the loop.\<close>

definition ascii :: "u8 \<Rightarrow> bool" where
  "ascii c \<longleftrightarrow> c < 128"

function asciiEights :: "u8 list \<Rightarrow> pstr \<times> u8 list" where
  "asciiEights q =
    (if length q \<ge> 8 \<and>
        (q!0 OR q!1 OR q!2 OR q!3 OR q!4 OR q!5 OR q!6 OR q!7) AND 0x80 = 0
     then (let (p, r) = asciiEights (drop 8 q)
           in ([ucast (q!0), ucast (q!1), ucast (q!2), ucast (q!3),
                ucast (q!4), ucast (q!5), ucast (q!6), ucast (q!7)] @ p, r))
     else ([], q))"
  by pat_completeness auto
termination by (relation "measure length") auto

function asciiFours :: "u8 list \<Rightarrow> pstr \<times> u8 list" where
  "asciiFours q =
    (if length q \<ge> 4 \<and> (q!0 OR q!1 OR q!2 OR q!3) AND 0x80 = 0
     then (let (p, r) = asciiFours (drop 4 q)
           in ([ucast (q!0), ucast (q!1), ucast (q!2), ucast (q!3)] @ p, r))
     else ([], q))"
  by pat_completeness auto
termination by (relation "measure length") auto

declare asciiEights.simps [simp del] asciiFours.simps [simp del]

definition asciiRest :: "u8 list \<Rightarrow> pstr option" where
  "asciiRest q =
    (if length q = 0 then Some []
     else if length q = 1 \<and> q!0 < 128 then Some [ucast (q!0)]
     else if length q = 2 \<and> (q!0 OR q!1) AND 0x80 = 0 then Some [ucast (q!0), ucast (q!1)]
     else if length q = 3 \<and> (q!0 OR q!1 OR q!2) AND 0x80 = 0
       then Some [ucast (q!0), ucast (q!1), ucast (q!2)]
     else None)"

text \<open>An error is the number of bytes from the offending one to the end.\<close>

function fromLoop :: "u8 list \<Rightarrow> nat + pstr" where
  "fromLoop q =
    (if q = [] then Inr []
     else if q!0 < 128 then bindE (fromLoop (tl q)) (\<lambda>p. Inr (ucast (q!0) # p))
     else
       (let c = trailBytes (q!0) + 1 in
        if c > length q \<or> \<not> isValid_U8 q c then Inl (length q)
        else (case UTF8toUTF16 q 0 c (length q) [] of
                (code, pos, out) \<Rightarrow>
                  if code \<noteq> 0 then Inl (length q)
                  else bindE (fromLoop (drop c q)) (\<lambda>p. Inr (out @ p)))))"
  by pat_completeness auto
termination by (relation "measure length") auto

declare fromLoop.simps [simp del]

definition copyFromUTF8 :: "u8 list \<Rightarrow> nat + pstr" where
  "copyFromUTF8 src =
    (case asciiEights src of
       (p8, q8) \<Rightarrow>
         (case asciiFours q8 of
            (p4, q4) \<Rightarrow>
              (case asciiRest q4 of
                 Some p \<Rightarrow> Inr (p8 @ p4 @ p)
               | None \<Rightarrow>
                   (case fromLoop q4 of
                      Inl rest \<Rightarrow> Inl (length src - rest)
                    | Inr p \<Rightarrow> Inr (p8 @ p4 @ p)))))"

subsection \<open>UTF-16 to UTF-8\<close>

text \<open>The bytes the second \<open>switch\<close> writes, last one first.\<close>

definition contByte :: "u32 \<Rightarrow> u8" where
  "contByte t = ucast ((t OR 0x80) AND 0xBF)"

definition encodeBytes :: "nat \<Rightarrow> u32 \<Rightarrow> u8 list" where
  "encodeBytes numberOfBytes t =
    (let lead = (\<lambda>t. ucast (t OR ucast (firstByteMark ! numberOfBytes))) in
     if numberOfBytes = 4 then
       [lead (drop_bit 18 t), contByte (drop_bit 12 t), contByte (drop_bit 6 t), contByte t]
     else if numberOfBytes = 3 then [lead (drop_bit 12 t), contByte (drop_bit 6 t), contByte t]
     else if numberOfBytes = 2 then [lead (drop_bit 6 t), contByte t]
     else [lead t])"

function UTF16toUTF8 :: "pstr \<Rightarrow> nat \<Rightarrow> nat \<Rightarrow> u8 list \<Rightarrow> int \<times> nat \<times> u8 list" where
  "UTF16toUTF8 s i room out =
    (if i < length s then
       (if s!i < 128 then
          (if length out = room then (- 1, i, out)
           else UTF16toUTF8 s (i + 1) room (out @ [ucast (s!i)]))
        else
          (let first = ucast (s!i) :: u32;
               high = isHighSurrogate first
           in if high \<and> \<not> i + 1 < length s then (- 1, i, out)
              else
                (let pair = high \<and> isLowSurrogate (ucast (s!(i + 1)));
                     t = (if pair
                          then push_bit 10 (first - 0xD800) + (ucast (s!(i + 1)) - 0xDC00) + halfBase
                          else first);
                     i' = (if pair then i + 2 else i + 1);
                     numberOfBytes = (if t < 0x80 then 1 else if t < 0x800 then 2
                                      else if t < 0x10000 then 3 else if t < 0x200000 then 4 else 2);
                     u = (if t < 0x200000 then t else 0xFFFD)
                 in if length out + numberOfBytes > room then (- 1, i, out)
                    else UTF16toUTF8 s i' room (out @ encodeBytes numberOfBytes u))))
     else (0, i, out))"
  by pat_completeness auto
termination
  by (relation "measure (\<lambda>(s, i, room, out). length s - i)") (auto simp: Let_def)

declare UTF16toUTF8.simps [simp del]

function copyAsciiFours :: "pstr \<Rightarrow> u8 list \<times> pstr" where
  "copyAsciiFours q =
    (if length q \<ge> 4 \<and> q!0 < 128 \<and> q!1 < 128 \<and> q!2 < 128 \<and> q!3 < 128
     then (let (p, r) = copyAsciiFours (drop 4 q)
           in ([ucast (q!0), ucast (q!1), ucast (q!2), ucast (q!3)] @ p, r))
     else ([], q))"
  by pat_completeness auto
termination by (relation "measure length") auto

declare copyAsciiFours.simps [simp del]

definition copyAsciiRest :: "pstr \<Rightarrow> u8 list option" where
  "copyAsciiRest q =
    (if length q = 0 then Some []
     else if length q = 1 \<and> q!0 < 128 then Some [ucast (q!0)]
     else if length q = 2 \<and> q!0 < 128 \<and> q!1 < 128 then Some [ucast (q!0), ucast (q!1)]
     else if length q = 3 \<and> q!0 < 128 \<and> q!1 < 128 \<and> q!2 < 128
       then Some [ucast (q!0), ucast (q!1), ucast (q!2)]
     else None)"

text \<open>\<open>_copyToUTF8\<close> ignores the code \<open>UTF16toUTF8\<close> returns.\<close>

definition copyToUTF8 :: "pstr \<Rightarrow> u8 list" where
  "copyToUTF8 src =
    (case copyAsciiFours src of
       (p, q) \<Rightarrow>
         (case copyAsciiRest q of
            Some r \<Rightarrow> p @ r
          | None \<Rightarrow> (case UTF16toUTF8 q 0 (3 * length q) [] of (code, i, out) \<Rightarrow> p @ out)))"

subsection \<open>The bytes of a code point\<close>

definition trailSpec :: "u8 \<Rightarrow> nat" where
  "trailSpec c = (if c < 0xC0 then 0 else if c < 0xE0 then 1 else if c < 0xF0 then 2
                  else if c < 0xF8 then 3 else if c < 0xFC then 4 else 5)"

lemma trailingBytes_map: "trailingBytesForUTF8 = map (\<lambda>n. trailSpec (of_nat n)) [0..<256]"
  unfolding upt_256 by (simp add: trailingBytesForUTF8_def trailSpec_def upt_rec_numeral word_le_1)

lemma trailBytes_eq: "trailBytes c = trailSpec c"
  unfolding trailBytes_def by (rule table_lookup [OF trailingBytes_map])

lemma trailBytes_unat:
  "trailBytes c = (if unat c < 0xC0 then 0 else if unat c < 0xE0 then 1 else if unat c < 0xF0 then 2
                   else if unat c < 0xF8 then 3 else if unat c < 0xFC then 4 else 5)"
  by (simp add: trailBytes_eq trailSpec_def word_less_unat)

lemma codePoint_bounds:
  assumes "codePoint n"
  shows "n div 262144 \<le> 4" "n div 4096 \<le> 272" "n div 64 mod 64 < 64" "n div 4096 mod 64 < 64" "n mod 64 < 64"
    "n < 0x800 \<Longrightarrow> n div 64 < 32" "n < 0x10000 \<Longrightarrow> n div 4096 < 16"
  using assms by (simp_all add: codePoint_def)

lemma byte_value: "k < 256 \<Longrightarrow> unat (of_nat k :: u8) = k"
  by (simp add: unat_of_nat_small)

lemma utf8_values:
  assumes "codePoint n"
  shows "map unat (utf8 n) =
    (if n < 0x80 then [n]
     else if n < 0x800 then [0xC0 + n div 64, 0x80 + n mod 64]
     else if n < 0x10000 then [0xE0 + n div 4096, 0x80 + n div 64 mod 64, 0x80 + n mod 64]
     else [0xF0 + n div 262144, 0x80 + n div 4096 mod 64, 0x80 + n div 64 mod 64, 0x80 + n mod 64])"
proof -
  have cont: "unat (of_nat (0x80 + k mod 64) :: u8) = 0x80 + k mod 64" for k
    by (rule byte_value) (simp add: less_imp_le_nat trans_less_add2)
  show ?thesis
    using codePoint_bounds [OF assms] byte_value [of n] byte_value [of "0xC0 + n div 64"]
      byte_value [of "0xE0 + n div 4096"] byte_value [of "0xF0 + n div 262144"]
    by (simp add: utf8_def cont del: of_nat_add)
qed

lemma map_unat_eq_iff: "map unat xs = map unat (ys :: 'a::len word list) \<longleftrightarrow> xs = ys"
  by (rule inj_map_eq_map) (simp add: inj_on_def unsigned_word_eqI)

lemma utf8_cases [consumes 1, case_names one two three four]:
  assumes "codePoint n"
  obtains a where "n < 0x80" "utf8 n = [a]" "unat a = n"
  | a b where "0x80 \<le> n" "n < 0x800" "utf8 n = [a, b]" "unat a = 0xC0 + n div 64" "unat b = 0x80 + n mod 64"
  | a b c where "0x800 \<le> n" "n < 0x10000" "utf8 n = [a, b, c]"
      "unat a = 0xE0 + n div 4096" "unat b = 0x80 + n div 64 mod 64" "unat c = 0x80 + n mod 64"
  | a b c d where "0x10000 \<le> n" "n \<le> 0x10FFFF" "utf8 n = [a, b, c, d]"
      "unat a = 0xF0 + n div 262144" "unat b = 0x80 + n div 4096 mod 64"
      "unat c = 0x80 + n div 64 mod 64" "unat d = 0x80 + n mod 64"
proof -
  consider "n < 0x80" | "0x80 \<le> n" "n < 0x800" | "0x800 \<le> n" "n < 0x10000" | "0x10000 \<le> n"
    by linarith
  then show thesis
  proof cases
    case 1
    with utf8_values [OF assms] show thesis by (intro that(1)) (auto simp: utf8_def)
  next
    case 2
    with utf8_values [OF assms] show thesis by (intro that(2)) (auto simp: utf8_def)
  next
    case 3
    with utf8_values [OF assms] show thesis by (intro that(3)) (auto simp: utf8_def)
  next
    case 4
    with utf8_values [OF assms] assms show thesis
      by (intro that(4)) (auto simp: utf8_def codePoint_def)
  qed
qed

text \<open>\<open>isValid_U8\<close>, read on the values of the bytes.\<close>

lemma byte_eq_numeral: "(a :: u8) = numeral k \<longleftrightarrow> unat a = unat (numeral k :: u8)"
  by (simp only: word_unat_eq_iff)

lemmas valid_simps = isValid_U8_def word_less_unat word_le_unat byte_eq_numeral

definition secondByte :: "nat \<Rightarrow> nat \<Rightarrow> bool" where
  "secondByte a b \<longleftrightarrow> b \<le> 0xBF \<and>
     (if a = 0xE0 then 0xA0 \<le> b else if a = 0xF0 then 0x90 \<le> b
      else if a = 0xF4 then b \<le> 0x8F else 0x80 \<le> b)"

definition leadByte :: "nat \<Rightarrow> bool" where
  "leadByte a \<longleftrightarrow> a < 0x80 \<or> 0xC2 \<le> a \<and> a \<le> 0xF4"

definition contValue :: "nat \<Rightarrow> bool" where
  "contValue b \<longleftrightarrow> 0x80 \<le> b \<and> b \<le> 0xBF"

lemma isValid_values:
  "isValid_U8 (a # r) (Suc 0) \<longleftrightarrow> leadByte (unat a)"
  "isValid_U8 (a # b # r) 2 \<longleftrightarrow> leadByte (unat a) \<and> secondByte (unat a) (unat b)"
  "isValid_U8 (a # b # c # r) 3 \<longleftrightarrow>
     leadByte (unat a) \<and> secondByte (unat a) (unat b) \<and> contValue (unat c)"
  "isValid_U8 (a # b # c # d # r) 4 \<longleftrightarrow>
     leadByte (unat a) \<and> secondByte (unat a) (unat b) \<and> contValue (unat c) \<and> contValue (unat d)"
  by (auto simp: valid_simps leadByte_def secondByte_def contValue_def split: if_splits)

lemmas isValid_Suc = isValid_values [unfolded eval_nat_numeral BitM.simps One_nat_def add_Suc add_0]

lemmas value_defs = leadByte_def secondByte_def contValue_def

lemma middle_digits:
  "0x800 \<le> n \<Longrightarrow> n < 4096 \<Longrightarrow> 32 \<le> n div 64 mod (64 :: nat)"
  "0x10000 \<le> n \<Longrightarrow> n < 262144 \<Longrightarrow> 16 \<le> n div 4096 mod (64 :: nat)"
  "1048576 \<le> n \<Longrightarrow> n \<le> 0x10FFFF \<Longrightarrow> n div 4096 mod 64 < (16 :: nat)"
proof -
  assume n: "0x800 \<le> n" "n < 4096"
  then have "n div 64 mod 64 = n div 64" by (intro mod_less) simp
  with n show "32 \<le> n div 64 mod 64" by simp
next
  assume n: "0x10000 \<le> n" "n < 262144"
  then have "n div 4096 mod 64 = n div 4096" by (intro mod_less) simp
  with n show "16 \<le> n div 4096 mod 64" by simp
next
  assume n: "1048576 \<le> n" "n \<le> 0x10FFFF"
  then have "256 \<le> n div 4096" "n div 4096 < 272" by simp_all
  then have "n div 4096 mod 64 = n div 4096 - 256" by (simp add: mod_if)
  with \<open>n div 4096 < 272\<close> show "n div 4096 mod 64 < 16" by simp
qed

lemma contValue_mod: "contValue (0x80 + n mod 64)"
  using mod_less_divisor [of 64 n] by (simp add: contValue_def del: mod_less_divisor)

lemma valid_utf8:
  assumes "codePoint n"
  shows "isValid_U8 (utf8 n @ r) (length (utf8 n))"
  using assms
proof (cases rule: utf8_cases)
  case (one a)
  then show ?thesis by (simp add: isValid_Suc leadByte_def)
next
  case (two a b)
  then have "2 \<le> n div 64" "n div 64 < 32" by simp_all
  with two contValue_mod [of n] show ?thesis by (simp add: isValid_Suc value_defs)
next
  case (three a b c)
  then have k: "n div 4096 < 16" "n div 4096 = 0 \<Longrightarrow> n < 4096" by simp_all
  then have "secondByte (unat a) (unat b)"
    using three middle_digits(1) [of n] contValue_mod [of "n div 64"]
    by (cases "n div 4096 = 0") (simp_all add: value_defs)
  with three k contValue_mod [of n] show ?thesis by (simp add: isValid_Suc leadByte_def)
next
  case (four a b c d)
  then have k: "n div 262144 \<le> 4" "n div 262144 = 0 \<Longrightarrow> n < 262144" "n div 262144 = 4 \<Longrightarrow> 1048576 \<le> n"
    by simp_all
  then have "secondByte (unat a) (unat b)"
    using four middle_digits(2,3) [of n] contValue_mod [of "n div 4096"]
    by (cases "n div 262144 = 0"; cases "n div 262144 = 4") (simp_all add: value_defs)
  with four k contValue_mod [of n] contValue_mod [of "n div 64"] show ?thesis
    by (simp add: isValid_Suc leadByte_def)
qed

lemma trail_utf8:
  assumes "codePoint n"
  shows "trailBytes (utf8 n ! 0) + 1 = length (utf8 n)"
  using assms
proof (cases rule: utf8_cases)
  case (two a b)
  then have "n div 64 < 32" by simp
  with two show ?thesis by (simp add: trailBytes_unat)
next
  case (three a b c)
  then have "n div 4096 < 16" by simp
  with three show ?thesis by (simp add: trailBytes_unat)
next
  case (four a b c d)
  then have "n div 262144 \<le> 4" by simp
  with four show ?thesis by (simp add: trailBytes_unat)
qed (simp_all add: trailBytes_unat)

lemma utf8_two:
  "2 \<le> k \<Longrightarrow> k < 32 \<Longrightarrow> l < 64 \<Longrightarrow> utf8 (k * 64 + l) = [of_nat (0xC0 + k), of_nat (0x80 + l)]"
  by (simp add: utf8_def)

lemma digits_64:
  assumes "(l :: nat) < 64"
  shows "(k * 64 + l) div 64 = k" "(k * 64 + l) mod 64 = l"
  using assms by simp_all

lemma digits_4096:
  assumes "(l :: nat) < 64" "m < 64"
  shows "((k * 64 + l) * 64 + m) div 4096 = k"
  by (rule div_nat_eqI) (use assms in simp_all)

lemma digits_262144:
  assumes "(l :: nat) < 64" "m < 64" "j < 64"
  shows "(((k * 64 + l) * 64 + m) * 64 + j) div 262144 = k"
  by (rule div_nat_eqI) (use assms in simp_all)

lemma utf8_three:
  assumes "k < 16" "l < 64" "m < 64" "k = 0 \<Longrightarrow> 32 \<le> l"
  shows "utf8 ((k * 64 + l) * 64 + m) = [of_nat (0xE0 + k), of_nat (0x80 + l), of_nat (0x80 + m)]"
proof -
  have "0x800 \<le> (k * 64 + l) * 64 + m" using assms by (cases "k = 0") simp_all
  moreover have "(k * 64 + l) * 64 + m < 0x10000" using assms by simp
  ultimately show ?thesis using assms by (simp add: utf8_def digits_64 digits_4096 del: distrib_right_numeral)
qed

lemma utf8_four:
  assumes "k \<le> 4" "l < 64" "m < 64" "j < 64" "k = 0 \<Longrightarrow> 16 \<le> l"
  shows "utf8 (((k * 64 + l) * 64 + m) * 64 + j) =
    [of_nat (0xF0 + k), of_nat (0x80 + l), of_nat (0x80 + m), of_nat (0x80 + j)]"
proof -
  have "0x10000 \<le> ((k * 64 + l) * 64 + m) * 64 + j" using assms by (cases "k = 0") simp_all
  then show ?thesis
    using assms by (simp add: utf8_def digits_64 digits_4096 digits_262144 del: distrib_right_numeral)
qed

lemma byte_plus:
  assumes "m \<le> unat (x :: u8)"
  obtains k where "x = of_nat (m + k)" and "unat x = m + k"
proof -
  obtain k where "unat x = m + k" using assms by (blast dest: le_Suc_ex)
  moreover have "x = of_nat (unat x)" by simp
  ultimately show thesis by (intro that [of k]) simp_all
qed

lemma valid_is_utf8:
  assumes "q \<noteq> []" and "trailBytes (q ! 0) + 1 \<le> length q" and "isValid_U8 q (trailBytes (q ! 0) + 1)"
    and "\<not> (length q \<ge> 2 \<and> q ! 0 = 0xF4 \<and> q ! 1 < 0x80)"
  shows "\<exists>n. codePoint n \<and> take (trailBytes (q ! 0) + 1) q = utf8 n"
proof -
  obtain a r where q: "q = a # r" using assms(1) by (cases q) auto
  have le4: "trailBytes a + 1 \<le> 4" using assms(3) by (simp add: q isValid_U8_def split: if_splits)
  consider "trailBytes a = 0" | "trailBytes a = 1" | "trailBytes a = 2" | "trailBytes a = 3"
    using le4 by linarith
  then show ?thesis
  proof cases
    case 1
    with assms(3) have "unat a < 0x80"
      by (simp add: q isValid_values value_defs trailBytes_unat split: if_splits)
    with 1 show ?thesis by (intro exI [of _ "unat a"]) (simp add: q codePoint_def utf8_def)
  next
    case 2
    with assms(2) obtain b r' where r: "r = b # r'" by (cases r) (auto simp: q)
    have v: "0xC0 \<le> unat a" "0xC2 \<le> unat a" "unat a < 0xE0" "0x80 \<le> unat b" "unat b \<le> 0xBF"
      using 2 assms(3) by (auto simp: q r isValid_Suc isValid_values value_defs trailBytes_unat split: if_splits)
    obtain k l where "a = of_nat (0xC0 + k)" "unat a = 0xC0 + k" "b = of_nat (0x80 + l)" "unat b = 0x80 + l"
      using v(1,4) by (metis byte_plus)
    with v 2 utf8_two [of k l] show ?thesis
      by (intro exI [of _ "k * 64 + l"]) (simp add: q r codePoint_def)
  next
    case 3
    with assms(2) obtain b c r' where r: "r = b # c # r'" by (cases r; cases "tl r") (auto simp: q)
    have v: "0xE0 \<le> unat a" "unat a < 0xF0" "0x80 \<le> unat b" "unat b \<le> 0xBF" "0x80 \<le> unat c" "unat c \<le> 0xBF"
      "unat a = 0xE0 \<Longrightarrow> 0xA0 \<le> unat b"
      using 3 assms(3) by (auto simp: q r isValid_Suc isValid_values value_defs trailBytes_unat split: if_splits)
    obtain k l m where w: "a = of_nat (0xE0 + k)" "unat a = 0xE0 + k" "b = of_nat (0x80 + l)" "unat b = 0x80 + l"
      "c = of_nat (0x80 + m)" "unat c = 0x80 + m"
      using v(1,3,5) by (metis byte_plus)
    with v 3 utf8_three [of k l m] show ?thesis
      by (intro exI [of _ "(k * 64 + l) * 64 + m"]) (simp add: q r codePoint_def)
  next
    case 4
    with assms(2) obtain b c d r' where r: "r = b # c # d # r'"
      by (cases r; cases "tl r"; cases "tl (tl r)") (auto simp: q)
    have v: "0xF0 \<le> unat a" "unat a \<le> 0xF4" "0x80 \<le> unat b" "unat b \<le> 0xBF" "0x80 \<le> unat c" "unat c \<le> 0xBF"
      "0x80 \<le> unat d" "unat d \<le> 0xBF" "unat a = 0xF0 \<Longrightarrow> 0x90 \<le> unat b" "unat a = 0xF4 \<Longrightarrow> unat b \<le> 0x8F"
      using 4 assms(3,4)
      by (auto simp: q r isValid_Suc isValid_values value_defs trailBytes_unat byte_eq_numeral word_less_unat
          split: if_splits)
    obtain k l m j where w: "a = of_nat (0xF0 + k)" "unat a = 0xF0 + k" "b = of_nat (0x80 + l)" "unat b = 0x80 + l"
      "c = of_nat (0x80 + m)" "unat c = 0x80 + m" "d = of_nat (0x80 + j)" "unat d = 0x80 + j"
      using v(1,3,5,7) by (metis byte_plus)
    then have "k = 4 \<Longrightarrow> l < 16" "k \<le> 4" using v by auto
    with v w 4 utf8_four [of k l m j] show ?thesis
      by (intro exI [of _ "((k * 64 + l) * 64 + m) * 64 + j"]) (cases "k = 4"; simp add: q r codePoint_def)
  qed
qed

subsection \<open>One code point\<close>

lemma surrogate_word:
  assumes "codePoint n"
  shows "((of_nat n :: u32) \<ge> 0xD800 \<and> of_nat n \<le> (0xDFFF :: u32)) \<longleftrightarrow> surrogate n"
    and "unat (of_nat n :: u32) = n"
proof -
  show u: "unat (of_nat n :: u32) = n"
    by (rule unat_of_nat_small) (use assms in \<open>simp add: codePoint_def\<close>)
  show "((of_nat n :: u32) \<ge> 0xD800 \<and> of_nat n \<le> (0xDFFF :: u32)) \<longleftrightarrow> surrogate n"
    by (simp add: word_le_unat u surrogate_def)
qed

lemma nonchar_word:
  assumes "n < 0x10000"
  shows "(of_nat n :: u32) AND 0xFFFE = 0xFFFE \<longleftrightarrow> n = 0xFFFE \<or> n = 0xFFFF"
proof -
  have "n AND 0xFFFE = 2 * ((n div 2) AND mask 15)"
    by (subst and_rec) (simp add: mask_eq_exp_minus_1)
  also have "(n div 2) AND mask 15 = n div 2"
    using assms by (simp add: take_bit_nat_eq_self flip: take_bit_eq_mask)
  finally have m: "n AND 0xFFFE = 2 * (n div 2)" .
  have "(of_nat n :: u32) AND 0xFFFE = of_nat (n AND 0xFFFE)"
    by (simp only: of_nat_and_eq of_nat_numeral)
  then have "(of_nat n :: u32) AND 0xFFFE = of_nat (2 * (n div 2))" by (simp only: m)
  moreover have "unat (of_nat (2 * (n div 2)) :: u32) = 2 * (n div 2)"
    by (rule unat_of_nat_small) (use assms in simp)
  ultimately have "(of_nat n :: u32) AND 0xFFFE = 0xFFFE \<longleftrightarrow> 2 * (n div 2) = 0xFFFE"
    by (simp only: word_unat_eq_iff [of _ "0xFFFE :: u32"]) simp
  with assms show ?thesis by arith
qed

lemma ucast_of_value: "unat (a :: u8) = k \<Longrightarrow> (ucast a :: u32) = of_nat k"
  by (metis of_nat_unat)

lemma digits_join:
  "(n div 4096 * 64 + n div 64 mod 64) * 64 + n mod 64 = (n :: nat)"
  "((n div 262144 * 64 + n div 4096 mod 64) * 64 + n div 64 mod 64) * 64 + n mod 64 = n"
proof -
  have d: "n div 4096 = n div 64 div 64" "n div 262144 = n div 4096 div 64"
    by (simp_all add: div_mult2_eq [symmetric])
  then show "(n div 4096 * 64 + n div 64 mod 64) * 64 + n mod 64 = n" by (simp only: d div_mult_mod_eq)
  then show "((n div 262144 * 64 + n div 4096 mod 64) * 64 + n div 64 mod 64) * 64 + n mod 64 = n"
    by (simp only: d(2) div_mult_mod_eq)
qed

lemma accBytes_values:
  assumes "unat a = x"
  shows "accBytes t [a] = t + of_nat x" and "accBytes t (a # b # r) = accBytes ((t + of_nat x) * 64) (b # r)"
  using assms by (auto simp: ucast_of_value push_bit_eq_mult mult.commute)

lemma offset_cancel: "of_nat k = (m :: u32) \<Longrightarrow> of_nat (k + n) - m = of_nat n"
  by auto

lemma accBytes_utf8:
  assumes "codePoint n"
  shows "accBytes 0 (utf8 n) - offsetsFromUTF8 ! (length (utf8 n) - 1) = of_nat n"
  using assms
proof (cases rule: utf8_cases)
  case (one a)
  then show ?thesis by (simp add: offsetsFromUTF8_def ucast_of_value)
next
  case (two a b)
  have "accBytes 0 (utf8 n) = of_nat ((0xC0 + n div 64) * 64 + (0x80 + n mod 64))"
    unfolding two(3) accBytes_values(2) [OF two(4)] accBytes_values(1) [OF two(5)]
    by (simp only: of_nat_add of_nat_mult of_nat_numeral add_0)
  also have "(0xC0 + n div 64) * 64 + (0x80 + n mod 64) = 0x3080 + n" by simp
  finally show ?thesis using two(3) by (simp add: offsetsFromUTF8_def)
next
  case (three a b c)
  have "accBytes 0 (utf8 n) = of_nat (((0xE0 + n div 4096) * 64 + (0x80 + n div 64 mod 64)) * 64 + (0x80 + n mod 64))"
    unfolding three(3) accBytes_values(2) [OF three(4)] accBytes_values(2) [OF three(5)] accBytes_values(1) [OF three(6)]
    by (simp only: of_nat_add of_nat_mult of_nat_numeral add_0)
  also have "((0xE0 + n div 4096) * 64 + (0x80 + n div 64 mod 64)) * 64 + (0x80 + n mod 64) = 0xE2080 + n"
    using digits_join(1) [of n] by simp
  finally show ?thesis using three(3) by (simp add: offsetsFromUTF8_def)
next
  case (four a b c d)
  have "accBytes 0 (utf8 n) = of_nat ((((0xF0 + n div 262144) * 64 + (0x80 + n div 4096 mod 64)) * 64
      + (0x80 + n div 64 mod 64)) * 64 + (0x80 + n mod 64))"
    unfolding four(3) accBytes_values(2) [OF four(4)] accBytes_values(2) [OF four(5)]
      accBytes_values(2) [OF four(6)] accBytes_values(1) [OF four(7)]
    by (simp only: of_nat_add of_nat_mult of_nat_numeral add_0)
  also have "(((0xF0 + n div 262144) * 64 + (0x80 + n div 4096 mod 64)) * 64
      + (0x80 + n div 64 mod 64)) * 64 + (0x80 + n mod 64) = 0x3C82080 + n"
    using digits_join(2) [of n] by simp
  finally show ?thesis using four(3) by (simp add: offsetsFromUTF8_def)
qed

lemma ucast_small: "n < 0x10000 \<Longrightarrow> (ucast (of_nat n :: u32) :: u16) = of_nat n"
  by (rule unsigned_word_eqI [where ?'a = nat])
     (simp add: unsigned_ucast_eq unat_of_nat_small take_bit_nat_eq_self)

lemma surrogate_words:
  assumes "k < 0x100000"
  shows "(ucast (drop_bit 10 (of_nat k :: u32) + 0xD800) :: u16) = of_nat (0xD800 + k div 1024)"
    and "(ucast (((of_nat k :: u32) AND halfMask) + 0xDC00) :: u16) = of_nat (0xDC00 + k mod 1024)"
proof -
  have k: "unat (of_nat k :: u32) = k" by (rule unat_of_nat_small) (use assms in simp)
  have "unat (of_nat (k div 1024) :: u32) = k div 1024" by (rule unat_of_nat_small) (use assms in simp)
  then have d: "drop_bit 10 (of_nat k :: u32) = of_nat (k div 1024)"
    by (intro unsigned_word_eqI [where ?'a = nat]) (simp add: drop_bit_eq_div unat_div k)
  have "unat (of_nat (k mod 1024) :: u32) = k mod 1024"
    by (rule unat_of_nat_small) (simp add: less_trans [OF mod_less_divisor])
  moreover have "(of_nat k :: u32) AND halfMask = take_bit 10 (of_nat k)"
    by (simp add: halfMask_def take_bit_eq_mask mask_eq_exp_minus_1)
  ultimately have m: "(of_nat k :: u32) AND halfMask = of_nat (k mod 1024)"
    by (intro unsigned_word_eqI [where ?'a = nat]) (simp add: take_bit_eq_mod unat_mod k)
  have u: "(ucast ((of_nat x :: u32) + of_nat y) :: u16) = of_nat (y + x)" if "x + y < 0x10000" for x y
    using ucast_small [of "y + x"] that by (simp add: add.commute)
  show "(ucast (drop_bit 10 (of_nat k :: u32) + 0xD800) :: u16) = of_nat (0xD800 + k div 1024)"
    unfolding d using u [of "k div 1024" "0xD800"] assms by simp
  show "(ucast (((of_nat k :: u32) AND halfMask) + 0xDC00) :: u16) = of_nat (0xDC00 + k mod 1024)"
    unfolding m using u [of "k mod 1024" "0xDC00"] mod_less_divisor [of 1024 k] by (simp del: mod_less_divisor)
qed

lemma utf16_length: "length (decoded n) \<le> 2" "n < 0x10000 \<Longrightarrow> length (decoded n) = 1" "decoded n \<noteq> []"
  by (auto simp: decoded_def utf16_def)

lemma utf8_length: "codePoint n \<Longrightarrow> length (decoded n) \<le> length (utf8 n)" "utf8 n \<noteq> []" "length (utf8 n) \<le> 4"
  by (auto simp: utf8_def decoded_def utf16_def)

lemma UTF8toUTF16_end: "UTF8toUTF16 b e e room out = (0, int e, out)"
  by (simp add: UTF8toUTF16.simps)

text \<open>The decoder on exactly one valid sequence.\<close>

lemma UTF8toUTF16_step:
  assumes "i + m < srcEnd" and "trailBytes (b ! i) = m" and "m \<le> 3" and "length out < room"
    and "accBytes 0 (take (m + 1) (drop i b)) - offsetsFromUTF8 ! m = c" and "c \<le> 0x10FFFF"
  shows "UTF8toUTF16 b i srcEnd room out =
    (if c \<le> 0xFFFF then
       UTF8toUTF16 b (i + m + 1) srcEnd room
         (out @ [if (c \<ge> 0xD800 \<and> c \<le> 0xDFFF) \<or> c AND 0xFFFE = 0xFFFE then 0xFFFD else ucast c])
     else if length out + 1 \<ge> room then (- 1, int i, out)
     else UTF8toUTF16 b (i + m + 1) srcEnd room
         (out @ [ucast (drop_bit 10 (c - halfBase) + 0xD800), ucast (((c - halfBase) AND halfMask) + 0xDC00)]))"
proof -
  have "i < srcEnd" "(i + m \<ge> srcEnd) = False" "(length out \<ge> room) = False" "(c > 0x10FFFF) = False"
    using assms by simp_all
  note step = UTF8toUTF16.simps [of b i srcEnd room out, unfolded Let_def assms(2) if_P [OF assms(3)] assms(5)
      this if_True if_False if_P [OF this(1)]]
  have position: "int (i + m + 1) - (int m + 1) = int i" by simp
  show ?thesis
    unfolding step position
    by (simp only: if_distrib [of "\<lambda>x. UTF8toUTF16 b (i + m + 1) srcEnd room (out @ [x])"])
qed

lemma UTF8toUTF16_one:
  assumes n: "codePoint n" and room: "length (decoded n) \<le> room"
  shows "UTF8toUTF16 (utf8 n @ r) 0 (length (utf8 n)) room [] = (0, int (length (utf8 n)), decoded n)"
proof -
  have len: "0 < length (utf8 n)" "length (utf8 n) \<le> 4" using utf8_length n by auto
  have u: "unat (of_nat n :: u32) = n" by (rule surrogate_word(2) [OF n])
  have "trailBytes ((utf8 n @ r) ! 0) = length (utf8 n) - 1"
    using trail_utf8 [OF n] utf8_length(2) [of n] by (simp add: nth_append)
  moreover have "accBytes 0 (take (length (utf8 n) - 1 + 1) (drop 0 (utf8 n @ r))) - offsetsFromUTF8 ! (length (utf8 n) - 1) = of_nat n"
  proof -
    have "take (length (utf8 n) - 1 + 1) (drop 0 (utf8 n @ r)) = utf8 n" using len by simp
    then show ?thesis using accBytes_utf8 [OF n] by (simp only:)
  qed
  moreover have "of_nat n \<le> (0x10FFFF :: u32)" using n by (simp add: word_le_unat u codePoint_def)
  moreover have "0 < room" using room utf16_length(3) [of n] by (cases room) auto
  ultimately have step: "UTF8toUTF16 (utf8 n @ r) 0 (length (utf8 n)) room [] =
    (if of_nat n \<le> (0xFFFF :: u32) then
       UTF8toUTF16 (utf8 n @ r) (length (utf8 n)) (length (utf8 n)) room
         [if (of_nat n \<ge> (0xD800 :: u32) \<and> of_nat n \<le> (0xDFFF :: u32)) \<or> of_nat n AND 0xFFFE = (0xFFFE :: u32)
          then 0xFFFD else ucast (of_nat n :: u32)]
     else if 1 \<ge> room then (- 1, 0, [])
     else UTF8toUTF16 (utf8 n @ r) (length (utf8 n)) (length (utf8 n)) room
         [ucast (drop_bit 10 ((of_nat n :: u32) - halfBase) + 0xD800),
          ucast ((((of_nat n :: u32) - halfBase) AND halfMask) + 0xDC00)])"
    using UTF8toUTF16_step [of 0 "length (utf8 n) - 1" "length (utf8 n)" "utf8 n @ r" "[]" room "of_nat n"] len
    by (simp add: Suc_le_eq)
  show ?thesis
  proof (cases "n < 0x10000")
    case True
    then have "of_nat n \<le> (0xFFFF :: u32)" by (simp add: word_le_unat u)
    then show ?thesis
      using True unfolding step surrogate_word(1) [OF n] nonchar_word [OF True]
      by (simp add: UTF8toUTF16_end decoded_def utf16_def ucast_small)
  next
    case False
    then have "\<not> of_nat n \<le> (0xFFFF :: u32)" by (simp add: word_le_unat u)
    moreover have "1 < room" using False room by (simp add: decoded_def utf16_def surrogate_def)
    moreover have "(of_nat n :: u32) - halfBase = of_nat (n - 0x10000)"
      using False by (simp add: halfBase_def of_nat_diff)
    moreover have "n - 0x10000 < 0x100000" using n by (simp add: codePoint_def)
    ultimately show ?thesis
      using False unfolding step
      by (simp add: UTF8toUTF16_end decoded_def utf16_def surrogate_def surrogate_words del: of_nat_add of_nat_diff)
  qed
qed

subsection \<open>The whole conversion from UTF-8\<close>

lemma high_bit: "(a :: u8) AND 0x80 = 0 \<longleftrightarrow> a < 128"
proof -
  have "a AND 2 ^ 7 = 0 \<longleftrightarrow> \<not> bit a 7" by (rule and_exp_eq_0_iff_not_bit)
  also have "bit a 7 \<longleftrightarrow> bit (unat a) 7" by (simp add: bit_unsigned_iff)
  also have "bit (unat a) 7 \<longleftrightarrow> odd (unat a div 128)" by (simp add: bit_iff_odd)
  also have "\<dots> \<longleftrightarrow> 128 \<le> unat a" using unsigned_less [of a, where ?'a = nat] by (auto simp: div_if)
  finally show ?thesis by (simp add: word_less_unat not_le)
qed

lemma or_and_zero: "((a :: 'a::len word) OR b) AND m = 0 \<longleftrightarrow> a AND m = 0 \<and> b AND m = 0"
  by (auto simp: bit_eq_iff bit_simps)

lemma or_ascii: "(a :: u8) OR b < 128 \<longleftrightarrow> a < 128 \<and> b < 128"
  by (metis high_bit or_and_zero)

lemma utf8_ascii: "a < 128 \<Longrightarrow> utf8 (unat a) = [a] \<and> decoded (unat a) = [ucast a] \<and> codePoint (unat a)"
  by (simp add: utf8_def decoded_def utf16_def surrogate_def codePoint_def word_less_unat)

lemma fromLoop_ascii: "a < 128 \<Longrightarrow> fromLoop (a # q) = bindE (fromLoop q) (\<lambda>p. Inr (ucast a # p))"
  by (subst fromLoop.simps) simp

lemma bindE_Inr_id [simp]: "bindE m (\<lambda>p. Inr p) = m"
  by (cases m) auto

lemma bindE_assoc: "bindE (bindE m f) g = bindE m (\<lambda>x. bindE (f x) g)"
  by (cases m) auto

lemma fromLoop_ascii_prefix:
  "\<forall>c\<in>set a. c < 128 \<Longrightarrow> fromLoop (a @ q) = bindE (fromLoop q) (\<lambda>p. Inr (map ucast a @ p))"
  by (induction a) (auto simp: fromLoop_ascii bindE_assoc)

lemma fromLoop_utf8:
  assumes "codePoint n"
  shows "fromLoop (utf8 n @ q) = bindE (fromLoop q) (\<lambda>p. Inr (decoded n @ p))"
proof (cases "n < 0x80")
  case True
  then have "unat (of_nat n :: u8) = n" "(of_nat n :: u8) < 128"
    by (simp_all add: word_less_unat unat_of_nat_small)
  then show ?thesis using utf8_ascii [of "of_nat n"] fromLoop_ascii [of "of_nat n" q] by simp
next
  case False
  let ?q = "utf8 n @ q"
  have t: "trailBytes (?q ! 0) + 1 = length (utf8 n)"
    using trail_utf8 [OF assms] utf8_length(2) [of n] by (simp add: nth_append)
  have "length (utf8 n) \<noteq> 1" using False by (simp add: utf8_def)
  then have "\<not> ?q ! 0 < 128" using t by (auto simp: trailBytes_unat word_less_unat)
  moreover have "isValid_U8 ?q (length (utf8 n))" by (rule valid_utf8 [OF assms])
  moreover have "UTF8toUTF16 ?q 0 (length (utf8 n)) (length ?q) [] = (0, int (length (utf8 n)), decoded n)"
    by (rule UTF8toUTF16_one) (use assms utf8_length(1) [of n] in simp_all)
  ultimately show ?thesis
    by (subst fromLoop.simps) (simp add: Let_def t utf8_length(2) del: One_nat_def)
qed

definition encodes :: "nat list \<Rightarrow> u8 list \<Rightarrow> pstr \<Rightarrow> bool" where
  "encodes cs q out \<longleftrightarrow> (\<forall>n\<in>set cs. codePoint n) \<and> q = concat (map utf8 cs) \<and> out = concat (map decoded cs)"

lemma fromLoop_encodes: "encodes cs q out \<Longrightarrow> fromLoop q = Inr out"
  by (induction cs arbitrary: q out) (auto simp: encodes_def fromLoop.simps [of "[]"] fromLoop_utf8)

text \<open>After the lead byte F4 only the upper bound of the second byte is tested.\<close>

definition shortF4 :: "u8 list \<Rightarrow> bool" where
  "shortF4 q \<longleftrightarrow> (\<exists>i. i + 1 < length q \<and> q ! i = 0xF4 \<and> q ! (i + 1) < 0x80)"

lemma shortF4_drop: "shortF4 (drop k q) \<Longrightarrow> shortF4 q"
proof -
  assume "shortF4 (drop k q)"
  then obtain i where "i + 1 < length q - k" "drop k q ! i = 0xF4" "drop k q ! (i + 1) < 0x80"
    by (auto simp: shortF4_def)
  then have "(k + i) + 1 < length q" "q ! (k + i) = 0xF4" "q ! ((k + i) + 1) < 0x80" by simp_all
  then show "shortF4 q" unfolding shortF4_def by blast
qed

lemma fromLoop_only_encodes:
  "fromLoop q = Inr out \<Longrightarrow> \<not> shortF4 q \<Longrightarrow> \<exists>cs. encodes cs q out"
proof (induction "length q" arbitrary: q out rule: less_induct)
  case less
  show ?case
  proof (cases "q = []")
    case True
    with less.prems have "encodes [] q out" by (simp add: encodes_def fromLoop.simps)
    then show ?thesis ..
  next
    case False
    let ?c = "trailBytes (q ! 0) + 1"
    have "\<exists>n. codePoint n \<and> take ?c q = utf8 n"
    proof (cases "q ! 0 < 128")
      case True
      then have "?c = 1" by (simp add: trailBytes_unat word_less_unat)
      then show ?thesis using utf8_ascii [OF True] False by (intro exI [of _ "unat (q ! 0)"]) (simp add: take_Suc hd_conv_nth)
    next
      case na: False
      then have "\<not> (?c > length q \<or> \<not> isValid_U8 q ?c)"
        using less.prems(1) False by (auto simp: fromLoop.simps [of q] Let_def split: if_splits)
      moreover have "\<not> (length q \<ge> 2 \<and> q ! 0 = 0xF4 \<and> q ! 1 < 0x80)"
        using less.prems(2) unfolding shortF4_def by (auto dest: spec [of _ 0])
      ultimately show ?thesis using False by (intro valid_is_utf8) auto
    qed
    then obtain n where n: "codePoint n" "take ?c q = utf8 n" by blast
    define r where "r = drop (length (utf8 n)) q"
    have q: "q = utf8 n @ r"
      by (metis n(2) r_def append_take_drop_id append_eq_conv_conj)
    obtain p where p: "fromLoop r = Inr p" "out = decoded n @ p"
      using less.prems(1) unfolding q fromLoop_utf8 [OF n(1)] by (auto simp: bindE_eq_Inr)
    have "length r < length q" using q utf8_length(2) [of n] by (cases "utf8 n") auto
    moreover have "\<not> shortF4 r" using less.prems(2) shortF4_drop r_def by blast
    ultimately obtain cs where "encodes cs r p" using less.hyps p(1) by blast
    then have "encodes (n # cs) q out" using n(1) q p(2) by (simp add: encodes_def)
    then show ?thesis ..
  qed
qed

text \<open>The unrolled prefix is the loop on ASCII bytes.\<close>

lemma list_4: "length q \<ge> 4 \<Longrightarrow> q = [q!0, q!1, q!2, q!3] @ drop 4 q"
  by (cases q; cases "tl q"; cases "tl (tl q)"; cases "tl (tl (tl q))") auto

lemma list_8: "length q \<ge> 8 \<Longrightarrow> q = [q!0, q!1, q!2, q!3, q!4, q!5, q!6, q!7] @ drop 8 q"
  using list_4 [of q] list_4 [of "drop 4 q"] by (simp add: add.commute)

lemma asciiFours_loop:
  "asciiFours q = (p, r) \<Longrightarrow> \<exists>a. q = a @ r \<and> (\<forall>c\<in>set a. c < 128) \<and> p = map ucast a"
proof (induction q arbitrary: p r rule: asciiFours.induct)
  case (1 q)
  show ?case
  proof (cases "length q \<ge> 4 \<and> (q!0 OR q!1 OR q!2 OR q!3) AND 0x80 = 0")
    case True
    obtain p' where p': "asciiFours (drop 4 q) = (p', r)" "p = map ucast [q!0, q!1, q!2, q!3] @ p'"
      using True "1.prems" by (cases "asciiFours (drop 4 q)") (auto simp: asciiFours.simps [of q])
    then obtain a where a: "drop 4 q = a @ r" "\<forall>c\<in>set a. c < 128" "p' = map ucast a"
      using "1.IH" [OF True p'(1)] by blast
    have "q = ([q!0, q!1, q!2, q!3] @ a) @ r" using list_4 [of q] True a(1) by simp
    moreover have "\<forall>c\<in>set ([q!0, q!1, q!2, q!3] @ a). c < 128"
      using True a(2) by (auto simp: or_ascii high_bit)
    ultimately show ?thesis using p'(2) a(3) by (intro exI [of _ "[q!0, q!1, q!2, q!3] @ a"]) simp
  next
    case False
    then have "asciiFours q = ([], q)" unfolding asciiFours.simps [of q] by (rule if_not_P)
    with "1.prems" show ?thesis by simp
  qed
qed

lemma asciiEights_loop:
  "asciiEights q = (p, r) \<Longrightarrow> \<exists>a. q = a @ r \<and> (\<forall>c\<in>set a. c < 128) \<and> p = map ucast a"
proof (induction q arbitrary: p r rule: asciiEights.induct)
  case (1 q)
  let ?h = "[q!0, q!1, q!2, q!3, q!4, q!5, q!6, q!7]"
  show ?case
  proof (cases "length q \<ge> 8 \<and> (q!0 OR q!1 OR q!2 OR q!3 OR q!4 OR q!5 OR q!6 OR q!7) AND 0x80 = 0")
    case True
    obtain p' where p': "asciiEights (drop 8 q) = (p', r)" "p = map ucast ?h @ p'"
      using True "1.prems" by (cases "asciiEights (drop 8 q)") (auto simp: asciiEights.simps [of q])
    then obtain a where a: "drop 8 q = a @ r" "\<forall>c\<in>set a. c < 128" "p' = map ucast a"
      using "1.IH" [OF True p'(1)] by blast
    have "q = (?h @ a) @ r" using list_8 [of q] True a(1) by simp
    moreover have "\<forall>c\<in>set (?h @ a). c < 128" using True a(2) by (auto simp: or_ascii high_bit)
    ultimately show ?thesis using p'(2) a(3) by (intro exI [of _ "?h @ a"]) simp
  next
    case False
    then have "asciiEights q = ([], q)" unfolding asciiEights.simps [of q] by (rule if_not_P)
    with "1.prems" show ?thesis by simp
  qed
qed

lemma asciiRest_loop: "asciiRest q = Some p \<Longrightarrow> (\<forall>c\<in>set q. c < 128) \<and> p = map ucast q"
  by (cases q; cases "tl q"; cases "tl (tl q)")
     (auto simp: asciiRest_def or_ascii high_bit length_Suc_conv split: if_splits)

lemma copyFromUTF8_loop:
  "copyFromUTF8 src = (case fromLoop src of Inl rest \<Rightarrow> Inl (length src - rest) | Inr p \<Rightarrow> Inr p)"
proof -
  obtain p8 q8 p4 q4 where s: "asciiEights src = (p8, q8)" "asciiFours q8 = (p4, q4)"
    by (metis surj_pair)
  obtain a b where a: "src = a @ q8" "\<forall>c\<in>set a. c < 128" "p8 = map ucast a"
    and b: "q8 = b @ q4" "\<forall>c\<in>set b. c < 128" "p4 = map ucast b"
    using asciiEights_loop [OF s(1)] asciiFours_loop [OF s(2)] by blast
  have l: "fromLoop src = bindE (fromLoop q4) (\<lambda>p. Inr (p8 @ p4 @ p))"
    using fromLoop_ascii_prefix [of "a @ b" q4] a b by auto
  show ?thesis
  proof (cases "asciiRest q4")
    case None
    then show ?thesis by (cases "fromLoop q4") (simp_all add: copyFromUTF8_def s l)
  next
    case (Some p)
    then have "fromLoop q4 = Inr p"
      using asciiRest_loop [OF Some] fromLoop_ascii_prefix [of q4 "[]"] by (simp add: fromLoop.simps [of "[]"])
    with Some show ?thesis by (simp add: copyFromUTF8_def s l)
  qed
qed

text \<open>No conversion writes more units than it reads bytes.\<close>

lemma UTF8toUTF16_four:
  assumes "trailBytes (q ! 0) = 3" and "UTF8toUTF16 q 0 4 room [] = (code, pos, out)"
  shows "length out \<le> 2"
proof -
  note step = UTF8toUTF16.simps [of q 0 4 room "[]", unfolded Let_def assms(1)]
  have e: "UTF8toUTF16 q 4 4 room out' = (0, 4, out')" for out' by (simp add: UTF8toUTF16.simps)
  have position: "(if (3 :: nat) \<le> 3 then 0 + 3 + 1 else 0) = (4 :: nat)" by simp
  show ?thesis
    using assms(2) unfolding step position e by (simp add: prod_eq_iff split: if_split_asm) auto
qed

lemma fromLoop_length: "fromLoop q = Inr out \<Longrightarrow> length out \<le> length q"
proof (induction "length q" arbitrary: q out rule: less_induct)
  case less
  let ?c = "trailBytes (q ! 0) + 1"
  consider "q = []" | "q \<noteq> []" "q ! 0 < 128" | "q \<noteq> []" "\<not> q ! 0 < 128" by blast
  then show ?case
  proof cases
    case 1
    with less.prems show ?thesis by (simp add: fromLoop.simps)
  next
    case 2
    then obtain p where "fromLoop (tl q) = Inr p" "out = ucast (q ! 0) # p"
      using less.prems by (auto simp: fromLoop.simps [of q] bindE_eq_Inr)
    then show ?thesis using less.hyps [of "tl q" p] 2(1) by (cases q) auto
  next
    case 3
    obtain code pos o1 where u: "UTF8toUTF16 q 0 ?c (length q) [] = (code, pos, o1)" by (metis surj_pair)
    have v: "?c \<le> length q" "isValid_U8 q ?c"
      using less.prems 3 by (auto simp: fromLoop.simps [of q] Let_def split: if_splits)
    obtain p where p: "fromLoop (drop ?c q) = Inr p" "out = o1 @ p"
      using less.prems 3 v u by (auto simp: fromLoop.simps [of q] Let_def bindE_eq_Inr split: if_splits)
    have "length o1 \<le> ?c"
    proof (cases "trailBytes (q ! 0) = 3")
      case True
      then show ?thesis using UTF8toUTF16_four [OF True, of "length q"] u by (simp add: eval_nat_numeral)
    next
      case False
      have "q ! 0 \<noteq> 0xF4"
      proof
        assume "q ! 0 = 0xF4"
        with False show False by (simp add: trailBytes_unat)
      qed
      then obtain n where n: "codePoint n" "take ?c q = utf8 n" using valid_is_utf8 [OF 3(1) v] by blast
      then have "length (utf8 n) = ?c" "q = utf8 n @ drop ?c q" using v(1) by (simp_all flip: n(2))
      moreover have "length (decoded n) \<le> length q" using utf8_length(1) [OF n(1)] calculation(1) v(1) by simp
      ultimately have "UTF8toUTF16 q 0 ?c (length q) [] = (0, int ?c, decoded n)"
        using UTF8toUTF16_one [OF n(1), of "length q" "drop ?c q"] by simp
      with u utf8_length(1) [OF n(1)] \<open>length (utf8 n) = ?c\<close> show ?thesis by simp
    qed
    moreover have "length p \<le> length (drop ?c q)"
      by (rule less.hyps [OF _ p(1)]) (use 3(1) in simp)
    ultimately show ?thesis using p(2) v(1) by simp
  qed
qed

lemma copyFromUTF8_length: "copyFromUTF8 src = Inr out \<Longrightarrow> length out \<le> length src"
  using fromLoop_length [of src out] by (simp add: copyFromUTF8_loop split: sum.splits)



subsection \<open>The whole conversion to UTF-8\<close>

lemma cont_table: "map (\<lambda>n. (of_nat n OR 0x80) AND 0xBF :: u8) [0..<256] = map (\<lambda>n. of_nat (0x80 + n mod 64)) [0..<256]"
  unfolding upt_256 by (simp add: upt_rec_numeral)

lemma upt_pair: "2 \<le> k \<Longrightarrow> [0..<k] = [0, 1] @ [2..<k]"
  by (simp add: upt_conv_Cons eval_nat_numeral)

lemma lead_table:
  "map (\<lambda>n. of_nat n OR 0xC0 :: u8) [0..<32] = map (\<lambda>n. of_nat (0xC0 + n)) [0..<32]"
  "map (\<lambda>n. of_nat n OR 0xE0 :: u8) [0..<16] = map (\<lambda>n. of_nat (0xE0 + n)) [0..<16]"
  "map (\<lambda>n. of_nat n OR 0xF0 :: u8) [0..<8] = map (\<lambda>n. of_nat (0xF0 + n)) [0..<8]"
  unfolding upt_pair [of 32, simplified] upt_pair [of 16, simplified] upt_pair [of 8, simplified]
  by (simp_all add: upt_rec_numeral)

lemma map_upt_at: "map f [0..<k] = map g [0..<k] \<Longrightarrow> n < k \<Longrightarrow> f n = g (n :: nat)"
  by (simp add: list_eq_iff_nth_eq)

lemma ucast_byte_of_nat: "(ucast (of_nat n :: u32) :: u8) = of_nat n" if "n < 2 ^ 32"
  by (rule unsigned_word_eqI [where ?'a = nat])
     (use that in \<open>simp add: unsigned_ucast_eq unsigned_of_nat take_bit_nat_eq_self min_def take_bit_take_bit\<close>)

lemma contByte_eq:
  assumes "n < 2 ^ 32"
  shows "contByte (of_nat n) = of_nat (0x80 + n mod 64)"
proof -
  have "contByte (of_nat n) = (ucast (of_nat n :: u32) OR 0x80) AND 0xBF"
    unfolding contByte_def by (rule bit_word_eqI) (simp add: bit_simps)
  also have "ucast (of_nat n :: u32) = (of_nat (n mod 256) :: u8)"
    unfolding ucast_byte_of_nat [OF assms] by (rule unsigned_word_eqI [where ?'a = nat]) (simp add: unsigned_of_nat take_bit_eq_mod)
  also have "(of_nat (n mod 256) OR 0x80) AND 0xBF = (of_nat (0x80 + n mod 256 mod 64) :: u8)"
    by (rule map_upt_at [OF cont_table]) simp
  also have "n mod 256 mod 64 = n mod 64" by (rule mod_mod_cancel) simp
  finally show ?thesis .
qed

lemma lead_or: "(ucast ((of_nat n :: u32) OR ucast (m :: u8)) :: u8) = of_nat n OR m" if "n < 2 ^ 32"
proof -
  have "(ucast ((of_nat n :: u32) OR ucast m) :: u8) = ucast (of_nat n :: u32) OR m"
    by (rule bit_word_eqI) (simp add: bit_simps)
  then show ?thesis using that by (simp only: ucast_byte_of_nat)
qed

lemma drop_bit_of_nat:
  assumes "n < 2 ^ 32"
  shows "drop_bit k (of_nat n :: u32) = of_nat (n div 2 ^ k)"
proof -
  have "n div 2 ^ k < 2 ^ 32" using assms by (meson div_le_dividend le_less_trans)
  then show ?thesis
    using assms
    by (intro unsigned_word_eqI [where ?'a = nat])
       (simp only: unsigned_drop_bit_eq unat_of_nat_small, simp add: drop_bit_eq_div unat_of_nat_small take_bit_nat_eq_self)
qed

definition byteCount :: "nat \<Rightarrow> nat" where
  "byteCount n = (if n < 0x80 then 1 else if n < 0x800 then 2 else if n < 0x10000 then 3 else 4)"

lemma encodeBytes_utf8:
  assumes "codePoint n" and "0x80 \<le> n"
  shows "encodeBytes (byteCount n) (of_nat n) = utf8 n"
proof -
  have n: "n < 2 ^ 32" "n \<le> 0x10FFFF" using assms by (simp_all add: codePoint_def)
  have small: "n div 2 ^ k < 2 ^ 32" for k using n(1) by (meson div_le_dividend le_less_trans)
  have shifts: "drop_bit 6 (of_nat n :: u32) = of_nat (n div 64)" "drop_bit 12 (of_nat n :: u32) = of_nat (n div 4096)"
    "drop_bit 18 (of_nat n :: u32) = of_nat (n div 262144)"
    using drop_bit_of_nat [OF n(1), of 6] drop_bit_of_nat [OF n(1), of 12] drop_bit_of_nat [OF n(1), of 18] by simp_all
  have conts: "contByte (of_nat n) = of_nat (0x80 + n mod 64)"
    "contByte (of_nat (n div 64)) = of_nat (0x80 + n div 64 mod 64)"
    "contByte (of_nat (n div 4096)) = of_nat (0x80 + n div 4096 mod 64)"
    using contByte_eq [OF n(1)] contByte_eq [OF small, of 6] contByte_eq [OF small, of 12] by simp_all
  have leads: "ucast ((of_nat (n div 64) :: u32) OR 0xC0) = (of_nat (n div 64) OR 0xC0 :: u8)"
    "ucast ((of_nat (n div 4096) :: u32) OR 0xE0) = (of_nat (n div 4096) OR 0xE0 :: u8)"
    "ucast ((of_nat (n div 262144) :: u32) OR 0xF0) = (of_nat (n div 262144) OR 0xF0 :: u8)"
    using lead_or [OF small, of 6 "0xC0"] lead_or [OF small, of 12 "0xE0"] lead_or [OF small, of 18 "0xF0"]
    by simp_all
  note parts = encodeBytes_def byteCount_def Let_def shifts leads conts firstByteMark_def utf8_def
  consider "n < 0x800" | "0x800 \<le> n" "n < 0x10000" | "0x10000 \<le> n" by linarith
  then show ?thesis
  proof cases
    case 1
    then have "of_nat (n div 64) OR 0xC0 = (of_nat (0xC0 + n div 64) :: u8)"
      by (intro map_upt_at [OF lead_table(1)]) simp
    with 1 assms(2) show ?thesis by (simp add: parts del: of_nat_add)
  next
    case 2
    then have "of_nat (n div 4096) OR 0xE0 = (of_nat (0xE0 + n div 4096) :: u8)"
      by (intro map_upt_at [OF lead_table(2)]) simp
    with 2 show ?thesis by (simp add: parts del: of_nat_add)
  next
    case 3
    then have "of_nat (n div 262144) OR 0xF0 = (of_nat (0xF0 + n div 262144) :: u8)"
      using n(2) by (intro map_upt_at [OF lead_table(3)]) simp
    with 3 show ?thesis by (simp add: parts del: of_nat_add)
  qed
qed

definition scalar :: "nat \<Rightarrow> bool" where
  "scalar n \<longleftrightarrow> codePoint n \<and> \<not> surrogate n"

lemma utf_unit_values:
  assumes "codePoint n"
  shows "n < 0x10000 \<Longrightarrow> (ucast (of_nat n :: u16) :: u32) = of_nat n"
    and "0x10000 \<le> n \<Longrightarrow>
      (ucast (of_nat (0xD800 + (n - 0x10000) div 1024) :: u16) :: u32) = of_nat (0xD800 + (n - 0x10000) div 1024)"
    and "0x10000 \<le> n \<Longrightarrow>
      (ucast (of_nat (0xDC00 + (n - 0x10000) mod 1024) :: u16) :: u32) = of_nat (0xDC00 + (n - 0x10000) mod 1024)"
proof -
  have u: "(ucast (of_nat m :: u16) :: u32) = of_nat m" if "m < 0x10000" for m
    by (rule unsigned_word_eqI [where ?'a = nat])
       (use that in \<open>simp add: unsigned_ucast_eq unat_of_nat_small take_bit_nat_eq_self\<close>)
  show "n < 0x10000 \<Longrightarrow> (ucast (of_nat n :: u16) :: u32) = of_nat n" by (rule u)
  assume n: "0x10000 \<le> n"
  show "(ucast (of_nat (0xD800 + (n - 0x10000) div 1024) :: u16) :: u32) = of_nat (0xD800 + (n - 0x10000) div 1024)"
    by (rule u) (use n assms in \<open>simp add: codePoint_def\<close>)
  have "(n - 0x10000) mod 1024 < 1024" by simp
  then show "(ucast (of_nat (0xDC00 + (n - 0x10000) mod 1024) :: u16) :: u32) = of_nat (0xDC00 + (n - 0x10000) mod 1024)"
    by (intro u) linarith
qed

lemma byteCount_length: "length (utf8 n) = byteCount n" "byteCount n \<le> 3 * length (utf16 n)"
  by (auto simp: byteCount_def utf8_def utf16_def)

lemma word_of_nat_le: "n < 2 ^ 32 \<Longrightarrow> m < 2 ^ 32 \<Longrightarrow> (of_nat n :: u32) \<le> of_nat m \<longleftrightarrow> n \<le> m"
  "n < 2 ^ 32 \<Longrightarrow> m < 2 ^ 32 \<Longrightarrow> (of_nat n :: u32) < of_nat m \<longleftrightarrow> n < m"
  by (simp_all add: word_le_unat word_less_unat unat_of_nat_small)

lemma UTF16toUTF8_bmp:
  assumes "scalar n" and "n < 0x10000" and "i < length s" and "s ! i = of_nat n"
    and "length out + byteCount n \<le> room"
  shows "UTF16toUTF8 s i room out = UTF16toUTF8 s (i + 1) room (out @ utf8 n)"
proof -
  have u: "unat (of_nat n :: u32) = n" by (rule unat_of_nat_small) (use assms(2) in simp)
  have c: "(ucast (s ! i) :: u32) = of_nat n" using assms utf_unit_values(1) [of n] by (simp add: scalar_def)
  have u16: "unat (s ! i) = n" using assms(2,4) by (simp add: unat_of_nat_small)
  show ?thesis
  proof (cases "n < 0x80")
    case True
    then have "s ! i < 128" "length out \<noteq> room" "(ucast (s ! i) :: u8) = of_nat n"
      using u16 assms(5) by (auto simp: word_less_unat byteCount_def intro!: unsigned_word_eqI [where ?'a = nat])
    then show ?thesis using assms(3) True by (subst UTF16toUTF8.simps) (simp add: utf8_def)
  next
    case False
    have "\<not> s ! i < 128" using False u16 by (simp add: word_less_unat)
    moreover have "\<not> isHighSurrogate (of_nat n)"
      using assms(1) by (auto simp: isHighSurrogate_def scalar_def surrogate_def word_le_unat u)
    moreover have "(if of_nat n < (0x80 :: u32) then 1 else if of_nat n < (0x800 :: u32) then 2
        else if of_nat n < (0x10000 :: u32) then 3 else if of_nat n < (0x200000 :: u32) then 4 else 2) = byteCount n"
      "of_nat n < (0x200000 :: u32)"
      using assms(2) by (auto simp: word_less_unat u byteCount_def)
    moreover have "encodeBytes (byteCount n) (of_nat n) = utf8 n"
      using encodeBytes_utf8 [of n] False assms(1) by (simp add: scalar_def)
    ultimately show ?thesis
      using assms(3,5) by (subst UTF16toUTF8.simps) (simp only: Let_def c if_False if_True simp_thms, simp)
  qed
qed

lemma UTF16toUTF8_pair:
  assumes "codePoint n" and "0x10000 \<le> n" and "i + 1 < length s"
    and "s ! i = of_nat (0xD800 + (n - 0x10000) div 1024)" and "s ! (i + 1) = of_nat (0xDC00 + (n - 0x10000) mod 1024)"
    and "length out + 4 \<le> room"
  shows "UTF16toUTF8 s i room out = UTF16toUTF8 s (i + 2) room (out @ utf8 n)"
proof -
  let ?h = "(n - 0x10000) div 1024" and ?l = "(n - 0x10000) mod 1024"
  have b: "?h < 1024" "?l < 1024" using assms(1) by (simp_all add: codePoint_def)
  have c: "(ucast (s ! i) :: u32) = of_nat (0xD800 + ?h)" "(ucast (s ! (i + 1)) :: u32) = of_nat (0xDC00 + ?l)"
    using utf_unit_values(2,3) [OF assms(1,2)] assms(4,5) by simp_all
  have uh1: "unat (of_nat (0xD800 + ?h) :: u32) = 0xD800 + ?h" by (rule unat_of_nat_small) (use b in simp)
  have "0xDC00 + ?l < 2 ^ LENGTH(32)" using b(2) by (simp del: mod_less_divisor)
  then have uh: "unat (of_nat (0xDC00 + ?l) :: u32) = 0xDC00 + ?l" by (rule unat_of_nat_small)
  have "unat (s ! i) = 0xD800 + ?h" unfolding assms(4) by (rule unat_of_nat_small) (use b in simp)
  then have "\<not> s ! i < 128" by (simp add: word_less_unat)
  moreover have "isHighSurrogate (of_nat (0xD800 + ?h))" "isLowSurrogate (of_nat (0xDC00 + ?l))"
    unfolding isHighSurrogate_def isLowSurrogate_def word_le_unat uh uh1 using b by simp_all
  moreover have "push_bit 10 ((of_nat (0xD800 + ?h) :: u32) - 0xD800) + (of_nat (0xDC00 + ?l) - 0xDC00) + halfBase = of_nat n"
  proof -
    have "push_bit 10 ((of_nat (0xD800 + ?h) :: u32) - 0xD800) + (of_nat (0xDC00 + ?l) - 0xDC00) + halfBase
        = of_nat ?h * 1024 + of_nat ?l + 0x10000"
      by (simp add: push_bit_eq_mult halfBase_def)
    also have "\<dots> = of_nat (?h * 1024 + ?l + 0x10000)"
      by (simp only: of_nat_add of_nat_mult of_nat_numeral)
    also have "?h * 1024 + ?l + 0x10000 = n" using assms(2) by simp
    finally show ?thesis .
  qed
  moreover have "(if of_nat n < (0x80 :: u32) then 1 else if of_nat n < (0x800 :: u32) then 2
        else if of_nat n < (0x10000 :: u32) then 3 else if of_nat n < (0x200000 :: u32) then 4 else 2) = byteCount n"
      "of_nat n < (0x200000 :: u32)" "byteCount n = 4"
    using assms(1,2) by (auto simp: word_less_unat surrogate_word(2) byteCount_def codePoint_def)
  moreover have "encodeBytes (byteCount n) (of_nat n) = utf8 n"
    using encodeBytes_utf8 [of n] assms(1,2) by simp
  ultimately show ?thesis
    using assms(3,6) by (subst UTF16toUTF8.simps) (simp only: Let_def c if_False if_True simp_thms, simp)
qed

lemma UTF16toUTF8_all:
  assumes "\<forall>n\<in>set cs. scalar n" and "length out + length (concat (map utf8 cs)) \<le> room"
  shows "UTF16toUTF8 (pre @ concat (map utf16 cs)) (length pre) room out =
    (0, length (pre @ concat (map utf16 cs)), out @ concat (map utf8 cs))"
  using assms
proof (induction cs arbitrary: pre out)
  case Nil
  then show ?case by (simp add: UTF16toUTF8.simps)
next
  case (Cons n cs)
  let ?s = "pre @ concat (map utf16 (n # cs))"
  have room: "length out + byteCount n \<le> room" using Cons.prems(2) by (simp add: byteCount_length)
  have "UTF16toUTF8 ?s (length pre) room out = UTF16toUTF8 ?s (length (pre @ utf16 n)) room (out @ utf8 n)"
  proof (cases "n < 0x10000")
    case True
    then show ?thesis
      using UTF16toUTF8_bmp [of n "length pre" ?s out room] Cons.prems(1) room
      by (simp add: utf16_def nth_append)
  next
    case False
    then have "byteCount n = 4" by (simp add: byteCount_def)
    with False show ?thesis
      using UTF16toUTF8_pair [of n "length pre" ?s out room] Cons.prems(1) room
      by (simp add: utf16_def nth_append scalar_def del: of_nat_add)
  qed
  moreover have "?s = (pre @ utf16 n) @ concat (map utf16 cs)" by simp
  ultimately show ?case
    using Cons.IH [of "out @ utf8 n" "pre @ utf16 n"] Cons.prems by simp
qed

lemma copyAsciiFours_prefix:
  "copyAsciiFours q = (p, r) \<Longrightarrow> \<exists>a. q = a @ r \<and> (\<forall>c\<in>set a. c < 128) \<and> p = map ucast a"
proof (induction q arbitrary: p r rule: copyAsciiFours.induct)
  case (1 q)
  let ?h = "[q!0, q!1, q!2, q!3]"
  show ?case
  proof (cases "length q \<ge> 4 \<and> q!0 < 128 \<and> q!1 < 128 \<and> q!2 < 128 \<and> q!3 < 128")
    case True
    obtain p' where p': "copyAsciiFours (drop 4 q) = (p', r)" "p = map ucast ?h @ p'"
      using True "1.prems" by (cases "copyAsciiFours (drop 4 q)") (auto simp: copyAsciiFours.simps [of q])
    then obtain a where a: "drop 4 q = a @ r" "\<forall>c\<in>set a. c < 128" "p' = map ucast a"
      using "1.IH" [OF True p'(1)] by blast
    have "q = (?h @ a) @ r" using list_4 [of q] True a(1) by simp
    moreover have "\<forall>c\<in>set (?h @ a). c < 128" using True a(2) by auto
    ultimately show ?thesis using p'(2) a(3) by (intro exI [of _ "?h @ a"]) simp
  next
    case False
    then have "copyAsciiFours q = ([], q)" unfolding copyAsciiFours.simps [of q] by (rule if_not_P)
    with "1.prems" show ?thesis by simp
  qed
qed

lemma copyAsciiRest_all: "copyAsciiRest q = Some p \<Longrightarrow> (\<forall>c\<in>set q. c < 128) \<and> p = map ucast q"
  by (cases q; cases "tl q"; cases "tl (tl q)") (auto simp: copyAsciiRest_def length_Suc_conv split: if_splits)

text \<open>An ASCII prefix of an encoded text is a prefix of its code points.\<close>

lemma utf16_ascii_head:
  assumes "\<forall>n\<in>set cs. scalar n" and "concat (map utf16 cs) = c # q" and "c < 128"
  obtains cs' where "cs = unat c # cs'" and "concat (map utf16 cs') = q"
proof -
  obtain n cs' where cs: "cs = n # cs'" using assms(2) by (cases cs) auto
  have "n < 0x10000"
  proof (rule ccontr)
    assume n: "\<not> n < 0x10000"
    then have "c = of_nat (0xD800 + (n - 0x10000) div 1024)" using assms(2) by (simp add: cs utf16_def)
    moreover have "unat (of_nat (0xD800 + (n - 0x10000) div 1024) :: u16) = 0xD800 + (n - 0x10000) div 1024"
    proof (rule unat_of_nat_small)
      have "n \<le> 0x10FFFF" using assms(1) by (simp add: cs scalar_def codePoint_def)
      then have "(n - 0x10000) div 1024 < 1024" by simp
      then show "0xD800 + (n - 0x10000) div 1024 < 2 ^ LENGTH(16)" by simp
    qed
    ultimately show False using assms(3) by (simp add: word_less_unat)
  qed
  then have "c = of_nat n" "q = concat (map utf16 cs')" using assms(2) by (simp_all add: cs utf16_def)
  moreover have "unat (of_nat n :: u16) = n" by (rule unat_of_nat_small) (use \<open>n < 0x10000\<close> in simp)
  ultimately show thesis using that cs by simp
qed

lemma utf16_ascii_prefix:
  assumes "\<forall>n\<in>set cs. scalar n" and "concat (map utf16 cs) = a @ q" and "\<forall>c\<in>set a. c < 128"
  shows "\<exists>cs'. cs = map unat a @ cs' \<and> concat (map utf16 cs') = q"
  using assms
proof (induction a arbitrary: cs)
  case (Cons c a)
  then obtain cs' where "cs = unat c # cs'" "concat (map utf16 cs') = a @ q"
    using utf16_ascii_head [of cs c "a @ q"] by auto
  with Cons show ?case by auto
qed simp

lemma utf8_ascii_units: "\<forall>c\<in>set a. c < (128 :: u16) \<Longrightarrow> concat (map utf8 (map unat a)) = map ucast a"
  by (induction a) (auto simp: utf8_def word_less_unat of_nat_unat)

lemma utf8_room: "length (concat (map utf8 cs)) \<le> 3 * length (concat (map utf16 cs))"
proof (induction cs)
  case (Cons n cs)
  then show ?case using byteCount_length [of n] by (simp add: byteCount_length(1))
qed simp

lemma copyToUTF8_encodes:
  assumes "\<forall>n\<in>set cs. scalar n"
  shows "copyToUTF8 (concat (map utf16 cs)) = concat (map utf8 cs)"
proof -
  obtain p q where f: "copyAsciiFours (concat (map utf16 cs)) = (p, q)" by fastforce
  obtain a where a: "concat (map utf16 cs) = a @ q" "\<forall>c\<in>set a. c < 128" "p = map ucast a"
    using copyAsciiFours_prefix [OF f] by blast
  obtain cs' where cs: "cs = map unat a @ cs'" "concat (map utf16 cs') = q"
    using utf16_ascii_prefix [OF assms a(1,2)] by blast
  have p: "concat (map utf8 cs) = p @ concat (map utf8 cs')"
    unfolding cs(1) map_append concat_append a(3) by (simp only: utf8_ascii_units [OF a(2)])
  show ?thesis
  proof (cases "copyAsciiRest q")
    case None
    have "UTF16toUTF8 q 0 (3 * length q) [] = (0, length q, concat (map utf8 cs'))"
      using UTF16toUTF8_all [of cs' "[]" "3 * length q" "[]"] assms cs utf8_room [of cs'] by simp
    with None show ?thesis by (simp add: copyToUTF8_def f p)
  next
    case (Some r)
    then have r: "\<forall>c\<in>set q. c < 128" "r = map ucast q" using copyAsciiRest_all by blast+
    obtain cs'' where "cs' = map unat q @ cs''" "concat (map utf16 cs'') = []"
      using utf16_ascii_prefix [of cs' q "[]"] assms cs r(1) by auto
    moreover have "cs'' = []" using calculation(2) by (cases cs'') (auto simp: utf16_def split: if_splits)
    ultimately have "concat (map utf8 cs') = r" using utf8_ascii_units [OF r(1)] r(2) by simp
    with Some show ?thesis by (simp add: copyToUTF8_def f p)
  qed
qed



subsection \<open>Validation of C strings\<close>

definition isUTF8Aux :: "cstr \<Rightarrow> bool" where
  "isUTF8Aux legal =
    (let numBytes = trailBytes (cur legal) + 1 in
     if \<exists>i\<in>set [1..<numBytes]. peek legal i = 0 then False else isValid_U8 legal numBytes)"

definition isUTF8 :: "cstr \<Rightarrow> bool" where
  "isUTF8 c \<longleftrightarrow> cur c < 128 \<or> isUTF8Aux c"

function isUTF8Loop :: "cstr \<Rightarrow> nat \<Rightarrow> bool" where
  "isUTF8Loop legal count =
    (if count < length legal then
       (if isUTF8 (drop count legal)
        then isUTF8Loop legal (count + trailBytes (peek legal count) + 1)
        else False)
     else True)"
  by pat_completeness auto
termination by (relation "measure (\<lambda>(legal, count). length legal - count)") auto

declare isUTF8Loop.simps [simp del]

definition isUTF8Str :: "cstr \<Rightarrow> bool" where
  "isUTF8Str legal = isUTF8Loop legal 0"

lemma isUTF8_iff:
  assumes "q \<noteq> []" and "nul_free q"
  shows "isUTF8 q \<longleftrightarrow> q ! 0 < 128 \<or> trailBytes (q ! 0) + 1 \<le> length q \<and> isValid_U8 q (trailBytes (q ! 0) + 1)"
proof -
  have "(\<exists>i\<in>set [1..<k]. peek q i = 0) \<longleftrightarrow> length q < k" for k
  proof
    assume "\<exists>i\<in>set [1..<k]. peek q i = 0"
    then obtain i where "i < k" "peek q i = 0" by auto
    then show "length q < k"
      using assms(2) nth_mem [of i q] by (cases "i < length q") (auto simp: peek_def nul_free_def)
  next
    assume "length q < k"
    then show "\<exists>i\<in>set [1..<k]. peek q i = 0"
      using assms(1) by (intro bexI [of _ "length q"]) (auto simp: peek_def Suc_le_eq)
  qed
  moreover have "cur q = q ! 0" using assms(1) by (cases q) simp_all
  ultimately show ?thesis by (auto simp: isUTF8_def isUTF8Aux_def Let_def not_less simp del: set_upt)
qed

lemma fromLoop_accepts_step:
  assumes "q \<noteq> []" and "nul_free q" and "\<not> shortF4 q"
  shows "(\<exists>out. fromLoop q = Inr out) \<longleftrightarrow>
         isUTF8 q \<and> (\<exists>out. fromLoop (drop (trailBytes (q ! 0) + 1) q) = Inr out)"
proof (cases "isUTF8 q")
  case True
  let ?k = "trailBytes (q ! 0) + 1"
  obtain n where n: "codePoint n" "take ?k q = utf8 n"
  proof (cases "q ! 0 < 128")
    case True
    then have "?k = 1" by (simp add: trailBytes_unat word_less_unat)
    then show ?thesis using utf8_ascii [OF True] assms(1)
      by (intro that [of "unat (q ! 0)"]) (simp_all add: take_Suc hd_conv_nth)
  next
    case False
    then have "\<exists>n. codePoint n \<and> take ?k q = utf8 n"
      using True isUTF8_iff [OF assms(1,2)] assms(1,3) by (intro valid_is_utf8) (auto simp: shortF4_def)
    then show ?thesis using that by blast
  qed
  have "q = utf8 n @ drop ?k q" by (simp flip: n(2))
  then show ?thesis using fromLoop_utf8 [OF n(1), of "drop ?k q"] True by (auto simp: bindE_eq_Inr)
next
  case False
  then have "fromLoop q = Inl (length q)"
    unfolding isUTF8_iff [OF assms(1,2)] using assms(1) by (subst fromLoop.simps) (auto simp: Let_def)
  with False show ?thesis by simp
qed

lemma isUTF8Loop_accepts:
  "nul_free legal \<Longrightarrow> \<not> shortF4 legal \<Longrightarrow>
   isUTF8Loop legal count \<longleftrightarrow> (\<exists>out. fromLoop (drop count legal) = Inr out)"
proof (induction legal count rule: isUTF8Loop.induct)
  case (1 legal count)
  show ?case
  proof (cases "count < length legal")
    case True
    let ?q = "drop count legal"
    have "nul_free ?q" using "1.prems"(1) by (auto simp: nul_free_def dest: in_set_dropD)
    moreover have "\<not> shortF4 ?q" using "1.prems"(2) shortF4_drop by blast
    ultimately have "(\<exists>out. fromLoop ?q = Inr out) \<longleftrightarrow>
        isUTF8 ?q \<and> (\<exists>out. fromLoop (drop (count + trailBytes (peek legal count) + 1) legal) = Inr out)"
      using fromLoop_accepts_step [of ?q] True by (simp add: peek_def add.commute add.left_commute)
    then show ?thesis using "1.IH" "1.prems" True by (subst isUTF8Loop.simps) auto
  qed (simp add: isUTF8Loop.simps fromLoop.simps [of "[]"])
qed

text \<open>
  On a C string without the sequence named above, \<open>isUTF8Str\<close> accepts exactly the texts that
  the conversion to a \<open>String\<close> accepts: no text it lets through makes that constructor throw.
\<close>

lemma isUTF8Str_agrees:
  assumes "nul_free s" and "\<not> shortF4 s"
  shows "isUTF8Str s \<longleftrightarrow> (\<exists>out. copyFromUTF8 s = Inr out)"
  using isUTF8Loop_accepts [OF assms, of 0]
  by (auto simp: isUTF8Str_def copyFromUTF8_loop split: sum.splits)

theorem isUTF8Str_agrees_witness:
  "isUTF8Str [0xE2, 0x82, 0xAC] \<longleftrightarrow> (\<exists>out. copyFromUTF8 [0xE2, 0x82, 0xAC] = Inr out)"
  by (rule isUTF8Str_agrees) (auto simp: shortF4_def less_Suc_eq nth_Cons split: nat.splits)

text \<open>The sequence F4 41 80 80 is accepted, though 41 is no continuation byte.\<close>

lemma shortF4_accepted: "isValid_U8 [0xF4, 0x41, 0x80, 0x80] 4"
  by (simp add: isValid_U8_def)

text \<open>A lead byte F8 leaves the position behind the start of the range.\<close>

lemma UTF8toUTF16_leaves_range:
  "UTF8toUTF16 [0xF8, 0x80, 0x80, 0x80, 0x80] 0 5 1 [] = (- 1, - 5, [0xFFFD])"
  by (subst UTF8toUTF16.simps, subst UTF8toUTF16.simps)
     (simp add: trailBytes_unat offsetsFromUTF8_def Let_def)

subsection \<open>Escaping of characters above 7-bit ASCII\<close>

definition hexDigitOf :: "u16 \<Rightarrow> u16" where
  "hexDigitOf d = (if d < 10 then 0x30 + d else 0x41 + (d - 10))"

text \<open>\<open>sprintf\<close> with \<open>"%%%03X%X"\<close> of the quotient and the remainder by 16.\<close>

definition hexEscape :: "u16 \<Rightarrow> pstr" where
  "hexEscape c =
    [0x25, hexDigitOf (c div 16 div 256), hexDigitOf (c div 16 div 16 mod 16),
     hexDigitOf (c div 16 mod 16), hexDigitOf (c mod 16)]"

definition escapeStringEncoder :: "pstr \<Rightarrow> pstr" where
  "escapeStringEncoder s = concat (map (\<lambda>c. if c \<le> 0x7F then [c] else hexEscape c) s)"

definition hexCharToNumeric16 :: "u16 \<Rightarrow> u8" where
  "hexCharToNumeric16 c =
    ucast (if 0x30 \<le> c \<and> c \<le> 0x39 then c - 0x30
           else if 0x41 \<le> c \<and> c \<le> 0x5A then c - 0x41 + 10
           else c - 0x61 + 10)"

text \<open>The digits are read with the checked \<open>operator[]\<close>, which lets the NUL after the end be read.\<close>

definition charAt :: "pstr \<Rightarrow> nat \<Rightarrow> stringError + u16" where
  "charAt s i = (if i > length s then Inl IndexOutOfBounds else Inr (peek s i))"

function decodeLoop :: "pstr \<Rightarrow> nat \<Rightarrow> pstr \<Rightarrow> stringError + pstr" where
  "decodeLoop s i out =
    (if i < length s then
       (if s ! i = 0x25 then
          bindE (charAt s (i + 1)) (\<lambda>d1. bindE (charAt s (i + 2)) (\<lambda>d2.
          bindE (charAt s (i + 3)) (\<lambda>d3. bindE (charAt s (i + 4)) (\<lambda>d4.
            decodeLoop s (i + 5)
              (out @ [push_bit 12 (ucast (hexCharToNumeric16 d1)) + push_bit 8 (ucast (hexCharToNumeric16 d2)) +
                      push_bit 4 (ucast (hexCharToNumeric16 d3)) + ucast (hexCharToNumeric16 d4)])))))
        else decodeLoop s (i + 1) (out @ [s ! i]))
     else Inr out)"
  by pat_completeness auto
termination by (relation "measure (\<lambda>(s, i, out). length s - i)") auto

declare decodeLoop.simps [simp del]

definition escapeStringDecoder :: "pstr \<Rightarrow> stringError + pstr" where
  "escapeStringDecoder s =
    bindE (decodeLoop s 0 []) (\<lambda>chars. Inr (if length s > 0 then beforeNul chars else []))"

lemma hex_digit_inverse:
  assumes "d < 16"
  shows "(ucast (hexCharToNumeric16 (hexDigitOf d)) :: u16) = d"
proof -
  have "d = of_nat (unat d)" "unat d < 16" using assms by (simp_all add: word_less_unat)
  moreover have "\<forall>n\<in>set [0..<16]. (ucast (hexCharToNumeric16 (hexDigitOf (of_nat n))) :: u16) = of_nat n"
    unfolding upt_pair [of 16, simplified] by (simp add: upt_rec_numeral hexCharToNumeric16_def hexDigitOf_def)
  ultimately show ?thesis by (metis atLeastLessThan_iff le0 set_upt)
qed

lemma hex_digits_join:
  "push_bit 12 (c div 16 div 256) + push_bit 8 (c div 16 div 16 mod 16) +
   push_bit 4 (c div 16 mod 16) + c mod 16 = (c :: u16)"
proof -
  define x where "x = c div 16"
  have "x div 256 = x div 16 div 16"
    by (rule unsigned_word_eqI [where ?'a = nat]) (simp add: unat_div div_mult2_eq [symmetric])
  then have a: "x div 256 * 16 + x div 16 mod 16 = x div 16" by (simp only: div_mult_mod_eq)
  have "push_bit 12 (x div 256) + push_bit 8 (x div 16 mod 16) + push_bit 4 (x mod 16) + c mod 16
      = ((x div 256 * 16 + x div 16 mod 16) * 16 + x mod 16) * 16 + c mod 16"
    by (simp add: push_bit_eq_mult algebra_simps)
  also have "\<dots> = c" unfolding a by (simp only: div_mult_mod_eq x_def)
  finally show ?thesis unfolding x_def .
qed

lemma hex_digit_bounds: "(c :: u16) div 16 div 256 < 16" "(d :: u16) mod 16 < 16"
  using unsigned_less [of c, where ?'a = nat]
  by (simp_all add: word_less_unat unat_div unat_mod)

lemma decodeLoop_escape:
  "0x25 \<notin> set s \<Longrightarrow> decodeLoop (pre @ escapeStringEncoder s) (length pre) out = Inr (out @ s)"
proof (induction s arbitrary: pre out)
  case Nil
  then show ?case by (simp add: decodeLoop.simps escapeStringEncoder_def)
next
  case (Cons c s)
  let ?e = "if c \<le> 0x7F then [c] else hexEscape c"
  let ?t = "pre @ ?e @ escapeStringEncoder s"
  have t: "pre @ escapeStringEncoder (c # s) = ?t" by (simp add: escapeStringEncoder_def)
  have "decodeLoop ?t (length pre) out = decodeLoop ?t (length (pre @ ?e)) (out @ [c])"
  proof (cases "c \<le> 0x7F")
    case True
    then show ?thesis using Cons.prems by (subst decodeLoop.simps) (simp add: nth_append)
  next
    case False
    have c: "charAt ?t (length pre + k) = Inr (hexEscape c ! k)" if "k < 5" for k
    proof -
      have "length (hexEscape c) = 5" by (simp add: hexEscape_def)
      then show ?thesis using that False by (simp add: charAt_def peek_def nth_append)
    qed
    have d: "charAt ?t (length pre + 1) = Inr (hexDigitOf (c div 16 div 256))"
      "charAt ?t (length pre + 2) = Inr (hexDigitOf (c div 16 div 16 mod 16))"
      "charAt ?t (length pre + 3) = Inr (hexDigitOf (c div 16 mod 16))"
      "charAt ?t (length pre + 4) = Inr (hexDigitOf (c mod 16))"
      using c [of 1] c [of 2] c [of 3] c [of 4] by (simp_all add: hexEscape_def)
    have h: "(length pre < length ?t) = True" "(?t ! length pre = 0x25) = True" "length (pre @ ?e) = length pre + 5"
      using False by (simp_all add: hexEscape_def)
    show ?thesis
      unfolding h(3) by (subst decodeLoop.simps)
        (simp only: h if_True d bindE.simps hex_digit_inverse hex_digit_bounds hex_digits_join)
  qed
  then show ?case
    unfolding t using Cons.IH [of "pre @ ?e" "out @ [c]"] Cons.prems by simp
qed

text \<open>
  Decoding what \<open>escapeStringEncoder\<close> wrote gives the text back, up to its first NUL, for every
  text without a percent sign.
\<close>

theorem escape_roundtrip:
  assumes "0x25 \<notin> set s"
  shows "escapeStringDecoder (escapeStringEncoder s) = Inr (beforeNul s)"
proof -
  have "escapeStringEncoder s = [] \<Longrightarrow> s = []"
    by (cases s) (auto simp: escapeStringEncoder_def hexEscape_def split: if_splits)
  then show ?thesis
    using decodeLoop_escape [OF assms, of "[]" "[]"]
    by (auto simp: escapeStringDecoder_def beforeNul_def)
qed

theorem escape_roundtrip_witness:
  "escapeStringDecoder (escapeStringEncoder [0x41, 0x20AC]) = Inr (beforeNul [0x41, 0x20AC])"
  by (rule escape_roundtrip) simp

text \<open>The percent sign itself is not escaped, so a text that holds one does not come back.\<close>

lemma escape_percent:
  "escapeStringDecoder (escapeStringEncoder (units ''%0041'')) = Inr (units ''A'')"
  by (simp add: escapeStringDecoder_def escapeStringEncoder_def units_def decodeLoop.simps charAt_def
      peek_def hexCharToNumeric16_def beforeNul_def)

end
