(* ===== verification/StringHeap.thy ===== *)
theory StringHeap
  imports CommonUtf
begin

section \<open>String: shared representations, copy on write, and the buffers behind them\<close>

text \<open>
  The operations of \<^verbatim>\<open>Pegasus/Common/String.cpp\<close>, \<^verbatim>\<open>StringInline.h\<close> and \<^verbatim>\<open>StringRep.h\<close> that create
  or change strings. A \<open>String\<close> object is a name bound to the address of its \<open>StringRep\<close>, several may
  be bound to the same one, and \<open>refs\<close> counts them; address 0 is the static \<open>_emptyRep\<close>, whose count
  never changes. Every read and write goes through the allocated buffer, which has \<open>cap + 1\<close> units,
  and is \<open>Undefined\<close> outside it or in a freed representation. Fresh memory holds an arbitrary value.
  The operations run in one thread, as the class requires of its callers.

  The abstract view of a state is the text of every live string. Each operation is shown to change
  the text of the one string it is called on, in the way its documentation says.
\<close>

subsection \<open>Memory\<close>

record rep =
  rsize :: nat
  rcap :: nat
  rrefs :: nat
  rdata :: pstr

record memory =
  reps :: "nat \<Rightarrow> rep option"
  nextAddr :: nat
  fresh :: u16
  strs :: "nat \<Rightarrow> nat option"

type_synonym 'a prog = "memory \<Rightarrow> (stringError \<times> memory, 'a \<times> memory) outcome"

definition retS :: "'a \<Rightarrow> 'a prog" where
  "retS x s = Done (x, s)"

definition bindS :: "'a prog \<Rightarrow> ('a \<Rightarrow> 'b prog) \<Rightarrow> 'b prog" where
  "bindS m f s = (case m s of Done (x, s') \<Rightarrow> f x s' | Throws e \<Rightarrow> Throws e | Undefined \<Rightarrow> Undefined)"

definition thenS :: "'a prog \<Rightarrow> 'b prog \<Rightarrow> 'b prog" where
  "thenS m n = bindS m (\<lambda>_. n)"

definition throwS :: "stringError \<Rightarrow> 'a prog" where
  "throwS e s = Throws (e, s)"

text \<open>The field \<open>_rep\<close> of a string.\<close>

definition repOf :: "nat \<Rightarrow> nat prog" where
  "repOf v s = (case strs s v of Some a \<Rightarrow> Done (a, s) | None \<Rightarrow> Undefined)"

definition setRep :: "nat \<Rightarrow> nat \<Rightarrow> unit prog" where
  "setRep v a s = Done ((), s\<lparr>strs := (strs s)(v \<mapsto> a)\<rparr>)"

definition load :: "nat \<Rightarrow> rep prog" where
  "load a s = (case reps s a of Some r \<Rightarrow> Done (r, s) | None \<Rightarrow> Undefined)"

definition store :: "nat \<Rightarrow> rep \<Rightarrow> unit prog" where
  "store a r s = Done ((), s\<lparr>reps := (reps s)(a \<mapsto> r)\<rparr>)"

definition setSize :: "nat \<Rightarrow> nat \<Rightarrow> unit prog" where
  "setSize a n = bindS (load a) (\<lambda>r. store a (r\<lparr>rsize := n\<rparr>))"

definition readFrom :: "nat \<Rightarrow> nat \<Rightarrow> nat \<Rightarrow> pstr prog" where
  "readFrom a off n =
    bindS (load a) (\<lambda>r s. if off + n \<le> length (rdata r)
                         then Done (take n (drop off (rdata r)), s) else Undefined)"

definition copyTo :: "nat \<Rightarrow> nat \<Rightarrow> pstr \<Rightarrow> unit prog" where
  "copyTo a off xs =
    bindS (load a) (\<lambda>r. if off + length xs \<le> length (rdata r)
      then store a (r\<lparr>rdata := take off (rdata r) @ xs @ drop (off + length xs) (rdata r)\<rparr>)
      else (\<lambda>s. Undefined))"

text \<open>\<open>StringRep::alloc\<close>, \<open>free\<close>, \<open>ref\<close> and \<open>unref\<close>.\<close>

definition alloc :: "nat \<Rightarrow> nat prog" where
  "alloc cap s =
    (if cap > 0x3FFFFFFF then Throws (BadAlloc, s)
     else Done (nextAddr s,
       s\<lparr>reps := (reps s)(nextAddr s \<mapsto>
           \<lparr>rsize = unat (fresh s), rcap = cap, rrefs = 1, rdata = replicate (cap + 1) (fresh s)\<rparr>),
         nextAddr := Suc (nextAddr s)\<rparr>))"

definition free :: "nat \<Rightarrow> unit prog" where
  "free a = bindS (load a) (\<lambda>_ s. Done ((), s\<lparr>reps := (reps s)(a := None)\<rparr>))"

definition ref :: "nat \<Rightarrow> unit prog" where
  "ref a = (if a = 0 then retS () else bindS (load a) (\<lambda>r. store a (r\<lparr>rrefs := rrefs r + 1\<rparr>)))"

definition unref :: "nat \<Rightarrow> unit prog" where
  "unref a =
    (if a = 0 then retS ()
     else bindS (load a) (\<lambda>r. if rrefs r - 1 = 0 then free a
                             else store a (r\<lparr>rrefs := rrefs r - 1\<rparr>)))"

subsection \<open>The operations\<close>

definition emptyString :: "nat \<Rightarrow> unit prog" where
  "emptyString v = setRep v 0"

definition copyString :: "nat \<Rightarrow> nat \<Rightarrow> unit prog" where
  "copyString v w = bindS (repOf w) (\<lambda>b. thenS (setRep v b) (ref b))"

definition destroyString :: "nat \<Rightarrow> unit prog" where
  "destroyString v = bindS (repOf v) (\<lambda>a. thenS (unref a) (\<lambda>s. Done ((), s\<lparr>strs := (strs s)(v := None)\<rparr>)))"

definition assignString :: "nat \<Rightarrow> nat \<Rightarrow> unit prog" where
  "assignString v w =
    bindS (repOf v) (\<lambda>a. bindS (repOf w) (\<lambda>b.
      if a \<noteq> b then thenS (unref a) (thenS (setRep v b) (ref b)) else retS ()))"

text \<open>\<open>StringRep::create(const Uint16*, size_t)\<close> and \<open>copyOnWrite\<close>.\<close>

definition createUnits :: "pstr \<Rightarrow> nat prog" where
  "createUnits xs =
    bindS (alloc (length xs)) (\<lambda>b.
      thenS (setSize b (length xs)) (thenS (copyTo b 0 xs) (thenS (copyTo b (length xs) [0]) (retS b))))"

definition copyOnWrite :: "nat \<Rightarrow> unit prog" where
  "copyOnWrite v =
    bindS (repOf v) (\<lambda>a. bindS (load a) (\<lambda>r.
      bindS (alloc (rsize r)) (\<lambda>b.
        thenS (setSize b (rsize r))
        (bindS (readFrom a 0 (rsize r)) (\<lambda>xs.
          thenS (copyTo b 0 xs) (thenS (copyTo b (rsize r) [0]) (thenS (unref a) (setRep v b))))))))"

definition ownRep :: "nat \<Rightarrow> unit prog" where
  "ownRep v =
    bindS (repOf v) (\<lambda>a. bindS (load a) (\<lambda>r. if rrefs r \<noteq> 1 then copyOnWrite v else retS ()))"

definition newFromUnits :: "nat \<Rightarrow> pstr \<Rightarrow> unit prog" where
  "newFromUnits v xs = bindS (createUnits xs) (\<lambda>b. setRep v b)"

text \<open>\<open>StringRep::create(const char*, size_t)\<close>.\<close>

definition createUtf8 :: "cstr \<Rightarrow> nat prog" where
  "createUtf8 str =
    bindS (alloc (length str)) (\<lambda>b.
      case copyFromUTF8 str of
        Inl utf8_error_index \<Rightarrow> thenS (free b) (throwS (BadUTF8 utf8_error_index))
      | Inr xs \<Rightarrow>
          thenS (setSize b (length xs)) (thenS (copyTo b 0 xs) (thenS (copyTo b (length xs) [0]) (retS b))))"

definition newFromUtf8 :: "nat \<Rightarrow> cstr \<Rightarrow> unit prog" where
  "newFromUtf8 v str = bindS (createUtf8 str) (\<lambda>b. setRep v b)"

text \<open>The first lines of both \<open>assign\<close> overloads: a buffer of their own for \<open>n\<close> units.\<close>

definition makeRoom :: "nat \<Rightarrow> nat \<Rightarrow> unit prog" where
  "makeRoom v n =
    bindS (repOf v) (\<lambda>a. bindS (load a) (\<lambda>r.
      if n > rcap r \<or> rrefs r \<noteq> 1
      then thenS (unref a) (bindS (alloc n) (\<lambda>b. setRep v b)) else retS ()))"

definition assignUnits :: "nat \<Rightarrow> pstr \<Rightarrow> unit prog" where
  "assignUnits v xs =
    thenS (makeRoom v (length xs))
     (bindS (repOf v) (\<lambda>a.
       thenS (setSize a (length xs)) (thenS (copyTo a 0 xs) (copyTo a (length xs) [0]))))"

definition assignUtf8 :: "nat \<Rightarrow> cstr \<Rightarrow> unit prog" where
  "assignUtf8 v str =
    thenS (makeRoom v (length str))
     (bindS (repOf v) (\<lambda>a.
       case copyFromUTF8 str of
         Inl utf8_error_index \<Rightarrow> thenS (free a) (thenS (setRep v 0) (throwS (BadUTF8 utf8_error_index)))
       | Inr xs \<Rightarrow> thenS (setSize a (length xs)) (thenS (copyTo a 0 xs) (copyTo a (length xs) [0]))))"

definition clearString :: "nat \<Rightarrow> unit prog" where
  "clearString v =
    bindS (repOf v) (\<lambda>a. bindS (load a) (\<lambda>r.
      if rsize r \<noteq> 0 then
        (if rrefs r = 1 then thenS (setSize a 0) (copyTo a 0 [0])
         else thenS (unref a) (setRep v 0))
      else retS ()))"

definition reserveRep :: "nat \<Rightarrow> u32 \<Rightarrow> unit prog" where
  "reserveRep v cap =
    bindS (repOf v) (\<lambda>a. bindS (load a) (\<lambda>r.
      if unat cap > rcap r \<or> rrefs r \<noteq> 1 then
        (case roundUpToPow2 cap of
           Inl e \<Rightarrow> throwS e
         | Inr n \<Rightarrow>
             bindS (alloc (unat n)) (\<lambda>b.
               thenS (setSize b (rsize r))
               (bindS (readFrom a 0 (rsize r + 1)) (\<lambda>xs.
                 thenS (copyTo b 0 xs) (thenS (unref a) (setRep v b))))))
      else retS ()))"

definition reserveCapacity :: "nat \<Rightarrow> u32 \<Rightarrow> unit prog" where
  "reserveCapacity v cap = reserveRep v cap"

definition appendUnits :: "nat \<Rightarrow> pstr \<Rightarrow> unit prog" where
  "appendUnits v xs =
    bindS (repOf v) (\<lambda>a. bindS (load a) (\<lambda>r.
      thenS (reserveRep v (of_nat (rsize r + length xs)))
      (bindS (repOf v) (\<lambda>b.
        thenS (copyTo b (rsize r) xs)
        (thenS (setSize b (rsize r + length xs)) (copyTo b (rsize r + length xs) [0]))))))"

text \<open>
  \<open>append(const String&)\<close> passes a pointer into the other string's buffer, which is read after the
  buffer of this string has been exchanged.
\<close>

definition appendString :: "nat \<Rightarrow> nat \<Rightarrow> unit prog" where
  "appendString v w =
    bindS (repOf w) (\<lambda>c. bindS (load c) (\<lambda>q.
      bindS (repOf v) (\<lambda>a. bindS (load a) (\<lambda>r.
        thenS (reserveRep v (of_nat (rsize r + rsize q)))
        (bindS (repOf v) (\<lambda>b.
          bindS (readFrom c 0 (rsize q)) (\<lambda>xs.
            thenS (copyTo b (rsize r) xs)
            (thenS (setSize b (rsize r + rsize q)) (copyTo b (rsize r + rsize q) [0])))))))))"

definition appendUtf8 :: "nat \<Rightarrow> cstr \<Rightarrow> unit prog" where
  "appendUtf8 v str =
    bindS (repOf v) (\<lambda>a. bindS (load a) (\<lambda>r.
      thenS (reserveRep v (of_nat (rsize r + length str)))
      (bindS (repOf v) (\<lambda>b.
        case copyFromUTF8 str of
          Inl utf8_error_index \<Rightarrow> thenS (free b) (thenS (setRep v 0) (throwS (BadUTF8 utf8_error_index)))
        | Inr xs \<Rightarrow>
            thenS (copyTo b (rsize r) xs)
            (thenS (setSize b (rsize r + length xs)) (copyTo b (rsize r + length xs) [0]))))))"

text \<open>\<open>append(const Char16&)\<close> with \<open>StringAppendCharAux\<close>.\<close>

definition appendCharAux :: "nat \<Rightarrow> unit prog" where
  "appendCharAux v =
    bindS (repOf v) (\<lambda>a. bindS (load a) (\<lambda>r.
      bindS (if rcap r \<noteq> 0
             then bindS (alloc (2 * rcap r)) (\<lambda>b.
                    thenS (setSize b (rsize r))
                    (bindS (readFrom a 0 (rsize r)) (\<lambda>xs. thenS (copyTo b 0 xs) (retS b))))
             else bindS (alloc 8) (\<lambda>b. thenS (setSize b 0) (retS b)))
       (\<lambda>b. thenS (unref a) (setRep v b))))"

definition appendChar :: "nat \<Rightarrow> u16 \<Rightarrow> unit prog" where
  "appendChar v c =
    bindS (repOf v) (\<lambda>a. bindS (load a) (\<lambda>r.
      thenS (if rsize r = rcap r \<or> rrefs r \<noteq> 1 then appendCharAux v else retS ())
      (bindS (repOf v) (\<lambda>b. bindS (load b) (\<lambda>q.
        thenS (copyTo b (rsize q) [c])
        (thenS (setSize b (rsize q + 1)) (copyTo b (rsize q + 1) [0])))))))"

text \<open>A write through the non-const \<open>operator[]\<close>, whose bound admits the index of the terminator.\<close>

definition setChar :: "nat \<Rightarrow> u32 \<Rightarrow> u16 \<Rightarrow> unit prog" where
  "setChar v i c =
    bindS (repOf v) (\<lambda>a. bindS (load a) (\<lambda>r.
      if unat i > rsize r then throwS IndexOutOfBounds
      else thenS (ownRep v) (bindS (repOf v) (\<lambda>b. copyTo b (unat i) [c]))))"

text \<open>\<open>remove\<close>: \<open>index + n\<close> is a 32-bit sum, the sizes are 64-bit.\<close>

definition removeUnits :: "nat \<Rightarrow> u32 \<Rightarrow> u32 \<Rightarrow> unit prog" where
  "removeUnits v index n' =
    bindS (repOf v) (\<lambda>a. bindS (load a) (\<lambda>r.
      let n = (if n' = notFound then ucast ((of_nat (rsize r) :: u64) - ucast index) else n') in
      if unat (index + n) > rsize r then throwS IndexOutOfBounds
      else
        thenS (ownRep v)
        (bindS (repOf v) (\<lambda>b.
          let remaining = rsize r - unat (index + n);
              newSize = unat ((of_nat (rsize r) :: u64) - ucast n) in
          thenS (if remaining \<noteq> 0
                 then bindS (readFrom b (unat index + unat n) remaining) (\<lambda>xs. copyTo b (unat index) xs)
                 else retS ())
          (thenS (setSize b newSize) (copyTo b newSize [0]))))))"

definition mapUnits :: "(pstr \<Rightarrow> pstr) \<Rightarrow> nat \<Rightarrow> unit prog" where
  "mapUnits f v =
    thenS (ownRep v)
    (bindS (repOf v) (\<lambda>b. bindS (load b) (\<lambda>r.
      bindS (readFrom b 0 (rsize r)) (\<lambda>xs. copyTo b 0 (f xs)))))"

definition toLowerString :: "nat \<Rightarrow> unit prog" where
  "toLowerString v = mapUnits toLowerUnits v"

definition toUpperString :: "nat \<Rightarrow> unit prog" where
  "toUpperString v = mapUnits toUpperUnits v"

definition subString :: "nat \<Rightarrow> nat \<Rightarrow> u32 \<Rightarrow> u32 \<Rightarrow> unit prog" where
  "subString v w index n =
    bindS (repOf w) (\<lambda>a. bindS (load a) (\<lambda>r.
      if unat index < rsize r then
        (let n' = (if n = notFound \<or> unat n > rsize r - unat index then rsize r - unat index else unat n) in
         bindS (readFrom a (unat index) n') (\<lambda>xs. newFromUnits v xs))
      else emptyString v))"

text \<open>The concatenating constructors. The last one copies the string behind \<open>n1\<close> bytes, not
  behind the units the bytes were converted to.\<close>

definition concatStrings :: "nat \<Rightarrow> nat \<Rightarrow> nat \<Rightarrow> unit prog" where
  "concatStrings v s1 s2 =
    bindS (repOf s1) (\<lambda>a1. bindS (load a1) (\<lambda>r1. bindS (repOf s2) (\<lambda>a2. bindS (load a2) (\<lambda>r2.
      bindS (alloc (rsize r1 + rsize r2)) (\<lambda>b.
        bindS (readFrom a1 0 (rsize r1)) (\<lambda>xs. thenS (copyTo b 0 xs)
        (bindS (readFrom a2 0 (rsize r2)) (\<lambda>ys. thenS (copyTo b (rsize r1) ys)
        (thenS (setSize b (rsize r1 + rsize r2))
        (thenS (copyTo b (rsize r1 + rsize r2) [0]) (setRep v b)))))))))))"

definition concatStringUtf8 :: "nat \<Rightarrow> nat \<Rightarrow> cstr \<Rightarrow> unit prog" where
  "concatStringUtf8 v s1 s2 =
    bindS (repOf s1) (\<lambda>a1. bindS (load a1) (\<lambda>r1.
      bindS (alloc (rsize r1 + length s2)) (\<lambda>b.
        bindS (readFrom a1 0 (rsize r1)) (\<lambda>xs. thenS (copyTo b 0 xs)
        (case copyFromUTF8 s2 of
           Inl utf8_error_index \<Rightarrow> thenS (free b) (throwS (BadUTF8 utf8_error_index))
         | Inr ys \<Rightarrow>
             thenS (copyTo b (rsize r1) ys)
             (thenS (setSize b (rsize r1 + length ys))
             (thenS (copyTo b (rsize r1 + length ys) [0]) (setRep v b))))))))"

definition concatUtf8String :: "nat \<Rightarrow> cstr \<Rightarrow> nat \<Rightarrow> unit prog" where
  "concatUtf8String v s1 s2 =
    bindS (repOf s2) (\<lambda>a2. bindS (load a2) (\<lambda>r2.
      bindS (alloc (length s1 + rsize r2)) (\<lambda>b.
        case copyFromUTF8 s1 of
          Inl utf8_error_index \<Rightarrow> thenS (free b) (throwS (BadUTF8 utf8_error_index))
        | Inr xs \<Rightarrow>
            thenS (copyTo b 0 xs)
            (thenS (setSize b (rsize r2 + length xs))
            (bindS (readFrom a2 0 (rsize r2)) (\<lambda>ys. thenS (copyTo b (length s1) ys)
            (thenS (copyTo b (rsize r2 + length xs) [0]) (setRep v b))))))))"

subsection \<open>The machine\<close>

datatype action =
    Empty nat
  | FromUnits nat pstr
  | FromUtf8 nat cstr
  | Copy nat nat
  | Destroy nat
  | Assign nat nat
  | AssignUnits nat pstr
  | AssignUtf8 nat cstr
  | Clear nat
  | Reserve nat u32
  | AppendUnits nat pstr
  | Append nat nat
  | AppendUtf8 nat cstr
  | AppendChar nat u16
  | SetChar nat u32 u16
  | Remove nat u32 u32
  | ToLower nat
  | ToUpper nat
  | SubString nat nat u32 u32
  | Concat nat nat nat
  | ConcatUtf8 nat nat cstr
  | Utf8Concat nat cstr nat

fun exec :: "action \<Rightarrow> unit prog" where
  "exec (Empty v) = emptyString v"
| "exec (FromUnits v xs) = newFromUnits v xs"
| "exec (FromUtf8 v str) = newFromUtf8 v str"
| "exec (Copy v w) = copyString v w"
| "exec (Destroy v) = destroyString v"
| "exec (Assign v w) = assignString v w"
| "exec (AssignUnits v xs) = assignUnits v xs"
| "exec (AssignUtf8 v str) = assignUtf8 v str"
| "exec (Clear v) = clearString v"
| "exec (Reserve v n) = reserveCapacity v n"
| "exec (AppendUnits v xs) = appendUnits v xs"
| "exec (Append v w) = appendString v w"
| "exec (AppendUtf8 v str) = appendUtf8 v str"
| "exec (AppendChar v c) = appendChar v c"
| "exec (SetChar v i c) = setChar v i c"
| "exec (Remove v i n) = removeUnits v i n"
| "exec (ToLower v) = toLowerString v"
| "exec (ToUpper v) = toUpperString v"
| "exec (SubString v w i n) = subString v w i n"
| "exec (Concat v w1 w2) = concatStrings v w1 w2"
| "exec (ConcatUtf8 v w str) = concatStringUtf8 v w str"
| "exec (Utf8Concat v str w) = concatUtf8String v str w"

subsection \<open>Well-formed memory\<close>

definition emptyRep :: rep where
  "emptyRep = \<lparr>rsize = 0, rcap = 0, rrefs = 2, rdata = [0]\<rparr>"

definition repText :: "rep \<Rightarrow> pstr" where
  "repText r = take (rsize r) (rdata r)"

definition repOk :: "rep \<Rightarrow> bool" where
  "repOk r \<longleftrightarrow> rsize r \<le> rcap r \<and> length (rdata r) = rcap r + 1 \<and> rdata r ! rsize r = 0 \<and>
     rcap r \<le> 0x3FFFFFFF"

definition owners :: "memory \<Rightarrow> nat \<Rightarrow> nat set" where
  "owners s a = {v. strs s v = Some a}"

definition memOk :: "memory \<Rightarrow> bool" where
  "memOk s \<longleftrightarrow>
     reps s 0 = Some emptyRep \<and>
     (\<forall>a r. reps s a = Some r \<longrightarrow> repOk r \<and> a < nextAddr s) \<and>
     (\<forall>v a. strs s v = Some a \<longrightarrow> reps s a \<noteq> None) \<and>
     (\<forall>a r. a \<noteq> 0 \<longrightarrow> reps s a = Some r \<longrightarrow> rrefs r = card (owners s a) \<and> owners s a \<noteq> {}) \<and>
     finite (dom (strs s))"

definition texts :: "memory \<Rightarrow> nat \<Rightarrow> pstr option" where
  "texts s v = (case strs s v of None \<Rightarrow> None | Some a \<Rightarrow> map_option repText (reps s a))"

definition initMemory :: "u16 \<Rightarrow> memory" where
  "initMemory x = \<lparr>reps = Map.empty(0 \<mapsto> emptyRep), nextAddr = 1, fresh = x, strs = Map.empty\<rparr>"

definition dropRef :: "(nat \<Rightarrow> rep option) \<Rightarrow> nat \<Rightarrow> nat \<Rightarrow> rep option" where
  "dropRef R a =
    (if a = 0 then R
     else case R a of None \<Rightarrow> R
       | Some r \<Rightarrow> if rrefs r - 1 = 0 then R(a := None) else R(a \<mapsto> r\<lparr>rrefs := rrefs r - 1\<rparr>))"

definition addRef :: "(nat \<Rightarrow> rep option) \<Rightarrow> nat \<Rightarrow> nat \<Rightarrow> rep option" where
  "addRef R a =
    (if a = 0 then R else case R a of None \<Rightarrow> R | Some r \<Rightarrow> R(a \<mapsto> r\<lparr>rrefs := rrefs r + 1\<rparr>))"

lemma wf_init: "memOk (initMemory x)" "texts (initMemory x) = Map.empty"
  by (auto simp: memOk_def initMemory_def emptyRep_def repOk_def texts_def split: if_splits)

lemma wfI:
  assumes "reps s 0 = Some emptyRep" "\<And>a r. reps s a = Some r \<Longrightarrow> repOk r" "\<And>a r. reps s a = Some r \<Longrightarrow> a < nextAddr s"
    "\<And>v a. strs s v = Some a \<Longrightarrow> \<exists>r. reps s a = Some r"
    "\<And>a r. a \<noteq> 0 \<Longrightarrow> reps s a = Some r \<Longrightarrow> rrefs r = card (owners s a)"
    "\<And>a r. a \<noteq> 0 \<Longrightarrow> reps s a = Some r \<Longrightarrow> owners s a \<noteq> {}" "finite (dom (strs s))"
  shows "memOk s"
  unfolding memOk_def using assms by simp

lemma wfD:
  assumes "memOk s"
  shows wf_zero: "reps s 0 = Some emptyRep" and wf_ok: "reps s a = Some r \<Longrightarrow> repOk r"
    and wf_below: "reps s a = Some r \<Longrightarrow> a < nextAddr s"
    and wf_live: "strs s v = Some a \<Longrightarrow> \<exists>r. reps s a = Some r"
    and wf_count: "a \<noteq> 0 \<Longrightarrow> reps s a = Some r \<Longrightarrow> rrefs r = card (owners s a)"
    and wf_owned: "a \<noteq> 0 \<Longrightarrow> reps s a = Some r \<Longrightarrow> owners s a \<noteq> {}"
    and wf_finite: "finite (dom (strs s))"
  using assms unfolding memOk_def by auto

lemma finite_owners: "memOk s \<Longrightarrow> finite (owners s a)"
  by (rule finite_subset [OF _ wf_finite]) (auto simp: owners_def)

lemma wf_rep:
  assumes "memOk s" and "strs s v = Some a"
  obtains r where "reps s a = Some r" and "repOk r" and "a < nextAddr s" and "texts s v = Some (repText r)"
    and "rrefs r = 1 \<Longrightarrow> a \<noteq> 0 \<and> owners s a = {v}"
proof -
  obtain r where r: "reps s a = Some r" using wf_live [OF assms] by blast
  have "a \<noteq> 0 \<and> owners s a = {v}" if "rrefs r = 1"
  proof -
    have "a \<noteq> 0" using that r wf_zero [OF assms(1)] by (cases "a = 0") (auto simp: emptyRep_def)
    then have "card (owners s a) = 1" using that wf_count [OF assms(1) _ r] by simp
    moreover have "v \<in> owners s a" using assms(2) by (simp add: owners_def)
    ultimately show ?thesis using \<open>a \<noteq> 0\<close> by (auto simp: card_1_singleton_iff)
  qed
  then show thesis
    using that [of r] r assms wf_ok [OF assms(1) r] wf_below [OF assms(1) r] by (auto simp: texts_def)
qed

lemma wf_fresh:
  assumes "memOk s"
  shows "reps s (nextAddr s) = None" and "strs s v \<noteq> Some (nextAddr s)" and "nextAddr s \<noteq> 0"
proof -
  show n: "reps s (nextAddr s) = None"
    using wf_below [OF assms, of "nextAddr s"] by (cases "reps s (nextAddr s)") auto
  show "strs s v \<noteq> Some (nextAddr s)" using wf_live [OF assms, of v "nextAddr s"] n by auto
  show "nextAddr s \<noteq> 0" using n wf_zero [OF assms] by (cases "nextAddr s") auto
qed

text \<open>The four ways the bindings change: in place, to a new representation, to none, to an old one.\<close>

lemma wf_in_place:
  assumes "memOk s" and "strs s v = Some a" and "owners s a = {v}" and "a \<noteq> 0" and "repOk r'" and "rrefs r' = 1"
  defines "s' \<equiv> s\<lparr>reps := (reps s)(a \<mapsto> r')\<rparr>"
  shows "memOk s'" and "texts s' = (texts s)(v \<mapsto> repText r')"
proof -
  obtain r where r: "reps s a = Some r" "a < nextAddr s" using wf_rep [OF assms(1,2)] by metis
  have o: "owners s' b = owners s b" for b by (simp add: owners_def s'_def)
  show "memOk s'"
  proof (rule wfI)
    fix b q assume q: "reps s' b = Some q"
    show "repOk q" "b < nextAddr s'"
      using q assms(5) r wf_ok [OF assms(1)] wf_below [OF assms(1)] by (auto simp: s'_def split: if_splits)
    assume "b \<noteq> 0"
    then show "rrefs q = card (owners s' b)" "owners s' b \<noteq> {}"
      unfolding o using q assms(3,6) wf_count [OF assms(1)] wf_owned [OF assms(1)]
      by (auto simp: s'_def split: if_splits)
  next
    fix u b assume "strs s' u = Some b"
    then show "\<exists>q. reps s' b = Some q" using wf_live [OF assms(1), of u b] by (simp add: s'_def)
  next
    show "reps s' 0 = Some emptyRep" using assms(4) wf_zero [OF assms(1)] by (simp add: s'_def)
    show "finite (dom (strs s'))" using wf_finite [OF assms(1)] by (simp add: s'_def)
  qed
  have u: "strs s u = Some a \<longleftrightarrow> u = v" for u using assms(3) by (auto simp: owners_def)
  show "texts s' = (texts s)(v \<mapsto> repText r')"
  proof
    fix u show "texts s' u = ((texts s)(v \<mapsto> repText r')) u"
      using u [of u] by (cases "strs s u") (auto simp: texts_def s'_def)
  qed
qed

lemma wf_bind_new:
  assumes "memOk s" and "strs s v = None" and "repOk r'" and "rrefs r' = 1"
  defines "s' \<equiv> s\<lparr>reps := (reps s)(nextAddr s \<mapsto> r'), nextAddr := Suc (nextAddr s), strs := (strs s)(v \<mapsto> nextAddr s)\<rparr>"
  shows "memOk s'" and "texts s' = (texts s)(v \<mapsto> repText r')"
proof -
  note fresh = wf_fresh [OF assms(1)]
  have o: "owners s' (nextAddr s) = {v}" "\<And>a. a \<noteq> nextAddr s \<Longrightarrow> owners s' a = owners s a"
    using fresh(2) assms(2) by (auto simp: owners_def s'_def split: if_splits)
  show "memOk s'"
  proof (rule wfI)
    fix b q assume q: "reps s' b = Some q"
    show "repOk q" "b < nextAddr s'"
      using q assms(3) wf_ok [OF assms(1)] wf_below [OF assms(1), of b q] by (auto simp: s'_def split: if_splits)
    assume b: "b \<noteq> 0"
    show "rrefs q = card (owners s' b)"
      using q b assms(4) o wf_count [OF assms(1) b, of q] by (cases "b = nextAddr s") (auto simp: s'_def)
    show "owners s' b \<noteq> {}"
      using q b o wf_owned [OF assms(1) b, of q] by (cases "b = nextAddr s") (auto simp: s'_def)
  next
    fix u b assume "strs s' u = Some b"
    then show "\<exists>q. reps s' b = Some q"
      using wf_live [OF assms(1), of u b] by (auto simp: s'_def split: if_splits)
  qed (use fresh(3) wf_zero [OF assms(1)] wf_finite [OF assms(1)] in \<open>auto simp: s'_def\<close>)
  show "texts s' = (texts s)(v \<mapsto> repText r')"
    using fresh(2) by (auto simp: texts_def s'_def fun_eq_iff split: option.splits)
qed

lemma wf_unbind:
  assumes "memOk s" and "strs s v = Some a"
  defines "s' \<equiv> s\<lparr>reps := dropRef (reps s) a, strs := (strs s)(v := None)\<rparr>"
  shows "memOk s'" and "texts s' = (texts s)(v := None)"
proof -
  obtain r where r: "reps s a = Some r" using wf_live [OF assms(1,2)] by blast
  have o: "owners s' a = owners s a - {v}" "\<And>b. b \<noteq> a \<Longrightarrow> owners s' b = owners s b"
    using assms(2) by (auto simp: owners_def s'_def)
  have v: "v \<in> owners s a" using assms(2) by (simp add: owners_def)
  have card: "card (owners s' a) = card (owners s a) - 1" unfolding o(1) using v by simp
  have at_a: "reps s' a = (if a = 0 then Some r else if card (owners s' a) = 0 then None
                           else Some (r\<lparr>rrefs := card (owners s' a)\<rparr>))"
    unfolding card using r wf_count [OF assms(1) _ r] by (auto simp: s'_def dropRef_def)
  have other: "reps s' b = reps s b" if "b \<noteq> a" for b
    using that r by (simp add: s'_def dropRef_def)
  have fin: "finite (owners s' a)" unfolding o(1) using finite_owners [OF assms(1)] by simp
  show "memOk s'"
  proof (rule wfI)
    show "reps s' 0 = Some emptyRep"
      using wf_zero [OF assms(1)] r at_a other by (cases "a = 0") auto
    fix b q assume q: "reps s' b = Some q"
    show "repOk q" using q at_a other wf_ok [OF assms(1)] r
      by (cases "b = a") (auto simp: repOk_def split: if_splits)
    show "b < nextAddr s'" using q at_a other wf_below [OF assms(1)] r
      by (cases "b = a") (auto simp: s'_def)
    assume b: "b \<noteq> 0"
    show "rrefs q = card (owners s' b)" using q b at_a other o(2) wf_count [OF assms(1) b]
      by (cases "b = a") (auto split: if_splits)
    show "owners s' b \<noteq> {}" using q b at_a other o(2) wf_owned [OF assms(1) b]
      by (cases "b = a") (auto split: if_splits)
  next
    fix u b assume u: "strs s' u = Some b"
    show "\<exists>q. reps s' b = Some q"
    proof (cases "b = a")
      case True
      with u have "u \<in> owners s' a" by (simp add: owners_def)
      with fin have "card (owners s' a) \<noteq> 0" by auto
      with True at_a show ?thesis by simp
    next
      case False
      with u other wf_live [OF assms(1), of u b] show ?thesis by (auto simp: s'_def split: if_splits)
    qed
  qed (use wf_finite [OF assms(1)] in \<open>simp add: s'_def\<close>)
  have same: "map_option repText (reps s' b) = map_option repText (reps s b)" if "strs s' u = Some b" for u b
  proof (cases "b = a")
    case True
    with that have "u \<in> owners s' a" by (simp add: owners_def)
    with fin have "card (owners s' a) \<noteq> 0" by auto
    with True at_a r show ?thesis by (simp add: repText_def)
  qed (simp add: other)
  have t: "texts s' u = texts s u" if "u \<noteq> v" for u
  proof (cases "strs s u")
    case (Some b)
    with that have "strs s' u = Some b" by (simp add: s'_def)
    with same [OF this] Some show ?thesis by (simp add: texts_def)
  qed (use that in \<open>simp add: texts_def s'_def\<close>)
  show "texts s' = (texts s)(v := None)"
  proof
    fix u show "texts s' u = ((texts s)(v := None)) u"
      using t [of u] by (cases "u = v") (auto simp: texts_def s'_def)
  qed
qed

lemma wf_bind_old:
  assumes "memOk s" and "strs s v = None" and r: "reps s b = Some r"
  defines "s' \<equiv> s\<lparr>reps := addRef (reps s) b, strs := (strs s)(v \<mapsto> b)\<rparr>"
  shows "memOk s'" and "texts s' = (texts s)(v \<mapsto> repText r)"
proof -
  have o: "owners s' b = insert v (owners s b)" "\<And>a. a \<noteq> b \<Longrightarrow> owners s' a = owners s a"
    and v: "v \<notin> owners s b" using assms(2) by (auto simp: owners_def s'_def)
  have card: "card (owners s' b) = card (owners s b) + 1"
    unfolding o(1) using v finite_owners [OF assms(1)] by simp
  have at_b: "reps s' b = Some (if b = 0 then r else r\<lparr>rrefs := rrefs r + 1\<rparr>)"
    and other: "\<And>a. a \<noteq> b \<Longrightarrow> reps s' a = reps s a"
    using r by (auto simp: s'_def addRef_def)
  show "memOk s'"
  proof (rule wfI)
    show "reps s' 0 = Some emptyRep"
      using wf_zero [OF assms(1)] at_b other r by (cases "b = 0") auto
    fix a q assume q: "reps s' a = Some q"
    show "repOk q" "a < nextAddr s'" using q at_b other wf_ok [OF assms(1)] wf_below [OF assms(1)] r
      by (cases "a = b"; auto simp: repOk_def s'_def split: if_splits)+
    assume a: "a \<noteq> 0"
    show "rrefs q = card (owners s' a)" using q a at_b other o card wf_count [OF assms(1)] r
      by (cases "a = b") auto
    show "owners s' a \<noteq> {}" using q a o other wf_owned [OF assms(1) a] by (cases "a = b") auto
  next
    fix u a assume u: "strs s' u = Some a"
    show "\<exists>q. reps s' a = Some q"
      using u at_b other wf_live [OF assms(1), of u a] by (cases "a = b") (auto simp: s'_def split: if_splits)
  qed (use wf_finite [OF assms(1)] in \<open>simp add: s'_def\<close>)
  have "map_option repText (reps s' a) = map_option repText (reps s a)" for a
    using at_b other r by (cases "a = b") (auto simp: repText_def)
  then show "texts s' = (texts s)(v \<mapsto> repText r)"
    using r by (intro ext) (auto simp: texts_def s'_def split: option.splits)
qed

lemma dropRef_other: "a \<noteq> b \<Longrightarrow> dropRef R a b = R b"
  by (simp add: dropRef_def split: option.splits)

lemma dropRef_upd: "a \<noteq> n \<Longrightarrow> dropRef (R(n := x)) a = (dropRef R a)(n := x)"
  by (auto simp: dropRef_def fun_eq_iff split: option.splits)

lemma wf_replace:
  assumes "memOk s" and "strs s v = Some a" and "repOk r'" and "rrefs r' = 1"
  defines "s' \<equiv> s\<lparr>reps := (dropRef (reps s) a)(nextAddr s \<mapsto> r'), nextAddr := Suc (nextAddr s),
                  strs := (strs s)(v \<mapsto> nextAddr s)\<rparr>"
  shows "memOk s'" and "texts s' = (texts s)(v \<mapsto> repText r')"
proof -
  let ?u = "s\<lparr>reps := dropRef (reps s) a, strs := (strs s)(v := None)\<rparr>"
  note u = wf_unbind [OF assms(1,2)]
  have "memOk (?u\<lparr>reps := (reps ?u)(nextAddr ?u \<mapsto> r'), nextAddr := Suc (nextAddr ?u), strs := (strs ?u)(v \<mapsto> nextAddr ?u)\<rparr>)"
    "texts (?u\<lparr>reps := (reps ?u)(nextAddr ?u \<mapsto> r'), nextAddr := Suc (nextAddr ?u), strs := (strs ?u)(v \<mapsto> nextAddr ?u)\<rparr>)
      = (texts ?u)(v \<mapsto> repText r')"
    by (rule wf_bind_new; use u assms in simp)+
  then show "memOk s'" "texts s' = (texts s)(v \<mapsto> repText r')" by (simp_all add: s'_def u(2))
qed

lemma wf_rebind:
  assumes "memOk s" and "strs s v = Some a" and "reps s b = Some r" and "a \<noteq> b"
  defines "s' \<equiv> s\<lparr>reps := addRef (dropRef (reps s) a) b, strs := (strs s)(v \<mapsto> b)\<rparr>"
  shows "memOk s'" and "texts s' = (texts s)(v \<mapsto> repText r)"
proof -
  let ?u = "s\<lparr>reps := dropRef (reps s) a, strs := (strs s)(v := None)\<rparr>"
  note u = wf_unbind [OF assms(1,2)]
  have r: "reps ?u b = Some r" using assms(3,4) by (simp add: dropRef_other)
  have "memOk (?u\<lparr>reps := addRef (reps ?u) b, strs := (strs ?u)(v \<mapsto> b)\<rparr>)"
    "texts (?u\<lparr>reps := addRef (reps ?u) b, strs := (strs ?u)(v \<mapsto> b)\<rparr>) = (texts ?u)(v \<mapsto> repText r)"
    by (rule wf_bind_old [OF u(1) _ r], simp)+
  then show "memOk s'" "texts s' = (texts s)(v \<mapsto> repText r)" by (simp_all add: s'_def u(2))
qed

lemma wf_bump: "memOk s \<Longrightarrow> memOk (s\<lparr>nextAddr := Suc (nextAddr s)\<rparr>)"
  by (auto simp: memOk_def owners_def less_Suc_eq)

lemma texts_bump: "texts (s\<lparr>nextAddr := n\<rparr>) = texts s"
proof
  fix u show "texts (s\<lparr>nextAddr := n\<rparr>) u = texts s u"
    by (cases "strs s u") (simp_all add: texts_def)
qed

lemma addRef_0 [simp]: "addRef R 0 = R"
  by (simp add: addRef_def)

lemma repText_empty [simp]: "repText emptyRep = []"
  by (simp add: repText_def emptyRep_def)

subsection \<open>Symbolic execution\<close>

lemma unref_eq: "reps s a = Some r \<Longrightarrow> unref a s = Done ((), s\<lparr>reps := dropRef (reps s) a\<rparr>)"
  by (simp add: unref_def retS_def bindS_def load_def free_def store_def dropRef_def)

lemma ref_eq: "reps s b = Some r \<Longrightarrow> ref b s = Done ((), s\<lparr>reps := addRef (reps s) b\<rparr>)"
  by (simp add: ref_def retS_def bindS_def load_def store_def addRef_def)

lemma update_order:
  "s\<lparr>strs := e, reps := R\<rparr> = s\<lparr>reps := R, strs := e\<rparr>"
  "s\<lparr>nextAddr := n, reps := R\<rparr> = s\<lparr>reps := R, nextAddr := n\<rparr>"
  "s\<lparr>strs := e, nextAddr := n\<rparr> = s\<lparr>nextAddr := n, strs := e\<rparr>"
  by (cases s, simp)+

lemmas run_simps = update_order bindS_def thenS_def retS_def throwS_def repOf_def setRep_def load_def store_def setSize_def
  readFrom_def copyTo_def alloc_def unref_eq ref_eq dropRef_upd dropRef_other

definition changed :: "memory \<Rightarrow> nat \<Rightarrow> pstr \<Rightarrow> (stringError \<times> memory, unit \<times> memory) outcome \<Rightarrow> bool" where
  "changed s v xs res \<longleftrightarrow> (\<exists>s'. res = Done ((), s') \<and> memOk s' \<and> texts s' = (texts s)(v \<mapsto> xs))"

definition failed :: "memory \<Rightarrow> stringError \<Rightarrow> (nat \<Rightarrow> pstr option) \<Rightarrow> (stringError \<times> memory, unit \<times> memory) outcome \<Rightarrow> bool" where
  "failed s e t res \<longleftrightarrow> (\<exists>s'. res = Throws (e, s') \<and> memOk s' \<and> texts s' = t)"

lemma changed_in_place:
  assumes "memOk s" and "strs s v = Some a" and "reps s a = Some r" and "rrefs r = 1"
    and "repOk r'" and "rrefs r' = 1" and "repText r' = xs"
  shows "changed s v xs (Done ((), s\<lparr>reps := (reps s)(a \<mapsto> r')\<rparr>))"
proof -
  obtain r2 where "reps s a = Some r2" "rrefs r2 = 1 \<Longrightarrow> a \<noteq> 0 \<and> owners s a = {v}"
    using wf_rep [OF assms(1,2)] by metis
  then have "a \<noteq> 0" "owners s a = {v}" using assms(3,4) by auto
  then show ?thesis
    using wf_in_place [OF assms(1,2) _ _ assms(5,6)] assms(7) by (auto simp: changed_def)
qed

lemma changed_replace:
  assumes "memOk s" and "strs s v = Some a" and "repOk r'" and "rrefs r' = 1" and "repText r' = xs"
  shows "changed s v xs (Done ((), s\<lparr>reps := (dropRef (reps s) a)(nextAddr s \<mapsto> r'), nextAddr := Suc (nextAddr s),
            strs := (strs s)(v \<mapsto> nextAddr s)\<rparr>))"
  using wf_replace [OF assms(1-4)] assms(5) by (auto simp: changed_def)

lemma changed_new:
  assumes "memOk s" and "strs s v = None" and "repOk r'" and "rrefs r' = 1" and "repText r' = xs"
  shows "changed s v xs (Done ((), s\<lparr>reps := (reps s)(nextAddr s \<mapsto> r'), nextAddr := Suc (nextAddr s),
            strs := (strs s)(v \<mapsto> nextAddr s)\<rparr>))"
  using wf_bind_new [OF assms(1-4)] assms(5) by (auto simp: changed_def)

text \<open>A buffer that starts with the text and its terminator.\<close>

lemma built:
  assumes "rsize r = length xs" "rcap r = cap" "rrefs r = 1" "length xs \<le> cap" "cap \<le> 0x3FFFFFFF"
    and "rdata r = xs @ 0 # d" "length d = cap - length xs"
  shows "repOk r" "rrefs r = 1" "repText r = xs"
  using assms by (auto simp: repOk_def repText_def nth_append)

lemma newFromUnits_spec:
  assumes "memOk s" and "strs s v = None" and "length xs \<le> 0x3FFFFFFF"
  shows "changed s v xs (newFromUnits v xs s)"
proof -
  let ?r = "\<lparr>rsize = length xs, rcap = length xs, rrefs = 1, rdata = xs @ [0]\<rparr>"
  have "newFromUnits v xs s = Done ((), s\<lparr>reps := (reps s)(nextAddr s \<mapsto> ?r), nextAddr := Suc (nextAddr s),
            strs := (strs s)(v \<mapsto> nextAddr s)\<rparr>)"
    using assms(3) by (simp add: newFromUnits_def createUnits_def run_simps)
  then show ?thesis
    by (simp only:) (rule changed_new [OF assms(1,2)]; use assms(3) in \<open>simp add: repOk_def repText_def nth_append\<close>)
qed

lemma emptyString_spec:
  assumes "memOk s" and "strs s v = None"
  shows "changed s v [] (emptyString v s)"
  using wf_bind_old [OF assms wf_zero [OF assms(1)]]
  by (simp add: changed_def emptyString_def run_simps)

lemma copyString_spec:
  assumes "memOk s" and "strs s v = None" and "strs s w = Some b" and "reps s b = Some r"
  shows "changed s v (repText r) (copyString v w s)"
  using wf_bind_old [OF assms(1,2,4)] assms(3,4)
  by (simp add: changed_def copyString_def run_simps)

lemma destroyString_spec:
  assumes "memOk s" and "strs s v = Some a"
  shows "\<exists>s'. destroyString v s = Done ((), s') \<and> memOk s' \<and> texts s' = (texts s)(v := None)"
proof -
  obtain r where "reps s a = Some r" using wf_live [OF assms] by blast
  then show ?thesis
    using wf_unbind [OF assms] assms(2) by (simp add: destroyString_def run_simps)
qed

lemma assignString_spec:
  assumes "memOk s" and "strs s v = Some a" and "strs s w = Some b" and "reps s b = Some q"
  shows "changed s v (repText q) (assignString v w s)"
proof -
  obtain r where r: "reps s a = Some r" "texts s v = Some (repText r)" using wf_rep [OF assms(1,2)] by metis
  show ?thesis
  proof (cases "a = b")
    case True
    then have "(texts s)(v \<mapsto> repText q) = texts s" using r assms(4) by (auto simp: fun_eq_iff)
    with True show ?thesis using assms by (simp add: changed_def assignString_def run_simps)
  next
    case False
    then have "dropRef (reps s) a b = Some q" using assms(4) by (simp add: dropRef_other)
    with False wf_rebind [OF assms(1,2,4) False] show ?thesis
      using assms r(1) by (simp add: changed_def assignString_def run_simps)
  qed
qed

lemma clearString_spec:
  assumes "memOk s" and "strs s v = Some a"
  shows "changed s v [] (clearString v s)"
proof -
  obtain r where r: "reps s a = Some r" "repOk r" "texts s v = Some (repText r)"
    using wf_rep [OF assms] by metis
  have len: "1 \<le> length (rdata r)" using r(2) by (simp add: repOk_def)
  consider "rsize r = 0" | "rsize r \<noteq> 0" "rrefs r = 1" | "rsize r \<noteq> 0" "rrefs r \<noteq> 1" by blast
  then show ?thesis
  proof cases
    case 1
    then have "(texts s)(v \<mapsto> []) = texts s" using r(3) by (auto simp: fun_eq_iff repText_def)
    with 1 show ?thesis using assms r(1) by (simp add: changed_def clearString_def run_simps)
  next
    case 2
    let ?r = "r\<lparr>rsize := 0, rdata := 0 # drop (Suc 0) (rdata r)\<rparr>"
    have "clearString v s = Done ((), s\<lparr>reps := (reps s)(a \<mapsto> ?r)\<rparr>)"
      using 2 assms(2) r(1) len by (simp add: clearString_def run_simps)
    moreover have "changed s v [] (Done ((), s\<lparr>reps := (reps s)(a \<mapsto> ?r)\<rparr>))"
      by (rule changed_in_place [OF assms r(1) 2(2)])
         (use r(2) 2 in \<open>auto simp: repOk_def repText_def\<close>)
    ultimately show ?thesis by simp
  next
    case 3
    then have "a \<noteq> 0" using r(1) wf_zero [OF assms(1)] by (cases "a = 0") (auto simp: emptyRep_def)
    then have "memOk (s\<lparr>reps := dropRef (reps s) a, strs := (strs s)(v \<mapsto> 0)\<rparr>)"
      "texts (s\<lparr>reps := dropRef (reps s) a, strs := (strs s)(v \<mapsto> 0)\<rparr>) = (texts s)(v \<mapsto> [])"
      using wf_rebind [OF assms wf_zero [OF assms(1)]] by simp_all
    with 3 show ?thesis using assms(2) r(1) by (simp add: changed_def clearString_def run_simps)
  qed
qed

text \<open>\<open>copyOnWrite\<close> gives the string a representation of its own with the same text.\<close>

definition owned :: "memory \<Rightarrow> memory \<Rightarrow> nat \<Rightarrow> rep \<Rightarrow> nat \<Rightarrow> rep \<Rightarrow> bool" where
  "owned s s1 v r b q \<longleftrightarrow> memOk s1 \<and> texts s1 = texts s \<and> strs s1 v = Some b \<and> reps s1 b = Some q \<and> repOk q \<and>
     rrefs q = 1 \<and> rsize q = rsize r \<and> repText q = repText r \<and> (\<forall>u. u \<noteq> v \<longrightarrow> strs s1 u = strs s u)"

lemma ownedI:
  assumes "changed s v (repText r) (Done ((), s1))" and "texts s v = Some (repText r)" and "strs s1 v = Some b"
    and "reps s1 b = Some q" and "repOk q" and "rrefs q = 1" and "rsize q = rsize r" and "repText q = repText r"
    and "\<And>u. u \<noteq> v \<Longrightarrow> strs s1 u = strs s u"
  shows "owned s s1 v r b q"
proof -
  have "(texts s)(v \<mapsto> repText r) = texts s" using assms(2) by (auto simp: fun_eq_iff)
  then show ?thesis using assms by (auto simp: changed_def owned_def)
qed

lemma ownRep_spec:
  assumes "memOk s" and "strs s v = Some a" and "reps s a = Some r"
  shows "\<exists>s1 b q. ownRep v s = Done ((), s1) \<and> owned s s1 v r b q"
proof -
  obtain r2 where "reps s a = Some r2" "repOk r2" "texts s v = Some (repText r2)" "a < nextAddr s"
    using wf_rep [OF assms(1,2)] by metis
  then have ok: "repOk r" and t: "texts s v = Some (repText r)" and n: "a \<noteq> nextAddr s" using assms(3) by auto
  show ?thesis
  proof (cases "rrefs r = 1")
    case True
    then have "ownRep v s = Done ((), s)" using assms by (simp add: ownRep_def run_simps)
    moreover have "owned s s v r a r" using assms ok t True by (simp add: owned_def)
    ultimately show ?thesis by blast
  next
    case False
    let ?q = "\<lparr>rsize = rsize r, rcap = rsize r, rrefs = 1, rdata = repText r @ [0]\<rparr>"
    let ?s = "s\<lparr>reps := (dropRef (reps s) a)(nextAddr s \<mapsto> ?q), nextAddr := Suc (nextAddr s),
                strs := (strs s)(v \<mapsto> nextAddr s)\<rparr>"
    have len: "rsize r \<le> length (rdata r)" "rsize r \<le> 0x3FFFFFFF" using ok by (simp_all add: repOk_def)
    have "ownRep v s = Done ((), ?s)"
      using False assms n len by (simp add: ownRep_def copyOnWrite_def run_simps repText_def)
    moreover have q: "repOk ?q" "rrefs ?q = 1" "repText ?q = repText r"
      using len by (simp_all add: repOk_def repText_def nth_append)
    moreover have "owned s ?s v r (nextAddr s) ?q"
      by (rule ownedI [OF changed_replace [OF assms(1,2) q] t]) (use q in simp_all)
    ultimately show ?thesis by blast
  qed
qed

subsection \<open>The operations on one string\<close>

lemma changed_owned:
  assumes "owned s s1 v r b q" and "changed s1 v xs res"
  shows "changed s v xs res"
  using assms by (auto simp: changed_def owned_def)

lemma owned_in_place:
  assumes "owned s s1 v r b q" and "repOk q'" and "rrefs q' = 1" and "repText q' = xs"
  shows "changed s v xs (Done ((), s1\<lparr>reps := (reps s1)(b \<mapsto> q')\<rparr>))"
proof (rule changed_owned [OF assms(1)])
  show "changed s1 v xs (Done ((), s1\<lparr>reps := (reps s1)(b \<mapsto> q')\<rparr>))"
    by (rule changed_in_place [of s1 v b q]) (use assms in \<open>auto simp: owned_def\<close>)
qed

text \<open>What the last writes of the appending operations leave.\<close>

definition appended :: "rep \<Rightarrow> pstr \<Rightarrow> rep" where
  "appended q xs = q\<lparr>rsize := rsize q + length xs,
     rdata := repText q @ xs @ 0 # drop (rsize q + length xs + 1) (rdata q)\<rparr>"

lemma appended_ok:
  assumes "repOk q" and "rrefs q = 1" and "rsize q + length xs \<le> rcap q"
  shows "repOk (appended q xs)" "rrefs (appended q xs) = 1" "repText (appended q xs) = repText q @ xs"
proof -
  have "length (repText q) = rsize q" using assms(1) by (simp add: repOk_def repText_def)
  then show "repOk (appended q xs)" "rrefs (appended q xs) = 1" "repText (appended q xs) = repText q @ xs"
    using assms by (auto simp: appended_def repOk_def repText_def nth_append)
qed

lemma append_writes:
  assumes "reps s b = Some q" and "repOk q" and "rsize q + length xs \<le> rcap q" and "n = rsize q"
  shows "thenS (copyTo b n xs) (thenS (setSize b (n + length xs)) (copyTo b (n + length xs) [0])) s =
    Done ((), s\<lparr>reps := (reps s)(b \<mapsto> appended q xs)\<rparr>)"
proof -
  have "length (repText q) = rsize q" "rsize q + length xs + 1 \<le> length (rdata q)"
    using assms by (simp_all add: repOk_def repText_def)
  then show ?thesis
    using assms(1,4) by (simp add: run_simps appended_def repText_def take_append drop_append min_def)
qed

lemma reserveRep_spec:
  assumes "memOk s" and "strs s v = Some a" and "reps s a = Some r" and "rsize r \<le> unat cap"
  shows "(\<exists>s1 b q. reserveRep v cap s = Done ((), s1) \<and> owned s s1 v r b q \<and> unat cap \<le> rcap q \<and>
            (rrefs r \<noteq> 1 \<longrightarrow> (\<exists>p. reps s1 a = Some p \<and> rdata p = rdata r)) \<and>
            (rrefs r = 1 \<and> unat cap \<le> rcap r \<longrightarrow> s1 = s) \<and>
            (rrefs r = 1 \<and> rcap r < unat cap \<longrightarrow> reps s1 a = None)) \<or>
         (reserveRep v cap s = Throws (BadAlloc, s) \<and> 0x20000000 < unat cap)"
proof -
  obtain r2 where "reps s a = Some r2" "repOk r2" "texts s v = Some (repText r2)" "a < nextAddr s"
    using wf_rep [OF assms(1,2)] by metis
  then have ok: "repOk r" and t: "texts s v = Some (repText r)" and n: "a \<noteq> nextAddr s" using assms(3) by auto
  have len: "rsize r + 1 \<le> length (rdata r)" using ok by (simp add: repOk_def)
  show ?thesis
  proof (cases "unat cap > rcap r \<or> rrefs r \<noteq> 1")
    case False
    then have "reserveRep v cap s = Done ((), s)" using assms by (simp add: reserveRep_def run_simps)
    moreover have "owned s s v r a r" using assms ok t False by (simp add: owned_def)
    ultimately show ?thesis using False by (intro disjI1 exI [of _ s] exI [of _ a] exI [of _ r]) auto
  next
    case True
    show ?thesis
    proof (cases "unat cap \<le> 0x20000000")
      case small: False
      have "reserveRep v cap s = Throws (BadAlloc, s)"
      proof (cases "unat cap \<le> 0x3FFFFFFF")
        case False
        then have "roundUpToPow2 cap = Inl BadAlloc" by (simp add: roundUpToPow2_def capacityOverflow_def word_less_unat)
        with True show ?thesis using assms by (simp add: reserveRep_def run_simps)
      next
        case le: True
        obtain k where k: "unat cap \<le> 2 ^ Suc k" "k < 30" "roundUpToPow2 cap = Inr (2 ^ Suc k)"
          using roundUpToPow2_word [of cap] small le by auto
        have "k = 29"
        proof (rule ccontr)
          assume "k \<noteq> 29"
          then have "(2 :: nat) ^ Suc k \<le> 2 ^ 29" using k(2) by (intro power_increasing) simp_all
          then show False using k(1) small by simp
        qed
        with k(3) have "roundUpToPow2 cap = Inr 0x40000000" by simp
        with True show ?thesis using assms by (simp add: reserveRep_def run_simps)
      qed
      with small show ?thesis by simp
    next
      case small: True
      obtain m where m: "roundUpToPow2 cap = Inr m" "unat cap \<le> unat m" "unat m \<le> 0x20000000"
      proof (cases "unat cap < 8")
        case True
        then show ?thesis using that [of 8] by (simp add: roundUpToPow2_def capacityOverflow_def word_less_unat)
      next
        case False
        then obtain k where k: "k < 30" "2 ^ k < unat cap" "unat cap \<le> 2 ^ Suc k" "roundUpToPow2 cap = Inr (2 ^ Suc k)"
          using roundUpToPow2_word [of cap] small by auto
        have "k < 29"
        proof (rule ccontr)
          assume "\<not> k < 29"
          then have "(2 :: nat) ^ 29 \<le> 2 ^ k" by (intro power_increasing) simp_all
          then show False using k(2) small by simp
        qed
        then have "(2 :: nat) ^ Suc k \<le> 2 ^ 29" by (intro power_increasing) simp_all
        moreover have "unat (2 ^ Suc k :: u32) = 2 ^ Suc k"
        proof -
          have "(2 ^ Suc k :: u32) = of_nat (2 ^ Suc k)" by simp
          then show ?thesis
            using unat_of_nat_small [of "2 ^ Suc k", where ?'a = 32] \<open>(2 :: nat) ^ Suc k \<le> 2 ^ 29\<close> by simp
        qed
        ultimately show ?thesis using that [OF k(4)] k(3) by simp
      qed
      let ?q = "\<lparr>rsize = rsize r, rcap = unat m, rrefs = 1,
                 rdata = take (rsize r + 1) (rdata r) @ replicate (unat m - rsize r) (fresh s)\<rparr>"
      let ?s = "s\<lparr>reps := (dropRef (reps s) a)(nextAddr s \<mapsto> ?q), nextAddr := Suc (nextAddr s),
                  strs := (strs s)(v \<mapsto> nextAddr s)\<rparr>"
      have room: "rsize r + 1 \<le> unat m + 1" using m(2) assms(4) by simp
      have "reserveRep v cap s = Done ((), ?s)"
        using True assms(2,3) n len m room by (simp add: reserveRep_def run_simps)
      moreover have q: "repOk ?q" "rrefs ?q = 1" "repText ?q = repText r"
        using len ok m room by (simp_all add: repOk_def repText_def nth_append)
      moreover have "owned s ?s v r (nextAddr s) ?q"
        by (rule ownedI [OF changed_replace [OF assms(1,2) q] t]) (use q in simp_all)
      moreover have "\<exists>p. reps ?s a = Some p \<and> rdata p = rdata r" if "rrefs r \<noteq> 1"
      proof (cases "a = 0")
        case False
        then have "rrefs r \<noteq> 0"
          using wf_count [OF assms(1) False assms(3)] wf_owned [OF assms(1) False assms(3)]
            finite_owners [OF assms(1), of a] by simp
        then show ?thesis using that n assms(3) False by (auto simp: dropRef_def)
      qed (use n assms(3) in \<open>simp add: dropRef_def\<close>)
      moreover have "reps ?s a = None" if "rrefs r = 1"
      proof -
        have "a \<noteq> 0" using that assms(3) wf_zero [OF assms(1)] by (cases "a = 0") (auto simp: emptyRep_def)
        then show ?thesis using that n assms(3) by (simp add: dropRef_def)
      qed
      ultimately show ?thesis
        using m(2) True by (intro disjI1 exI [of _ ?s] exI [of _ "nextAddr s"] exI [of _ ?q] conjI) auto
    qed
  qed
qed

lemma thenS_Done: "m s = Done (x, s1) \<Longrightarrow> thenS m f s = f s1"
  by (simp add: thenS_def bindS_def)

lemma thenS_Throws: "m s = Throws e \<Longrightarrow> thenS m f s = Throws e"
  by (simp add: thenS_def bindS_def)

lemma bind_repOf: "strs s v = Some a \<Longrightarrow> bindS (repOf v) f s = f a s"
  by (simp add: bindS_def repOf_def)

lemma bind_load: "reps s a = Some r \<Longrightarrow> bindS (load a) f s = f r s"
  by (simp add: bindS_def load_def)

lemma bind_readFrom:
  "reps s a = Some r \<Longrightarrow> off + n \<le> length (rdata r) \<Longrightarrow>
   bindS (readFrom a off n) f s = f (take n (drop off (rdata r))) s"
  by (simp add: bindS_def readFrom_def load_def)

text \<open>Either the text changes, or memory is exhausted and nothing does.\<close>

definition changed_or_full :: "nat \<Rightarrow> memory \<Rightarrow> nat \<Rightarrow> pstr \<Rightarrow> (stringError \<times> memory, unit \<times> memory) outcome \<Rightarrow> bool" where
  "changed_or_full d s v xs res \<longleftrightarrow> changed s v xs res \<or> 0x20000000 < d \<and> failed s BadAlloc (texts s) res"

lemma full: "memOk s \<Longrightarrow> 0x20000000 < d \<Longrightarrow> res = Throws (BadAlloc, s) \<Longrightarrow> changed_or_full d s v xs res"
  by (simp add: changed_or_full_def failed_def)

lemma reserveCapacity_spec:
  assumes "memOk s" and "strs s v = Some a" and "reps s a = Some r" and "rsize r \<le> unat cap \<or> rrefs r = 1"
  shows "changed_or_full (unat cap) s v (repText r) (reserveCapacity v cap s)"
proof (cases "rsize r \<le> unat cap")
  case True
  from reserveRep_spec [OF assms(1-3) True] show ?thesis
  proof (elim disjE exE conjE)
    fix s1 b q assume "reserveRep v cap s = Done ((), s1)" "owned s s1 v r b q"
    moreover have "texts s v = Some (repText r)" using assms(2,3) by (simp add: texts_def)
    ultimately show ?thesis
      by (auto simp: changed_or_full_def changed_def reserveCapacity_def owned_def fun_eq_iff)
  qed (use full [OF assms(1)] in \<open>simp add: reserveCapacity_def\<close>)
next
  case False
  have "repOk r" using wf_ok [OF assms(1,3)] .
  then have "reserveCapacity v cap s = Done ((), s)"
    using False assms by (simp add: reserveCapacity_def reserveRep_def run_simps repOk_def)
  moreover have "(texts s)(v \<mapsto> repText r) = texts s" using assms(2,3) by (auto simp: texts_def fun_eq_iff)
  ultimately show ?thesis using assms(1) by (simp add: changed_or_full_def changed_def)
qed

lemma cap_no_wrap: "n < 2 ^ 32 \<Longrightarrow> unat (of_nat n :: u32) = n"
  by (rule unat_of_nat_small) simp

lemma appendUnits_spec:
  assumes "memOk s" and "strs s v = Some a" and "reps s a = Some r" and "rsize r + length xs < 2 ^ 32"
  shows "changed_or_full (rsize r + length xs) s v (repText r @ xs) (appendUnits v xs s)"
proof -
  let ?cap = "of_nat (rsize r + length xs) :: u32"
  have cap: "unat ?cap = rsize r + length xs" by (rule cap_no_wrap [OF assms(4)])
  have start: "appendUnits v xs s = thenS (reserveRep v ?cap)
      (bindS (repOf v) (\<lambda>b. thenS (copyTo b (rsize r) xs)
        (thenS (setSize b (rsize r + length xs)) (copyTo b (rsize r + length xs) [0])))) s"
    by (simp only: appendUnits_def bind_repOf [OF assms(2)] bind_load [OF assms(3)])
  have "rsize r \<le> unat ?cap" using cap by simp
  from reserveRep_spec [OF assms(1-3) this] show ?thesis
  proof (elim disjE exE conjE)
    fix s1 b q assume finished: "reserveRep v ?cap s = Done ((), s1)" and o: "owned s s1 v r b q" and c: "unat ?cap \<le> rcap q"
    have q: "strs s1 v = Some b" "reps s1 b = Some q" "repOk q" "rrefs q = 1" "rsize r = rsize q" "repText q = repText r"
      using o by (auto simp: owned_def)
    have fits: "rsize q + length xs \<le> rcap q" using c cap q(5) by simp
    have "appendUnits v xs s = Done ((), s1\<lparr>reps := (reps s1)(b \<mapsto> appended q xs)\<rparr>)"
      unfolding start thenS_Done [of "reserveRep v ?cap", OF finished] bind_repOf [OF q(1)]
      by (rule append_writes [OF q(2,3) fits q(5)])
    moreover have "changed s v (repText r @ xs) (Done ((), s1\<lparr>reps := (reps s1)(b \<mapsto> appended q xs)\<rparr>))"
      by (rule owned_in_place [OF o]) (use appended_ok [OF q(3,4) fits] q(6) in simp_all)
    ultimately show ?thesis by (simp add: changed_or_full_def)
  next
    assume "reserveRep v ?cap s = Throws (BadAlloc, s)" and "0x20000000 < unat ?cap"
    then show ?thesis unfolding start cap by (intro full [OF assms(1)]) (simp_all add: thenS_Throws)
  qed
qed

lemma appendString_spec:
  assumes "memOk s" and "strs s v = Some a" and "reps s a = Some r" and "strs s w = Some c" and "reps s c = Some p"
    and "v = w \<Longrightarrow> rrefs r = 1 \<Longrightarrow> rsize r + rsize r \<le> rcap r"
  shows "changed_or_full (rsize r + rsize p) s v (repText r @ repText p) (appendString v w s)"
proof -
  let ?n = "rsize p"
  let ?cap = "of_nat (rsize r + ?n) :: u32"
  have "rsize r + ?n < 2 ^ 32" using wf_ok [OF assms(1,3)] wf_ok [OF assms(1,5)] by (simp add: repOk_def)
  then have cap: "unat ?cap = rsize r + ?n" by (rule cap_no_wrap)
  have start: "appendString v w s = thenS (reserveRep v ?cap)
      (bindS (repOf v) (\<lambda>b. bindS (readFrom c 0 ?n) (\<lambda>xs. thenS (copyTo b (rsize r) xs)
        (thenS (setSize b (rsize r + ?n)) (copyTo b (rsize r + ?n) [0]))))) s"
    by (simp only: appendString_def bind_repOf [OF assms(2)] bind_repOf [OF assms(4)] bind_load [OF assms(3)] bind_load [OF assms(5)])
  have "rsize r \<le> unat ?cap" using cap by simp
  from reserveRep_spec [OF assms(1-3) this] show ?thesis
  proof (elim disjE exE conjE)
    fix s1 b q assume finished: "reserveRep v ?cap s = Done ((), s1)" and o: "owned s s1 v r b q" and k: "unat ?cap \<le> rcap q"
      and shared: "rrefs r \<noteq> 1 \<longrightarrow> (\<exists>p. reps s1 a = Some p \<and> rdata p = rdata r)"
      and same: "rrefs r = 1 \<and> unat ?cap \<le> rcap r \<longrightarrow> s1 = s"
    have q: "strs s1 v = Some b" "reps s1 b = Some q" "repOk q" "rrefs q = 1" "rsize r = rsize q" "repText q = repText r"
      and ok1: "memOk s1" and t1: "texts s1 = texts s" and other: "\<And>u. u \<noteq> v \<Longrightarrow> strs s1 u = strs s u"
      using o by (auto simp: owned_def)
    have fits: "rsize q + ?n \<le> rcap q" using k cap q(5) by simp
    obtain p' where p': "reps s1 c = Some p'" "?n \<le> length (rdata p')" "take ?n (rdata p') = repText p"
    proof (cases "v = w")
      case True
      then have c: "c = a" "p = r" using assms(2-5) by auto
      have "?n \<le> length (rdata r)" using wf_ok [OF assms(1,3)] c by (simp add: repOk_def)
      moreover have "\<exists>p'. reps s1 a = Some p' \<and> rdata p' = rdata r"
      proof (cases "rrefs r = 1")
        case one: True
        then have "s1 = s" using same assms(6) [OF True one] cap c by simp
        then show ?thesis using assms(3) by simp
      qed (use shared in blast)
      ultimately show ?thesis using that c by (auto simp: repText_def)
    next
      case False
      then have w: "strs s1 w = Some c" using other assms(4) by simp
      obtain p' where "reps s1 c = Some p'" using wf_live [OF ok1 w] by blast
      moreover have "repText p' = repText p"
        using w assms(4,5) fun_cong [OF t1, of w] calculation by (simp add: texts_def)
      moreover have "length (repText p) = ?n" using wf_ok [OF assms(1,5)] by (simp add: repText_def repOk_def)
      moreover have "length (repText p') = rsize p'" "rsize p' \<le> length (rdata p')"
        using wf_ok [OF ok1, of c p'] calculation(1) by (simp_all add: repText_def repOk_def)
      ultimately show ?thesis using that [of p'] by (simp add: repText_def)
    qed
    have len: "length (repText p) = ?n" using wf_ok [OF assms(1,5)] by (simp add: repText_def repOk_def)
    have rd: "bindS (readFrom c 0 ?n) f s1 = f (repText p) s1" for f :: "pstr \<Rightarrow> unit prog"
      using bind_readFrom [OF p'(1), of 0 ?n f] p'(2,3) by simp
    have "appendString v w s = Done ((), s1\<lparr>reps := (reps s1)(b \<mapsto> appended q (repText p))\<rparr>)"
      unfolding start thenS_Done [of "reserveRep v ?cap", OF finished] bind_repOf [OF q(1)] rd
      using append_writes [OF q(2,3) _ q(5), of "repText p"] fits len by simp
    moreover have "changed s v (repText r @ repText p) (Done ((), s1\<lparr>reps := (reps s1)(b \<mapsto> appended q (repText p))\<rparr>))"
      by (rule owned_in_place [OF o]) (use appended_ok [OF q(3,4), of "repText p"] fits len q(6) in simp_all)
    ultimately show ?thesis by (simp add: changed_or_full_def)
  next
    assume "reserveRep v ?cap s = Throws (BadAlloc, s)" and "0x20000000 < unat ?cap"
    then show ?thesis unfolding start cap by (intro full [OF assms(1)]) (simp_all add: thenS_Throws)
  qed
qed

lemma failed_cleared:
  assumes "memOk s" and "strs s v = Some a" and "owned s s1 v r b q"
  shows "failed s e ((texts s)(v \<mapsto> [])) (thenS (free b) (thenS (setRep v 0) (throwS e)) s1)"
proof -
  have q: "memOk s1" "texts s1 = texts s" "strs s1 v = Some b" "reps s1 b = Some q" "rrefs q = 1"
    using assms(3) by (auto simp: owned_def)
  obtain q' where "reps s1 b = Some q'" "rrefs q' = 1 \<Longrightarrow> b \<noteq> 0" using wf_rep [OF q(1,3)] by metis
  then have b: "b \<noteq> 0" using q by simp
  have "(reps s1)(b := None) = dropRef (reps s1) b" using q b by (simp add: dropRef_def)
  moreover have "memOk (s1\<lparr>reps := dropRef (reps s1) b, strs := (strs s1)(v \<mapsto> 0)\<rparr>)"
    "texts (s1\<lparr>reps := dropRef (reps s1) b, strs := (strs s1)(v \<mapsto> 0)\<rparr>) = (texts s1)(v \<mapsto> [])"
    using wf_rebind [OF q(1,3) wf_zero [OF q(1)] b] by simp_all
  ultimately show ?thesis
    using q b by (simp add: failed_def free_def run_simps)
qed

definition utf8_spec :: "nat \<Rightarrow> memory \<Rightarrow> nat \<Rightarrow> pstr \<Rightarrow> cstr \<Rightarrow> (stringError \<times> memory, unit \<times> memory) outcome \<Rightarrow> bool" where
  "utf8_spec d s v pre str res \<longleftrightarrow>
    (case copyFromUTF8 str of
       Inr xs \<Rightarrow> changed_or_full d s v (pre @ xs) res
     | Inl i \<Rightarrow> failed s (BadUTF8 i) ((texts s)(v \<mapsto> [])) res \<or> 0x20000000 < d \<and> failed s BadAlloc (texts s) res)"

lemma appendUtf8_spec:
  assumes "memOk s" and "strs s v = Some a" and "reps s a = Some r" and "rsize r + length str < 2 ^ 32"
    and fits8: "\<And>xs. copyFromUTF8 str = Inr xs \<Longrightarrow> length xs \<le> length str"
  shows "utf8_spec (rsize r + length str) s v (repText r) str (appendUtf8 v str s)"
proof -
  let ?cap = "of_nat (rsize r + length str) :: u32"
  have cap: "unat ?cap = rsize r + length str" by (rule cap_no_wrap [OF assms(4)])
  have start: "appendUtf8 v str s = thenS (reserveRep v ?cap)
      (bindS (repOf v) (\<lambda>b. case copyFromUTF8 str of
          Inl i \<Rightarrow> thenS (free b) (thenS (setRep v 0) (throwS (BadUTF8 i)))
        | Inr xs \<Rightarrow> thenS (copyTo b (rsize r) xs)
            (thenS (setSize b (rsize r + length xs)) (copyTo b (rsize r + length xs) [0])))) s"
    by (simp only: appendUtf8_def bind_repOf [OF assms(2)] bind_load [OF assms(3)])
  have "rsize r \<le> unat ?cap" using cap by simp
  from reserveRep_spec [OF assms(1-3) this] show ?thesis
  proof (elim disjE exE conjE)
    fix s1 b q assume finished: "reserveRep v ?cap s = Done ((), s1)" and o: "owned s s1 v r b q" and c: "unat ?cap \<le> rcap q"
    have q: "strs s1 v = Some b" "reps s1 b = Some q" "repOk q" "rrefs q = 1" "rsize r = rsize q" "repText q = repText r"
      using o by (auto simp: owned_def)
    note run = start [unfolded thenS_Done [of "reserveRep v ?cap", OF finished] bind_repOf [OF q(1)]]
    show ?thesis
    proof (cases "copyFromUTF8 str")
      case (Inl i)
      then show ?thesis using failed_cleared [OF assms(1,2) o, of "BadUTF8 i"] run by (simp add: utf8_spec_def)
    next
      case (Inr xs)
      then have fits: "rsize q + length xs \<le> rcap q" using c cap q(5) fits8 [OF Inr] by simp
      have "appendUtf8 v str s = Done ((), s1\<lparr>reps := (reps s1)(b \<mapsto> appended q xs)\<rparr>)"
        unfolding run using append_writes [OF q(2,3) fits q(5)] Inr by simp
      moreover have "changed s v (repText r @ xs) (Done ((), s1\<lparr>reps := (reps s1)(b \<mapsto> appended q xs)\<rparr>))"
        by (rule owned_in_place [OF o]) (use appended_ok [OF q(3,4) fits] q(6) in simp_all)
      ultimately show ?thesis using Inr by (simp add: utf8_spec_def changed_or_full_def)
    qed
  next
    assume "reserveRep v ?cap s = Throws (BadAlloc, s)" and big: "0x20000000 < unat ?cap"
    then have "appendUtf8 v str s = Throws (BadAlloc, s)" unfolding start by (simp add: thenS_Throws)
    then show ?thesis using full [OF assms(1)] assms(1) big cap by (auto simp: utf8_spec_def failed_def split: sum.splits)
  qed
qed

lemma appendChar_spec:
  assumes "memOk s" and "strs s v = Some a" and "reps s a = Some r"
  shows "changed_or_full (2 * rcap r) s v (repText r @ [c]) (appendChar v c s)"
proof -
  have ok: "repOk r" using wf_ok [OF assms(1,3)] .
  have t: "texts s v = Some (repText r)" using assms(2,3) by (simp add: texts_def)
  have n: "a \<noteq> nextAddr s" using wf_below [OF assms(1,3)] by simp
  have start: "appendChar v c s = thenS (if rsize r = rcap r \<or> rrefs r \<noteq> 1 then appendCharAux v else retS ())
      (bindS (repOf v) (\<lambda>b. bindS (load b) (\<lambda>q. thenS (copyTo b (rsize q) [c])
        (thenS (setSize b (rsize q + 1)) (copyTo b (rsize q + 1) [0]))))) s"
    by (simp only: appendChar_def bind_repOf [OF assms(2)] bind_load [OF assms(3)])
  have finish: "changed s v (repText r @ [c]) (appendChar v c s)"
    if finished: "(if rsize r = rcap r \<or> rrefs r \<noteq> 1 then appendCharAux v else retS ()) s = Done ((), s1)"
      and b: "strs s1 v = Some b" "reps s1 b = Some q" and len: "rsize q + 1 \<le> rcap q" "length (rdata q) = rcap q + 1"
      and upd: "\<And>q'. repOk q' \<Longrightarrow> rrefs q' = 1 \<Longrightarrow> repText q' = repText r @ [c] \<Longrightarrow>
        changed s v (repText r @ [c]) (Done ((), s1\<lparr>reps := (reps s1)(b \<mapsto> q')\<rparr>))"
      and q: "rrefs q = 1" "rcap q \<le> 0x3FFFFFFF" "take (rsize q) (rdata q) = repText r" "rsize q = rsize r"
    for s1 b q
  proof -
    let ?q = "q\<lparr>rsize := rsize q + 1, rdata := repText r @ [c, 0] @ drop (rsize q + 2) (rdata q)\<rparr>"
    have l: "length (repText r) = rsize q" using q(3) len by (metis length_take min.absorb2 Suc_eq_plus1 le_SucI add_leD1 le_add1 le_trans)
    have "appendChar v c s = Done ((), s1\<lparr>reps := (reps s1)(b \<mapsto> ?q)\<rparr>)"
      unfolding start thenS_Done [of "if rsize r = rcap r \<or> rrefs r \<noteq> 1 then appendCharAux v else retS ()", OF finished]
        bind_repOf [OF b(1)] bind_load [OF b(2)]
      using b(2) len q(3) l by (simp add: run_simps take_append drop_append)
    then show ?thesis using upd [of ?q] len q l by (simp add: repOk_def repText_def nth_append)
  qed
  show ?thesis
  proof (cases "rsize r = rcap r \<or> rrefs r \<noteq> 1")
    case False
    have "changed s v (repText r @ [c]) (appendChar v c s)"
      by (rule finish [of s a r])
         (use False ok assms changed_in_place [OF assms(1-3)] in \<open>auto simp: retS_def repOk_def repText_def\<close>)
    then show ?thesis by (simp add: changed_or_full_def)
  next
    case True
    show ?thesis
    proof (cases "rcap r \<noteq> 0 \<and> 2 * rcap r > 0x3FFFFFFF")
      case big: True
      then have "appendCharAux v s = Throws (BadAlloc, s)" using assms by (simp add: appendCharAux_def run_simps)
      then show ?thesis unfolding start using True
        by (intro full [OF assms(1)]) (use big in \<open>simp_all add: thenS_Throws\<close>)
    next
      case False
      let ?cap = "if rcap r \<noteq> 0 then 2 * rcap r else 8"
      let ?q = "\<lparr>rsize = rsize r, rcap = ?cap, rrefs = 1,
                 rdata = repText r @ drop (rsize r) (replicate (?cap + 1) (fresh s))\<rparr>"
      let ?s = "s\<lparr>reps := (dropRef (reps s) a)(nextAddr s \<mapsto> ?q), nextAddr := Suc (nextAddr s),
                  strs := (strs s)(v \<mapsto> nextAddr s)\<rparr>"
      have len: "length (repText r) = rsize r" "rsize r \<le> length (rdata r)" "rsize r \<le> rcap r"
        using ok by (simp_all add: repOk_def repText_def)
      have finished: "appendCharAux v s = Done ((), ?s)"
      proof (cases "rcap r = 0")
        case True
        with len have "rsize r = 0" "repText r = []" by simp_all
        with True show ?thesis using assms n by (simp add: appendCharAux_def run_simps)
      qed (use False assms n len in \<open>simp add: appendCharAux_def run_simps repText_def\<close>)
      have "changed s v (repText r @ [c]) (appendChar v c s)"
      proof (rule finish [of ?s "nextAddr s" ?q])
        fix q' assume q': "repOk q'" "rrefs q' = 1" "repText q' = repText r @ [c]"
        show "changed s v (repText r @ [c]) (Done ((), ?s\<lparr>reps := (reps ?s)(nextAddr s \<mapsto> q')\<rparr>))"
          using changed_replace [OF assms(1,2) q'] by (simp add: update_order)
      qed (use True finished len False in auto)
      then show ?thesis by (simp add: changed_or_full_def)
    qed
  qed
qed

lemma setChar_spec:
  assumes "memOk s" and "strs s v = Some a" and "reps s a = Some r" and "unat i \<noteq> rsize r"
  shows "if unat i < rsize r then changed s v ((repText r)[unat i := c]) (setChar v i c s)
         else failed s IndexOutOfBounds (texts s) (setChar v i c s)"
proof (cases "unat i < rsize r")
  case True
  obtain s1 b q where o: "ownRep v s = Done ((), s1)" "owned s s1 v r b q" using ownRep_spec [OF assms(1-3)] by blast
  then have q: "strs s1 v = Some b" "reps s1 b = Some q" "repOk q" "rrefs q = 1" "rsize r = rsize q" "repText q = repText r"
    by (auto simp: owned_def)
  let ?q = "q\<lparr>rdata := (rdata q)[unat i := c]\<rparr>"
  have "unat i < length (rdata q)" using True q by (simp add: repOk_def)
  moreover have "setChar v i c s = thenS (ownRep v) (bindS (repOf v) (\<lambda>b. copyTo b (unat i) [c])) s"
    using True by (simp only: setChar_def bind_repOf [OF assms(2)] bind_load [OF assms(3)]) simp
  ultimately have "setChar v i c s = Done ((), s1\<lparr>reps := (reps s1)(b \<mapsto> ?q)\<rparr>)"
    using q(1,2) o(1) by (simp add: run_simps upd_conv_take_nth_drop)
  moreover have "repOk ?q" "rrefs ?q = 1" "repText ?q = (repText r)[unat i := c]"
    using q True by (auto simp: repOk_def repText_def take_update_swap)
  ultimately show ?thesis using owned_in_place [OF o(2)] True by simp
next
  case False
  with assms have "setChar v i c s = Throws (IndexOutOfBounds, s)" by (simp add: setChar_def run_simps)
  with False assms(1) show ?thesis by (simp add: failed_def)
qed

lemma mapUnits_spec:
  assumes "memOk s" and "strs s v = Some a" and "reps s a = Some r" and "length (f (repText r)) = length (repText r)"
  shows "changed s v (f (repText r)) (mapUnits f v s)"
proof -
  obtain s1 b q where o: "ownRep v s = Done ((), s1)" "owned s s1 v r b q" using ownRep_spec [OF assms(1-3)] by blast
  then have q: "strs s1 v = Some b" "reps s1 b = Some q" "repOk q" "rrefs q = 1" "rsize r = rsize q" "repText q = repText r"
    by (auto simp: owned_def)
  let ?q = "q\<lparr>rdata := f (repText r) @ drop (rsize q) (rdata q)\<rparr>"
  have len: "length (f (repText r)) = rsize q" "rsize q \<le> length (rdata q)" "rsize q < length (rdata q)"
    using assms(4) q wf_ok [OF assms(1,3)] by (simp_all add: repOk_def repText_def)
  have "mapUnits f v s = Done ((), s1\<lparr>reps := (reps s1)(b \<mapsto> ?q)\<rparr>)"
    using q(1,2,6) len o(1) by (simp add: mapUnits_def run_simps repText_def)
  moreover have "repOk ?q" "rrefs ?q = 1" "repText ?q = f (repText r)"
    using q len by (auto simp: repOk_def repText_def nth_append)
  ultimately show ?thesis using owned_in_place [OF o(2)] by simp
qed

lemma subString_spec:
  assumes "memOk s" and "strs s v = None" and "strs s w = Some a" and "reps s a = Some r"
  shows "changed s v (take (if n = notFound then rsize r else unat n) (drop (unat index) (repText r))) (subString v w index n s)"
proof (cases "unat index < rsize r")
  case False
  have "length (repText r) = rsize r" using wf_ok [OF assms(1,4)] by (simp add: repOk_def repText_def)
  moreover have "subString v w index n s = emptyString v s"
    using False assms(3,4) by (simp add: subString_def bind_repOf bind_load)
  ultimately show ?thesis using False emptyString_spec [OF assms(1,2)] by simp
next
  case True
  let ?n = "if n = notFound \<or> unat n > rsize r - unat index then rsize r - unat index else unat n"
  have len: "rsize r \<le> length (rdata r)" "rsize r \<le> 0x3FFFFFFF" using wf_ok [OF assms(1,4)] by (simp_all add: repOk_def)
  have fits: "unat index + ?n \<le> length (rdata r)" using True len by auto
  have "subString v w index n s = newFromUnits v (take ?n (drop (unat index) (rdata r))) s"
    unfolding subString_def bind_repOf [OF assms(3)] bind_load [OF assms(4)] if_P [OF True] Let_def
    by (rule bind_readFrom [OF assms(4) fits])
  moreover have "take ?n (drop (unat index) (rdata r)) =
      take (if n = notFound then rsize r else unat n) (drop (unat index) (repText r))"
    using True len by (cases "unat index = 0") (auto simp: repText_def drop_take min_def)
  moreover have "length (take ?n (drop (unat index) (rdata r))) \<le> 0x3FFFFFFF" using len True by auto
  ultimately show ?thesis using newFromUnits_spec [OF assms(1,2)] by simp
qed

lemma concatStrings_spec:
  assumes "memOk s" and "strs s v = None" and "strs s w1 = Some a1" and "reps s a1 = Some r1"
    and "strs s w2 = Some a2" and "reps s a2 = Some r2"
  shows "changed_or_full (rsize r1 + rsize r2) s v (repText r1 @ repText r2) (concatStrings v w1 w2 s)"
proof -
  have l: "rsize r1 \<le> length (rdata r1)" "rsize r2 \<le> length (rdata r2)"
    using wf_ok [OF assms(1,4)] wf_ok [OF assms(1,6)] by (simp_all add: repOk_def)
  have n: "a1 \<noteq> nextAddr s" "a2 \<noteq> nextAddr s" using wf_below [OF assms(1,4)] wf_below [OF assms(1,6)] by simp_all
  show ?thesis
  proof (cases "rsize r1 + rsize r2 > 0x3FFFFFFF")
    case True
    then have "concatStrings v w1 w2 s = Throws (BadAlloc, s)" using assms by (simp add: concatStrings_def run_simps)
    with True show ?thesis by (intro full [OF assms(1)]) simp_all
  next
    case False
    let ?r = "\<lparr>rsize = rsize r1 + rsize r2, rcap = rsize r1 + rsize r2, rrefs = 1, rdata = repText r1 @ repText r2 @ [0]\<rparr>"
    have "concatStrings v w1 w2 s = Done ((), s\<lparr>reps := (reps s)(nextAddr s \<mapsto> ?r), nextAddr := Suc (nextAddr s),
        strs := (strs s)(v \<mapsto> nextAddr s)\<rparr>)"
      using False assms l n by (simp add: concatStrings_def run_simps repText_def take_append drop_append)
    moreover have "repOk ?r" "rrefs ?r = 1" "repText ?r = repText r1 @ repText r2"
      using False l by (simp_all add: repOk_def repText_def nth_append)
    ultimately show ?thesis using changed_new [OF assms(1,2)] by (simp add: changed_or_full_def)
  qed
qed

lemma remove_writes:
  assumes "reps s b = Some q" and "repOk q" and "i + m \<le> rsize q"
  shows "thenS (if rsize q - (i + m) \<noteq> 0
                then bindS (readFrom b (i + m) (rsize q - (i + m))) (\<lambda>xs. copyTo b i xs) else retS ())
          (thenS (setSize b (rsize q - m)) (copyTo b (rsize q - m) [0])) s =
    Done ((), s\<lparr>reps := (reps s)(b \<mapsto> q\<lparr>rsize := rsize q - m,
      rdata := take i (repText q) @ drop (i + m) (repText q) @ 0 # drop (rsize q - m + 1) (rdata q)\<rparr>)\<rparr>)"
proof -
  have l: "rsize q + 1 \<le> length (rdata q)" using assms(2) by (simp add: repOk_def)
  show ?thesis
  proof (cases "rsize q = i + m")
    case True
    then show ?thesis using assms(1) l by (simp add: run_simps repText_def min_def)
  next
    case False
    then have "i + (rsize q - (i + m)) = rsize q - m" using assms(3) by simp
    with False show ?thesis
      using assms l by (simp add: run_simps repText_def min_def drop_take add.commute [of m i])
  qed
qed

lemma remove_ok:
  assumes "repOk q" and "i + m \<le> rsize q"
  defines "q' \<equiv> q\<lparr>rsize := rsize q - m, rdata := take i (repText q) @ drop (i + m) (repText q) @
                0 # drop (rsize q - m + 1) (rdata q)\<rparr>"
  shows "repOk q'" and "repText q' = take i (repText q) @ drop (i + m) (repText q)"
proof -
  have "length (take i (repText q) @ drop (i + m) (repText q)) = rsize q - m"
    using assms(1,2) by (simp add: repOk_def repText_def)
  then show "repOk q'" "repText q' = take i (repText q) @ drop (i + m) (repText q)"
    using assms(1,2) by (auto simp: q'_def repOk_def repText_def nth_append take_append)
qed

lemma removeUnits_spec:
  assumes "memOk s" and "strs s v = Some a" and "reps s a = Some r"
    and n: "m = (if n = notFound then rsize r - unat index else unat n)"
    and ok: "if n = notFound then unat index \<le> rsize r else unat index + unat n < 2 ^ 32"
  shows "if unat index + m \<le> rsize r
         then changed s v (take (unat index) (repText r) @ drop (unat index + m) (repText r)) (removeUnits v index n s)
         else failed s IndexOutOfBounds (texts s) (removeUnits v index n s)"
proof -
  let ?n = "if n = notFound then ucast ((of_nat (rsize r) :: u64) - ucast index) else n"
  have small: "rsize r \<le> 0x3FFFFFFF" using wf_ok [OF assms(1,3)] by (simp add: repOk_def)
  have s64: "unat (of_nat (rsize r) :: u64) = rsize r" by (rule unat_of_nat_small) (use small in simp)
  have i64: "unat (ucast index :: u64) = unat index" by (rule unat_ucast_up) simp
  have un: "unat ?n = m"
  proof (cases "n = notFound")
    case True
    then have "unat ((of_nat (rsize r) :: u64) - ucast index) = rsize r - unat index"
      using ok s64 i64 by (simp add: unat_sub_if')
    then show ?thesis using True small n by (simp add: unsigned_ucast_eq take_bit_nat_eq_self)
  qed (use n in simp)
  have sum: "unat (index + ?n) = unat index + m"
  proof -
    have "unat index + unat ?n < 2 ^ 32" unfolding un using ok n small by (auto split: if_splits)
    then show ?thesis using un by (subst unat_add_no_wrap) simp_all
  qed
  show ?thesis
  proof (cases "unat index + m \<le> rsize r")
    case False
    have "removeUnits v index n s = Throws (IndexOutOfBounds, s)"
      using False sum unfolding removeUnits_def bind_repOf [OF assms(2)] bind_load [OF assms(3)] Let_def
      by (simp add: throwS_def)
    with False assms(1) show ?thesis by (simp add: failed_def)
  next
    case True
    have m64: "unat (ucast ?n :: u64) = m" using un by (simp add: unat_ucast_up)
    have new: "unat ((of_nat (rsize r) :: u64) - ucast ?n) = rsize r - m"
      using True s64 m64 by (simp add: unat_sub_if')
    obtain s1 b q where o: "ownRep v s = Done ((), s1)" "owned s s1 v r b q" using ownRep_spec [OF assms(1-3)] by blast
    then have q: "strs s1 v = Some b" "reps s1 b = Some q" "repOk q" "rrefs q = 1" "rsize r = rsize q" "repText q = repText r"
      by (auto simp: owned_def)
    let ?q = "q\<lparr>rsize := rsize q - m, rdata := take (unat index) (repText q) @ drop (unat index + m) (repText q) @
                0 # drop (rsize q - m + 1) (rdata q)\<rparr>"
    have le: "unat index + m \<le> rsize q" using True q(5) by simp
    have "removeUnits v index n s = Done ((), s1\<lparr>reps := (reps s1)(b \<mapsto> ?q)\<rparr>)"
      unfolding removeUnits_def bind_repOf [OF assms(2)] bind_load [OF assms(3)] Let_def
      unfolding sum new un
      unfolding if_not_P [OF True [unfolded not_less [symmetric]]] thenS_Done [of "ownRep v", OF o(1)] bind_repOf [OF q(1)]
      unfolding q(5)
      by (rule remove_writes [OF q(2,3) le])
    moreover have "repOk ?q" "rrefs ?q = 1"
      "repText ?q = take (unat index) (repText r) @ drop (unat index + m) (repText r)"
      using remove_ok [OF q(3) le] q(4,6) by simp_all
    ultimately show ?thesis using owned_in_place [OF o(2)] True by simp
  qed
qed

lemma makeRoom_cases:
  assumes "memOk s" and "strs s v = Some a" and "reps s a = Some r" and "n \<le> 0x3FFFFFFF"
  shows "(makeRoom v n s = Done ((), s) \<and> n \<le> rcap r \<and> rrefs r = 1) \<or>
         (\<exists>x. makeRoom v n s = Done ((), s\<lparr>reps := (dropRef (reps s) a)(nextAddr s \<mapsto>
             \<lparr>rsize = x, rcap = n, rrefs = 1, rdata = replicate (n + 1) (fresh s)\<rparr>),
           nextAddr := Suc (nextAddr s), strs := (strs s)(v \<mapsto> nextAddr s)\<rparr>))"
  using assms wf_below [OF assms(1,3)] by (cases "n > rcap r \<or> rrefs r \<noteq> 1") (auto simp: makeRoom_def run_simps)

text \<open>The three writes of \<open>assign\<close> into a buffer of its own.\<close>

lemma assign_writes:
  assumes "reps s b = Some q" and "length xs < length (rdata q)"
  shows "thenS (setSize b (length xs)) (thenS (copyTo b 0 xs) (copyTo b (length xs) [0])) s =
    Done ((), s\<lparr>reps := (reps s)(b \<mapsto> q\<lparr>rsize := length xs, rdata := xs @ 0 # drop (length xs + 1) (rdata q)\<rparr>)\<rparr>)"
  using assms by (simp add: run_simps)

lemma assign_done:
  assumes "memOk s" and "strs s v = Some a" and "reps s a = Some r"
    and room: "makeRoom v n s = Done ((), s1)" and n: "n \<le> 0x3FFFFFFF" "length xs \<le> n"
  shows "\<exists>b. strs s1 v = Some b \<and>
    changed s v xs (thenS (setSize b (length xs)) (thenS (copyTo b 0 xs) (copyTo b (length xs) [0])) s1)"
  using makeRoom_cases [OF assms(1-3) n(1)]
proof (elim disjE conjE exE)
  assume "makeRoom v n s = Done ((), s)" and own: "n \<le> rcap r" "rrefs r = 1"
  with room have s1: "s1 = s" by simp
  have ok: "repOk r" using wf_ok [OF assms(1,3)] .
  let ?q = "r\<lparr>rsize := length xs, rdata := xs @ 0 # drop (length xs + 1) (rdata r)\<rparr>"
  have "length xs < length (rdata r)" using ok own n by (simp add: repOk_def)
  from assign_writes [OF assms(3) this]
  have "thenS (setSize a (length xs)) (thenS (copyTo a 0 xs) (copyTo a (length xs) [0])) s =
      Done ((), s\<lparr>reps := (reps s)(a \<mapsto> ?q)\<rparr>)" .
  moreover have "repOk ?q" "rrefs ?q = 1" "repText ?q = xs"
    using ok own n by (auto simp: repOk_def repText_def nth_append)
  ultimately show ?thesis using changed_in_place [OF assms(1-3) own(2)] assms(2) s1 by auto
next
  fix x
  let ?r = "\<lparr>rsize = x, rcap = n, rrefs = 1, rdata = replicate (n + 1) (fresh s)\<rparr>"
  assume "makeRoom v n s = Done ((), s\<lparr>reps := (dropRef (reps s) a)(nextAddr s \<mapsto> ?r),
           nextAddr := Suc (nextAddr s), strs := (strs s)(v \<mapsto> nextAddr s)\<rparr>)"
  with room have s1: "s1 = s\<lparr>reps := (dropRef (reps s) a)(nextAddr s \<mapsto> ?r),
           nextAddr := Suc (nextAddr s), strs := (strs s)(v \<mapsto> nextAddr s)\<rparr>" by simp
  let ?q = "?r\<lparr>rsize := length xs, rdata := xs @ 0 # drop (length xs + 1) (rdata ?r)\<rparr>"
  let ?b = "nextAddr s"
  have "reps s1 ?b = Some ?r" "length xs < length (rdata ?r)" using s1 n by simp_all
  from assign_writes [OF this]
  have "thenS (setSize ?b (length xs)) (thenS (copyTo ?b 0 xs) (copyTo ?b (length xs) [0])) s1 =
      Done ((), s\<lparr>reps := (dropRef (reps s) a)(?b \<mapsto> ?q), nextAddr := Suc ?b, strs := (strs s)(v \<mapsto> ?b)\<rparr>)"
    unfolding s1 by (simp add: update_order)
  moreover have "repOk ?q" "rrefs ?q = 1" "repText ?q = xs"
    using n by (auto simp: repOk_def repText_def nth_append)
  ultimately show ?thesis using changed_replace [OF assms(1,2)] s1 by auto
qed

lemma assignUnits_spec:
  assumes "memOk s" and "strs s v = Some a" and "reps s a = Some r" and "length xs \<le> 0x3FFFFFFF"
  shows "changed s v xs (assignUnits v xs s)"
proof -
  obtain s1 where room: "makeRoom v (length xs) s = Done ((), s1)" using makeRoom_cases [OF assms] by blast
  from assign_done [OF assms(1-3) room assms(4) order_refl] show ?thesis
    unfolding assignUnits_def thenS_Done [of "makeRoom v (length xs)", OF room] by (auto simp: bind_repOf)
qed

lemma assignUtf8_spec:
  assumes "memOk s" and "strs s v = Some a" and "reps s a = Some r" and "length str \<le> 0x3FFFFFFF"
  shows "case copyFromUTF8 str of Inr xs \<Rightarrow> changed s v xs (assignUtf8 v str s)
         | Inl i \<Rightarrow> failed s (BadUTF8 i) ((texts s)(v \<mapsto> [])) (assignUtf8 v str s)"
proof -
  obtain s1 where room: "makeRoom v (length str) s = Done ((), s1)" using makeRoom_cases [OF assms] by blast
  show ?thesis
  proof (cases "copyFromUTF8 str")
    case (Inr xs)
    from assign_done [OF assms(1-3) room assms(4) copyFromUTF8_length [OF Inr]] show ?thesis
      unfolding assignUtf8_def thenS_Done [of "makeRoom v (length str)", OF room] by (auto simp: bind_repOf Inr)
  next
    case (Inl i)
    show ?thesis
      using makeRoom_cases [OF assms]
    proof (elim disjE conjE exE)
      assume m: "makeRoom v (length str) s = Done ((), s)" and own: "rrefs r = 1"
      have "owned s s v r a r"
        using assms(1-3) own wf_ok [OF assms(1,3)] by (simp add: owned_def)
      from failed_cleared [OF assms(1,2) this, of "BadUTF8 i"] show ?thesis
        unfolding assignUtf8_def thenS_Done [of "makeRoom v (length str)", OF m] by (simp add: bind_repOf [OF assms(2)] Inl)
    next
      fix x
      let ?b = "nextAddr s"
      let ?r = "\<lparr>rsize = x, rcap = length str, rrefs = 1, rdata = replicate (length str + 1) (fresh s)\<rparr>"
      let ?s = "s\<lparr>reps := (dropRef (reps s) a)(?b \<mapsto> ?r), nextAddr := Suc ?b, strs := (strs s)(v \<mapsto> ?b)\<rparr>"
      assume m: "makeRoom v (length str) s = Done ((), ?s)"
      have a: "a \<noteq> ?b" using wf_below [OF assms(1,3)] by simp
      have gone: "(dropRef (reps s) a)(?b := None) = dropRef (reps s) a"
        using wf_fresh(1) [OF assms(1)] a by (auto simp: fun_eq_iff dropRef_other)
      have "assignUtf8 v str s =
          Throws (BadUTF8 i, s\<lparr>reps := dropRef (reps s) a, nextAddr := Suc ?b, strs := (strs s)(v \<mapsto> 0)\<rparr>)"
        unfolding assignUtf8_def thenS_Done [of "makeRoom v (length str)", OF m]
        by (simp add: bind_repOf Inl free_def run_simps gone)
      moreover have "memOk (s\<lparr>reps := dropRef (reps s) a, strs := (strs s)(v \<mapsto> 0)\<rparr>) \<and>
          texts (s\<lparr>reps := dropRef (reps s) a, strs := (strs s)(v \<mapsto> 0)\<rparr>) = (texts s)(v \<mapsto> [])"
      proof (cases "a = 0")
        case True
        then show ?thesis
          using wf_unbind [OF assms(1,2)] wf_bind_old [of "s\<lparr>reps := dropRef (reps s) a, strs := (strs s)(v := None)\<rparr>" v 0 emptyRep]
            wf_zero [OF assms(1)] by (simp add: dropRef_def)
      qed (use wf_rebind [OF assms(1,2) wf_zero [OF assms(1)]] in simp)
      then have "memOk (s\<lparr>reps := dropRef (reps s) a, nextAddr := Suc ?b, strs := (strs s)(v \<mapsto> 0)\<rparr>) \<and>
          texts (s\<lparr>reps := dropRef (reps s) a, nextAddr := Suc ?b, strs := (strs s)(v \<mapsto> 0)\<rparr>) = (texts s)(v \<mapsto> [])"
        using wf_bump [of "s\<lparr>reps := dropRef (reps s) a, strs := (strs s)(v \<mapsto> 0)\<rparr>"]
          texts_bump [of "Suc ?b" "s\<lparr>reps := dropRef (reps s) a, strs := (strs s)(v \<mapsto> 0)\<rparr>"]
        by (simp add: update_order)
      ultimately show ?thesis by (simp add: failed_def Inl)
    qed
  qed
qed

text \<open>The constructors that convert bytes: nothing changes when the bytes are not UTF-8.\<close>

definition utf8_new :: "nat \<Rightarrow> memory \<Rightarrow> nat \<Rightarrow> (pstr \<Rightarrow> pstr) \<Rightarrow> cstr \<Rightarrow> (stringError \<times> memory, unit \<times> memory) outcome \<Rightarrow> bool" where
  "utf8_new d s v f str res \<longleftrightarrow>
    (case copyFromUTF8 str of
       Inr xs \<Rightarrow> changed_or_full d s v (f xs) res
     | Inl i \<Rightarrow> failed s (BadUTF8 i) (texts s) res \<or> 0x20000000 < d \<and> failed s BadAlloc (texts s) res)"

lemma failed_bump:
  "memOk s \<Longrightarrow> failed s e (texts s) (Throws (e, s\<lparr>nextAddr := Suc (nextAddr s)\<rparr>))"
  by (simp add: failed_def wf_bump texts_bump)

lemma released:
  assumes "memOk s"
  shows "failed s e (texts s) (thenS (free (nextAddr s)) (throwS e)
    (s\<lparr>reps := (reps s)(nextAddr s \<mapsto> r), nextAddr := Suc (nextAddr s)\<rparr>))"
proof -
  have "(reps s)(nextAddr s := None) = reps s" using wf_fresh(1) [OF assms] by auto
  then show ?thesis using failed_bump [OF assms] by (simp add: free_def run_simps)
qed

lemma newFromUnits_full:
  assumes "memOk s" and "strs s v = None"
  shows "changed_or_full (length xs) s v xs (newFromUnits v xs s)"
proof (cases "length xs \<le> 0x3FFFFFFF")
  case True
  with newFromUnits_spec [OF assms] show ?thesis by (simp add: changed_or_full_def)
next
  case False
  then have "newFromUnits v xs s = Throws (BadAlloc, s)" by (simp add: newFromUnits_def createUnits_def run_simps)
  with False show ?thesis by (intro full [OF assms(1)]) simp_all
qed

lemma newFromUtf8_spec:
  assumes "memOk s" and "strs s v = None"
  shows "utf8_new (length str) s v (\<lambda>xs. xs) str (newFromUtf8 v str s)"
proof (cases "length str > 0x3FFFFFFF")
  case True
  then have "newFromUtf8 v str s = Throws (BadAlloc, s)" by (simp add: newFromUtf8_def createUtf8_def run_simps)
  with full [OF assms(1)] assms(1) True show ?thesis by (simp add: utf8_new_def failed_def split: sum.split)
next
  case False
  show ?thesis
  proof (cases "copyFromUTF8 str")
    case (Inl i)
    have "newFromUtf8 v str s = thenS (free (nextAddr s)) (throwS (BadUTF8 i))
        (s\<lparr>reps := (reps s)(nextAddr s \<mapsto> \<lparr>rsize = unat (fresh s), rcap = length str, rrefs = 1,
            rdata = replicate (length str + 1) (fresh s)\<rparr>), nextAddr := Suc (nextAddr s)\<rparr>)"
      using False by (simp add: newFromUtf8_def createUtf8_def run_simps Inl free_def)
    with released [OF assms(1)] show ?thesis by (simp add: utf8_new_def Inl)
  next
    case (Inr xs)
    have l: "length xs \<le> length str" by (rule copyFromUTF8_length [OF Inr])
    let ?r = "\<lparr>rsize = length xs, rcap = length str, rrefs = 1,
      rdata = xs @ 0 # drop (length xs + 1) (replicate (length str + 1) (fresh s))\<rparr>"
    have "newFromUtf8 v str s = Done ((), s\<lparr>reps := (reps s)(nextAddr s \<mapsto> ?r), nextAddr := Suc (nextAddr s),
            strs := (strs s)(v \<mapsto> nextAddr s)\<rparr>)"
      using False l by (simp add: newFromUtf8_def createUtf8_def run_simps Inr)
    moreover have "repOk ?r" "rrefs ?r = 1" "repText ?r = xs"
      using False l by (simp_all add: repOk_def repText_def nth_append)
    ultimately show ?thesis
      using changed_new [OF assms] by (simp add: utf8_new_def Inr changed_or_full_def)
  qed
qed

lemma concatStringUtf8_spec:
  assumes "memOk s" and "strs s v = None" and "strs s w = Some a" and "reps s a = Some r"
  shows "utf8_new (rsize r + length str) s v (\<lambda>xs. repText r @ xs) str (concatStringUtf8 v w str s)"
proof (cases "rsize r + length str > 0x3FFFFFFF")
  case True
  then have "concatStringUtf8 v w str s = Throws (BadAlloc, s)" using assms(3,4) by (simp add: concatStringUtf8_def run_simps)
  with full [OF assms(1)] assms(1) True show ?thesis by (simp add: utf8_new_def failed_def split: sum.split)
next
  case False
  have l: "rsize r \<le> length (rdata r)" using wf_ok [OF assms(1,4)] by (simp add: repOk_def)
  have n: "a \<noteq> nextAddr s" using wf_below [OF assms(1,4)] by simp
  show ?thesis
  proof (cases "copyFromUTF8 str")
    case (Inl i)
    have "concatStringUtf8 v w str s = thenS (free (nextAddr s)) (throwS (BadUTF8 i))
        (s\<lparr>reps := (reps s)(nextAddr s \<mapsto> \<lparr>rsize = unat (fresh s), rcap = rsize r + length str, rrefs = 1,
            rdata = repText r @ drop (rsize r) (replicate (rsize r + length str + 1) (fresh s))\<rparr>), nextAddr := Suc (nextAddr s)\<rparr>)"
      using False assms(3,4) n l by (simp add: concatStringUtf8_def run_simps Inl free_def)
    with released [OF assms(1)] show ?thesis by (simp add: utf8_new_def Inl)
  next
    case (Inr xs)
    have lx: "length xs \<le> length str" by (rule copyFromUTF8_length [OF Inr])
    let ?r = "\<lparr>rsize = rsize r + length xs, rcap = rsize r + length str, rrefs = 1,
      rdata = repText r @ xs @ 0 # drop (rsize r + length xs + 1) (replicate (rsize r + length str + 1) (fresh s))\<rparr>"
    have "concatStringUtf8 v w str s = Done ((), s\<lparr>reps := (reps s)(nextAddr s \<mapsto> ?r), nextAddr := Suc (nextAddr s),
            strs := (strs s)(v \<mapsto> nextAddr s)\<rparr>)"
      using False l lx n assms(3,4) by (simp add: concatStringUtf8_def run_simps Inr repText_def take_append drop_append)
    moreover have "repOk ?r" "rrefs ?r = 1" "repText ?r = repText r @ xs"
      using False l lx by (simp_all add: repOk_def repText_def nth_append)
    ultimately show ?thesis
      using changed_new [OF assms(1,2)] by (simp add: utf8_new_def Inr changed_or_full_def)
  qed
qed

lemma concatUtf8String_spec:
  assumes "memOk s" and "strs s v = None" and "strs s w = Some a" and "reps s a = Some r"
    and ascii: "\<And>xs. copyFromUTF8 str = Inr xs \<Longrightarrow> length xs = length str"
  shows "utf8_new (length str + rsize r) s v (\<lambda>xs. xs @ repText r) str (concatUtf8String v str w s)"
proof (cases "length str + rsize r > 0x3FFFFFFF")
  case True
  then have "concatUtf8String v str w s = Throws (BadAlloc, s)" using assms(3,4) by (simp add: concatUtf8String_def run_simps)
  with full [OF assms(1)] assms(1) True show ?thesis by (simp add: utf8_new_def failed_def split: sum.split)
next
  case False
  have l: "rsize r \<le> length (rdata r)" using wf_ok [OF assms(1,4)] by (simp add: repOk_def)
  have n: "a \<noteq> nextAddr s" using wf_below [OF assms(1,4)] by simp
  show ?thesis
  proof (cases "copyFromUTF8 str")
    case (Inl i)
    have "concatUtf8String v str w s = thenS (free (nextAddr s)) (throwS (BadUTF8 i))
        (s\<lparr>reps := (reps s)(nextAddr s \<mapsto> \<lparr>rsize = unat (fresh s), rcap = length str + rsize r, rrefs = 1,
            rdata = replicate (length str + rsize r + 1) (fresh s)\<rparr>), nextAddr := Suc (nextAddr s)\<rparr>)"
      using False assms(3,4) n by (simp add: concatUtf8String_def run_simps Inl free_def)
    with released [OF assms(1)] show ?thesis by (simp add: utf8_new_def Inl)
  next
    case (Inr xs)
    have lx: "length str = length xs" using ascii [OF Inr] by simp
    let ?r = "\<lparr>rsize = rsize r + length xs, rcap = length xs + rsize r, rrefs = 1, rdata = xs @ repText r @ [0]\<rparr>"
    have "concatUtf8String v str w s = Done ((), s\<lparr>reps := (reps s)(nextAddr s \<mapsto> ?r), nextAddr := Suc (nextAddr s),
            strs := (strs s)(v \<mapsto> nextAddr s)\<rparr>)"
      using False l n assms(3,4)
      by (simp add: concatUtf8String_def run_simps Inr repText_def take_append drop_append lx add.commute [of "rsize r"])
    moreover have "repOk ?r" "rrefs ?r = 1" "repText ?r = xs @ repText r"
      using False l lx by (simp_all add: repOk_def repText_def nth_append)
    ultimately show ?thesis
      using changed_new [OF assms(1,2)] by (simp add: utf8_new_def Inr changed_or_full_def)
  qed
qed

subsection \<open>The specification\<close>

text \<open>What each operation does to the texts of the live strings, and the error it raises.\<close>

definition textOf :: "(nat \<Rightarrow> pstr option) \<Rightarrow> nat \<Rightarrow> pstr" where
  "textOf T v = (case T v of Some xs \<Rightarrow> xs | None \<Rightarrow> [])"

fun spec :: "action \<Rightarrow> (nat \<Rightarrow> pstr option) \<Rightarrow> stringError option \<times> (nat \<Rightarrow> pstr option)" where
  "spec (Empty v) T = (None, T(v \<mapsto> []))"
| "spec (FromUnits v xs) T = (None, T(v \<mapsto> xs))"
| "spec (FromUtf8 v str) T =
    (case copyFromUTF8 str of Inr xs \<Rightarrow> (None, T(v \<mapsto> xs)) | Inl i \<Rightarrow> (Some (BadUTF8 i), T))"
| "spec (Copy v w) T = (None, T(v \<mapsto> textOf T w))"
| "spec (Destroy v) T = (None, T(v := None))"
| "spec (Assign v w) T = (None, T(v \<mapsto> textOf T w))"
| "spec (AssignUnits v xs) T = (None, T(v \<mapsto> xs))"
| "spec (AssignUtf8 v str) T =
    (case copyFromUTF8 str of Inr xs \<Rightarrow> (None, T(v \<mapsto> xs)) | Inl i \<Rightarrow> (Some (BadUTF8 i), T(v \<mapsto> [])))"
| "spec (Clear v) T = (None, T(v \<mapsto> []))"
| "spec (Reserve v n) T = (None, T)"
| "spec (AppendUnits v xs) T = (None, T(v \<mapsto> textOf T v @ xs))"
| "spec (Append v w) T = (None, T(v \<mapsto> textOf T v @ textOf T w))"
| "spec (AppendUtf8 v str) T =
    (case copyFromUTF8 str of Inr xs \<Rightarrow> (None, T(v \<mapsto> textOf T v @ xs)) | Inl i \<Rightarrow> (Some (BadUTF8 i), T(v \<mapsto> [])))"
| "spec (AppendChar v c) T = (None, T(v \<mapsto> textOf T v @ [c]))"
| "spec (SetChar v i c) T =
    (if unat i < length (textOf T v) then (None, T(v \<mapsto> (textOf T v)[unat i := c])) else (Some IndexOutOfBounds, T))"
| "spec (Remove v i n) T =
    (let xs = textOf T v; m = (if n = notFound then length xs - unat i else unat n) in
     if unat i + m \<le> length xs then (None, T(v \<mapsto> take (unat i) xs @ drop (unat i + m) xs))
     else (Some IndexOutOfBounds, T))"
| "spec (ToLower v) T = (None, T(v \<mapsto> map toLower16 (textOf T v)))"
| "spec (ToUpper v) T = (None, T(v \<mapsto> map toUpper16 (textOf T v)))"
| "spec (SubString v w i n) T =
    (let xs = textOf T w in
     (None, T(v \<mapsto> take (if n = notFound then length xs else unat n) (drop (unat i) xs))))"
| "spec (Concat v w1 w2) T = (None, T(v \<mapsto> textOf T w1 @ textOf T w2))"
| "spec (ConcatUtf8 v w str) T =
    (case copyFromUTF8 str of Inr xs \<Rightarrow> (None, T(v \<mapsto> textOf T w @ xs)) | Inl i \<Rightarrow> (Some (BadUTF8 i), T))"
| "spec (Utf8Concat v str w) T =
    (case copyFromUTF8 str of Inr xs \<Rightarrow> (None, T(v \<mapsto> xs @ textOf T w)) | Inl i \<Rightarrow> (Some (BadUTF8 i), T))"

text \<open>The representation of a string, the units an operation asks for, and the calls the refinement
  covers. The calls it leaves out are those a caller must not make, and the ones the code gets wrong.\<close>

definition repAt :: "memory \<Rightarrow> nat \<Rightarrow> rep" where
  "repAt s v = (case strs s v of None \<Rightarrow> emptyRep | Some a \<Rightarrow> (case reps s a of None \<Rightarrow> emptyRep | Some r \<Rightarrow> r))"

fun demand :: "action \<Rightarrow> memory \<Rightarrow> nat" where
  "demand (FromUnits v xs) s = length xs"
| "demand (FromUtf8 v str) s = length str"
| "demand (Reserve v n) s = unat n"
| "demand (AppendUnits v xs) s = rsize (repAt s v) + length xs"
| "demand (Append v w) s = rsize (repAt s v) + rsize (repAt s w)"
| "demand (AppendUtf8 v str) s = rsize (repAt s v) + length str"
| "demand (AppendChar v c) s = 2 * rcap (repAt s v)"
| "demand (Concat v w1 w2) s = rsize (repAt s w1) + rsize (repAt s w2)"
| "demand (ConcatUtf8 v w str) s = rsize (repAt s w) + length str"
| "demand (Utf8Concat v str w) s = length str + rsize (repAt s w)"
| "demand _ s = 0"

definition unbound :: "memory \<Rightarrow> nat \<Rightarrow> bool" where
  "unbound s v \<longleftrightarrow> strs s v = None"

abbreviation live :: "memory \<Rightarrow> nat \<Rightarrow> bool" where
  "live s v \<equiv> \<not> unbound s v"

fun admissible :: "action \<Rightarrow> memory \<Rightarrow> bool" where
  "admissible (Empty v) s \<longleftrightarrow> unbound s v"
| "admissible (FromUnits v xs) s \<longleftrightarrow> unbound s v"
| "admissible (FromUtf8 v str) s \<longleftrightarrow> unbound s v"
| "admissible (Copy v w) s \<longleftrightarrow> unbound s v \<and> live s w"
| "admissible (Destroy v) s \<longleftrightarrow> live s v"
| "admissible (Assign v w) s \<longleftrightarrow> live s v \<and> live s w"
| "admissible (AssignUnits v xs) s \<longleftrightarrow> live s v \<and> length xs \<le> 0x3FFFFFFF"
| "admissible (AssignUtf8 v str) s \<longleftrightarrow> live s v \<and> length str \<le> 0x3FFFFFFF"
| "admissible (Clear v) s \<longleftrightarrow> live s v"
| "admissible (Reserve v n) s \<longleftrightarrow> live s v \<and> (rsize (repAt s v) \<le> unat n \<or> rrefs (repAt s v) = 1)"
| "admissible (AppendUnits v xs) s \<longleftrightarrow> live s v \<and> rsize (repAt s v) + length xs < 2 ^ 32"
| "admissible (Append v w) s \<longleftrightarrow> live s v \<and> live s w \<and>
    (v = w \<longrightarrow> rrefs (repAt s v) = 1 \<longrightarrow> 2 * rsize (repAt s v) \<le> rcap (repAt s v))"
| "admissible (AppendUtf8 v str) s \<longleftrightarrow> live s v \<and> rsize (repAt s v) + length str < 2 ^ 32"
| "admissible (AppendChar v c) s \<longleftrightarrow> live s v"
| "admissible (SetChar v i c) s \<longleftrightarrow> live s v \<and> unat i \<noteq> rsize (repAt s v)"
| "admissible (Remove v i n) s \<longleftrightarrow> live s v \<and>
    (if n = notFound then unat i \<le> rsize (repAt s v) else unat i + unat n < 2 ^ 32)"
| "admissible (ToLower v) s \<longleftrightarrow> live s v"
| "admissible (ToUpper v) s \<longleftrightarrow> live s v"
| "admissible (SubString v w i n) s \<longleftrightarrow> unbound s v \<and> live s w"
| "admissible (Concat v w1 w2) s \<longleftrightarrow> unbound s v \<and> live s w1 \<and> live s w2"
| "admissible (ConcatUtf8 v w str) s \<longleftrightarrow> unbound s v \<and> live s w"
| "admissible (Utf8Concat v str w) s \<longleftrightarrow> unbound s v \<and> live s w \<and>
    (case copyFromUTF8 str of Inr xs \<Rightarrow> length xs = length str | Inl i \<Rightarrow> True)"

definition meets :: "nat \<Rightarrow> memory \<Rightarrow> stringError option \<times> (nat \<Rightarrow> pstr option) \<Rightarrow>
    (stringError \<times> memory, unit \<times> memory) outcome \<Rightarrow> bool" where
  "meets d s sp res \<longleftrightarrow>
    (case res of
       Done (u, s') \<Rightarrow> memOk s' \<and> sp = (None, texts s')
     | Throws (e, s') \<Rightarrow> memOk s' \<and>
         (sp = (Some e, texts s') \<or> e = BadAlloc \<and> texts s' = texts s \<and> 0x20000000 < d)
     | Undefined \<Rightarrow> False)"

lemma meets_changed: "changed s v xs res \<Longrightarrow> meets d s (None, (texts s)(v \<mapsto> xs)) res"
  by (auto simp: changed_def meets_def)

lemma meets_failed: "failed s e T res \<Longrightarrow> meets d s (Some e, T) res"
  by (auto simp: failed_def meets_def)

lemma meets_full: "changed_or_full d s v xs res \<Longrightarrow> meets d s (None, (texts s)(v \<mapsto> xs)) res"
  by (auto simp: changed_or_full_def changed_def failed_def meets_def)

lemma meets_utf8:
  "utf8_spec d s v pre str res \<Longrightarrow>
   meets d s (case copyFromUTF8 str of Inr xs \<Rightarrow> (None, (texts s)(v \<mapsto> pre @ xs))
              | Inl i \<Rightarrow> (Some (BadUTF8 i), (texts s)(v \<mapsto> []))) res"
  by (auto simp: utf8_spec_def changed_or_full_def changed_def failed_def meets_def split: sum.splits)

lemma meets_utf8_new:
  "utf8_new d s v f str res \<Longrightarrow>
   meets d s (case copyFromUTF8 str of Inr xs \<Rightarrow> (None, (texts s)(v \<mapsto> f xs))
              | Inl i \<Rightarrow> (Some (BadUTF8 i), texts s)) res"
  by (auto simp: utf8_new_def changed_or_full_def changed_def failed_def meets_def split: sum.splits)

lemma liveE:
  assumes "memOk s" and "live s v"
  obtains a r where "strs s v = Some a" and "reps s a = Some r" and "repOk r" and "repAt s v = r"
    and "textOf (texts s) v = repText r" and "length (repText r) = rsize r" and "texts s v = Some (repText r)"
proof -
  obtain a where a: "strs s v = Some a" using assms(2) by (auto simp: unbound_def)
  obtain r where r: "reps s a = Some r" "repOk r" "texts s v = Some (repText r)" using wf_rep [OF assms(1) a] by metis
  show thesis
    by (rule that [OF a r(1,2)]) (use a r in \<open>simp_all add: repAt_def textOf_def repText_def repOk_def\<close>)
qed

lemma meets_cases:
  assumes ok: "memOk s" and "admissible act s"
  shows "meets (demand act s) s (spec act (texts s)) (exec act s)"
proof (cases act)
  case (Empty v)
  then show ?thesis using assms by (simp add: unbound_def meets_changed emptyString_spec)
next
  case (FromUnits v xs)
  then show ?thesis using assms by (simp add: unbound_def meets_full newFromUnits_full)
next
  case (FromUtf8 v str)
  then show ?thesis using assms meets_utf8_new [OF newFromUtf8_spec] by (simp add: unbound_def)
next
  case (Copy v w)
  with assms have v: "strs s v = None" and w: "live s w" by (simp_all add: unbound_def)
  obtain a r where "strs s w = Some a" "reps s a = Some r" "textOf (texts s) w = repText r" by (rule liveE [OF ok w])
  with Copy v show ?thesis by (simp add: meets_changed copyString_spec [OF ok])
next
  case (Destroy v)
  with assms obtain a where "strs s v = Some a" by (auto simp: unbound_def)
  from destroyString_spec [OF ok this] show ?thesis using Destroy by (auto simp: meets_def)
next
  case (Assign v w)
  with assms have v: "live s v" and w: "live s w" by simp_all
  obtain a where a: "strs s v = Some a" by (rule liveE [OF ok v])
  obtain b r where "strs s w = Some b" "reps s b = Some r" "textOf (texts s) w = repText r" by (rule liveE [OF ok w])
  with Assign a show ?thesis by (simp add: meets_changed assignString_spec [OF ok])
next
  case (AssignUnits v xs)
  with assms have v: "live s v" and l: "length xs \<le> 0x3FFFFFFF" by simp_all
  obtain a r where "strs s v = Some a" "reps s a = Some r" by (rule liveE [OF ok v])
  from assignUnits_spec [OF ok this l] AssignUnits show ?thesis by (simp add: meets_changed)
next
  case (AssignUtf8 v str)
  with assms have v: "live s v" and l: "length str \<le> 0x3FFFFFFF" by simp_all
  obtain a r where "strs s v = Some a" "reps s a = Some r" by (rule liveE [OF ok v])
  from assignUtf8_spec [OF ok this l] AssignUtf8 show ?thesis
    by (auto simp: meets_changed meets_failed split: sum.splits)
next
  case (Clear v)
  with assms have v: "live s v" by simp
  obtain a where "strs s v = Some a" by (rule liveE [OF ok v])
  from clearString_spec [OF ok this] Clear show ?thesis by (simp add: meets_changed)
next
  case (Reserve v n)
  with assms have v: "live s v" by simp
  obtain a r where r: "strs s v = Some a" "reps s a = Some r" "repAt s v = r" "texts s v = Some (repText r)"
    by (rule liveE [OF ok v])
  then have "(texts s)(v \<mapsto> repText r) = texts s" by auto
  with meets_full [OF reserveCapacity_spec [OF ok r(1,2), of n]] Reserve r(3) assms(2) show ?thesis by simp
next
  case (AppendUnits v xs)
  with assms have v: "live s v" by simp
  obtain a r where r: "strs s v = Some a" "reps s a = Some r" "repAt s v = r" "textOf (texts s) v = repText r"
    by (rule liveE [OF ok v])
  with meets_full [OF appendUnits_spec [OF ok r(1,2), of xs]] AppendUnits assms(2) show ?thesis by simp
next
  case (Append v w)
  with assms have v: "live s v" and w: "live s w" by simp_all
  obtain a r where r: "strs s v = Some a" "reps s a = Some r" "repAt s v = r" "textOf (texts s) v = repText r"
    by (rule liveE [OF ok v])
  obtain b q where q: "strs s w = Some b" "reps s b = Some q" "repAt s w = q" "textOf (texts s) w = repText q"
    by (rule liveE [OF ok w])
  have "changed_or_full (rsize r + rsize q) s v (repText r @ repText q) (appendString v w s)"
    by (rule appendString_spec [OF ok r(1,2) q(1,2)]) (use Append assms(2) r(3) in simp)
  with meets_full r q Append show ?thesis by simp
next
  case (AppendUtf8 v str)
  with assms have v: "live s v" by simp
  obtain a r where r: "strs s v = Some a" "reps s a = Some r" "repAt s v = r" "textOf (texts s) v = repText r"
    by (rule liveE [OF ok v])
  have "utf8_spec (rsize r + length str) s v (repText r) str (appendUtf8 v str s)"
    by (rule appendUtf8_spec [OF ok r(1,2)]) (use AppendUtf8 assms(2) r(3) copyFromUTF8_length in auto)
  from meets_utf8 [OF this] show ?thesis unfolding AppendUtf8 spec.simps exec.simps demand.simps r(3,4) .
next
  case (AppendChar v c)
  with assms have v: "live s v" by simp
  obtain a r where r: "strs s v = Some a" "reps s a = Some r" "repAt s v = r" "textOf (texts s) v = repText r"
    by (rule liveE [OF ok v])
  from meets_full [OF appendChar_spec [OF ok r(1,2)]] r AppendChar show ?thesis by simp
next
  case (SetChar v i c)
  with assms have v: "live s v" by simp
  obtain a r where r: "strs s v = Some a" "reps s a = Some r" "repAt s v = r" "textOf (texts s) v = repText r"
      "length (repText r) = rsize r"
    by (rule liveE [OF ok v])
  have i: "unat i \<noteq> rsize r" using SetChar assms(2) r(3) by simp
  from setChar_spec [OF ok r(1,2) i] SetChar r show ?thesis by (auto simp: meets_changed meets_failed)
next
  case (Remove v i n)
  with assms have v: "live s v" by simp
  obtain a r where r: "strs s v = Some a" "reps s a = Some r" "repAt s v = r" "textOf (texts s) v = repText r"
      "length (repText r) = rsize r"
    by (rule liveE [OF ok v])
  have i: "if n = notFound then unat i \<le> rsize r else unat i + unat n < 2 ^ 32" using Remove assms(2) r(3) by (auto split: if_splits)
  from removeUnits_spec [OF ok r(1,2) refl i] Remove r show ?thesis
    by (simp add: Let_def meets_changed meets_failed split: if_splits)
next
  case (ToLower v)
  with assms have v: "live s v" by simp
  obtain a r where r: "strs s v = Some a" "reps s a = Some r" "textOf (texts s) v = repText r"
    by (rule liveE [OF ok v])
  have "changed s v (toLowerUnits (repText r)) (mapUnits toLowerUnits v s)"
    by (rule mapUnits_spec [OF ok r(1,2)]) (simp add: toLowerUnits_eq)
  from meets_changed [OF this] ToLower r(3) show ?thesis by (simp add: toLowerString_def toLowerUnits_eq)
next
  case (ToUpper v)
  with assms have v: "live s v" by simp
  obtain a r where r: "strs s v = Some a" "reps s a = Some r" "textOf (texts s) v = repText r"
    by (rule liveE [OF ok v])
  have "changed s v (toUpperUnits (repText r)) (mapUnits toUpperUnits v s)"
    by (rule mapUnits_spec [OF ok r(1,2)]) (simp add: toUpperUnits_def)
  from meets_changed [OF this] ToUpper r(3) show ?thesis by (simp add: toUpperString_def toUpperUnits_def)
next
  case (SubString v w i n)
  with assms have v: "strs s v = None" and w: "live s w" by (simp_all add: unbound_def)
  obtain a r where r: "strs s w = Some a" "reps s a = Some r" "textOf (texts s) w = repText r"
      "length (repText r) = rsize r" by (rule liveE [OF ok w])
  from meets_changed [OF subString_spec [OF ok v r(1,2), of n i]] show ?thesis
    unfolding SubString spec.simps exec.simps demand.simps Let_def r(3,4) .
next
  case (Concat v w1 w2)
  with assms have v: "strs s v = None" and w: "live s w1" "live s w2" by (simp_all add: unbound_def)
  obtain a r where r: "strs s w1 = Some a" "reps s a = Some r" "repAt s w1 = r" "textOf (texts s) w1 = repText r"
    by (rule liveE [OF ok w(1)])
  obtain b q where q: "strs s w2 = Some b" "reps s b = Some q" "repAt s w2 = q" "textOf (texts s) w2 = repText q"
    by (rule liveE [OF ok w(2)])
  from meets_full [OF concatStrings_spec [OF ok v r(1,2) q(1,2)]] Concat r q show ?thesis by simp
next
  case (ConcatUtf8 v w str)
  with assms have v: "strs s v = None" and w: "live s w" by (simp_all add: unbound_def)
  obtain a r where r: "strs s w = Some a" "reps s a = Some r" "repAt s w = r" "textOf (texts s) w = repText r"
    by (rule liveE [OF ok w])
  from meets_utf8_new [OF concatStringUtf8_spec [OF ok v r(1,2)]] show ?thesis
    unfolding ConcatUtf8 spec.simps exec.simps demand.simps r(3,4) .
next
  case (Utf8Concat v str w)
  with assms have v: "strs s v = None" and w: "live s w" by (simp_all add: unbound_def)
  obtain a r where r: "strs s w = Some a" "reps s a = Some r" "repAt s w = r" "textOf (texts s) w = repText r"
    by (rule liveE [OF ok w])
  have "utf8_new (length str + rsize r) s v (\<lambda>xs. xs @ repText r) str (concatUtf8String v str w s)"
    by (rule concatUtf8String_spec [OF ok v r(1,2)]) (use Utf8Concat assms(2) in simp)
  from meets_utf8_new [OF this] show ?thesis unfolding Utf8Concat spec.simps exec.simps demand.simps r(3,4) .
qed

subsection \<open>Properties\<close>

text \<open>
  C1: every operation, called as the class allows, leaves a well-formed memory and does to the texts of
  all live strings exactly what its specification says: it changes the one string it is called on,
  raises exactly the specified errors, never touches memory out of a live buffer, and reports a full
  memory only when it needs more than 2^29 units, leaving every text as it was.
\<close>

theorem string_refinement:
  assumes "memOk s" and "admissible act s"
  shows "case exec act s of
      Done (u, s') \<Rightarrow> memOk s' \<and> spec act (texts s) = (None, texts s')
    | Throws (e, s') \<Rightarrow> memOk s' \<and>
        (spec act (texts s) = (Some e, texts s') \<or> e = BadAlloc \<and> texts s' = texts s \<and> 0x20000000 < demand act s)
    | Undefined \<Rightarrow> False"
  using meets_cases [OF assms] unfolding meets_def .

text \<open>Two strings sharing one representation.\<close>

definition sharedMemory :: memory where
  "sharedMemory = \<lparr>reps = [0 \<mapsto> emptyRep, 1 \<mapsto> \<lparr>rsize = 2, rcap = 2, rrefs = 2, rdata = [0x41, 0x42, 0]\<rparr>],
     nextAddr = 2, fresh = 7, strs = [0 \<mapsto> 1, 1 \<mapsto> 1]\<rparr>"

lemma sharedMemory_simps:
  "reps sharedMemory a = (if a = 0 then Some emptyRep else if a = 1
     then Some \<lparr>rsize = 2, rcap = 2, rrefs = 2, rdata = [0x41, 0x42, 0]\<rparr> else None)"
  "nextAddr sharedMemory = 2" "strs sharedMemory v = (if v = 0 \<or> v = 1 then Some 1 else None)"
  by (simp_all add: sharedMemory_def)

lemma sharedMemory_ok: "memOk sharedMemory"
proof (rule wfI)
  have o: "owners sharedMemory 1 = {0, 1}" by (auto simp: owners_def sharedMemory_simps split: if_splits)
  fix a r assume r: "reps sharedMemory a = Some r"
  show "repOk r" using r by (auto simp: sharedMemory_simps repOk_def emptyRep_def split: if_splits)
  show "a < nextAddr sharedMemory" using r by (auto simp: sharedMemory_simps split: if_splits)
  assume "a \<noteq> 0"
  then have a: "a = 1" "rrefs r = 2" using r by (auto simp: sharedMemory_simps split: if_splits)
  show "rrefs r = card (owners sharedMemory a)" unfolding a o by simp
  show "owners sharedMemory a \<noteq> {}" unfolding a o by simp
next
  have "dom (strs sharedMemory) \<subseteq> {0, 1}" by (auto simp: sharedMemory_simps split: if_splits)
  then show "finite (dom (strs sharedMemory))" by (rule finite_subset) simp
qed (simp_all add: sharedMemory_simps split: if_splits)

theorem string_refinement_witness:
  "case toLowerString 0 sharedMemory of
      Done (u, s') \<Rightarrow> memOk s' \<and> texts s' = (texts sharedMemory)(0 \<mapsto> [0x61, 0x62])
    | Throws (e, s') \<Rightarrow> False
    | Undefined \<Rightarrow> False"
proof -
  have a: "admissible (ToLower 0) sharedMemory" by (simp add: unbound_def sharedMemory_def)
  have "textOf (texts sharedMemory) 0 = [0x41, 0x42]"
    by (simp add: textOf_def texts_def sharedMemory_def repText_def)
  then have "spec (ToLower 0) (texts sharedMemory) = (None, (texts sharedMemory)(0 \<mapsto> [0x61, 0x62]))"
    by (simp add: toLower16_def strLowerTable_def)
  with string_refinement [OF sharedMemory_ok a] show ?thesis
    by (auto split: outcome.splits)
qed

text \<open>The states a program of admissible calls can reach; the contents of fresh memory may be anything.\<close>

inductive reachable :: "memory \<Rightarrow> bool" where
  reach_init: "reachable (initMemory x)"
| reach_fresh: "reachable s \<Longrightarrow> reachable (s\<lparr>fresh := x\<rparr>)"
| reach_done: "reachable s \<Longrightarrow> admissible act s \<Longrightarrow> exec act s = Done ((), s') \<Longrightarrow> reachable s'"
| reach_throw: "reachable s \<Longrightarrow> admissible act s \<Longrightarrow> exec act s = Throws (e, s') \<Longrightarrow> reachable s'"

lemma memOk_fresh: "memOk (s\<lparr>fresh := x\<rparr>) = memOk s"
  by (simp add: memOk_def owners_def)

lemma reachable_ok: "reachable s \<Longrightarrow> memOk s"
proof (induction rule: reachable.induct)
  case (reach_init x)
  show ?case by (rule wf_init)
next
  case (reach_fresh s x)
  then show ?case by (simp add: memOk_fresh)
next
  case (reach_done s act s')
  with meets_cases [OF reach_done.IH reach_done.hyps(2)] show ?case by (simp add: meets_def)
next
  case (reach_throw s act e s')
  with meets_cases [OF reach_throw.IH reach_throw.hyps(2)] show ?case by (simp add: meets_def)
qed

text \<open>
  C2: in every state a program of such calls reaches, the representations in memory are the static
  empty one and exactly those some live string points to (nothing leaks, nothing dangles), the count of
  each is the number of strings that share it, and its text is followed by the terminator within its buffer.
\<close>

theorem reachable_counts:
  assumes "reachable s"
  shows "dom (reps s) = insert 0 (ran (strs s)) \<and>
    (\<forall>a r. reps s a = Some r \<longrightarrow> (a \<noteq> 0 \<longrightarrow> rrefs r = card {v. strs s v = Some a} \<and> 0 < rrefs r) \<and>
           length (rdata r) = rcap r + 1 \<and> rsize r \<le> rcap r \<and> rdata r ! rsize r = 0)"
proof (rule conjI)
  note ok = reachable_ok [OF assms]
  show "dom (reps s) = insert 0 (ran (strs s))"
  proof (intro equalityI subsetI)
    fix a assume "a \<in> dom (reps s)"
    then obtain r where "reps s a = Some r" by auto
    then show "a \<in> insert 0 (ran (strs s))"
      using wf_owned [OF ok, of a r] by (auto simp: owners_def ran_def)
  next
    fix a assume "a \<in> insert 0 (ran (strs s))"
    then show "a \<in> dom (reps s)" using wf_zero [OF ok] wf_live [OF ok] by (auto simp: ran_def)
  qed
  show "\<forall>a r. reps s a = Some r \<longrightarrow> (a \<noteq> 0 \<longrightarrow> rrefs r = card {v. strs s v = Some a} \<and> 0 < rrefs r) \<and>
           length (rdata r) = rcap r + 1 \<and> rsize r \<le> rcap r \<and> rdata r ! rsize r = 0"
  proof (intro allI impI conjI)
    fix a r assume r: "reps s a = Some r"
    show "length (rdata r) = rcap r + 1" "rsize r \<le> rcap r" "rdata r ! rsize r = 0"
      using wf_ok [OF ok r] by (simp_all add: repOk_def)
    assume a: "a \<noteq> 0"
    show "rrefs r = card {v. strs s v = Some a}" using wf_count [OF ok a r] by (simp add: owners_def)
    then show "0 < rrefs r"
      using wf_owned [OF ok a r] finite_owners [OF ok, of a] by (simp add: owners_def card_gt_0_iff)
  qed
qed

text \<open>The empty string, lower-cased, copied and cleared, starting from fresh memory.\<close>

lemma reachable_example: "\<exists>s. reachable s \<and> strs s 0 = Some 1 \<and> strs s 1 = Some 1"
proof -
  let ?r = "\<lparr>rsize = 1, rcap = 1, rrefs = 1, rdata = [0x41, 0]\<rparr>"
  let ?s = "\<lparr>reps = [0 \<mapsto> emptyRep, 1 \<mapsto> ?r], nextAddr = 2, fresh = 0, strs = [0 \<mapsto> 1]\<rparr>"
  have "exec (FromUnits 0 [0x41]) (initMemory 0) = Done ((), ?s)"
    by (simp add: newFromUnits_def createUnits_def run_simps initMemory_def)
  moreover have "admissible (FromUnits 0 [0x41]) (initMemory 0)" by (simp add: unbound_def initMemory_def)
  ultimately have s: "reachable ?s" using reach_done [OF reach_init] by blast
  have "\<exists>s'. exec (Copy 1 0) ?s = Done ((), s') \<and> strs s' 0 = Some 1 \<and> strs s' 1 = Some 1"
    by (simp add: copyString_def run_simps)
  then obtain s' where "exec (Copy 1 0) ?s = Done ((), s')" "strs s' 0 = Some 1" "strs s' 1 = Some 1" by blast
  moreover have "admissible (Copy 1 0) ?s" by (simp add: unbound_def)
  ultimately show ?thesis using reach_done [OF s] by blast
qed

theorem reachable_counts_witness:
  "\<exists>s r. reachable s \<and> strs s 0 = Some 1 \<and> strs s 1 = Some 1 \<and> reps s 1 = Some r \<and> 2 \<le> rrefs r"
proof -
  obtain s where s: "reachable s" "strs s 0 = Some 1" "strs s 1 = Some 1" using reachable_example by blast
  note c = reachable_counts [OF s(1)]
  have "1 \<in> dom (reps s)" using c s by (auto simp: ran_def)
  then obtain r where r: "reps s 1 = Some r" by auto
  then have n: "rrefs r = card {v. strs s v = Some 1}" "0 < card {v. strs s v = Some 1}"
    using c by (metis zero_neq_one)+
  moreover have "card {0, 1 :: nat} \<le> card {v. strs s v = Some 1}"
    by (rule card_mono) (use n s in \<open>auto simp: card_gt_0_iff\<close>)
  ultimately show ?thesis using s r by auto
qed

text \<open>
  C27: three calls the documentation allows leave the string's buffer. Appending a string to itself,
  when it is the only owner of a buffer with no room for the doubled text, reads the buffer that the
  reallocation has just freed; reserving a capacity below the length of a shared string copies the text
  into a buffer too small for it; and removing the rest of a string from a position past its end passes
  the bounds check, since the 32-bit sum of position and length wraps to the size, and writes a
  terminator far outside.
\<close>

theorem string_defects:
  assumes "memOk s" and "strs s v = Some a" and "reps s a = Some r"
  shows "(rrefs r = 1 \<and> rcap r < 2 * rsize r \<and> 2 * rsize r \<le> 0x20000000 \<longrightarrow> exec (Append v v) s = Undefined) \<and>
    (rrefs r \<noteq> 1 \<and> roundUpToPow2 n = Inr k \<and> unat k < rsize r \<longrightarrow> exec (Reserve v n) s = Undefined) \<and>
    (rsize r < unat i \<longrightarrow> exec (Remove v i notFound) s = Undefined)"
proof (intro conjI impI)
  have ok: "repOk r" using wf_ok [OF assms(1,3)] .
  have n: "a \<noteq> nextAddr s" using wf_below [OF assms(1,3)] by simp
  show "exec (Append v v) s = Undefined"
    if h: "rrefs r = 1 \<and> rcap r < 2 * rsize r \<and> 2 * rsize r \<le> 0x20000000"
  proof -
    let ?cap = "of_nat (rsize r + rsize r) :: u32"
    have cap: "unat ?cap = 2 * rsize r" using cap_no_wrap [of "rsize r + rsize r"] h by simp
    have "rsize r \<le> unat ?cap" using cap by simp
    from reserveRep_spec [OF assms this] obtain s1 b q where
      "reserveRep v ?cap s = Done ((), s1)" "owned s s1 v r b q" "reps s1 a = None"
      using h cap by auto
    moreover from this(2) have "strs s1 v = Some b" by (simp add: owned_def)
    ultimately have r: "reserveRep v ?cap s = Done ((), s1)" "strs s1 v = Some b" "reps s1 a = None" by blast+
    show ?thesis
      unfolding exec.simps appendString_def bind_repOf [OF assms(2)] bind_load [OF assms(3)]
        thenS_Done [of "reserveRep v ?cap", OF r(1)] bind_repOf [OF r(2)]
      using r(3) by (simp add: bindS_def readFrom_def load_def)
  qed
  show "exec (Reserve v n) s = Undefined" if h: "rrefs r \<noteq> 1 \<and> roundUpToPow2 n = Inr k \<and> unat k < rsize r"
  proof -
    have "unat k \<le> 0x3FFFFFFF" "rsize r + 1 \<le> length (rdata r)" using h ok by (simp_all add: repOk_def)
    then show ?thesis using h assms(2,3) n
      by (simp add: reserveCapacity_def reserveRep_def run_simps)
  qed
  show "exec (Remove v i notFound) s = Undefined" if h: "rsize r < unat i"
  proof -
    have small: "rsize r \<le> 0x3FFFFFFF" using ok by (simp add: repOk_def)
    let ?n = "ucast ((of_nat (rsize r) :: u64) - ucast i) :: u32"
    have i: "unat i < 2 ^ 32" "unat (ucast i :: u64) = unat i"
      using unsigned_less [of i] by (simp_all add: unat_ucast_up)
    have s64: "unat (of_nat (rsize r) :: u64) = rsize r" by (rule unat_of_nat_small) (use small in simp)
    have "unat ((of_nat (rsize r) :: u64) - ucast i) = 2 ^ 64 + rsize r - unat i"
      using h i s64 by (simp add: unat_sub_if')
    also have "\<dots> = 2 ^ 32 + rsize r - unat i + (2 ^ 32 - 1) * 2 ^ 32" using h i(1) by simp
    finally have "unat ?n = (2 ^ 32 + rsize r - unat i + (2 ^ 32 - 1) * 2 ^ 32) mod 2 ^ 32"
      by (simp only: unsigned_ucast_eq take_bit_eq_mod) simp
    also have "\<dots> = (2 ^ 32 + rsize r - unat i) mod 2 ^ 32" by (rule mod_mult_self1)
    also have "\<dots> = 2 ^ 32 + rsize r - unat i" by (rule mod_less) (use h i(1) in simp)
    finally have un: "unat ?n = 2 ^ 32 + rsize r - unat i" .
    have sum: "unat (i + ?n) = rsize r"
    proof -
      have "unat i + unat ?n = rsize r + 2 ^ 32" using un i(1) by simp
      then have "unat (i + ?n) = (rsize r + 2 ^ 32) mod 2 ^ 32" by (simp add: unat_word_ariths)
      then show ?thesis using small by simp
    qed
    have n64: "unat (ucast ?n :: u64) = 2 ^ 32 + rsize r - unat i" using un by (simp add: unat_ucast_up)
    have new: "unat ((of_nat (rsize r) :: u64) - ucast ?n) = 2 ^ 64 - 2 ^ 32 + unat i"
      using s64 n64 i(1) h by (simp add: unat_sub_if')
    obtain s1 b q where o: "ownRep v s = Done ((), s1)" "owned s s1 v r b q" using ownRep_spec [OF assms] by blast
    then have q: "strs s1 v = Some b" "reps s1 b = Some q" "repOk q" by (auto simp: owned_def)
    then have "length (rdata q) \<le> 0x40000000" by (simp add: repOk_def)
    then have "copyTo b (2 ^ 64 - 2 ^ 32 + unat i) [0] (s1\<lparr>reps := (reps s1)(b \<mapsto> q\<lparr>rsize := m\<rparr>)\<rparr>) = Undefined" for m
      by (simp add: run_simps)
    then have "thenS (setSize b (2 ^ 64 - 2 ^ 32 + unat i)) (copyTo b (2 ^ 64 - 2 ^ 32 + unat i) [0]) s1 = Undefined"
      using q(2) by (simp add: thenS_def bindS_def setSize_def load_def store_def)
    moreover have "exec (Remove v i notFound) s =
        thenS (setSize b (2 ^ 64 - 2 ^ 32 + unat i)) (copyTo b (2 ^ 64 - 2 ^ 32 + unat i) [0]) s1"
      unfolding exec.simps removeUnits_def bind_repOf [OF assms(2)] bind_load [OF assms(3)] Let_def if_P [OF refl]
      unfolding sum new
      by (simp add: thenS_Done [of "ownRep v", OF o(1)] bind_repOf [OF q(1)])
         (simp add: thenS_def bindS_def retS_def)
    ultimately show ?thesis by simp
  qed
qed

theorem string_defects_witness:
  "exec (Reserve 0 1) \<lparr>reps = [0 \<mapsto> emptyRep, 1 \<mapsto> \<lparr>rsize = 9, rcap = 9, rrefs = 2, rdata = replicate 9 0x41 @ [0]\<rparr>],
     nextAddr = 2, fresh = 7, strs = [0 \<mapsto> 1, 1 \<mapsto> 1]\<rparr> = Undefined"
proof -
  let ?r = "\<lparr>rsize = 9, rcap = 9, rrefs = 2, rdata = replicate 9 0x41 @ [0]\<rparr>"
  let ?s = "\<lparr>reps = [0 \<mapsto> emptyRep, 1 \<mapsto> ?r], nextAddr = 2, fresh = 7, strs = [0 \<mapsto> 1, 1 \<mapsto> 1]\<rparr>"
  have "memOk ?s"
  proof (rule wfI)
    have o: "owners ?s 1 = {0, 1}" by (auto simp: owners_def split: if_splits)
    fix a r assume r: "reps ?s a = Some r"
    show "repOk r" using r by (auto simp: repOk_def emptyRep_def nth_append split: if_splits)
    show "a < nextAddr ?s" using r by (auto split: if_splits)
    assume "a \<noteq> 0"
    then have a: "a = 1" "rrefs r = 2" using r by (auto split: if_splits)
    show "rrefs r = card (owners ?s a)" unfolding a o by simp
    show "owners ?s a \<noteq> {}" unfolding a o by simp
  qed (auto split: if_splits)
  moreover have "strs ?s 0 = Some 1" "reps ?s 1 = Some ?r" by simp_all
  moreover have "roundUpToPow2 1 = Inr 8" by (simp add: roundUpToPow2_def capacityOverflow_def)
  ultimately show ?thesis using string_defects [of ?s 0 1 ?r 1 8] by simp
qed

end
