(* ===== verification/HashTab.thy ===== *)
theory HashTab
  imports PegString
begin

section \<open>HashTable: chains of buckets, and the keys that make it a map\<close>

text \<open>
  \<^verbatim>\<open>Pegasus/Common/HashTable.cpp\<close> and \<^verbatim>\<open>HashTable.h\<close>. The table is a record of its size, its number of
  chains and the chains, each the list of its buckets (key and value) in the order of the \<open>next\<close>
  pointers. The template arguments \<open>E::equal\<close> and \<open>H::hash\<close> are the arguments \<open>eq\<close> and \<open>hash\<close> of the
  operations; the three instances the code defines for strings and numbers are given below. An
  operation on a table without chains divides by zero, which is \<open>None\<close>.

  The locale \<open>hash_key\<close> states what the pair of functions has to satisfy; in it every operation is
  shown to be the operation of a finite map up to \<open>eq\<close>. The locale \<open>key_map\<close> is the interface clients
  use.
\<close>

subsection \<open>The hash functions\<close>

definition hashString :: "pstr \<Rightarrow> u32" where
  "hashString str = foldl (\<lambda>h c. 5 * h + ucast c) 0 str"

definition hashUint32 :: "u32 \<Rightarrow> u32" where
  "hashUint32 x = x + 13"

definition hashLowerTable :: "u8 list" where
  "hashLowerTable =
  [0x00, 0x01, 0x02, 0x03, 0x04, 0x05, 0x06, 0x07, 0x08, 0x09, 0x0A, 0x0B, 0x0C, 0x0D, 0x0E, 0x0F,
   0x10, 0x11, 0x12, 0x13, 0x14, 0x15, 0x16, 0x17, 0x18, 0x19, 0x1A, 0x1B, 0x1C, 0x1D, 0x1E, 0x1F,
   0x20, 0x21, 0x22, 0x23, 0x24, 0x25, 0x26, 0x27, 0x28, 0x29, 0x2A, 0x2B, 0x2C, 0x2D, 0x2E, 0x2F,
   0x30, 0x31, 0x32, 0x33, 0x34, 0x35, 0x36, 0x37, 0x38, 0x39, 0x3A, 0x3B, 0x3C, 0x3D, 0x3E, 0x3F,
   0x40, 0x61, 0x62, 0x63, 0x64, 0x65, 0x66, 0x67, 0x68, 0x69, 0x6A, 0x6B, 0x6C, 0x6D, 0x6E, 0x6F,
   0x70, 0x71, 0x72, 0x73, 0x74, 0x75, 0x76, 0x77, 0x78, 0x79, 0x7A, 0x5B, 0x5C, 0x5D, 0x5E, 0x5F,
   0x60, 0x61, 0x62, 0x63, 0x64, 0x65, 0x66, 0x67, 0x68, 0x69, 0x6A, 0x6B, 0x6C, 0x6D, 0x6E, 0x6F,
   0x70, 0x71, 0x72, 0x73, 0x74, 0x75, 0x76, 0x77, 0x78, 0x79, 0x7A, 0x7B, 0x7C, 0x7D, 0x7E, 0x7F,
   0x80, 0x81, 0x82, 0x83, 0x84, 0x85, 0x86, 0x87, 0x88, 0x89, 0x8A, 0x8B, 0x8C, 0x8D, 0x8E, 0x8F,
   0x90, 0x91, 0x92, 0x93, 0x94, 0x95, 0x96, 0x97, 0x98, 0x99, 0x9A, 0x9B, 0x9C, 0x9D, 0x9E, 0x9F,
   0xA0, 0xA1, 0xA2, 0xA3, 0xA4, 0xA5, 0xA6, 0xA7, 0xA8, 0xA9, 0xAA, 0xAB, 0xAC, 0xAD, 0xAE, 0xAF,
   0xB0, 0xB1, 0xB2, 0xB3, 0xB4, 0xB5, 0xB6, 0xB7, 0xB8, 0xB9, 0xBA, 0xBB, 0xBC, 0xBD, 0xBE, 0xBF,
   0xC0, 0xC1, 0xC2, 0xC3, 0xC4, 0xC5, 0xC6, 0xC7, 0xC8, 0xC9, 0xCA, 0xCB, 0xCC, 0xCD, 0xCE, 0xCF,
   0xD0, 0xD1, 0xD2, 0xD3, 0xD4, 0xD5, 0xD6, 0xD7, 0xD8, 0xD9, 0xDA, 0xDB, 0xDC, 0xDD, 0xDE, 0xDF,
   0xE0, 0xE1, 0xE2, 0xE3, 0xE4, 0xE5, 0xE6, 0xE7, 0xE8, 0xE9, 0xEA, 0xEB, 0xEC, 0xED, 0xEE, 0xEF,
   0xF0, 0xF1, 0xF2, 0xF3, 0xF4, 0xF5, 0xF6, 0xF7, 0xF8, 0xF9, 0xFA, 0xFB, 0xFC, 0xFD, 0xFE, 0xFF]"

definition lowerStep :: "u32 \<Rightarrow> u16 \<Rightarrow> u32" where
  "lowerStep h c =
    (push_bit 9 h OR drop_bit 23 h) XOR ucast (hashLowerTable ! unat (c AND 0x7F))"

text \<open>The second loop of \<open>HashLowerCaseFunc::hash\<close> stops at a NUL, the first, four characters a turn, does not.\<close>

fun hashTail :: "pstr \<Rightarrow> u32 \<Rightarrow> u32" where
  "hashTail [] h = h"
| "hashTail (c # p) h = (if c = 0 then h else hashTail p (lowerStep h c))"

function hashFours :: "pstr \<Rightarrow> u32 \<Rightarrow> u32" where
  "hashFours p h =
    (if 4 \<le> length p
     then hashFours (drop 4 p) (lowerStep (lowerStep (lowerStep (lowerStep h (p ! 0)) (p ! 1)) (p ! 2)) (p ! 3))
     else hashTail p h)"
  by pat_completeness auto
termination by (relation "measure (\<lambda>(p, h). length p)") auto

declare hashFours.simps [simp del]

definition hashLowerCase :: "pstr \<Rightarrow> u32" where
  "hashLowerCase str = hashFours str 0"

definition equalNoCaseFunc :: "pstr \<Rightarrow> pstr \<Rightarrow> bool" where
  "equalNoCaseFunc x y \<longleftrightarrow> 0 = compareNoCase x y"

subsection \<open>The table\<close>

record ('k, 'v) table =
  tsize :: u32
  numChains :: u32
  chains :: "('k \<times> 'v) list list"

text \<open>The constructor adjusts its parameter after the member has been set from it.\<close>

definition newTable :: "u32 \<Rightarrow> ('k, 'v) table" where
  "newTable n = \<lparr>tsize = 0, numChains = n, chains = replicate (unat n) []\<rparr>"

definition clearTable :: "('k, 'v) table \<Rightarrow> ('k, 'v) table" where
  "clearTable t = t\<lparr>tsize := 0, chains := replicate (unat (numChains t)) []\<rparr>"

fun cloneChain :: "('k \<times> 'v) list \<Rightarrow> ('k \<times> 'v) list" where
  "cloneChain [] = []"
| "cloneChain ((k, v) # b) = (k, v) # cloneChain b"

definition assignTable :: "('k, 'v) table \<Rightarrow> ('k, 'v) table \<Rightarrow> ('k, 'v) table" where
  "assignTable t x =
    (clearTable t)\<lparr>numChains := numChains x, tsize := tsize x,
       chains := map (\<lambda>i. cloneChain (chains x ! i)) [0..<unat (numChains x)]\<rparr>"

definition chainIndex :: "('k, 'v) table \<Rightarrow> u32 \<Rightarrow> nat option" where
  "chainIndex t h = (if numChains t = 0 then None else Some (unat (h mod numChains t)))"

fun insertChain :: "('k \<Rightarrow> 'k \<Rightarrow> bool) \<Rightarrow> 'k \<Rightarrow> 'v \<Rightarrow> ('k \<times> 'v) list \<Rightarrow> ('k \<times> 'v) list option" where
  "insertChain eq k v [] = Some [(k, v)]"
| "insertChain eq k v ((k', v') # b) =
    (if eq k k' then None else map_option (\<lambda>c. (k', v') # c) (insertChain eq k v b))"

definition tableInsert :: "('k \<Rightarrow> 'k \<Rightarrow> bool) \<Rightarrow> ('k \<Rightarrow> u32) \<Rightarrow> 'k \<Rightarrow> 'v \<Rightarrow> ('k, 'v) table \<Rightarrow> (bool \<times> ('k, 'v) table) option" where
  "tableInsert eq hash k v t =
    (case chainIndex t (hash k) of
       None \<Rightarrow> None
     | Some i \<Rightarrow>
         (case insertChain eq k v (chains t ! i) of
            None \<Rightarrow> Some (False, t)
          | Some c \<Rightarrow> Some (True, t\<lparr>chains := (chains t)[i := c], tsize := tsize t + 1\<rparr>)))"

fun lookupChain :: "('k \<Rightarrow> 'k \<Rightarrow> bool) \<Rightarrow> 'k \<Rightarrow> ('k \<times> 'v) list \<Rightarrow> 'v option" where
  "lookupChain eq k [] = None"
| "lookupChain eq k ((k', v) # b) = (if eq k k' then Some v else lookupChain eq k b)"

definition tableLookup :: "('k \<Rightarrow> 'k \<Rightarrow> bool) \<Rightarrow> ('k \<Rightarrow> u32) \<Rightarrow> 'k \<Rightarrow> ('k, 'v) table \<Rightarrow> 'v option option" where
  "tableLookup eq hash k t =
    (case chainIndex t (hash k) of None \<Rightarrow> None | Some i \<Rightarrow> Some (lookupChain eq k (chains t ! i)))"

fun removeChain :: "('k \<Rightarrow> 'k \<Rightarrow> bool) \<Rightarrow> 'k \<Rightarrow> ('k \<times> 'v) list \<Rightarrow> ('k \<times> 'v) list option" where
  "removeChain eq k [] = None"
| "removeChain eq k ((k', v) # b) =
    (if eq k k' then Some b else map_option (\<lambda>c. (k', v) # c) (removeChain eq k b))"

definition tableRemove :: "('k \<Rightarrow> 'k \<Rightarrow> bool) \<Rightarrow> ('k \<Rightarrow> u32) \<Rightarrow> 'k \<Rightarrow> ('k, 'v) table \<Rightarrow> (bool \<times> ('k, 'v) table) option" where
  "tableRemove eq hash k t =
    (case chainIndex t (hash k) of
       None \<Rightarrow> None
     | Some i \<Rightarrow>
         (case removeChain eq k (chains t ! i) of
            None \<Rightarrow> Some (False, t)
          | Some c \<Rightarrow> Some (True, t\<lparr>chains := (chains t)[i := c], tsize := tsize t - 1\<rparr>)))"

text \<open>A write through the pointer \<open>lookupReference\<close> returns.\<close>

fun writeChain :: "('k \<Rightarrow> 'k \<Rightarrow> bool) \<Rightarrow> 'k \<Rightarrow> 'v \<Rightarrow> ('k \<times> 'v) list \<Rightarrow> ('k \<times> 'v) list option" where
  "writeChain eq k w [] = None"
| "writeChain eq k w ((k', v) # b) =
    (if eq k k' then Some ((k', w) # b) else map_option (\<lambda>c. (k', v) # c) (writeChain eq k w b))"

definition tableWrite :: "('k \<Rightarrow> 'k \<Rightarrow> bool) \<Rightarrow> ('k \<Rightarrow> u32) \<Rightarrow> 'k \<Rightarrow> 'v \<Rightarrow> ('k, 'v) table \<Rightarrow> (bool \<times> ('k, 'v) table) option" where
  "tableWrite eq hash k w t =
    (case chainIndex t (hash k) of
       None \<Rightarrow> None
     | Some i \<Rightarrow>
         (case writeChain eq k w (chains t ! i) of
            None \<Rightarrow> Some (False, t)
          | Some c \<Rightarrow> Some (True, t\<lparr>chains := (chains t)[i := c]\<rparr>)))"

subsection \<open>The iterator\<close>

text \<open>The chain from the current bucket on, which is empty at the end, and the chains still to visit.\<close>

type_synonym ('k, 'v) iterator = "('k \<times> 'v) list \<times> ('k \<times> 'v) list list"

fun nextChain :: "('k \<times> 'v) list list \<Rightarrow> ('k, 'v) iterator" where
  "nextChain [] = ([], [])"
| "nextChain (c # cs) = (if c \<noteq> [] then (c, cs) else nextChain cs)"

definition startIterator :: "('k, 'v) table \<Rightarrow> ('k, 'v) iterator" where
  "startIterator t = nextChain (chains t)"

fun stepIterator :: "('k, 'v) iterator \<Rightarrow> ('k, 'v) iterator" where
  "stepIterator ([], cs) = ([], cs)"
| "stepIterator (_ # b, cs) = (if b \<noteq> [] then (b, cs) else nextChain cs)"

text \<open>The loop \<open>for (Iterator i = t.start(); i; i++)\<close>.\<close>

lemma nextChain_concat: "fst (nextChain cs) @ concat (snd (nextChain cs)) = concat cs"
  by (induction cs) auto

lemma nextChain_length: "length (fst (nextChain cs)) + length (concat (snd (nextChain cs))) = length (concat cs)"
  by (metis length_append nextChain_concat)

function visit :: "('k, 'v) iterator \<Rightarrow> ('k \<times> 'v) list" where
  "visit i = (case fst i of [] \<Rightarrow> [] | e # b \<Rightarrow> e # visit (stepIterator i))"
  by pat_completeness auto
termination
proof (relation "measure (\<lambda>i. length (fst i) + length (concat (snd i)))")
  fix i :: "('k, 'v) iterator" and e b
  assume "fst i = e # b"
  then obtain cs where i: "i = (e # b, cs)" by (cases i) auto
  show "(stepIterator i, i) \<in> measure (\<lambda>i. length (fst i) + length (concat (snd i)))"
    using nextChain_length [of cs] unfolding i by (auto simp del: length_concat)
qed simp

declare visit.simps [simp del]

lemma nextChain_end: "fst (nextChain cs) = [] \<Longrightarrow> snd (nextChain cs) = []"
  by (induction cs) (auto split: if_splits)

lemma visit_concat: "(fst i = [] \<longrightarrow> snd i = []) \<Longrightarrow> visit i = fst i @ concat (snd i)"
proof (induction i rule: visit.induct)
  case (1 i)
  obtain c cs where i: "i = (c, cs)" by (cases i)
  show ?case
  proof (cases c)
    case Nil
    with 1(2) i show ?thesis by (subst visit.simps) simp
  next
    case (Cons e b)
    have stop: "fst (stepIterator i) = [] \<longrightarrow> snd (stepIterator i) = []"
      unfolding i Cons using nextChain_end [of cs] by auto
    have "fst (stepIterator i) @ concat (snd (stepIterator i)) = b @ concat cs"
      unfolding i Cons using nextChain_concat [of cs] by auto
    moreover have "visit (stepIterator i) = fst (stepIterator i) @ concat (snd (stepIterator i))"
      by (rule 1(1) [OF _ stop]) (simp add: i Cons)
    ultimately show ?thesis by (subst visit.simps) (simp add: i Cons)
  qed
qed

lemma visit_start: "visit (startIterator t) = concat (chains t)"
  unfolding startIterator_def
  by (subst visit_concat) (use nextChain_end [of "chains t"] nextChain_concat [of "chains t"] in auto)

subsection \<open>Chains as association lists\<close>

text \<open>
  The entries of a table are those of its chains; \<open>contents\<close> is the map they stand for: the value of the
  first entry with an equal key.
\<close>

definition contents :: "('k \<Rightarrow> 'k \<Rightarrow> bool) \<Rightarrow> ('k, 'v) table \<Rightarrow> 'k \<Rightarrow> 'v option" where
  "contents eq t k = lookupChain eq k (concat (chains t))"

definition tableOk :: "('k \<Rightarrow> 'k \<Rightarrow> bool) \<Rightarrow> ('k \<Rightarrow> u32) \<Rightarrow> ('k \<Rightarrow> bool) \<Rightarrow> ('k, 'v) table \<Rightarrow> bool" where
  "tableOk eq hash valid t \<longleftrightarrow>
     0 < numChains t \<and> length (chains t) = unat (numChains t) \<and>
     (\<forall>i < length (chains t). \<forall>e \<in> set (chains t ! i). valid (fst e) \<and> unat (hash (fst e) mod numChains t) = i) \<and>
     (\<forall>c \<in> set (chains t). sorted_wrt (\<lambda>e e'. \<not> eq (fst e) (fst e')) c) \<and>
     tsize t = of_nat (length (concat (chains t)))"

lemma lookupChain_append:
  "lookupChain eq k (b @ c) = (case lookupChain eq k b of Some v \<Rightarrow> Some v | None \<Rightarrow> lookupChain eq k c)"
  by (induction b) auto

lemma lookupChain_None_iff: "lookupChain eq k b = None \<longleftrightarrow> (\<forall>e \<in> set b. \<not> eq k (fst e))"
  by (induction b) (auto split: if_splits)

lemma lookupChain_concat:
  assumes "i < length cs" and "\<And>j. j < length cs \<Longrightarrow> j \<noteq> i \<Longrightarrow> lookupChain eq k (cs ! j) = None"
  shows "lookupChain eq k (concat cs) = lookupChain eq k (cs ! i)"
  using assms
proof (induction cs arbitrary: i)
  case (Cons c cs)
  show ?case
  proof (cases i)
    case 0
    have "lookupChain eq k (concat cs) = None"
      unfolding lookupChain_None_iff
    proof
      fix e assume "e \<in> set (concat cs)"
      then obtain d where d: "d \<in> set cs" "e \<in> set d" by auto
      then obtain j where "j < length cs" "d = cs ! j" by (auto simp: in_set_conv_nth)
      then show "\<not> eq k (fst e)"
        using Cons.prems(2) [of "Suc j"] 0 d(2) by (simp add: lookupChain_None_iff)
    qed
    then show ?thesis using 0 by (simp add: lookupChain_append split: option.split)
  next
    case (Suc j)
    have "lookupChain eq k c = None" using Cons.prems(2) [of 0] Suc by simp
    moreover have "lookupChain eq k (concat cs) = lookupChain eq k (cs ! j)"
      by (rule Cons.IH) (use Cons.prems(1) Cons.prems(2) [of "Suc _"] Suc in auto)
    ultimately show ?thesis using Suc by (simp add: lookupChain_append)
  qed
qed simp

lemma insertChain_eq:
  "insertChain eq k v b = (if lookupChain eq k b = None then Some (b @ [(k, v)]) else None)"
  by (induction b) (auto split: if_splits)

lemma removeChain_None_iff: "removeChain eq k b = None \<longleftrightarrow> lookupChain eq k b = None"
  by (induction b) (auto split: if_splits)

lemma removeChain_Some:
  "removeChain eq k b = Some c \<Longrightarrow> \<exists>xs e ys. b = xs @ e # ys \<and> c = xs @ ys \<and> eq k (fst e) \<and> lookupChain eq k xs = None"
proof (induction b arbitrary: c)
  case (Cons e b)
  show ?case
  proof (cases "eq k (fst e)")
    case True
    then have "c = b" using Cons.prems by (cases e) simp
    then show ?thesis using True by (intro exI [of _ "[]"] exI [of _ e] exI [of _ b]) simp
  next
    case False
    then obtain d where d: "removeChain eq k b = Some d" "c = e # d" using Cons.prems by (cases e) auto
    from Cons.IH [OF d(1)] obtain xs e' ys where "b = xs @ e' # ys" "d = xs @ ys" "eq k (fst e')" "lookupChain eq k xs = None" by blast
    then have "e # b = (e # xs) @ e' # ys \<and> c = (e # xs) @ ys \<and> eq k (fst e') \<and> lookupChain eq k (e # xs) = None"
      using d(2) False by (cases e) simp
    then show ?thesis by blast
  qed
qed simp

lemma writeChain_None_iff: "writeChain eq k w b = None \<longleftrightarrow> lookupChain eq k b = None"
  by (induction b) (auto split: if_splits)

lemma writeChain_Some:
  "writeChain eq k w b = Some c \<Longrightarrow>
   \<exists>xs e ys. b = xs @ e # ys \<and> c = xs @ (fst e, w) # ys \<and> eq k (fst e) \<and> lookupChain eq k xs = None"
proof (induction b arbitrary: c)
  case (Cons e b)
  show ?case
  proof (cases "eq k (fst e)")
    case True
    then have "c = (fst e, w) # b" using Cons.prems by (cases e) simp
    then show ?thesis using True by (intro exI [of _ "[]"] exI [of _ e] exI [of _ b]) simp
  next
    case False
    then obtain d where d: "writeChain eq k w b = Some d" "c = e # d" using Cons.prems by (cases e) auto
    from Cons.IH [OF d(1)] obtain xs e' ys where h: "b = xs @ e' # ys" "d = xs @ (fst e', w) # ys"
      "eq k (fst e')" "lookupChain eq k xs = None" by blast
    have "lookupChain eq k (e # xs) = None" using h(4) False by (cases e) simp
    with h(1-3) d(2) have "e # b = (e # xs) @ e' # ys \<and> c = (e # xs) @ (fst e', w) # ys \<and> eq k (fst e') \<and>
      lookupChain eq k (e # xs) = None" by simp
    then show ?thesis by blast
  qed
qed simp

lemma cloneChain_eq [simp]: "cloneChain b = b"
  by (induction b rule: cloneChain.induct) auto

lemma length_concat_update:
  "i < length cs \<Longrightarrow> length (concat (cs[i := c])) + length (cs ! i) = length (concat cs) + length c"
proof (induction cs arbitrary: i)
  case (Cons d cs)
  then show ?case by (cases i) (auto simp del: length_concat)
qed simp

subsection \<open>Keys: an equality and a hash function that respects it\<close>

locale hash_key =
  fixes eq :: "'k \<Rightarrow> 'k \<Rightarrow> bool" and hash :: "'k \<Rightarrow> u32" and valid :: "'k \<Rightarrow> bool"
  assumes eq_refl: "valid a \<Longrightarrow> eq a a"
    and eq_sym: "valid a \<Longrightarrow> valid b \<Longrightarrow> eq a b \<Longrightarrow> eq b a"
    and eq_trans: "valid a \<Longrightarrow> valid b \<Longrightarrow> valid c \<Longrightarrow> eq a b \<Longrightarrow> eq b c \<Longrightarrow> eq a c"
    and hash_cong: "valid a \<Longrightarrow> valid b \<Longrightarrow> eq a b \<Longrightarrow> hash a = hash b"
begin

lemma eq_cong: "valid a \<Longrightarrow> valid b \<Longrightarrow> valid c \<Longrightarrow> eq a b \<Longrightarrow> eq a c = eq b c"
  using eq_sym eq_trans by blast

lemma chain_index:
  assumes "tableOk eq hash valid t"
  shows "chainIndex t h = Some (unat (h mod numChains t))" and "unat (h mod numChains t) < length (chains t)"
proof -
  have n: "0 < numChains t" "length (chains t) = unat (numChains t)" using assms by (simp_all add: tableOk_def)
  then show "chainIndex t h = Some (unat (h mod numChains t))" by (auto simp: chainIndex_def)
  have "unat (h mod numChains t) = unat h mod unat (numChains t)" by (rule unat_mod)
  then show "unat (h mod numChains t) < length (chains t)" using n by (simp add: word_less_unat)
qed

lemma chain_entries:
  assumes "tableOk eq hash valid t" and "i < length (chains t)"
  shows "\<And>e. e \<in> set (chains t ! i) \<Longrightarrow> valid (fst e) \<and> unat (hash (fst e) mod numChains t) = i"
    and "sorted_wrt (\<lambda>e e'. \<not> eq (fst e) (fst e')) (chains t ! i)"
  using assms nth_mem [OF assms(2)] unfolding tableOk_def by blast+

lemma contents_chain:
  assumes "tableOk eq hash valid t" and "valid k"
  shows "contents eq t k = lookupChain eq k (chains t ! unat (hash k mod numChains t))"
  unfolding contents_def
proof (rule lookupChain_concat [OF chain_index(2) [OF assms(1)]])
  fix j assume j: "j < length (chains t)" "j \<noteq> unat (hash k mod numChains t)"
  show "lookupChain eq k (chains t ! j) = None"
    unfolding lookupChain_None_iff
    using chain_entries(1) [OF assms(1) j(1)] hash_cong [OF assms(2)] j(2) by metis
qed

lemma update_chain:
  assumes ok: "tableOk eq hash valid t" and i: "i < length (chains t)"
    and c: "\<forall>e \<in> set c. valid (fst e) \<and> unat (hash (fst e) mod numChains t) = i"
    and d: "sorted_wrt (\<lambda>e e'. \<not> eq (fst e) (fst e')) c"
    and s: "of_nat (length c) + tsize t = s + of_nat (length (chains t ! i))"
  shows "tableOk eq hash valid (t\<lparr>chains := (chains t)[i := c], tsize := s\<rparr>)"
    and "valid k \<Longrightarrow> contents eq (t\<lparr>chains := (chains t)[i := c], tsize := s\<rparr>) k =
           (if unat (hash k mod numChains t) = i then lookupChain eq k c else contents eq t k)"
proof -
  let ?t = "t\<lparr>chains := (chains t)[i := c], tsize := s\<rparr>"
  have size: "tsize t = of_nat (length (concat (chains t)))" using ok by (simp add: tableOk_def)
  have "(of_nat (length (concat ((chains t)[i := c]))) :: u32) + of_nat (length (chains t ! i)) =
        of_nat (length (concat (chains t))) + of_nat (length c)"
    using length_concat_update [OF i, of c] by (metis of_nat_add)
  then have "of_nat (length (concat ((chains t)[i := c]))) = s"
    using s size by (metis add.commute add_right_cancel)
  moreover have "\<forall>j < length (chains t). \<forall>e \<in> set ((chains t)[i := c] ! j).
      valid (fst e) \<and> unat (hash (fst e) mod numChains t) = j"
    using c chain_entries(1) [OF ok] i by (metis nth_list_update)
  moreover have "\<forall>d \<in> set ((chains t)[i := c]). sorted_wrt (\<lambda>e e'. \<not> eq (fst e) (fst e')) d"
    using d ok set_update_subset_insert [of "chains t" i c] unfolding tableOk_def by blast
  ultimately show ok': "tableOk eq hash valid ?t" using ok unfolding tableOk_def by simp
  assume k: "valid k"
  show "contents eq ?t k = (if unat (hash k mod numChains t) = i then lookupChain eq k c else contents eq t k)"
    using contents_chain [OF ok' k] contents_chain [OF ok k] i by simp
qed

lemma new_ok: "0 < n \<Longrightarrow> tableOk eq hash valid (newTable n)"
  by (auto simp: tableOk_def newTable_def)

lemma contents_new: "contents eq (newTable n) k = None"
  by (auto simp: contents_def newTable_def lookupChain_None_iff)

lemma lookup_exact:
  "tableOk eq hash valid t \<Longrightarrow> valid k \<Longrightarrow> tableLookup eq hash k t = Some (contents eq t k)"
  by (simp add: tableLookup_def chain_index(1) contents_chain)

lemma insert_exact:
  assumes ok: "tableOk eq hash valid t" and k: "valid k"
  shows "\<exists>t'. tableInsert eq hash k v t = Some (contents eq t k = None, t') \<and> tableOk eq hash valid t' \<and>
           (contents eq t k \<noteq> None \<longrightarrow> t' = t) \<and>
           tsize t' = tsize t + (if contents eq t k = None then 1 else 0) \<and>
           (\<forall>k'. valid k' \<longrightarrow> contents eq t' k' =
              (if contents eq t k = None \<and> eq k' k then Some v else contents eq t k'))"
proof -
  let ?i = "unat (hash k mod numChains t)"
  let ?b = "chains t ! ?i"
  note i = chain_index [OF ok, of "hash k"]
  show ?thesis
  proof (cases "lookupChain eq k ?b")
    case (Some w)
    then have "tableInsert eq hash k v t = Some (False, t)" by (simp add: tableInsert_def i(1) insertChain_eq)
    moreover have "contents eq t k = Some w" using Some contents_chain [OF ok k] by simp
    ultimately show ?thesis using ok by simp
  next
    case None
    then have none: "contents eq t k = None" using contents_chain [OF ok k] by simp
    let ?t = "t\<lparr>chains := (chains t)[?i := ?b @ [(k, v)]], tsize := tsize t + 1\<rparr>"
    have no: "\<And>e. e \<in> set ?b \<Longrightarrow> \<not> eq k (fst e)" using None by (simp add: lookupChain_None_iff)
    have ins: "tableInsert eq hash k v t = Some (True, ?t)" using None by (simp add: tableInsert_def i(1) insertChain_eq)
    have entries: "\<forall>e \<in> set (?b @ [(k, v)]). valid (fst e) \<and> unat (hash (fst e) mod numChains t) = ?i"
      using k chain_entries(1) [OF ok i(2)] by simp
    have sorted: "sorted_wrt (\<lambda>e e'. \<not> eq (fst e) (fst e')) (?b @ [(k, v)])"
    proof -
      have "\<forall>e \<in> set ?b. \<not> eq (fst e) k" using no k eq_sym chain_entries(1) [OF ok i(2)] by blast
      then show ?thesis using chain_entries(2) [OF ok i(2)] by (simp add: sorted_wrt_append)
    qed
    have s: "of_nat (length (?b @ [(k, v)])) + tsize t = (tsize t + 1) + of_nat (length ?b)" by simp
    note u = update_chain [OF ok i(2) entries sorted s]
    have "contents eq ?t k' = (if eq k' k then Some v else contents eq t k')" if k': "valid k'" for k'
    proof (cases "eq k' k")
      case True
      then have "unat (hash k' mod numChains t) = ?i" using hash_cong [OF k' k] by simp
      moreover have "lookupChain eq k' ?b = None"
        unfolding lookupChain_None_iff
        using no eq_cong [OF k' k _ True] chain_entries(1) [OF ok i(2)] by blast
      ultimately show ?thesis using True u(2) [OF k'] by (simp add: lookupChain_append)
    next
      case False
      show ?thesis
        using False u(2) [OF k'] contents_chain [OF ok k']
        by (simp add: lookupChain_append split: option.split)
    qed
    with ins u(1) none show ?thesis by simp
  qed
qed

text \<open>Removing an entry, and writing its value, with its chain split around it.\<close>

lemma split_chain:
  fixes t :: "('k, 'v) table"
  assumes ok: "tableOk eq hash valid t" and k: "valid k" and i: "i = unat (hash k mod numChains t)"
    and b: "chains t ! i = xs @ e # ys" and e: "eq k (fst e)"
  shows "valid (fst e)" and "\<forall>y \<in> set (xs @ ys). valid (fst y) \<and> unat (hash (fst y) mod numChains t) = i"
    and "sorted_wrt (\<lambda>e e'. \<not> eq (fst e) (fst e')) (xs @ (fst e, w) # ys)"
    and "sorted_wrt (\<lambda>e e'. \<not> eq (fst e) (fst e')) (xs @ ys)"
    and "\<And>k'. valid k' \<Longrightarrow> eq k' k \<Longrightarrow> \<forall>y \<in> set ys. \<not> eq k' (fst y)"
    and "\<And>k'. valid k' \<Longrightarrow> eq k' k \<Longrightarrow> \<forall>y \<in> set xs. \<not> eq k' (fst y)"
    and "\<And>k'. valid k' \<Longrightarrow> eq k' (fst e) = eq k' k"
proof -
  have lt: "i < length (chains t)" using chain_index(2) [OF ok] i by simp
  note entries = chain_entries(1) [OF ok lt, unfolded b] and sorted = chain_entries(2) [OF ok lt, unfolded b]
  show v: "valid (fst e)" using entries [of e] by simp
  show y: "\<forall>y \<in> set (xs @ ys). valid (fst y) \<and> unat (hash (fst y) mod numChains t) = i" using entries by simp
  show "sorted_wrt (\<lambda>e e'. \<not> eq (fst e) (fst e')) (xs @ (fst e, w) # ys)"
    "sorted_wrt (\<lambda>e e'. \<not> eq (fst e) (fst e')) (xs @ ys)" using sorted by (simp_all add: sorted_wrt_append)
  show ke: "\<And>k'. valid k' \<Longrightarrow> eq k' (fst e) = eq k' k"
    using e k v eq_sym eq_trans by blast
  fix k' assume k': "valid k'" "eq k' k"
  then have ke': "eq k' (fst e)" using ke by blast
  have cong: "eq k' (fst y) \<Longrightarrow> eq (fst e) (fst y)" "eq k' (fst y) \<Longrightarrow> eq (fst y) (fst e)" if "valid (fst y)" for y :: "'k \<times> 'v"
    using that v k'(1) ke' eq_cong eq_sym by blast+
  show "\<forall>y \<in> set ys. \<not> eq k' (fst y)"
  proof
    fix y assume "y \<in> set ys"
    moreover from this have "valid (fst y)" using y by simp
    ultimately show "\<not> eq k' (fst y)" using sorted cong(1) [of y] by (auto simp: sorted_wrt_append)
  qed
  show "\<forall>y \<in> set xs. \<not> eq k' (fst y)"
  proof
    fix y assume "y \<in> set xs"
    moreover from this have "valid (fst y)" using y by simp
    ultimately show "\<not> eq k' (fst y)" using sorted cong(2) [of y] by (auto simp: sorted_wrt_append)
  qed
qed

lemma remove_exact:
  assumes ok: "tableOk eq hash valid t" and k: "valid k"
  shows "\<exists>t'. tableRemove eq hash k t = Some (contents eq t k \<noteq> None, t') \<and> tableOk eq hash valid t' \<and>
           (contents eq t k = None \<longrightarrow> t' = t) \<and>
           tsize t' = tsize t - (if contents eq t k = None then 0 else 1) \<and>
           (\<forall>k'. valid k' \<longrightarrow> contents eq t' k' = (if eq k' k then None else contents eq t k'))"
proof -
  let ?i = "unat (hash k mod numChains t)"
  let ?b = "chains t ! ?i"
  note i = chain_index [OF ok, of "hash k"]
  show ?thesis
  proof (cases "removeChain eq k ?b")
    case None
    then have none: "contents eq t k = None" by (simp add: removeChain_None_iff contents_chain [OF ok k])
    have "contents eq t k' = None" if k': "valid k'" "eq k' k" for k'
    proof -
      have "contents eq t k' = lookupChain eq k' ?b" using contents_chain [OF ok k'(1)] hash_cong [OF k'(1) k k'(2)] by simp
      also have "\<dots> = None" using none contents_chain [OF ok k] eq_cong [OF k'(1) k _ k'(2)] chain_entries(1) [OF ok i(2)]
        by (auto simp: lookupChain_None_iff)
      finally show ?thesis .
    qed
    with None ok none show ?thesis by (auto simp: tableRemove_def i(1))
  next
    case (Some c)
    from removeChain_Some [OF Some] obtain xs e ys where c: "?b = xs @ e # ys" "c = xs @ ys" "eq k (fst e)" by blast
    note p = split_chain [OF ok k refl c(1,3)]
    let ?t = "t\<lparr>chains := (chains t)[?i := xs @ ys], tsize := tsize t - 1\<rparr>"
    have s: "of_nat (length (xs @ ys)) + tsize t = (tsize t - 1) + of_nat (length ?b)" unfolding c(1) by simp
    note u = update_chain [OF ok i(2) p(2) p(4) s]
    have "contents eq t k \<noteq> None"
      using c(1,3) contents_chain [OF ok k] by (simp add: lookupChain_None_iff)
    then obtain x where some: "contents eq t k = Some x" by blast
    have "contents eq ?t k' = (if eq k' k then None else contents eq t k')" if k': "valid k'" for k'
    proof (cases "eq k' k")
      case True
      then have "unat (hash k' mod numChains t) = ?i" using hash_cong [OF k' k] by simp
      then show ?thesis using True u(2) [OF k'] p(5,6) [OF k'] by (auto simp: lookupChain_None_iff)
    next
      case False
      then have "lookupChain eq k' (xs @ ys) = lookupChain eq k' ?b"
        unfolding c(1) using p(7) [OF k'] by (cases e) (simp add: lookupChain_append split: option.split)
      then show ?thesis using False u(2) [OF k'] contents_chain [OF ok k'] by simp
    qed
    with Some some u(1) c(2) show ?thesis by (simp add: tableRemove_def i(1))
  qed
qed

lemma write_exact:
  assumes ok: "tableOk eq hash valid t" and k: "valid k"
  shows "\<exists>t'. tableWrite eq hash k w t = Some (contents eq t k \<noteq> None, t') \<and> tableOk eq hash valid t' \<and>
           (contents eq t k = None \<longrightarrow> t' = t) \<and> tsize t' = tsize t \<and>
           (\<forall>k'. valid k' \<longrightarrow> contents eq t' k' =
              (if contents eq t k \<noteq> None \<and> eq k' k then Some w else contents eq t k'))"
proof -
  let ?i = "unat (hash k mod numChains t)"
  let ?b = "chains t ! ?i"
  note i = chain_index [OF ok, of "hash k"]
  show ?thesis
  proof (cases "writeChain eq k w ?b")
    case None
    then have "contents eq t k = None" by (simp add: writeChain_None_iff contents_chain [OF ok k])
    with None ok show ?thesis by (auto simp: tableWrite_def i(1))
  next
    case (Some c)
    from writeChain_Some [OF Some] obtain xs e ys where c: "?b = xs @ e # ys" "c = xs @ (fst e, w) # ys" "eq k (fst e)" by blast
    note p = split_chain [OF ok k refl c(1,3)]
    have entries: "\<forall>y \<in> set (xs @ (fst e, w) # ys). valid (fst y) \<and> unat (hash (fst y) mod numChains t) = ?i"
      using p(2) chain_entries(1) [OF ok i(2), of e] c(1) by simp
    have s: "of_nat (length (xs @ (fst e, w) # ys)) + tsize t = tsize t + of_nat (length ?b)" unfolding c(1) by simp
    let ?t = "t\<lparr>chains := (chains t)[?i := xs @ (fst e, w) # ys], tsize := tsize t\<rparr>"
    note u = update_chain [OF ok i(2) entries p(3) s]
    have "contents eq t k \<noteq> None"
      using c(1,3) contents_chain [OF ok k] by (simp add: lookupChain_None_iff)
    then obtain x where some: "contents eq t k = Some x" by blast
    have "contents eq ?t k' = (if eq k' k then Some w else contents eq t k')" if k': "valid k'" for k'
    proof (cases "eq k' k")
      case True
      then have h: "unat (hash k' mod numChains t) = ?i" using hash_cong [OF k' k] by simp
      have "lookupChain eq k' xs = None" using True p(6) [OF k'] by (auto simp: lookupChain_None_iff)
      then show ?thesis using True u(2) [OF k'] p(7) [OF k'] h by (simp add: lookupChain_append)
    next
      case False
      then have "lookupChain eq k' (xs @ (fst e, w) # ys) = lookupChain eq k' ?b"
        unfolding c(1) using p(7) [OF k'] by (cases e) (simp add: lookupChain_append split: option.split)
      then show ?thesis using False u(2) [OF k'] contents_chain [OF ok k'] by simp
    qed
    moreover have "tableWrite eq hash k w t = Some (True, ?t)" using Some c(2) by (simp add: tableWrite_def i(1))
    ultimately show ?thesis using some u(1) by (intro exI [of _ ?t]) simp
  qed
qed

lemma clear_ok:
  assumes "tableOk eq hash valid t"
  shows "tableOk eq hash valid (clearTable t)" and "contents eq (clearTable t) k = None"
  using assms by (auto simp: tableOk_def clearTable_def contents_def lookupChain_None_iff)

end

lemma assignTable_eq: "length (chains x) = unat (numChains x) \<Longrightarrow> assignTable t x = x"
  by (rule table.equality) (simp_all add: assignTable_def clearTable_def list_eq_iff_nth_eq)

subsection \<open>The interface the clients of a table use\<close>

text \<open>Inserting a list of entries one by one.\<close>

fun insertAll :: "('k \<Rightarrow> 'v \<Rightarrow> 't \<Rightarrow> (bool \<times> 't) option) \<Rightarrow> ('k \<times> 'v) list \<Rightarrow> 't \<Rightarrow> 't option" where
  "insertAll ins [] t = Some t"
| "insertAll ins ((k, v) # ps) t = (case ins k v t of None \<Rightarrow> None | Some (_, t') \<Rightarrow> insertAll ins ps t')"

locale key_map =
  fixes eq :: "'k \<Rightarrow> 'k \<Rightarrow> bool" and valid :: "'k \<Rightarrow> bool" and ok :: "'t \<Rightarrow> bool"
    and look :: "'t \<Rightarrow> 'k \<Rightarrow> 'v option"
    and ins :: "'k \<Rightarrow> 'v \<Rightarrow> 't \<Rightarrow> (bool \<times> 't) option"
    and del :: "'k \<Rightarrow> 't \<Rightarrow> (bool \<times> 't) option"
  assumes refl_law: "valid k \<Longrightarrow> eq k k"
    and look_cong: "ok t \<Longrightarrow> valid k \<Longrightarrow> valid k' \<Longrightarrow> eq k k' \<Longrightarrow> look t k = look t k'"
    and ins_law: "ok t \<Longrightarrow> valid k \<Longrightarrow> \<exists>t'. ins k v t = Some (look t k = None, t') \<and> ok t' \<and>
        (\<forall>k'. valid k' \<longrightarrow> look t' k' = (if look t k = None \<and> eq k' k then Some v else look t k'))"
    and del_law: "ok t \<Longrightarrow> valid k \<Longrightarrow> \<exists>t'. del k t = Some (look t k \<noteq> None, t') \<and> ok t' \<and>
        (\<forall>k'. valid k' \<longrightarrow> look t' k' = (if eq k' k then None else look t k'))"
begin

lemma insertAll_look:
  assumes "ok t" and "\<forall>p \<in> set ps. valid (fst p)"
  shows "\<exists>t'. insertAll ins ps t = Some t' \<and> ok t' \<and>
           (\<forall>k. valid k \<longrightarrow> look t' k = (case look t k of Some v \<Rightarrow> Some v | None \<Rightarrow> lookupChain eq k ps))"
  using assms
proof (induction ps arbitrary: t)
  case Nil
  then show ?case by (simp split: option.split)
next
  case (Cons p ps)
  obtain k v where p: "p = (k, v)" by (cases p)
  with Cons.prems have k: "valid k" by simp
  obtain t1 where t1: "ins k v t = Some (look t k = None, t1)" "ok t1"
    "\<And>k'. valid k' \<Longrightarrow> look t1 k' = (if look t k = None \<and> eq k' k then Some v else look t k')"
    using ins_law [OF Cons.prems(1) k, of v] by blast
  obtain t2 where t2: "insertAll ins ps t1 = Some t2" "ok t2"
    "\<And>k'. valid k' \<Longrightarrow> look t2 k' = (case look t1 k' of Some v \<Rightarrow> Some v | None \<Rightarrow> lookupChain eq k' ps)"
    using Cons.IH [OF t1(2)] Cons.prems(2) by auto
  have "look t2 k' = (case look t k' of Some v \<Rightarrow> Some v | None \<Rightarrow> lookupChain eq k' (p # ps))" if k': "valid k'" for k'
  proof (cases "eq k' k")
    case True
    then show ?thesis
      using look_cong [OF Cons.prems(1) k' k] t1(3) [OF k'] t2(3) [OF k'] p by (cases "look t k") auto
  qed (use t1(3) [OF k'] t2(3) [OF k'] p in \<open>simp split: option.split\<close>)
  with p t1(1) t2(1,2) show ?case by simp
qed

lemma del_ins:
  assumes "ok t" and "valid k" and "ins k v t = Some (True, t1)" and "del k t1 = Some (b, t2)" and "valid k'"
  shows "b" and "look t2 k' = look t k'"
proof -
  have none: "look t k = None" and t1: "ok t1" "\<And>k'. valid k' \<Longrightarrow> look t1 k' = (if eq k' k then Some v else look t k')"
    using ins_law [OF assms(1,2), of v] assms(3) by auto
  have b: "b = (look t1 k \<noteq> None)" and t2: "\<And>k'. valid k' \<Longrightarrow> look t2 k' = (if eq k' k then None else look t1 k')"
    using del_law [OF t1(1) assms(2)] assms(4) by auto
  show look: "look t2 k' = look t k'"
    using t2 [OF assms(5)] t1(2) [OF assms(5)] look_cong [OF assms(1,5,2)] none by auto
  show "b" unfolding b using t1(2) [OF assms(2)] refl_law [OF assms(2)] by simp
qed

end

sublocale hash_key \<subseteq> entries: key_map eq valid "tableOk eq hash valid" "contents eq" "tableInsert eq hash" "tableRemove eq hash"
proof
  show "valid k \<Longrightarrow> eq k k" for k by (rule eq_refl)
  fix t :: "('k, 'b) table" and k k' and v :: 'b
  assume ok: "tableOk eq hash valid t" and k: "valid k"
  show "contents eq t k = contents eq t k'" if k': "valid k'" "eq k k'"
  proof -
    have "contents eq t k' = lookupChain eq k' (chains t ! unat (hash k mod numChains t))"
      using contents_chain [OF ok k'(1)] hash_cong [OF k k'] by simp
    also have "\<dots> = lookupChain eq k (chains t ! unat (hash k mod numChains t))"
    proof -
      have "lookupChain eq k' b = lookupChain eq k b" if "\<forall>e \<in> set b. valid (fst e)" for b :: "('k \<times> 'b) list"
        using that by (induction b) (auto simp: eq_cong [OF k k'(1) _ k'(2)])
      then show ?thesis using chain_entries(1) [OF ok chain_index(2) [OF ok]] by blast
    qed
    finally show ?thesis using contents_chain [OF ok k] by simp
  qed
  show "\<exists>t'. tableInsert eq hash k v t = Some (contents eq t k = None, t') \<and> tableOk eq hash valid t' \<and>
      (\<forall>k'. valid k' \<longrightarrow> contents eq t' k' = (if contents eq t k = None \<and> eq k' k then Some v else contents eq t k'))"
    using insert_exact [OF ok k, of v] by blast
  show "\<exists>t'. tableRemove eq hash k t = Some (contents eq t k \<noteq> None, t') \<and> tableOk eq hash valid t' \<and>
      (\<forall>k'. valid k' \<longrightarrow> contents eq t' k' = (if eq k' k then None else contents eq t k'))"
    using remove_exact [OF ok k] by blast
qed

subsection \<open>The keys of the code\<close>

lemma hashLowerTable_low: "unat b < 128 \<Longrightarrow> hashLowerTable ! unat b = lowerAscii b"
proof -
  assume b: "unat b < 128"
  have "hashLowerTable = toLowerTable" by (simp only: hashLowerTable_def toLowerTable_def)
  then have h: "hashLowerTable = map (\<lambda>n. lowerAscii (of_nat n)) [0..<256]" using toLowerTable_map by simp
  show ?thesis unfolding h using b by simp
qed

lemma and_7F: "(c :: 'a :: len word) AND 0x7F = take_bit 7 c"
proof -
  have "(0x7F :: 'a word) = mask 7" by (simp add: mask_eq_exp_minus_1)
  then show ?thesis by (simp add: take_bit_eq_mask)
qed

lemma unat_take_7: "unat (take_bit 7 x :: 'a::len word) = unat x mod 128"
  by (simp only: unat_take_bit take_bit_eq_mod [of 7 "unat x"]) simp

lemma byte_back: "(ucast (ucast (x :: u8) :: u16) :: u8) = x"
proof -
  have "unat x < 2 ^ 8" using unsigned_less [of x, where 'a = nat] by simp
  then show ?thesis by (simp add: word_unat_eq_iff unsigned_ucast_eq unat_take_bit take_bit_nat_eq_self_iff)
qed

lemma lower_key: "hashLowerTable ! unat (c AND 0x7F) = lowerAscii (take_bit 7 (ucast c))" for c :: u16
proof -
  have "unat (c AND 0x7F) = unat (take_bit 7 (ucast c :: u8))"
    unfolding and_7F by (simp add: unsigned_take_bit_eq unsigned_ucast_eq)
  moreover have "unat (take_bit 7 (ucast c :: u8)) < 128" unfolding unat_take_7 by simp
  ultimately show ?thesis using hashLowerTable_low by simp
qed

lemma take_7_low: "unat (x :: u8) < 128 \<Longrightarrow> take_bit 7 x = x"
  by (simp only: word_unat_eq_iff unat_take_7) simp

lemma lowerAscii_take: "lowerAscii (take_bit 7 (lowerAscii b)) = lowerAscii (take_bit 7 b)"
proof (cases "isupper b")
  case True
  then have b: "65 \<le> unat b" "unat b \<le> 90" by (simp_all add: isupper_def word_le_unat)
  then have s: "unat (b + 32) = unat b + 32" by (subst unat_add_no_wrap) simp_all
  have "take_bit 7 b = b" "take_bit 7 (b + 32) = b + 32" using b s by (simp_all add: take_7_low)
  moreover have "\<not> isupper (b + 32)" using s b by (simp add: isupper_def word_le_unat)
  ultimately show ?thesis using True by (simp add: lowerAscii_def)
qed (simp add: lowerAscii_def)

lemma lowerStep_cong:
  assumes "toLower16 c = toLower16 d"
  shows "lowerStep h c = lowerStep h d"
proof -
  have "lowerAscii (take_bit 7 (ucast (toLower16 c))) = lowerAscii (take_bit 7 (ucast c))" for c :: u16
  proof (cases "unat c < 256")
    case True
    then have "(ucast (toLower16 c) :: u8) = lowerAscii (ucast c)" by (simp add: toLower16_eq byte_back)
    then show ?thesis by (simp add: lowerAscii_take)
  qed (simp add: toLower16_eq)
  then show ?thesis using assms unfolding lowerStep_def lower_key by metis
qed

lemma lowerFold_cong:
  "map toLower16 p = map toLower16 q \<Longrightarrow> foldl lowerStep h p = foldl lowerStep h q"
proof (induction p arbitrary: q h)
  case (Cons c p)
  then obtain d q' where "q = d # q'" "toLower16 c = toLower16 d" "map toLower16 p = map toLower16 q'" by (cases q) auto
  then show ?case using Cons.IH [of q'] lowerStep_cong [of c d h] by simp
qed simp

lemma hashTail_fold: "nul_free p \<Longrightarrow> hashTail p h = foldl lowerStep h p"
  by (induction p arbitrary: h) auto

lemma hashFours_fold: "nul_free p \<Longrightarrow> hashFours p h = foldl lowerStep h p"
proof (induction p h rule: hashFours.induct)
  case (1 p h)
  show ?case
  proof (cases "4 \<le> length p")
    case True
    then have "p ! 0 # p ! 1 # p ! 2 # p ! 3 # drop 4 p = p"
      by (auto simp: numeral_eq_Suc Suc_le_length_iff)
    moreover have "nul_free (drop 4 p)" using 1(2) by (auto simp: nul_free_def dest: in_set_dropD)
    moreover note 1(1) [OF True calculation(2)]
    ultimately show ?thesis using True by (subst hashFours.simps) (metis foldl_Cons)
  qed (use 1(2) in \<open>subst hashFours.simps, simp add: hashTail_fold\<close>)
qed

lemma hashLowerCase_fold: "nul_free p \<Longrightarrow> hashLowerCase p = foldl lowerStep 0 p"
  by (simp add: hashLowerCase_def hashFours_fold)

lemma equalNoCaseFunc_iff:
  "nul_free a \<Longrightarrow> nul_free b \<Longrightarrow> equalNoCaseFunc a b \<longleftrightarrow> map toLower16 a = map toLower16 b"
  using byLower.cmp_eq_0 [of a b] by (auto simp: equalNoCaseFunc_def)

text \<open>The three instances: exact strings, names without regard to case, and numbers.\<close>

interpretation stringKey: hash_key stringEqual hashString "\<lambda>_. True"
  by unfold_locales (auto simp: stringEqual_def)

interpretation noCaseKey: hash_key equalNoCaseFunc hashLowerCase nul_free
  by unfold_locales (auto simp: equalNoCaseFunc_iff hashLowerCase_fold intro: lowerFold_cong)

interpretation numberKey: hash_key "(=)" hashUint32 "\<lambda>_. True"
  by unfold_locales auto

subsection \<open>Properties\<close>

text \<open>
  C15: a table keyed by names is a finite map up to case: \<open>lookup\<close> returns the value of the entry with an
  equal name, \<open>insert\<close> adds the entry and counts it exactly when there is none, \<open>remove\<close> takes out
  exactly the entries of that name, a write through \<open>lookupReference\<close> replaces the value, and none of
  them touches another name or breaks the placement of entries in their chains.
\<close>

theorem name_table_is_map:
  assumes "tableOk equalNoCaseFunc hashLowerCase nul_free t" and "nul_free k"
  shows "tableLookup equalNoCaseFunc hashLowerCase k t = Some (contents equalNoCaseFunc t k) \<and>
    (\<exists>t'. tableInsert equalNoCaseFunc hashLowerCase k v t = Some (contents equalNoCaseFunc t k = None, t') \<and>
       tableOk equalNoCaseFunc hashLowerCase nul_free t' \<and>
       tsize t' = tsize t + (if contents equalNoCaseFunc t k = None then 1 else 0) \<and>
       (\<forall>k'. nul_free k' \<longrightarrow> contents equalNoCaseFunc t' k' =
          (if contents equalNoCaseFunc t k = None \<and> toLowerUnits k' = toLowerUnits k then Some v
           else contents equalNoCaseFunc t k'))) \<and>
    (\<exists>t'. tableRemove equalNoCaseFunc hashLowerCase k t = Some (contents equalNoCaseFunc t k \<noteq> None, t') \<and>
       tableOk equalNoCaseFunc hashLowerCase nul_free t' \<and>
       tsize t' = tsize t - (if contents equalNoCaseFunc t k = None then 0 else 1) \<and>
       (\<forall>k'. nul_free k' \<longrightarrow> contents equalNoCaseFunc t' k' =
          (if toLowerUnits k' = toLowerUnits k then None else contents equalNoCaseFunc t k'))) \<and>
    (\<exists>t'. tableWrite equalNoCaseFunc hashLowerCase k v t = Some (contents equalNoCaseFunc t k \<noteq> None, t') \<and>
       tableOk equalNoCaseFunc hashLowerCase nul_free t' \<and> tsize t' = tsize t \<and>
       (\<forall>k'. nul_free k' \<longrightarrow> contents equalNoCaseFunc t' k' =
          (if contents equalNoCaseFunc t k \<noteq> None \<and> toLowerUnits k' = toLowerUnits k then Some v
           else contents equalNoCaseFunc t k')))"
proof -
  have eq: "equalNoCaseFunc k' k \<longleftrightarrow> toLowerUnits k' = toLowerUnits k" if "nul_free k'" for k'
    using equalNoCaseFunc_iff [OF that assms(2)] by (simp add: toLowerUnits_eq)
  show ?thesis
  proof (intro conjI)
    show "tableLookup equalNoCaseFunc hashLowerCase k t = Some (contents equalNoCaseFunc t k)"
      by (rule noCaseKey.lookup_exact [OF assms])
  qed (use noCaseKey.insert_exact [OF assms, of v] noCaseKey.remove_exact [OF assms]
         noCaseKey.write_exact [OF assms, of v] in \<open>simp only: eq cong: imp_cong; blast\<close>)+
qed

theorem name_table_is_map_witness:
  "tableLookup equalNoCaseFunc hashLowerCase (units ''CIM_a'') (newTable 32 :: (pstr, nat) table) =
     Some (contents equalNoCaseFunc (newTable 32 :: (pstr, nat) table) (units ''CIM_a''))"
  using name_table_is_map [OF noCaseKey.new_ok [of 32], of "units ''CIM_a''" "0 :: nat"]
  by (simp add: units_def nul_free_def)

text \<open>Keys of different chains are different, so the entries of a table have distinct keys.\<close>

lemma distinct_concat_chains:
  assumes "\<forall>i < length cs. distinct (map fst (cs ! i)) \<and> (\<forall>e \<in> set (cs ! i). f (fst e) = i + d)"
  shows "distinct (map fst (concat cs))"
  using assms
proof (induction cs arbitrary: d)
  case (Cons c cs)
  have "\<forall>i < length cs. distinct (map fst (cs ! i)) \<and> (\<forall>e \<in> set (cs ! i). f (fst e) = i + Suc d)"
    using Cons.prems by (metis Suc_less_eq add_Suc add_Suc_right length_Cons nth_Cons_Suc)
  note IH = Cons.IH [OF this] and rest = this
  have c: "distinct (map fst c)" "\<forall>e \<in> set c. f (fst e) = d"
    using spec [OF Cons.prems, of 0] by simp_all
  have "fst e \<noteq> fst e'" if e: "e \<in> set c" "e' \<in> set (concat cs)" for e e'
  proof -
    obtain x where "x \<in> set cs" "e' \<in> set x" using e(2) by auto
    then obtain i where "i < length cs" "e' \<in> set (cs ! i)" by (auto simp: in_set_conv_nth)
    then have "f (fst e') = i + Suc d" using rest by blast
    moreover have "f (fst e) = d" using c(2) e(1) by blast
    ultimately show ?thesis by auto
  qed
  then have "fst ` set c \<inter> fst ` set (concat cs) = {}" by blast
  with c(1) IH show ?case by simp
qed simp

lemma string_entries_distinct:
  assumes "tableOk stringEqual hashString (\<lambda>_. True) t"
  shows "distinct (map fst (concat (chains t)))"
proof (rule distinct_concat_chains [where d = 0])
  have d: "distinct (map fst c)" if "sorted_wrt (\<lambda>e e'. \<not> stringEqual (fst e) (fst e')) c" for c :: "(pstr \<times> 'a) list"
    using that by (induction c) (auto simp: stringEqual_def)
  show "\<forall>i < length (chains t). distinct (map fst (chains t ! i)) \<and>
      (\<forall>e \<in> set (chains t ! i). unat (hashString (fst e) mod numChains t) = i + 0)"
    using stringKey.chain_entries [OF assms] d by simp
qed

lemma lookupChain_stringEqual: "lookupChain stringEqual k b = map_of b k"
  by (induction b) (auto simp: stringEqual_def)

text \<open>
  C17: filling an empty table of at least one chain with any list of entries, then iterating over it,
  visits each key once, with the first value the list has for it, and as many entries as \<open>size\<close> says;
  lookups agree, and an entry inserted after that and removed again leaves no trace.
\<close>

theorem filled_table_iterates:
  assumes "0 < n"
  shows "\<exists>t. insertAll (tableInsert stringEqual hashString) ps (newTable n) = Some t \<and>
    distinct (map fst (visit (startIterator t))) \<and>
    map_of (visit (startIterator t)) = map_of ps \<and>
    (\<forall>k. tableLookup stringEqual hashString k t = Some (map_of ps k)) \<and>
    tsize t = of_nat (card (fst ` set ps)) \<and>
    (\<forall>k v c t1 t2 k'. tableInsert stringEqual hashString k v t = Some (True, t1) \<longrightarrow>
       tableRemove stringEqual hashString k t1 = Some (c, t2) \<longrightarrow>
       c \<and> tableLookup stringEqual hashString k' t2 = Some (map_of ps k'))"
proof -
  obtain t :: "(pstr, 'a) table" where t: "insertAll (tableInsert stringEqual hashString) ps (newTable n) = Some t"
    "tableOk stringEqual hashString (\<lambda>_. True) t" "\<And>k. contents stringEqual t k = map_of ps k"
    using stringKey.entries.insertAll_look [OF stringKey.new_ok [OF assms], of ps]
    by (auto simp: stringKey.contents_new lookupChain_stringEqual)
  note d = string_entries_distinct [OF t(2)]
  have m: "map_of (concat (chains t)) = map_of ps" using t(3) by (auto simp: contents_def lookupChain_stringEqual)
  have "fst ` set (concat (chains t)) = fst ` set ps" using m by (metis dom_map_of_conv_image_fst)
  moreover have "length (concat (chains t)) = card (fst ` set (concat (chains t)))"
    using distinct_card [OF d] by (simp del: set_concat length_concat)
  moreover have "tsize t = of_nat (length (concat (chains t)))" using t(2) by (simp add: tableOk_def)
  ultimately have size: "tsize t = of_nat (card (fst ` set ps))" by simp
  have undo: "c \<and> tableLookup stringEqual hashString k' t2 = Some (map_of ps k')"
    if "tableInsert stringEqual hashString k v t = Some (True, t1)" "tableRemove stringEqual hashString k t1 = Some (c, t2)"
    for k v c t1 t2 k'
  proof -
    have "tableOk stringEqual hashString (\<lambda>_. True) t1" using stringKey.insert_exact [OF t(2), of k v] that(1) by auto
    then have ok: "tableOk stringEqual hashString (\<lambda>_. True) t2" using stringKey.remove_exact [of t1 k] that(2) by auto
    from stringKey.entries.del_ins [OF t(2) TrueI that TrueI]
    have "c" "contents stringEqual t2 k' = contents stringEqual t k'" by blast+
    then show ?thesis using stringKey.lookup_exact [OF ok, of k'] t(3) by simp
  qed
  show ?thesis
    unfolding visit_start
    using t(1) d m size undo stringKey.lookup_exact [OF t(2) TrueI, unfolded t(3)] by blast
qed

theorem filled_table_iterates_witness:
  "\<exists>t. insertAll (tableInsert stringEqual hashString) [(units ''a'', 1 :: nat), (units ''b'', 2), (units ''a'', 3)] (newTable 4) = Some t \<and>
    tsize t = 2 \<and> tableLookup stringEqual hashString (units ''a'') t = Some (Some 1)"
proof -
  let ?ps = "[(units ''a'', 1 :: nat), (units ''b'', 2), (units ''a'', 3)]"
  have c: "card (fst ` set ?ps) = 2" by (simp add: units_def insert_commute card_insert_if)
  show ?thesis
    using filled_table_iterates [of 4 ?ps] unfolding c by (auto simp: units_def)
qed

text \<open>
  The documentation promises eight chains when fewer are asked for, the table gets as many as
  asked, and with none every operation divides by zero. A name with an embedded NUL may be equal to
  another without hashing alike: inserted after it, it is a second entry, and neither shadows the other.
\<close>

theorem table_defects:
  "numChains (newTable n :: (pstr, 'v) table) = n \<and> length (chains (newTable n :: (pstr, 'v) table)) = unat n \<and>
   tableInsert eq hash k v (newTable 0) = None \<and> tableLookup eq hash k (newTable 0 :: ('k, 'v) table) = None \<and>
   (let a = units ''ab''; b = units ''ab'' @ [0, 0] in
      equalNoCaseFunc a b \<and>
      (\<exists>t1 t2. tableInsert equalNoCaseFunc hashLowerCase a x (newTable 32) = Some (True, t1) \<and>
         tableInsert equalNoCaseFunc hashLowerCase b y t1 = Some (True, t2) \<and>
         tableLookup equalNoCaseFunc hashLowerCase a t2 = Some (Some x) \<and>
         tableLookup equalNoCaseFunc hashLowerCase b t2 = Some (Some y)))"
proof -
  let ?a = "units ''ab''" and ?b = "units ''ab'' @ [0, 0]"
  have eq: "equalNoCaseFunc ?a ?b" "equalNoCaseFunc ?a ?a" "equalNoCaseFunc ?b ?b"
    using byLower.cmp_eq_0 [of ?a ?b] byLower.cmp_eq_0 [of ?a ?a] byLower.cmp_eq_0 [of ?b ?b]
    by (simp_all add: equalNoCaseFunc_def beforeNul_def units_def)
  have ha: "hashLowerCase ?a = 0xC262"
    by (simp add: hashLowerCase_def hashFours.simps units_def lowerStep_def hashLowerTable_def)
  have hb: "hashLowerCase ?b = 0x09880003"
    by (simp add: hashLowerCase_def hashFours.simps units_def lowerStep_def hashLowerTable_def)
  show ?thesis
    using eq by (simp add: newTable_def tableInsert_def tableLookup_def chainIndex_def ha hb Let_def)
qed

end
