(* ===== verification/CimName.thy ===== *)
theory CimName
  imports CommonUtf HashTab
begin

section \<open>CIMName and CIMNamespaceName\<close>

text \<open>
  \<^verbatim>\<open>Pegasus/Common/CIMName.cpp\<close> and \<^verbatim>\<open>CIMNameInline.h\<close>: the test for a legal name with its unrolled loop,
  the constructors from strings and from bytes, the latter with a fast path for ASCII, the names of
  namespaces, and the comparison without regard to case. The name itself is the \<open>String\<close> it holds.
\<close>

subsection \<open>CIMName\<close>

text \<open>The two character tests of the loops, which test for 7-bit ASCII first.\<close>

definition nameStart :: "u16 \<Rightarrow> bool" where
  "nameStart c \<longleftrightarrow> c < 128 \<and> isAlphaUnder (ucast c) \<or> 0x0080 \<le> c \<and> c \<le> 0xFFEF"

definition asciiPart :: "u16 \<Rightarrow> bool" where
  "asciiPart c \<longleftrightarrow> c < 128 \<and> isAlNumUnder (ucast c)"

definition namePart :: "u16 \<Rightarrow> bool" where
  "namePart c \<longleftrightarrow> asciiPart c \<or> 0x0080 \<le> c \<and> c \<le> 0xFFEF"

function skipFours :: "pstr \<Rightarrow> pstr" where
  "skipFours p =
    (if 4 \<le> length p \<and> asciiPart (p ! 0) \<and> asciiPart (p ! 1) \<and> asciiPart (p ! 2) \<and> asciiPart (p ! 3)
     then skipFours (drop 4 p) else p)"
  by pat_completeness auto
termination by (relation "measure length") auto

declare skipFours.simps [simp del]

fun checkParts :: "pstr \<Rightarrow> bool" where
  "checkParts [] = True"
| "checkParts (c # p) = (if \<not> namePart c then False else checkParts p)"

text \<open>The first character is read before the size is looked at; that of the empty string is the
  terminator, which no name starts with.\<close>

definition cimNameLegal :: "pstr \<Rightarrow> bool" where
  "cimNameLegal name = (if \<not> nameStart (cur name) then False else checkParts (skipFours (tl name)))"

fun legalAsciiLoop :: "cstr \<Rightarrow> nat \<Rightarrow> nat" where
  "legalAsciiLoop [] n = n"
| "legalAsciiLoop (c # p) n = (if \<not> isAlNumUnder c then 0 else legalAsciiLoop p (n + 1))"

definition CIMNameLegalASCII :: "cstr \<Rightarrow> nat" where
  "CIMNameLegalASCII str = (if \<not> isAlphaUnder (cur str) then 0 else legalAsciiLoop (tl str) 1)"

datatype nameError = InvalidName pstr | InvalidNameBytes cstr | InvalidNamespaceName pstr | NameBadUTF8 nat

definition cimName :: "pstr \<Rightarrow> nameError + pstr" where
  "cimName name = (if \<not> cimNameLegal name then Inl (InvalidName name) else Inr name)"

definition cimNameUtf8 :: "cstr \<Rightarrow> nameError + pstr" where
  "cimNameUtf8 name =
    (let sz = CIMNameLegalASCII name in
     if sz = 0 then
       (case copyFromUTF8 name of
          Inl i \<Rightarrow> Inl (NameBadUTF8 i)
        | Inr s \<Rightarrow> if \<not> cimNameLegal s then Inl (InvalidNameBytes name) else Inr s)
     else Inr (map ucast (take sz name)))"

definition cimNameEqual :: "pstr \<Rightarrow> pstr \<Rightarrow> bool" where
  "cimNameEqual a b = equalNoCase a b"

subsection \<open>CIMNamespaceName\<close>

fun nsElement :: "pstr \<Rightarrow> bool" and nsRest :: "pstr \<Rightarrow> bool" where
  "nsElement [] = False"
| "nsElement (ch # p) = (if \<not> nameStart ch then False else nsRest p)"
| "nsRest [] = True"
| "nsRest (ch # p) = (if ch = 47 then nsElement p else if \<not> namePart ch then False else nsRest p)"

definition namespaceLegal :: "pstr \<Rightarrow> bool" where
  "namespaceLegal name = nsElement (if cur name = 47 then tl name else name)"

definition checkNamespaceName :: "pstr \<Rightarrow> nameError + pstr" where
  "checkNamespaceName name =
    (if \<not> namespaceLegal name then Inl (InvalidNamespaceName name)
     else Inr (if cur name = 47 then tl name else name))"

subsection \<open>Properties\<close>

lemma checkParts_iff: "checkParts p \<longleftrightarrow> (\<forall>c \<in> set p. namePart c)"
  by (induction p) auto

lemma skipFours_parts: "checkParts (skipFours p) = checkParts p"
proof (induction p rule: skipFours.induct)
  case (1 p)
  show ?case
  proof (cases "4 \<le> length p \<and> asciiPart (p ! 0) \<and> asciiPart (p ! 1) \<and> asciiPart (p ! 2) \<and> asciiPart (p ! 3)")
    case True
    then have "p = p ! 0 # p ! 1 # p ! 2 # p ! 3 # drop 4 p"
      by (auto simp: numeral_eq_Suc Suc_le_length_iff)
    moreover have "checkParts (p ! 0 # p ! 1 # p ! 2 # p ! 3 # drop 4 p) = checkParts (drop 4 p)"
      using True by (simp add: namePart_def)
    ultimately have "checkParts p = checkParts (drop 4 p)" by simp
    moreover have "skipFours p = skipFours (drop 4 p)" using True by (subst skipFours.simps) simp
    ultimately show ?thesis using 1 [OF True] by simp
  next
    case False
    then have "skipFours p = p" by (subst skipFours.simps) (rule if_not_P)
    then show ?thesis by simp
  qed
qed

lemma nameStart_0: "\<not> nameStart 0" and namePart_0: "\<not> namePart 0"
  by (simp_all add: nameStart_def namePart_def asciiPart_def charset_eq isAlNumUnderAscii_def isAlphaUnderAscii_def
      isupper_def isLowerAscii_def isdigit_def)

lemma namePart_slash: "\<not> namePart 47" and nameStart_slash: "\<not> nameStart 47"
  by (simp_all add: nameStart_def namePart_def asciiPart_def charset_eq isAlNumUnderAscii_def isAlphaUnderAscii_def
      isupper_def isLowerAscii_def isdigit_def)

lemma nameStart_part: "nameStart c \<Longrightarrow> namePart c"
  by (auto simp: nameStart_def namePart_def asciiPart_def charset_eq isAlNumUnderAscii_def)

lemma cimNameLegal_iff: "cimNameLegal s \<longleftrightarrow> s \<noteq> [] \<and> nameStart (hd s) \<and> (\<forall>c \<in> set s. namePart c)"
  by (cases s) (auto simp: cimNameLegal_def skipFours_parts nameStart_0 nameStart_part simp flip: checkParts_iff)

lemma cimNameLegal_nul_free: "cimNameLegal s \<Longrightarrow> nul_free s"
  by (auto simp: cimNameLegal_iff nul_free_def namePart_0)

text \<open>The ASCII fast path.\<close>

lemma legalAsciiLoop_pos:
  "legalAsciiLoop p n = (if (\<forall>c \<in> set p. isAlNumUnder c) then n + length p else 0)"
  by (induction p arbitrary: n) auto

lemma alnum_ascii: "isAlNumUnder c \<Longrightarrow> c < 128"
  by (auto simp: charset_eq isAlNumUnderAscii_def isAlphaUnderAscii_def isupper_def isLowerAscii_def isdigit_def word_le_unat word_less_unat)

lemma alpha_alnum: "isAlphaUnder c \<Longrightarrow> isAlNumUnder c"
  by (simp add: charset_eq isAlNumUnderAscii_def)

lemma byte_tests: "c < 128 \<Longrightarrow> asciiPart (ucast c) = isAlNumUnder c" "c < 128 \<Longrightarrow> nameStart (ucast c) = isAlphaUnder c" for c :: u8
proof -
  assume "c < 128"
  then have "unat (ucast c :: u16) < 128" by (simp add: ucast_byte word_less_unat)
  then show "asciiPart (ucast c) = isAlNumUnder c" "nameStart (ucast c) = isAlphaUnder c"
    unfolding asciiPart_def nameStart_def byte_back by (auto simp: word_less_unat word_le_unat)
qed

lemma fromLoop_all_ascii: "\<forall>c \<in> set p. c < 128 \<Longrightarrow> fromLoop p = Inr (map ucast p)"
  using fromLoop_ascii_prefix [of p "[]"] by (simp add: fromLoop.simps [of "[]"])

lemma cimNameUtf8_ascii:
  assumes "CIMNameLegalASCII str \<noteq> 0"
  shows "copyFromUTF8 str = Inr (map ucast str)" and "cimNameLegal (map ucast str)" and "CIMNameLegalASCII str = length str"
proof -
  have h: "isAlphaUnder (cur str)" "\<forall>c \<in> set (tl str). isAlNumUnder c"
    using assms by (auto simp: CIMNameLegalASCII_def legalAsciiLoop_pos split: if_splits)
  have "\<not> isAlphaUnder 0"
    by (simp add: charset_eq isAlphaUnderAscii_def isupper_def isLowerAscii_def)
  with h(1) obtain c p where str: "str = c # p" by (cases str) auto
  have all: "\<forall>c \<in> set str. isAlNumUnder c" using h str alpha_alnum by auto
  then have low: "\<forall>c \<in> set str. c < 128" using alnum_ascii by blast
  show "copyFromUTF8 str = Inr (map ucast str)" by (simp add: copyFromUTF8_loop fromLoop_all_ascii [OF low])
  show "cimNameLegal (map ucast str)"
    using str h low all by (auto simp: cimNameLegal_iff byte_tests namePart_def)
  show "CIMNameLegalASCII str = length str"
    using h str by (simp add: CIMNameLegalASCII_def legalAsciiLoop_pos)
qed

text \<open>Splitting at the slashes, the reference for the two loops of the namespace test.\<close>

fun slashSplit :: "pstr \<Rightarrow> pstr list" where
  "slashSplit [] = [[]]"
| "slashSplit (c # p) = (if c = 47 then [] # slashSplit p
     else (case slashSplit p of [] \<Rightarrow> [[c]] | e # es \<Rightarrow> (c # e) # es))"

lemma slashSplit_ne: "slashSplit p \<noteq> []"
  by (induction p) (auto split: list.split)

lemma nsElement_split:
  "nsElement p \<longleftrightarrow> (\<forall>e \<in> set (slashSplit p). cimNameLegal e)"
  "nsRest p \<longleftrightarrow> (\<forall>c \<in> set (hd (slashSplit p)). namePart c) \<and> (\<forall>e \<in> set (tl (slashSplit p)). cimNameLegal e)"
proof (induction p rule: nsElement_nsRest.induct)
  case 1
  then show ?case by (simp add: cimNameLegal_iff)
next
  case (2 ch p)
  obtain e es where s: "slashSplit p = e # es" using slashSplit_ne [of p] by (cases "slashSplit p") auto
  show ?case
  proof (cases "nameStart ch")
    case True
    then have "ch \<noteq> 47" using nameStart_slash by auto
    then show ?thesis using 2 True s nameStart_part [OF True] by (simp add: cimNameLegal_iff)
  next
    case False
    then show ?thesis using s by (auto simp: cimNameLegal_iff)
  qed
next
  case 3
  then show ?case by simp
next
  case (4 ch p)
  obtain e es where s: "slashSplit p = e # es" using slashSplit_ne [of p] by (cases "slashSplit p") auto
  then show ?case using 4 by auto
qed

text \<open>
  C24: a CIM name is legal exactly when it is not empty, starts with a letter, an underscore or a
  character from U+0080 to U+FFEF, and goes on with these and digits; the constructor from bytes, fast
  path included, accepts exactly the UTF-8 texts of legal names and holds their text; a namespace name
  is legal exactly when it is a sequence of legal names separated by slashes, after a first slash that
  the constructor drops. Legal names have no NUL, so that they may be keys of a table of names.
\<close>

theorem names_exact:
  "(cimNameLegal s \<longleftrightarrow> s \<noteq> [] \<and> nameStart (hd s) \<and> (\<forall>c \<in> set s. namePart c)) \<and>
   cimNameUtf8 b = (case copyFromUTF8 b of Inl i \<Rightarrow> Inl (NameBadUTF8 i)
     | Inr s \<Rightarrow> if cimNameLegal s then Inr s else Inl (InvalidNameBytes b)) \<and>
   (namespaceLegal s \<longleftrightarrow> (\<forall>e \<in> set (slashSplit (if cur s = 47 then tl s else s)). cimNameLegal e)) \<and>
   (cimNameLegal s \<longrightarrow> nul_free s) \<and> (namespaceLegal s \<longrightarrow> nul_free s) \<and>
   (checkNamespaceName s = Inr n \<longrightarrow> checkNamespaceName n = Inr n)"
proof (intro conjI)
  show "cimNameLegal s \<longleftrightarrow> s \<noteq> [] \<and> nameStart (hd s) \<and> (\<forall>c \<in> set s. namePart c)" by (rule cimNameLegal_iff)
  show "cimNameUtf8 b = (case copyFromUTF8 b of Inl i \<Rightarrow> Inl (NameBadUTF8 i)
     | Inr s \<Rightarrow> if cimNameLegal s then Inr s else Inl (InvalidNameBytes b))"
    using cimNameUtf8_ascii [of b] by (auto simp: cimNameUtf8_def Let_def split: sum.split)
  show ns: "namespaceLegal s \<longleftrightarrow> (\<forall>e \<in> set (slashSplit (if cur s = 47 then tl s else s)). cimNameLegal e)" for s
    by (simp add: namespaceLegal_def nsElement_split(1))
  show "cimNameLegal s \<longrightarrow> nul_free s" using cimNameLegal_nul_free by blast
  have free: "(\<forall>e \<in> set (slashSplit p). nul_free e) \<Longrightarrow> nul_free p" for p
  proof (induction p)
    case (Cons c p)
    obtain e es where "slashSplit p = e # es" using slashSplit_ne [of p] by (cases "slashSplit p") auto
    with Cons show ?case by (auto split: if_splits)
  qed simp
  have "nul_free (if cur s = 47 then tl s else s)" if "namespaceLegal s"
    using that free cimNameLegal_nul_free unfolding ns by blast
  then show "namespaceLegal s \<longrightarrow> nul_free s" by (cases s) (auto split: if_splits)
  show "checkNamespaceName s = Inr n \<longrightarrow> checkNamespaceName n = Inr n"
  proof
    assume "checkNamespaceName s = Inr n"
    then have n: "nsElement n" by (auto simp: checkNamespaceName_def namespaceLegal_def split: if_splits)
    then obtain c p where "n = c # p" "nameStart c" by (cases n) (auto split: if_splits)
    then have "cur n \<noteq> 47" using nameStart_slash by auto
    with n show "checkNamespaceName n = Inr n" by (simp add: checkNamespaceName_def namespaceLegal_def)
  qed
qed

theorem names_exact_witness:
  "cimNameLegal (units ''CIM_Foo'') \<and> \<not> cimNameLegal (units ''1a'') \<and> namespaceLegal (units ''/root/cimv2'')"
proof -
  have "(\<forall>e \<in> set (slashSplit (units ''root/cimv2'')). cimNameLegal e)"
    by (simp add: units_def cimNameLegal_iff nameStart_def namePart_def asciiPart_def isAlphaUnder_def isAlNumUnder_def
        isAlphaUnderTable_def isAlNumUnderTable_def)
  then have "namespaceLegal (units ''/root/cimv2'')"
    using names_exact [of "units ''/root/cimv2''"] by (simp add: units_def)
  moreover have "cimNameLegal (units ''CIM_Foo'')" "\<not> cimNameLegal (units ''1a'')"
    using names_exact [of "units ''CIM_Foo''"] names_exact [of "units ''1a''"]
    by (simp_all add: units_def nameStart_def namePart_def asciiPart_def isAlphaUnder_def isAlNumUnder_def
        isAlphaUnderTable_def isAlNumUnderTable_def)
  ultimately show ?thesis by blast
qed

end
