(* ===== verification/InheritTree.thy ===== *)
theory InheritTree
  imports CimName
begin

section \<open>InheritanceTree: the class hierarchy of a namespace\<close>

text \<open>
  \<^verbatim>\<open>Pegasus/Repository/InheritanceTree.cpp\<close>. The nodes of all trees live in one store; a node's children are
  a chain through their \<open>sibling\<close> pointers, and a tree is the hash table from class names to nodes. The
  union of \<open>subClasses\<close> and \<open>extNodes\<close> is \<open>links\<close>: an extension node stands in the tree of a parent
  namespace for a class of its dependent namespaces, each entry a namespace and its node there. Trees
  and namespaces are identified by numbers. Reading a node that is not there, the wrong member of the
  union, or the extensions of a node whose array has been deleted is \<open>Undefined\<close>, and so is a loop that
  has not ended when its fuel, the number of nodes ever made, is used up.

  The second half gives the abstract view: a hierarchy of names. Inserting and removing classes is
  shown to be insertion and removal there, and the loops to return, with the ancestors and descendants.
\<close>

subsection \<open>State\<close>

datatype links = Subs "nat option" | Exts "(nat \<times> nat) list" | FreedExts

record inode =
  iname :: pstr
  isuper :: "nat option"
  isibling :: "nat option"
  ilinks :: links
  iprov :: bool

record forest =
  nodes :: "nat \<Rightarrow> inode option"
  nextNode :: nat
  trees :: "nat \<Rightarrow> (pstr, nat) table option"

datatype cimError =
    InvalidNamespace pstr
  | InvalidClass pstr
  | InvalidSuperclass pstr
  | ClassHasChildren pstr
  | AlreadyExists pstr
  | NotFound pstr
  | AccessDenied pstr
  | Failed pstr
  | InvalidInheritanceTree pstr

type_synonym ('s, 'a) sprog = "'s \<Rightarrow> (cimError, 'a \<times> 's) outcome"

type_synonym 'a fprog = "(forest, 'a) sprog"

definition retF :: "'a \<Rightarrow> ('s, 'a) sprog" where
  "retF x s = Done (x, s)"

definition bindF :: "('s, 'a) sprog \<Rightarrow> ('a \<Rightarrow> ('s, 'b) sprog) \<Rightarrow> ('s, 'b) sprog" where
  "bindF m f s = (case m s of Done (x, s') \<Rightarrow> f x s' | Throws e \<Rightarrow> Throws e | Undefined \<Rightarrow> Undefined)"

definition throwF :: "cimError \<Rightarrow> ('s, 'a) sprog" where
  "throwF e s = Throws e"

definition undefinedF :: "('s, 'a) sprog" where
  "undefinedF s = Undefined"

definition getNode :: "nat \<Rightarrow> inode fprog" where
  "getNode a s = (case nodes s a of Some n \<Rightarrow> Done (n, s) | None \<Rightarrow> Undefined)"

definition putNode :: "nat \<Rightarrow> inode \<Rightarrow> unit fprog" where
  "putNode a n s = Done ((), s\<lparr>nodes := (nodes s)(a \<mapsto> n)\<rparr>)"

definition deleteNode :: "nat \<Rightarrow> unit fprog" where
  "deleteNode a s = (if nodes s a = None then Undefined else Done ((), s\<lparr>nodes := (nodes s)(a := None)\<rparr>))"

text \<open>\<open>InheritanceTreeNode::InheritanceTreeNode\<close>.\<close>

definition newNode :: "pstr \<Rightarrow> nat fprog" where
  "newNode name s =
    Done (nextNode s,
      s\<lparr>nodes := (nodes s)(nextNode s \<mapsto>
          \<lparr>iname = name, isuper = None, isibling = None, ilinks = Subs None, iprov = True\<rparr>),
        nextNode := Suc (nextNode s)\<rparr>)"

definition getTree :: "nat \<Rightarrow> (pstr, nat) table fprog" where
  "getTree t s = (case trees s t of Some tb \<Rightarrow> Done (tb, s) | None \<Rightarrow> Undefined)"

definition putTree :: "nat \<Rightarrow> (pstr, nat) table \<Rightarrow> unit fprog" where
  "putTree t tb s = Done ((), s\<lparr>trees := (trees s)(t \<mapsto> tb)\<rparr>)"

definition emptyTree :: "(pstr, nat) table" where
  "emptyTree = newTable 256"

definition lookupClass :: "nat \<Rightarrow> pstr \<Rightarrow> nat option fprog" where
  "lookupClass t name =
    bindF (getTree t) (\<lambda>tb.
      case tableLookup equalNoCaseFunc hashLowerCase name tb of None \<Rightarrow> undefinedF | Some r \<Rightarrow> retF r)"

definition enterClass :: "nat \<Rightarrow> pstr \<Rightarrow> nat \<Rightarrow> unit fprog" where
  "enterClass t name a =
    bindF (getTree t) (\<lambda>tb.
      case tableInsert equalNoCaseFunc hashLowerCase name a tb of
        None \<Rightarrow> undefinedF | Some (_, tb') \<Rightarrow> putTree t tb')"

definition dropClass :: "nat \<Rightarrow> pstr \<Rightarrow> unit fprog" where
  "dropClass t name =
    bindF (getTree t) (\<lambda>tb.
      case tableRemove equalNoCaseFunc hashLowerCase name tb of
        None \<Rightarrow> undefinedF | Some (_, tb') \<Rightarrow> putTree t tb')"

subsection \<open>Nodes\<close>

definition addSubClass :: "nat \<Rightarrow> nat \<Rightarrow> unit fprog" where
  "addSubClass this sub =
    bindF (getNode sub) (\<lambda>n. bindF (putNode sub (n\<lparr>isuper := Some this\<rparr>)) (\<lambda>_.
    bindF (getNode this) (\<lambda>p.
      case ilinks p of
        Subs q \<Rightarrow>
          bindF (getNode sub) (\<lambda>n. bindF (putNode sub (n\<lparr>isibling := q\<rparr>)) (\<lambda>_.
          bindF (getNode this) (\<lambda>p. putNode this (p\<lparr>ilinks := Subs (Some sub)\<rparr>))))
      | _ \<Rightarrow> undefinedF)))"

primrec removeLoop :: "nat \<Rightarrow> nat \<Rightarrow> nat \<Rightarrow> nat option \<Rightarrow> nat option \<Rightarrow> bool fprog" where
  "removeLoop 0 this sub prev p = undefinedF"
| "removeLoop (Suc fuel) this sub prev p =
    (case p of
       None \<Rightarrow> retF False
     | Some a \<Rightarrow>
         bindF (getNode a) (\<lambda>n.
           if a = sub then
             (case prev of
                Some b \<Rightarrow> bindF (getNode b) (\<lambda>m. bindF (putNode b (m\<lparr>isibling := isibling n\<rparr>)) (\<lambda>_. retF True))
              | None \<Rightarrow> bindF (getNode this) (\<lambda>m. bindF (putNode this (m\<lparr>ilinks := Subs (isibling n)\<rparr>)) (\<lambda>_. retF True)))
           else removeLoop fuel this sub (Some a) (isibling n)))"

definition removeSubClass :: "nat \<Rightarrow> nat \<Rightarrow> bool fprog" where
  "removeSubClass this sub =
    bindF (getNode this) (\<lambda>p.
      case ilinks p of
        Subs q \<Rightarrow> (\<lambda>s. removeLoop (Suc (nextNode s)) this sub None q s)
      | _ \<Rightarrow> undefinedF)"

text \<open>
  \<open>getSubClassNames\<close> of a node. For an extension node the name is written once per entry up to the one
  of the namespace asked for, and the node of that namespace is followed; with no namespace, all are.
\<close>

primrec extLoop :: "(nat \<Rightarrow> pstr list fprog) \<Rightarrow> pstr \<Rightarrow> nat option \<Rightarrow> (nat \<times> nat) list \<Rightarrow> pstr list fprog" where
  "extLoop follow name ns [] = retF []"
| "extLoop follow name ns (itx # rest) =
    (if ns = None then
       bindF (follow (snd itx)) (\<lambda>l. bindF (extLoop follow name ns rest) (\<lambda>m. retF (name # l @ m)))
     else if ns = Some (fst itx) then bindF (follow (snd itx)) (\<lambda>l. retF (name # l))
     else bindF (extLoop follow name ns rest) (\<lambda>m. retF (name # m)))"

definition followSubs :: "(nat option \<Rightarrow> pstr list fprog) \<Rightarrow> nat \<Rightarrow> pstr list fprog" where
  "followSubs loop a = bindF (getNode a) (\<lambda>n. case ilinks n of Subs q \<Rightarrow> loop q | _ \<Rightarrow> undefinedF)"

primrec subLoop :: "nat \<Rightarrow> bool \<Rightarrow> nat option \<Rightarrow> nat option \<Rightarrow> pstr list fprog" where
  "subLoop 0 deep ns p = undefinedF"
| "subLoop (Suc fuel) deep ns p =
    (case p of
       None \<Rightarrow> retF []
     | Some a \<Rightarrow>
         bindF (getNode a) (\<lambda>n.
         bindF (case ilinks n of
                  Exts es \<Rightarrow> extLoop (followSubs (subLoop fuel deep ns)) (iname n) ns es
                | Subs q \<Rightarrow> if deep then bindF (subLoop fuel True ns q) (\<lambda>l. retF (iname n # l)) else retF [iname n]
                | FreedExts \<Rightarrow> undefinedF)
           (\<lambda>l. bindF (subLoop fuel deep ns (isibling n)) (\<lambda>m. retF (l @ m)))))"

definition nodeSubClassNames :: "nat \<Rightarrow> bool \<Rightarrow> nat option \<Rightarrow> pstr list fprog" where
  "nodeSubClassNames a deep ns s = followSubs (subLoop (Suc (nextNode s)) deep ns) a s"

primrec superLoop :: "nat \<Rightarrow> nat option \<Rightarrow> pstr list fprog" where
  "superLoop 0 p = undefinedF"
| "superLoop (Suc fuel) p =
    (case p of
       None \<Rightarrow> retF []
     | Some a \<Rightarrow> bindF (getNode a) (\<lambda>n. bindF (superLoop fuel (isuper n)) (\<lambda>l. retF (iname n # l))))"

definition nodeSuperClassNames :: "nat \<Rightarrow> pstr list fprog" where
  "nodeSuperClassNames a s = bindF (getNode a) (\<lambda>n. superLoop (Suc (nextNode s)) (isuper n)) s"

subsection \<open>The tree\<close>

definition findOrMake :: "nat \<Rightarrow> pstr \<Rightarrow> nat fprog" where
  "findOrMake t name =
    bindF (lookupClass t name) (\<lambda>r.
      case r of
        Some a \<Rightarrow> retF a
      | None \<Rightarrow> bindF (newNode name) (\<lambda>a. bindF (enterClass t name a) (\<lambda>_. retF a)))"

definition insertTree :: "nat \<Rightarrow> pstr \<Rightarrow> pstr \<Rightarrow> unit fprog" where
  "insertTree t className superClassName =
    bindF (if superClassName \<noteq> [] then bindF (findOrMake t superClassName) (\<lambda>a. retF (Some a)) else retF None)
     (\<lambda>superNode.
    bindF (findOrMake t className) (\<lambda>classNode.
    bindF (getNode classNode) (\<lambda>n. bindF (putNode classNode (n\<lparr>iprov := False\<rparr>)) (\<lambda>_.
      case superNode of Some p \<Rightarrow> addSubClass p classNode | None \<Rightarrow> retF ()))))"

text \<open>
  The overload for a namespace with a parent: the class is entered here, and an extension node stands
  for it in the tree of the parent.
\<close>

definition insertTreeExt :: "nat \<Rightarrow> pstr \<Rightarrow> pstr \<Rightarrow> nat \<Rightarrow> nat \<Rightarrow> unit fprog" where
  "insertTreeExt t className superClassName parentTree tag =
    bindF (if superClassName \<noteq> [] then bindF (findOrMake parentTree superClassName) (\<lambda>a. retF (Some a)) else retF None)
     (\<lambda>superNode.
    bindF (bindF (lookupClass parentTree className) (\<lambda>r.
             case r of
               Some a \<Rightarrow> retF a
             | None \<Rightarrow>
                 bindF (newNode className) (\<lambda>a. bindF (enterClass parentTree className a) (\<lambda>_.
                 bindF (getNode a) (\<lambda>n. bindF (putNode a (n\<lparr>ilinks := Exts []\<rparr>)) (\<lambda>_. retF a))))))
     (\<lambda>extNode.
    bindF (getNode extNode) (\<lambda>n. bindF (putNode extNode (n\<lparr>iprov := False\<rparr>)) (\<lambda>_.
    bindF (case superNode of Some p \<Rightarrow> addSubClass p extNode | None \<Rightarrow> retF ()) (\<lambda>_.
    bindF (findOrMake t className) (\<lambda>classNode.
    bindF (getNode extNode) (\<lambda>n.
      case ilinks n of
        Exts es \<Rightarrow>
          bindF (putNode extNode (n\<lparr>ilinks := Exts (es @ [(tag, classNode)])\<rparr>)) (\<lambda>_.
          bindF (getNode classNode) (\<lambda>c. putNode classNode (c\<lparr>isuper := superNode\<rparr>)))
      | _ \<Rightarrow> undefinedF)))))))"

primrec checkLoop :: "(pstr \<times> nat) list \<Rightarrow> unit fprog" where
  "checkLoop [] = retF ()"
| "checkLoop (e # es) =
    bindF (getNode (snd e)) (\<lambda>n. if iprov n then throwF (InvalidInheritanceTree (iname n)) else checkLoop es)"

definition checkTree :: "nat \<Rightarrow> unit fprog" where
  "checkTree t = bindF (getTree t) (\<lambda>tb. checkLoop (visit (startIterator tb)))"

text \<open>\<open>getSubClassNames\<close>: without a class name all classes, or the roots; else those below the class.\<close>

primrec allLoop :: "bool \<Rightarrow> nat option \<Rightarrow> (pstr \<times> nat) list \<Rightarrow> pstr list fprog" where
  "allLoop deep ns [] = retF []"
| "allLoop deep ns (e # es) =
    bindF (getNode (snd e)) (\<lambda>itn.
    bindF (case ilinks itn of
             Exts xs \<Rightarrow>
               (case ns of
                  None \<Rightarrow> retF []
                | Some tag \<Rightarrow>
                    (case find (\<lambda>itx. fst itx = tag) xs of
                       None \<Rightarrow> retF []
                     | Some itx \<Rightarrow>
                         if deep then bindF (nodeSubClassNames (snd itx) deep ns) (\<lambda>l. retF (fst e # l))
                         else retF (if isuper itn = None then [fst e] else [])))
           | Subs _ \<Rightarrow> retF (if deep \<or> isuper itn = None then [fst e] else [])
           | FreedExts \<Rightarrow> undefinedF)
     (\<lambda>l. bindF (allLoop deep ns es) (\<lambda>m. retF (l @ m))))"

primrec findEntry :: "pstr \<Rightarrow> (pstr \<times> nat) list \<Rightarrow> nat option" where
  "findEntry className [] = None"
| "findEntry className (e # es) = (if cimNameEqual className (fst e) then Some (snd e) else findEntry className es)"

definition treeSubClassNames :: "nat \<Rightarrow> pstr \<Rightarrow> bool \<Rightarrow> nat option \<Rightarrow> pstr list option fprog" where
  "treeSubClassNames t className deep ns =
    bindF (getTree t) (\<lambda>tb.
      if className = [] then bindF (allLoop deep ns (visit (startIterator tb))) (\<lambda>l. retF (Some l))
      else (case findEntry className (visit (startIterator tb)) of
              Some a \<Rightarrow> bindF (nodeSubClassNames a deep ns) (\<lambda>l. retF (Some l))
            | None \<Rightarrow> retF None))"

definition treeSuperClassNames :: "nat \<Rightarrow> pstr \<Rightarrow> pstr list option fprog" where
  "treeSuperClassNames t className =
    bindF (lookupClass t className) (\<lambda>r.
      case r of Some a \<Rightarrow> bindF (nodeSuperClassNames a) (\<lambda>l. retF (Some l)) | None \<Rightarrow> retF None)"

text \<open>The superclass of a class, the null name for a root, and nothing for an unknown class.\<close>

definition treeSuperClass :: "nat \<Rightarrow> pstr \<Rightarrow> pstr option fprog" where
  "treeSuperClass t className =
    bindF (lookupClass t className) (\<lambda>r.
      case r of
        Some a \<Rightarrow>
          bindF (getNode a) (\<lambda>n.
            case isuper n of
              Some p \<Rightarrow> bindF (getNode p) (\<lambda>m. retF (Some (iname m)))
            | None \<Rightarrow> retF (Some []))
      | None \<Rightarrow> retF None)"

definition hasLinks :: "inode \<Rightarrow> bool" where
  "hasLinks n = (case ilinks n of Subs q \<Rightarrow> q \<noteq> None | _ \<Rightarrow> True)"

definition hasSubClasses :: "nat \<Rightarrow> pstr \<Rightarrow> bool option fprog" where
  "hasSubClasses t className =
    bindF (lookupClass t className) (\<lambda>r.
      case r of Some a \<Rightarrow> bindF (getNode a) (\<lambda>n. retF (Some (hasLinks n))) | None \<Rightarrow> retF None)"

definition containsClass :: "nat \<Rightarrow> pstr \<Rightarrow> bool fprog" where
  "containsClass t className = bindF (lookupClass t className) (\<lambda>r. retF (r \<noteq> None))"

text \<open>\<open>remove\<close>; the tag is the namespace when it has a parent.\<close>

definition removeExt :: "nat \<Rightarrow> pstr \<Rightarrow> nat \<Rightarrow> nat \<Rightarrow> unit fprog" where
  "removeExt parentTree className tag itn =
    bindF (getNode itn) (\<lambda>n.
      case ilinks n of
        Exts es \<Rightarrow>
          (let rest = takeWhile (\<lambda>itx. fst itx \<noteq> tag) es @ drop 1 (dropWhile (\<lambda>itx. fst itx \<noteq> tag) es) in
           if rest = [] then
             bindF (putNode itn (n\<lparr>ilinks := FreedExts\<rparr>)) (\<lambda>_. dropClass parentTree className)
           else putNode itn (n\<lparr>ilinks := Exts rest\<rparr>))
      | FreedExts \<Rightarrow> undefinedF
      | Subs _ \<Rightarrow> retF ())"

definition removeTree :: "nat \<Rightarrow> pstr \<Rightarrow> nat \<Rightarrow> nat option \<Rightarrow> unit fprog" where
  "removeTree t className parentTree tag =
    bindF (lookupClass t className) (\<lambda>r.
      case r of
        None \<Rightarrow> throwF (InvalidClass className)
      | Some node \<Rightarrow>
          bindF (getNode node) (\<lambda>n.
            if hasLinks n then throwF (ClassHasChildren className)
            else
              bindF (case tag of
                       Some ns \<Rightarrow>
                         bindF (lookupClass parentTree className) (\<lambda>q.
                           case q of
                             Some itn \<Rightarrow> removeExt parentTree className ns itn
                           | None \<Rightarrow>
                               (case isuper n of
                                  Some p \<Rightarrow> bindF (removeSubClass p node) (\<lambda>_. retF ())
                                | None \<Rightarrow> undefinedF))
                     | None \<Rightarrow>
                         (case isuper n of
                            Some p \<Rightarrow> bindF (removeSubClass p node) (\<lambda>_. retF ())
                          | None \<Rightarrow> retF ()))
               (\<lambda>_. bindF (dropClass t className) (\<lambda>_. deleteNode node))))"

section \<open>The tree as a hierarchy of names\<close>

subsection \<open>Well-formed trees\<close>

abbreviation treeTable :: "(pstr, nat) table \<Rightarrow> bool" where
  "treeTable \<equiv> tableOk equalNoCaseFunc hashLowerCase nul_free"

definition classAt :: "forest \<Rightarrow> nat \<Rightarrow> pstr \<Rightarrow> nat option" where
  "classAt s t k = (case trees s t of Some tb \<Rightarrow> contents equalNoCaseFunc tb k | None \<Rightarrow> None)"

definition members :: "forest \<Rightarrow> nat \<Rightarrow> nat set" where
  "members s t = {a. \<exists>k. nul_free k \<and> classAt s t k = Some a}"

definition superAt :: "forest \<Rightarrow> nat \<Rightarrow> nat option" where
  "superAt s a = (case nodes s a of Some n \<Rightarrow> isuper n | None \<Rightarrow> None)"

definition nameAt :: "forest \<Rightarrow> nat \<Rightarrow> pstr" where
  "nameAt s a = (case nodes s a of Some n \<Rightarrow> iname n | None \<Rightarrow> [])"

text \<open>The chain of siblings from a pointer, and the children of a node.\<close>

fun sibs :: "forest \<Rightarrow> nat option \<Rightarrow> nat list \<Rightarrow> bool" where
  "sibs s p [] \<longleftrightarrow> p = None"
| "sibs s p (a # xs) \<longleftrightarrow> p = Some a \<and> (\<exists>n. nodes s a = Some n \<and> sibs s (isibling n) xs)"

definition kidsOf :: "forest \<Rightarrow> nat \<Rightarrow> nat list \<Rightarrow> bool" where
  "kidsOf s a xs \<longleftrightarrow> (\<exists>n q. nodes s a = Some n \<and> ilinks n = Subs q \<and> sibs s q xs)"

definition supers :: "forest \<Rightarrow> nat \<Rightarrow> (nat \<times> nat) set" where
  "supers s t = {(a, p). a \<in> members s t \<and> superAt s a = Some p}"

definition treeOk :: "forest \<Rightarrow> nat \<Rightarrow> bool" where
  "treeOk s t \<longleftrightarrow>
     (\<exists>tb. trees s t = Some tb \<and> treeTable tb) \<and>
     (\<forall>k a. nul_free k \<longrightarrow> classAt s t k = Some a \<longrightarrow>
        (\<exists>n. nodes s a = Some n \<and> nul_free (iname n) \<and> toLowerUnits (iname n) = toLowerUnits k)) \<and>
     (\<forall>a \<in> members s t. \<forall>p. superAt s a = Some p \<longrightarrow> p \<in> members s t) \<and>
     (\<forall>a \<in> members s t. \<exists>xs. kidsOf s a xs \<and> distinct xs \<and>
        set xs = {b \<in> members s t. superAt s b = Some a}) \<and>
     acyclic (supers s t) \<and>
     (\<forall>a. nodes s a \<noteq> None \<longrightarrow> a < nextNode s)"

lemma treeOkI:
  assumes "trees s t = Some tb" "treeTable tb"
    "\<And>k a. nul_free k \<Longrightarrow> classAt s t k = Some a \<Longrightarrow>
        \<exists>n. nodes s a = Some n \<and> nul_free (iname n) \<and> toLowerUnits (iname n) = toLowerUnits k"
    "\<And>a p. a \<in> members s t \<Longrightarrow> superAt s a = Some p \<Longrightarrow> p \<in> members s t"
    "\<And>a. a \<in> members s t \<Longrightarrow> \<exists>xs. kidsOf s a xs \<and> distinct xs \<and> set xs = {b \<in> members s t. superAt s b = Some a}"
    "acyclic (supers s t)" "\<And>a n. nodes s a = Some n \<Longrightarrow> a < nextNode s"
  shows "treeOk s t"
  unfolding treeOk_def using assms by blast

lemma treeOkD:
  assumes "treeOk s t"
  shows tree_table: "\<exists>tb. trees s t = Some tb \<and> treeTable tb"
    and tree_node: "nul_free k \<Longrightarrow> classAt s t k = Some a \<Longrightarrow>
        \<exists>n. nodes s a = Some n \<and> nul_free (iname n) \<and> toLowerUnits (iname n) = toLowerUnits k"
    and tree_super: "a \<in> members s t \<Longrightarrow> superAt s a = Some p \<Longrightarrow> p \<in> members s t"
    and tree_kids: "a \<in> members s t \<Longrightarrow>
        \<exists>xs. kidsOf s a xs \<and> distinct xs \<and> set xs = {b \<in> members s t. superAt s b = Some a}"
    and tree_acyclic: "acyclic (supers s t)"
    and tree_below: "nodes s a \<noteq> None \<Longrightarrow> a < nextNode s"
  using assms unfolding treeOk_def by blast+

lemma equalNoCase_lower: "nul_free a \<Longrightarrow> nul_free b \<Longrightarrow> equalNoCaseFunc a b \<longleftrightarrow> toLowerUnits a = toLowerUnits b"
  by (simp add: equalNoCaseFunc_iff toLowerUnits_eq)

lemma classAt_cong:
  assumes "treeOk s t" and "nul_free k" and "nul_free k'" and "toLowerUnits k = toLowerUnits k'"
  shows "classAt s t k = classAt s t k'"
proof -
  obtain tb where tb: "trees s t = Some tb" "treeTable tb" using tree_table [OF assms(1)] by blast
  have "equalNoCaseFunc k k'" using assms(2-4) by (simp add: equalNoCase_lower)
  from noCaseKey.entries.look_cong [OF tb(2) assms(2,3) this] show ?thesis using tb(1) by (simp add: classAt_def)
qed

lemma classAt_inj:
  assumes "treeOk s t" and "nul_free k" and "nul_free k'" and "classAt s t k = Some a" and "classAt s t k' = Some a"
  shows "toLowerUnits k = toLowerUnits k'"
  using tree_node [OF assms(1,2,4)] tree_node [OF assms(1,3,5)] by auto

lemma member_node:
  assumes "treeOk s t" and "a \<in> members s t"
  obtains n where "nodes s a = Some n" and "nul_free (iname n)" and "classAt s t (iname n) = Some a" and "a < nextNode s"
proof -
  obtain k where k: "nul_free k" "classAt s t k = Some a" using assms(2) by (auto simp: members_def)
  obtain n where n: "nodes s a = Some n" "nul_free (iname n)" "toLowerUnits (iname n) = toLowerUnits k"
    using tree_node [OF assms(1) k] by blast
  show thesis
    by (rule that [OF n(1,2)]) (use classAt_cong [OF assms(1) n(2) k(1) n(3)] k(2) tree_below [OF assms(1), of a] n(1) in simp_all)
qed

lemma members_finite: "treeOk s t \<Longrightarrow> members s t \<subseteq> {..<nextNode s}"
  by (auto elim: member_node)

lemma sibs_frame:
  assumes "sibs s p xs"
    and "\<And>a n. a \<in> set xs \<Longrightarrow> nodes s a = Some n \<Longrightarrow> \<exists>n'. nodes s' a = Some n' \<and> isibling n' = isibling n"
  shows "sibs s' p xs"
  using assms by (induction xs arbitrary: p) (simp, force)

lemma kidsOf_frame:
  assumes "kidsOf s a xs"
    and "\<And>b n. b \<in> set xs \<Longrightarrow> nodes s b = Some n \<Longrightarrow> \<exists>n'. nodes s' b = Some n' \<and> isibling n' = isibling n"
    and "\<And>n. nodes s a = Some n \<Longrightarrow> \<exists>n'. nodes s' a = Some n' \<and> ilinks n' = ilinks n"
  shows "kidsOf s' a xs"
proof -
  obtain n q where n: "nodes s a = Some n" "ilinks n = Subs q" "sibs s q xs" using assms(1) by (auto simp: kidsOf_def)
  then show ?thesis using assms(3) [OF n(1)] sibs_frame [OF n(3) assms(2)] by (auto simp: kidsOf_def)
qed

subsection \<open>The table operations\<close>

lemma lookupClass_eq: "treeOk s t \<Longrightarrow> nul_free k \<Longrightarrow> lookupClass t k s = Done (classAt s t k, s)"
proof -
  assume h: "treeOk s t" "nul_free k"
  obtain tb where tb: "trees s t = Some tb" "treeTable tb" using tree_table [OF h(1)] by blast
  with noCaseKey.lookup_exact [OF tb(2) h(2)] show ?thesis
    by (simp add: lookupClass_def bindF_def getTree_def retF_def classAt_def)
qed

lemma enterClass_eq:
  assumes "trees s t = Some tb" and "treeTable tb" and "nul_free k" and "classAt s t k = None"
  shows "\<exists>tb'. enterClass t k a s = Done ((), s\<lparr>trees := (trees s)(t \<mapsto> tb')\<rparr>) \<and> treeTable tb' \<and>
    (\<forall>k'. nul_free k' \<longrightarrow> contents equalNoCaseFunc tb' k' = (if toLowerUnits k' = toLowerUnits k then Some a else classAt s t k'))"
proof -
  obtain tb' where "tableInsert equalNoCaseFunc hashLowerCase k a tb = Some (True, tb')" "treeTable tb'"
    "\<forall>k'. nul_free k' \<longrightarrow> contents equalNoCaseFunc tb' k' =
       (if equalNoCaseFunc k' k then Some a else contents equalNoCaseFunc tb k')"
    using noCaseKey.insert_exact [OF assms(2,3), of a] assms(1,4) by (auto simp: classAt_def)
  with assms(1,3) show ?thesis
    by (intro exI [of _ tb'])
       (simp add: enterClass_def bindF_def getTree_def putTree_def classAt_def equalNoCase_lower)
qed

lemma dropClass_eq:
  assumes "trees s t = Some tb" and "treeTable tb" and "nul_free k"
  shows "\<exists>tb'. dropClass t k s = Done ((), s\<lparr>trees := (trees s)(t \<mapsto> tb')\<rparr>) \<and> treeTable tb' \<and>
    (\<forall>k'. nul_free k' \<longrightarrow> contents equalNoCaseFunc tb' k' = (if toLowerUnits k' = toLowerUnits k then None else classAt s t k'))"
proof -
  obtain tb' b where "tableRemove equalNoCaseFunc hashLowerCase k tb = Some (b, tb')" "treeTable tb'"
    "\<forall>k'. nul_free k' \<longrightarrow> contents equalNoCaseFunc tb' k' =
       (if equalNoCaseFunc k' k then None else contents equalNoCaseFunc tb k')"
    using noCaseKey.remove_exact [OF assms(2,3)] by auto
  with assms(1,3) show ?thesis
    by (intro exI [of _ tb'])
       (simp add: dropClass_def bindF_def getTree_def putTree_def classAt_def equalNoCase_lower)
qed

subsection \<open>Making, marking and linking nodes\<close>

text \<open>What a step may change: it keeps names and, but for the arguments, superclasses.\<close>

lemma findOrMake_spec:
  assumes ok: "treeOk s t" and k: "nul_free name"
  shows "\<exists>a s'. findOrMake t name s = Done (a, s') \<and> treeOk s' t \<and> classAt s' t name = Some a \<and>
    (\<forall>k. nul_free k \<longrightarrow> classAt s' t k = (if classAt s t name = None \<and> toLowerUnits k = toLowerUnits name then Some a else classAt s t k)) \<and>
    (\<forall>b n. nodes s b = Some n \<longrightarrow> nodes s' b = Some n) \<and>
    (classAt s t name = None \<longrightarrow> nodes s' a = Some \<lparr>iname = name, isuper = None, isibling = None, ilinks = Subs None, iprov = True\<rparr>)"
proof (cases "classAt s t name")
  case (Some a)
  then have "findOrMake t name s = Done (a, s)"
    using lookupClass_eq [OF ok k] by (simp add: findOrMake_def bindF_def retF_def)
  with Some ok show ?thesis by auto
next
  case None
  let ?a = "nextNode s"
  let ?n = "\<lparr>iname = name, isuper = None, isibling = None, ilinks = Subs None, iprov = True\<rparr>"
  let ?s1 = "s\<lparr>nodes := (nodes s)(?a \<mapsto> ?n), nextNode := Suc ?a\<rparr>"
  obtain tb where tb: "trees s t = Some tb" "treeTable tb" using tree_table [OF ok] by blast
  obtain tb' where tb': "enterClass t name ?a ?s1 = Done ((), ?s1\<lparr>trees := (trees ?s1)(t \<mapsto> tb')\<rparr>)" "treeTable tb'"
    "\<And>k'. nul_free k' \<Longrightarrow> contents equalNoCaseFunc tb' k' = (if toLowerUnits k' = toLowerUnits name then Some ?a else classAt s t k')"
    using enterClass_eq [of ?s1 t tb name ?a] tb k None by (auto simp: classAt_def)
  define s' where "s' = ?s1\<lparr>trees := (trees ?s1)(t \<mapsto> tb')\<rparr>"
  have run: "findOrMake t name s = Done (?a, s')"
    using lookupClass_eq [OF ok k] None tb'(1) by (simp add: findOrMake_def bindF_def retF_def newNode_def s'_def)
  have new: "nodes s ?a = None" using tree_below [OF ok, of ?a] by (cases "nodes s ?a") auto
  have at: "classAt s' t k' = (if toLowerUnits k' = toLowerUnits name then Some ?a else classAt s t k')" if "nul_free k'" for k'
    using tb'(3) [OF that] by (simp add: classAt_def s'_def)
  have mem: "members s' t = insert ?a (members s t)"
  proof (intro equalityI subsetI)
    fix b assume "b \<in> members s' t"
    then show "b \<in> insert ?a (members s t)" by (auto simp: members_def at split: if_splits)
  next
    fix b assume "b \<in> insert ?a (members s t)"
    then show "b \<in> members s' t"
    proof
      assume "b = ?a"
      then show ?thesis using at [OF k] k by (auto simp: members_def)
    next
      assume "b \<in> members s t"
      then obtain k' where k': "nul_free k'" "classAt s t k' = Some b" by (auto simp: members_def)
      then have "toLowerUnits k' \<noteq> toLowerUnits name" using classAt_cong [OF ok k'(1) k] None by auto
      then show ?thesis using at [OF k'(1)] k' by (auto simp: members_def)
    qed
  qed
  have not: "?a \<notin> members s t" using member_node [OF ok, of ?a] new by (metis option.distinct(1))
  have old: "nodes s' b = (if b = ?a then Some ?n else nodes s b)" for b by (simp add: s'_def)
  have sup: "superAt s' b = superAt s b" for b using new by (simp add: superAt_def old)
  have supers: "supers s' t = supers s t" unfolding supers_def mem sup using new by (auto simp: superAt_def)
  have "treeOk s' t"
  proof (rule treeOkI)
    show "trees s' t = Some tb'" by (simp add: s'_def)
    fix k' b assume k': "nul_free k'" "classAt s' t k' = Some b"
    show "\<exists>n. nodes s' b = Some n \<and> nul_free (iname n) \<and> toLowerUnits (iname n) = toLowerUnits k'"
    proof (cases "toLowerUnits k' = toLowerUnits name")
      case True
      then show ?thesis using k' at [OF k'(1)] k by (simp add: old)
    next
      case False
      then have "classAt s t k' = Some b" using k' at by simp
      with tree_node [OF ok k'(1)] new show ?thesis by (auto simp: old)
    qed
  next
    fix b p assume "b \<in> members s' t" "superAt s' b = Some p"
    then show "p \<in> members s' t" using tree_super [OF ok, of b p] new unfolding mem sup by (auto simp: superAt_def)
  next
    fix b assume b: "b \<in> members s' t"
    show "\<exists>xs. kidsOf s' b xs \<and> distinct xs \<and> set xs = {c \<in> members s' t. superAt s' c = Some b}"
    proof (cases "b = ?a")
      case True
      have "{c \<in> members s' t. superAt s' c = Some b} = {}"
        using tree_super [OF ok] not new unfolding mem sup True by (auto simp: superAt_def)
      then show ?thesis using True by (intro exI [of _ "[]"]) (simp add: kidsOf_def old)
    next
      case False
      then have "b \<in> members s t" using b mem by simp
      from tree_kids [OF ok this]
      obtain xs where xs: "kidsOf s b xs" "distinct xs" "set xs = {c \<in> members s t. superAt s c = Some b}" by blast
      have "kidsOf s' b xs" by (rule kidsOf_frame [OF xs(1)]) (use new in \<open>auto simp: old\<close>)
      moreover have "{c \<in> members s' t. superAt s' c = Some b} = set xs"
        unfolding xs(3) mem sup using new by (auto simp: superAt_def)
      ultimately show ?thesis using xs(2) by blast
    qed
  next
    fix b n assume "nodes s' b = Some n"
    then show "b < nextNode s'" using tree_below [OF ok, of b] by (auto simp: old s'_def split: if_splits)
  qed (use tb'(2) tree_acyclic [OF ok] supers in auto)
  with run at k None new show ?thesis
    by (intro exI [of _ ?a] exI [of _ s']) (auto simp: old)
qed

text \<open>Changing nodes in place, with the table and the names as they are.\<close>

lemma treeOk_relink:
  assumes ok: "treeOk s t"
    and same: "trees s' = trees s" "nextNode s' = nextNode s"
    and node: "\<And>a. (nodes s' a = None) = (nodes s a = None)" "\<And>a. nameAt s' a = nameAt s a"
    and super: "\<And>a p. a \<in> members s t \<Longrightarrow> superAt s' a = Some p \<Longrightarrow> p \<in> members s t"
    and kids: "\<And>a. a \<in> members s t \<Longrightarrow> \<exists>xs. kidsOf s' a xs \<and> distinct xs \<and> set xs = {b \<in> members s t. superAt s' b = Some a}"
    and acyc: "acyclic {(a, p). a \<in> members s t \<and> superAt s' a = Some p}"
  shows "treeOk s' t" and "classAt s' t = classAt s t" and "members s' t = members s t"
proof -
  show c: "classAt s' t = classAt s t" using same(1) by (auto simp: classAt_def)
  show m: "members s' t = members s t" using c by (simp add: members_def)
  obtain tb where tb: "trees s' t = Some tb" "treeTable tb" using tree_table [OF ok] same(1) by auto
  show "treeOk s' t"
  proof (rule treeOkI [OF tb])
    fix k a assume k: "nul_free k" "classAt s' t k = Some a"
    then obtain n where n: "nodes s a = Some n" "nul_free (iname n)" "toLowerUnits (iname n) = toLowerUnits k"
      using tree_node [OF ok] c by metis
    then obtain n' where "nodes s' a = Some n'" using node(1) [of a] by (cases "nodes s' a") auto
    moreover have "iname n' = iname n" using node(2) [of a] n(1) calculation by (simp add: nameAt_def)
    ultimately show "\<exists>n. nodes s' a = Some n \<and> nul_free (iname n) \<and> toLowerUnits (iname n) = toLowerUnits k"
      using n by auto
  next
    fix a n assume "nodes s' a = Some n"
    then show "a < nextNode s'" using node(1) [of a] tree_below [OF ok, of a] same(2) by auto
  qed (use super kids acyc m in \<open>auto simp: supers_def\<close>)
qed

lemma markReal_spec:
  assumes ok: "treeOk s t" and n: "nodes s c = Some n"
  defines "s' \<equiv> s\<lparr>nodes := (nodes s)(c \<mapsto> n\<lparr>iprov := False\<rparr>)\<rparr>"
  shows "treeOk s' t" and "classAt s' t = classAt s t" and "superAt s' = superAt s" and "nameAt s' = nameAt s"
    and "members s' t = members s t"
proof -
  show sup: "superAt s' = superAt s" and name: "nameAt s' = nameAt s"
    using n by (auto simp: superAt_def nameAt_def s'_def fun_eq_iff)
  have "kidsOf s' a xs" if "kidsOf s a xs" for a xs
    by (rule kidsOf_frame [OF that]) (use n in \<open>auto simp: s'_def\<close>)
  then have kids: "\<exists>xs. kidsOf s' a xs \<and> distinct xs \<and> set xs = {b \<in> members s t. superAt s' b = Some a}"
    if "a \<in> members s t" for a
    using tree_kids [OF ok that] sup by metis
  have acyc: "acyclic {(a, p). a \<in> members s t \<and> superAt s' a = Some p}"
    using tree_acyclic [OF ok] sup by (simp add: supers_def)
  have node: "(nodes s' a = None) = (nodes s a = None)" for a using n by (simp add: s'_def)
  have super: "p \<in> members s t" if "a \<in> members s t" "superAt s' a = Some p" for a p
    using tree_super [OF ok that(1)] that(2) sup by simp
  note r = treeOk_relink [OF ok _ _ node _ super kids acyc]
  show "treeOk s' t" "classAt s' t = classAt s t" "members s' t = members s t"
    using r name by (auto simp: s'_def fun_eq_iff)
qed

lemma addSubClass_spec:
  assumes ok: "treeOk s t" and p: "p \<in> members s t" and c: "c \<in> members s t" and root: "superAt s c = None"
    and path: "(p, c) \<notin> (supers s t)\<^sup>*"
  shows "\<exists>s'. addSubClass p c s = Done ((), s') \<and> treeOk s' t \<and> classAt s' t = classAt s t \<and> nameAt s' = nameAt s \<and>
    superAt s' = (superAt s)(c \<mapsto> p) \<and> members s' t = members s t \<and>
    (\<forall>a n. nodes s a = Some n \<longrightarrow> (\<exists>n'. nodes s' a = Some n' \<and> iprov n' = iprov n))"
proof -
  have pc: "p \<noteq> c" using path by auto
  obtain n where n: "nodes s c = Some n" using member_node [OF ok c] by metis
  obtain m where m: "nodes s p = Some m" using member_node [OF ok p] by metis
  obtain ps q where ps: "ilinks m = Subs q" "sibs s q ps" "distinct ps" "set ps = {b \<in> members s t. superAt s b = Some p}"
    using tree_kids [OF ok p] m by (auto simp: kidsOf_def)
  define s' where "s' = s\<lparr>nodes := (nodes s)(c \<mapsto> n\<lparr>isuper := Some p, isibling := q\<rparr>, p \<mapsto> m\<lparr>ilinks := Subs (Some c)\<rparr>)\<rparr>"
  have run: "addSubClass p c s = Done ((), s')"
    using pc n m ps(1) by (simp add: addSubClass_def bindF_def getNode_def putNode_def s'_def fun_upd_twist)
  have at: "nodes s' a = (if a = p then Some (m\<lparr>ilinks := Subs (Some c)\<rparr>)
      else if a = c then Some (n\<lparr>isuper := Some p, isibling := q\<rparr>) else nodes s a)" for a
    by (simp add: s'_def)
  have sup: "superAt s' = (superAt s)(c \<mapsto> p)" using pc n m by (auto simp: superAt_def at fun_eq_iff)
  have name: "nameAt s' = nameAt s" using n m by (auto simp: nameAt_def at fun_eq_iff)
  have node: "(nodes s' a = None) = (nodes s a = None)" for a using n m by (simp add: at)
  have keep: "\<exists>n'. nodes s' b = Some n' \<and> isibling n' = isibling k" if "nodes s b = Some k" "b \<noteq> c" for b k
    using that m by (auto simp: at)
  have kids: "\<exists>xs. kidsOf s' a xs \<and> distinct xs \<and> set xs = {b \<in> members s t. superAt s' b = Some a}"
    if a: "a \<in> members s t" for a
  proof (cases "a = p")
    case True
    have "c \<notin> set ps" using ps(4) root by auto
    then have "sibs s' q ps" using sibs_frame [OF ps(2)] keep by metis
    then have "kidsOf s' p (c # ps)" using pc by (simp add: kidsOf_def at)
    moreover have "set (c # ps) = {b \<in> members s t. superAt s' b = Some p}" unfolding sup using ps(4) c by auto
    ultimately show ?thesis using True ps(3) \<open>c \<notin> set ps\<close> by (intro exI [of _ "c # ps"]) auto
  next
    case False
    obtain xs where xs: "kidsOf s a xs" "distinct xs" "set xs = {b \<in> members s t. superAt s b = Some a}"
      using tree_kids [OF ok a] by blast
    have "c \<notin> set xs" using xs(3) root by auto
    have "kidsOf s' a xs"
    proof (rule kidsOf_frame [OF xs(1)])
      fix b k assume "b \<in> set xs" "nodes s b = Some k"
      with \<open>c \<notin> set xs\<close> show "\<exists>n'. nodes s' b = Some n' \<and> isibling n' = isibling k" using keep by metis
    next
      fix k assume "nodes s a = Some k"
      then show "\<exists>n'. nodes s' a = Some n' \<and> ilinks n' = ilinks k" using False n by (auto simp: at)
    qed
    moreover have "{b \<in> members s t. superAt s' b = Some a} = set xs" unfolding sup xs(3) using False root by auto
    ultimately show ?thesis using xs(2) by blast
  qed
  have "{(a, b). a \<in> members s t \<and> superAt s' a = Some b} = insert (c, p) (supers s t)"
    unfolding sup supers_def using c root by (auto split: if_splits)
  then have acyc: "acyclic {(a, b). a \<in> members s t \<and> superAt s' a = Some b}"
    using tree_acyclic [OF ok] path by (simp add: acyclic_insert)
  have super: "b \<in> members s t" if "a \<in> members s t" "superAt s' a = Some b" for a b
    using that tree_super [OF ok, of a b] p unfolding sup by (auto split: if_splits)
  note r = treeOk_relink [OF ok _ _ node _ super kids acyc]
  have prov: "\<exists>n'. nodes s' a = Some n' \<and> iprov n' = iprov k" if "nodes s a = Some k" for a k
    using that n m by (auto simp: at)
  show ?thesis
    using run r name sup prov by (intro exI [of _ s']) (auto simp: s'_def fun_eq_iff)
qed

text \<open>Taking a leaf out of its chain, its table entry and the store.\<close>

lemma removeLoop_run:
  assumes "sibs s p (xs @ c # ys)" and "c \<notin> set xs" and "length xs < fuel" and "nodes s c = Some n"
  shows "removeLoop fuel this c prev p s =
    (case (if xs = [] then prev else Some (last xs)) of
       Some b \<Rightarrow> bindF (getNode b) (\<lambda>m. bindF (putNode b (m\<lparr>isibling := isibling n\<rparr>)) (\<lambda>_. retF True))
     | None \<Rightarrow> bindF (getNode this) (\<lambda>m. bindF (putNode this (m\<lparr>ilinks := Subs (isibling n)\<rparr>)) (\<lambda>_. retF True))) s"
  using assms
proof (induction fuel arbitrary: prev p xs)
  case (Suc fuel)
  show ?case
  proof (cases xs)
    case Nil
    with Suc.prems show ?thesis by (simp add: bindF_def [of "getNode c"] getNode_def [of c])
  next
    case (Cons a zs)
    with Suc.prems(1) obtain k where k: "p = Some a" "nodes s a = Some k" "sibs s (isibling k) (zs @ c # ys)" by auto
    have "removeLoop (Suc fuel) this c prev p s = removeLoop fuel this c (Some a) (isibling k) s"
      using k Suc.prems(2) Cons by (auto simp: bindF_def [of "getNode a"] getNode_def [of a])
    then show ?thesis using Suc.IH [OF k(3)] Suc.prems(2-4) Cons by simp
  qed
qed simp

lemma sibs_unlink:
  assumes "sibs s p (xs @ c # ys)" and "distinct (xs @ c # ys)" and "xs \<noteq> []" and "nodes s c = Some n" and "nodes s (last xs) = Some m"
  shows "sibs (s\<lparr>nodes := (nodes s)(last xs \<mapsto> m\<lparr>isibling := isibling n\<rparr>)\<rparr>) p (xs @ ys)"
  using assms
proof (induction xs arbitrary: p)
  case (Cons a zs)
  from Cons.prems(1) obtain k where k: "p = Some a" "nodes s a = Some k" "sibs s (isibling k) (zs @ c # ys)" by auto
  show ?case
  proof (cases "zs = []")
    case True
    then have "sibs s (isibling n) ys" using k(3) Cons.prems(4) by auto
    then have "sibs (s\<lparr>nodes := (nodes s)(a \<mapsto> m\<lparr>isibling := isibling n\<rparr>)\<rparr>) (isibling n) ys"
      by (rule sibs_frame) (use Cons.prems(2) in auto)
    then show ?thesis using k True by (simp add: fun_upd_def)
  next
    case False
    then have "a \<noteq> last zs" using Cons.prems(2) last_in_set [OF False] by auto
    then show ?thesis using Cons.IH [OF k(3)] Cons.prems False k by simp
  qed
qed simp

lemma removeSubClass_spec:
  assumes ok: "treeOk s t" and c: "c \<in> members s t" and p: "superAt s c = Some p"
  shows "\<exists>s'. removeSubClass p c s = Done (True, s') \<and> trees s' = trees s \<and> nextNode s' = nextNode s \<and>
    nodes s' c = nodes s c \<and> nameAt s' = nameAt s \<and> superAt s' = superAt s \<and>
    (\<forall>a n. nodes s a = Some n \<longrightarrow> (\<exists>n'. nodes s' a = Some n' \<and> iprov n' = iprov n)) \<and> dom (nodes s') = dom (nodes s) \<and>
    (\<forall>a \<in> members s t. \<forall>xs. kidsOf s a xs \<longrightarrow> set xs = {b \<in> members s t. superAt s b = Some a} \<longrightarrow> distinct xs \<longrightarrow>
        kidsOf s' a (if a = p then remove1 c xs else xs))"
proof -
  have pm: "p \<in> members s t" using tree_super [OF ok c p] .
  have "(c, p) \<in> supers s t" using c p by (simp add: supers_def)
  then have pc: "p \<noteq> c" using tree_acyclic [OF ok] by (auto simp: acyclic_def dest: r_into_trancl)
  obtain n where n: "nodes s c = Some n" using member_node [OF ok c] by metis
  obtain m where m: "nodes s p = Some m" using member_node [OF ok pm] by metis
  obtain zs q where zs: "ilinks m = Subs q" "sibs s q zs" "distinct zs" "set zs = {b \<in> members s t. superAt s b = Some p}"
    using tree_kids [OF ok pm] m by (auto simp: kidsOf_def)
  have "c \<in> set zs" using zs(4) c p by simp
  then obtain xs ys where split: "zs = xs @ c # ys" by (auto simp: in_set_conv_decomp)
  have cx: "c \<notin> set xs" using zs(3) split by simp
  have "set zs \<subseteq> {..<nextNode s}" using zs(4) members_finite [OF ok] by auto
  then have "length zs \<le> nextNode s" using zs(3) card_mono [of "{..<nextNode s}" "set zs"] by (simp add: distinct_card)
  then have fuel: "length xs < Suc (nextNode s)" using split by simp
  note loop = removeLoop_run [OF zs(2) [unfolded split] cx fuel n, of p None]
  have uniq: "xs' = zs" if "kidsOf s p xs'" for xs'
  proof -
    have "sibs s q xs'" using that m zs(1) by (auto simp: kidsOf_def)
    then show ?thesis using zs(2)
    proof (induction xs' arbitrary: q zs)
      case Nil then show ?case by (cases zs) auto
    next
      case (Cons a l) then show ?case by (cases zs) auto
    qed
  qed
  have rem: "remove1 c zs = xs @ ys" using split cx by (simp add: remove1_append)
  show ?thesis
  proof (cases "xs = []")
    case True
    define s' where "s' = s\<lparr>nodes := (nodes s)(p \<mapsto> m\<lparr>ilinks := Subs (isibling n)\<rparr>)\<rparr>"
    have run: "removeSubClass p c s = Done (True, s')"
      using loop True m zs(1) by (simp add: removeSubClass_def bindF_def getNode_def putNode_def retF_def s'_def)
    have at: "nodes s' a = (if a = p then Some (m\<lparr>ilinks := Subs (isibling n)\<rparr>) else nodes s a)" for a by (simp add: s'_def)
    have "sibs s (isibling n) ys" using zs(2) split True n by auto
    then have "sibs s' (isibling n) ys" by (rule sibs_frame) (use m in \<open>auto simp: at\<close>)
    then have kp: "kidsOf s' p (xs @ ys)" using True by (simp add: kidsOf_def at)
    have ko: "kidsOf s' a l" if "kidsOf s a l" "a \<noteq> p" for a l
      by (rule kidsOf_frame [OF that(1)]) (use m that(2) in \<open>auto simp: at\<close>)
    show ?thesis
      by (rule exI [of _ s'])
         (use run m n pc kp ko uniq rem in \<open>auto simp: at s'_def superAt_def nameAt_def fun_eq_iff\<close>)
  next
    case False
    let ?b = "last xs"
    have bz: "?b \<in> set zs" and bc: "?b \<noteq> c" using False split cx last_in_set [OF False] by auto
    then obtain k where k: "nodes s ?b = Some k" using zs(4) member_node [OF ok, of ?b] by blast
    define s' where "s' = s\<lparr>nodes := (nodes s)(?b \<mapsto> k\<lparr>isibling := isibling n\<rparr>)\<rparr>"
    have run: "removeSubClass p c s = Done (True, s')"
      using loop False m k zs(1) by (simp add: removeSubClass_def bindF_def getNode_def putNode_def retF_def s'_def)
    have at: "nodes s' a = (if a = ?b then Some (k\<lparr>isibling := isibling n\<rparr>) else nodes s a)" for a by (simp add: s'_def)
    have "sibs s' q (xs @ ys)"
      using sibs_unlink [OF zs(2) [unfolded split] _ False n k] zs(3) split by (simp add: s'_def)
    then have kp: "kidsOf s' p (xs @ ys)" using m zs(1) k by (auto simp: kidsOf_def at)
    have ko: "kidsOf s' a l" if "kidsOf s a l" "a \<noteq> p" "set l = {b \<in> members s t. superAt s b = Some a}" for a l
    proof (rule kidsOf_frame [OF that(1)])
      fix b j assume "b \<in> set l" "nodes s b = Some j"
      moreover from this have "b \<noteq> ?b" using that(2,3) bz zs(4) by auto
      ultimately show "\<exists>n'. nodes s' b = Some n' \<and> isibling n' = isibling j" by (simp add: at)
    next
      fix j assume "nodes s a = Some j"
      then show "\<exists>n'. nodes s' a = Some n' \<and> ilinks n' = ilinks j" using k by (auto simp: at)
    qed
    show ?thesis
      by (rule exI [of _ s'])
         (use run k n bc kp ko uniq rem in \<open>auto simp: at s'_def superAt_def nameAt_def fun_eq_iff\<close>)
  qed
qed

subsection \<open>The hierarchy a tree stands for\<close>

text \<open>
  A hierarchy maps the lower-case name of each class to whether it is provisional and to the lower-case
  name of its superclass. \<open>insertH\<close> and \<open>removeH\<close> are the operations the documentation describes.
\<close>

type_synonym hierarchy = "pstr \<Rightarrow> (bool \<times> pstr option) option"

definition view :: "forest \<Rightarrow> nat \<Rightarrow> hierarchy" where
  "view s t k =
    (if nul_free k \<and> toLowerUnits k = k
     then (case classAt s t k of None \<Rightarrow> None
       | Some a \<Rightarrow> (case nodes s a of None \<Rightarrow> None
           | Some n \<Rightarrow> Some (iprov n, map_option (\<lambda>p. toLowerUnits (nameAt s p)) (isuper n))))
     else None)"

definition ensureH :: "pstr \<Rightarrow> hierarchy \<Rightarrow> hierarchy" where
  "ensureH name h = (if h (toLowerUnits name) = None then h(toLowerUnits name \<mapsto> (True, None)) else h)"

definition insertH :: "pstr \<Rightarrow> pstr \<Rightarrow> hierarchy \<Rightarrow> hierarchy" where
  "insertH className superName h =
    (if superName = [] then ensureH className h else ensureH className (ensureH superName h))
      (toLowerUnits className \<mapsto> (False, if superName = [] then None else Some (toLowerUnits superName)))"

definition parentH :: "hierarchy \<Rightarrow> (pstr \<times> pstr) set" where
  "parentH h = {(k, q). \<exists>b. h k = Some (b, Some q)}"

text \<open>Names in lower case are names.\<close>

lemma lower_idem [simp]: "toLowerUnits (toLowerUnits k) = toLowerUnits k"
proof -
  have "toLower16 (toLower16 c) = toLower16 c" for c
  proof (cases "unat c < 256")
    case True
    have "unat (ucast (lowerAscii (ucast c)) :: u16) < 256"
      using unsigned_less [of "lowerAscii (ucast c)"] by (simp add: ucast_byte)
    moreover have "lowerAscii (lowerAscii x) = lowerAscii x" for x
    proof (cases "isupper x")
      case True
      then have b: "65 \<le> unat x" "unat x \<le> 90" by (simp_all add: isupper_def word_le_unat)
      then have "unat (x + 32) = unat x + 32" by (subst unat_add_no_wrap) simp_all
      then have "\<not> isupper (x + 32)" using b by (simp add: isupper_def word_le_unat)
      then show ?thesis using True by (simp add: lowerAscii_def)
    qed (simp add: lowerAscii_def)
    ultimately show ?thesis using True by (simp add: toLower16_eq byte_back)
  qed (simp add: toLower16_eq)
  then show ?thesis by (simp add: toLowerUnits_eq)
qed

lemma lower_nul_free [simp]: "nul_free (toLowerUnits k) = nul_free k"
proof -
  have "toLower16 c = 0 \<longleftrightarrow> c = 0" for c
  proof (cases "unat c < 256")
    case True
    have "lowerAscii x = 0 \<longleftrightarrow> x = 0" for x
    proof (cases "isupper x")
      case True
      then have b: "65 \<le> unat x" "unat x \<le> 90" by (simp_all add: isupper_def word_le_unat)
      then have "unat (x + 32) = unat x + 32" by (subst unat_add_no_wrap) simp_all
      then have "x + 32 \<noteq> 0" "x \<noteq> 0" using b by auto
      then show ?thesis using True by (simp add: lowerAscii_def)
    qed (simp add: lowerAscii_def)
    then have "lowerAscii (ucast c) = 0 \<longleftrightarrow> (ucast c :: u8) = 0" by simp
    moreover have "(ucast c :: u8) = 0 \<longleftrightarrow> c = 0"
      using True by (simp add: word_unat_eq_iff unsigned_ucast_eq unat_take_bit take_bit_eq_mod)
    moreover have "(ucast (lowerAscii (ucast c)) :: u16) = 0 \<longleftrightarrow> lowerAscii (ucast c) = 0"
      using ucast_byte [of "lowerAscii (ucast c)"] by (simp add: word_unat_eq_iff)
    ultimately show ?thesis using True by (simp add: toLower16_eq)
  qed (auto simp: toLower16_eq)
  then show ?thesis by (auto simp: toLowerUnits_eq nul_free_def image_iff)
qed

lemma view_node:
  assumes "treeOk s t" and "nul_free k" and "classAt s t k = Some a" and "nodes s a = Some n"
  shows "view s t (toLowerUnits k) = Some (iprov n, map_option (\<lambda>p. toLowerUnits (nameAt s p)) (isuper n))"
  using assms classAt_cong [of s t "toLowerUnits k" k] by (simp add: view_def)

lemma view_None:
  assumes "treeOk s t" and "nul_free k"
  shows "view s t (toLowerUnits k) = None \<longleftrightarrow> classAt s t k = None"
proof (cases "classAt s t k")
  case None
  then show ?thesis using classAt_cong [of s t "toLowerUnits k" k] assms by (simp add: view_def)
next
  case (Some a)
  with tree_node [OF assms Some] view_node [OF assms Some] show ?thesis by auto
qed

lemma view_eqI:
  assumes "\<And>k. nul_free k \<Longrightarrow> toLowerUnits k = k \<Longrightarrow> view s t k = h k"
    and "\<And>k. \<not> (nul_free k \<and> toLowerUnits k = k) \<Longrightarrow> h k = None"
  shows "view s t = h"
proof
  fix k show "view s t k = h k" using assms [of k] by (cases "nul_free k \<and> toLowerUnits k = k") (auto simp: view_def)
qed

lemma view_outside: "\<not> (nul_free k \<and> toLowerUnits k = k) \<Longrightarrow> view s t k = None"
  by (auto simp: view_def)

text \<open>The links of the nodes are the links of the names.\<close>

lemma name_inj:
  assumes "treeOk s t" and "a \<in> members s t" and "b \<in> members s t" and "toLowerUnits (nameAt s a) = toLowerUnits (nameAt s b)"
  shows "a = b"
proof -
  obtain n where n: "nodes s a = Some n" "nul_free (iname n)" "classAt s t (iname n) = Some a" using member_node [OF assms(1,2)] by metis
  obtain m where m: "nodes s b = Some m" "nul_free (iname m)" "classAt s t (iname m) = Some b" using member_node [OF assms(1,3)] by metis
  have "toLowerUnits (iname n) = toLowerUnits (iname m)" using assms(4) n(1) m(1) by (simp add: nameAt_def)
  then show ?thesis using classAt_cong [OF assms(1) n(2) m(2)] n(3) m(3) by simp
qed

lemma parent_step:
  assumes "treeOk s t" and "(a, p) \<in> supers s t"
  shows "(toLowerUnits (nameAt s a), toLowerUnits (nameAt s p)) \<in> parentH (view s t)"
proof -
  have a: "a \<in> members s t" "superAt s a = Some p" using assms(2) by (auto simp: supers_def)
  obtain n where n: "nodes s a = Some n" "nul_free (iname n)" "classAt s t (iname n) = Some a" using member_node [OF assms(1) a(1)] by metis
  note view_node [OF assms(1) n(2,3,1)]
  then show ?thesis using a(2) n(1) by (simp add: parentH_def superAt_def nameAt_def)
qed

lemma parent_path:
  assumes "treeOk s t" and "(a, p) \<in> (supers s t)\<^sup>*"
  shows "(toLowerUnits (nameAt s a), toLowerUnits (nameAt s p)) \<in> (parentH (view s t))\<^sup>*"
  using assms(2) by (induction rule: rtrancl_induct) (auto intro: rtrancl_into_rtrancl parent_step [OF assms(1)])

lemma parentH_ensure [simp]: "parentH (ensureH name h) = parentH h"
  by (auto simp: parentH_def ensureH_def split: if_splits)

lemma view_findOrMake:
  assumes ok: "treeOk s t" and k: "nul_free name"
  shows "\<exists>a s'. findOrMake t name s = Done (a, s') \<and> treeOk s' t \<and> classAt s' t name = Some a \<and>
    view s' t = ensureH name (view s t) \<and> (\<forall>k b. nul_free k \<longrightarrow> classAt s t k = Some b \<longrightarrow> classAt s' t k = Some b)"
proof -
  obtain a s' where s': "findOrMake t name s = Done (a, s')" "treeOk s' t" "classAt s' t name = Some a"
    and at: "\<And>k. nul_free k \<Longrightarrow> classAt s' t k = (if classAt s t name = None \<and> toLowerUnits k = toLowerUnits name then Some a else classAt s t k)"
    and old: "\<And>b n. nodes s b = Some n \<Longrightarrow> nodes s' b = Some n"
    and new: "classAt s t name = None \<Longrightarrow> nodes s' a = Some \<lparr>iname = name, isuper = None, isibling = None, ilinks = Subs None, iprov = True\<rparr>"
    using findOrMake_spec [OF assms] apply (elim exE conjE)
    subgoal premises p for a s'
      by (rule that [OF p(2-4) mp [OF spec [OF p(5)]] mp [OF spec [OF spec [OF p(6)]]] mp [OF p(7)]])
    done
  have same: "view s' t j = view s t j" if j: "nul_free j" "toLowerUnits j = j" "classAt s' t j = classAt s t j" for j
  proof (cases "classAt s t j")
    case None
    then show ?thesis using j by (simp add: view_def)
  next
    case (Some b)
    obtain n where n: "nodes s b = Some n" using tree_node [OF ok j(1) Some] by blast
    have b: "b \<in> members s t" using Some j(1) by (auto simp: members_def)
    have "nameAt s' p = nameAt s p" if "isuper n = Some p" for p
    proof -
      have "p \<in> members s t" using tree_super [OF ok b] that n by (simp add: superAt_def)
      then obtain m where "nodes s p = Some m" using member_node [OF ok] by metis
      then show ?thesis using old by (simp add: nameAt_def)
    qed
    then have "map_option (\<lambda>p. toLowerUnits (nameAt s' p)) (isuper n) = map_option (\<lambda>p. toLowerUnits (nameAt s p)) (isuper n)"
      by (cases "isuper n") simp_all
    then show ?thesis using j Some n old [OF n] by (simp add: view_def)
  qed
  have "view s' t = ensureH name (view s t)"
  proof (rule view_eqI)
    fix j assume j: "nul_free j" "toLowerUnits j = j"
    show "view s' t j = ensureH name (view s t) j"
    proof (cases "classAt s t name = None \<and> j = toLowerUnits name")
      case True
      then have "view s' t j = Some (True, None)" using j at [OF j(1)] new by (simp add: view_def)
      then show ?thesis using True view_None [OF ok k] by (simp add: ensureH_def)
    next
      case False
      then have "classAt s' t j = classAt s t j" using at [OF j(1)] j(2) by auto
      then show ?thesis using same [OF j] False view_None [OF ok k] by (auto simp: ensureH_def)
    qed
  next
    fix j assume j: "\<not> (nul_free j \<and> toLowerUnits j = j)"
    then have "j \<noteq> toLowerUnits name" using k by auto
    then show "ensureH name (view s t) j = None" using view_outside [OF j] by (simp add: ensureH_def)
  qed
  moreover have "classAt s' t j = Some b" if "nul_free j" "classAt s t j = Some b" for j b
    using at [OF that(1)] that classAt_cong [OF ok that(1) k] by auto
  ultimately show ?thesis using s' by blast
qed

text \<open>Marking and linking change one entry.\<close>

lemma view_change:
  assumes ok: "treeOk s t" and ok': "treeOk s' t" and at: "classAt s' t = classAt s t" and name: "nameAt s' = nameAt s"
    and c: "nul_free k" "classAt s t k = Some c" "nodes s' c = Some n'"
    and other: "\<And>a n. a \<in> members s t \<Longrightarrow> a \<noteq> c \<Longrightarrow> nodes s a = Some n \<Longrightarrow> \<exists>m. nodes s' a = Some m \<and> iprov m = iprov n \<and> isuper m = isuper n"
  shows "view s' t = (view s t)(toLowerUnits k \<mapsto> (iprov n', map_option (\<lambda>p. toLowerUnits (nameAt s p)) (isuper n')))"
proof (rule view_eqI)
  fix j assume j: "nul_free j" "toLowerUnits j = j"
  show "view s' t j = ((view s t)(toLowerUnits k \<mapsto> (iprov n', map_option (\<lambda>p. toLowerUnits (nameAt s p)) (isuper n')))) j"
  proof (cases "j = toLowerUnits k")
    case True
    then show ?thesis using view_node [OF ok' c(1)] at c name by simp
  next
    case False
    show ?thesis
    proof (cases "classAt s t j")
      case None
      then show ?thesis using False at j by (simp add: view_def)
    next
      case (Some a)
      then obtain n where n: "nodes s a = Some n" using tree_node [OF ok j(1)] by blast
      have "a \<noteq> c" using classAt_inj [OF ok j(1) c(1) Some] c(2) False j(2) by auto
      then obtain m where "nodes s' a = Some m" "iprov m = iprov n" "isuper m = isuper n"
        using other [OF _ _ n] Some j(1) by (auto simp: members_def)
      then show ?thesis using Some n False at name j by (simp add: view_def)
    qed
  qed
next
  fix j assume j: "\<not> (nul_free j \<and> toLowerUnits j = j)"
  then have "j \<noteq> toLowerUnits k" using c(1) by auto
  then show "((view s t)(toLowerUnits k \<mapsto> (iprov n', map_option (\<lambda>p. toLowerUnits (nameAt s p)) (isuper n')))) j = None"
    using view_outside [OF j] by simp
qed

lemma parentH_upd:
  "parentH (h(k \<mapsto> (b, q))) = {(j, r). j \<noteq> k \<and> (j, r) \<in> parentH h} \<union> {(k, r) | r. q = Some r}"
  by (auto simp: parentH_def split: if_splits)

lemma finish_insert:
  assumes ok: "treeOk s t" and k: "nul_free className" "classAt s t className = Some c"
    and no: "\<And>b q. view s t (toLowerUnits className) \<noteq> Some (b, Some q)"
    and p: "\<And>a. superNode = Some a \<Longrightarrow> a \<in> members s t \<and> toLowerUnits (nameAt s a) = sname \<and>
              (sname, toLowerUnits className) \<notin> (parentH (view s t))\<^sup>*"
  shows "\<exists>s'. bindF (getNode c) (\<lambda>n. bindF (putNode c (n\<lparr>iprov := False\<rparr>)) (\<lambda>_.
      case superNode of Some p \<Rightarrow> addSubClass p c | None \<Rightarrow> retF ())) s = Done ((), s') \<and> treeOk s' t \<and>
    view s' t = (view s t)(toLowerUnits className \<mapsto> (False, map_option (\<lambda>_. sname) superNode))"
proof -
  obtain n where n: "nodes s c = Some n" using tree_node [OF ok k] by blast
  let ?s = "s\<lparr>nodes := (nodes s)(c \<mapsto> n\<lparr>iprov := False\<rparr>)\<rparr>"
  note m = markReal_spec [OF ok n]
  have root: "isuper n = None"
    using no view_node [OF ok k n] by (cases "isuper n") auto
  have v: "view ?s t = (view s t)(toLowerUnits className \<mapsto> (False, None))"
    using view_change [OF ok m(1,2,4) k, of "n\<lparr>iprov := False\<rparr>"] root by simp
  show ?thesis
  proof (cases superNode)
    case None
    then show ?thesis using v m(1) n by (simp add: bindF_def getNode_def putNode_def retF_def)
  next
    case (Some a)
    note p' = p [OF Some]
    have c: "c \<in> members ?s t" using k m(2) by (auto simp: members_def)
    have "parentH (view ?s t) = parentH (view s t)"
      unfolding v parentH_upd using no by (auto simp: parentH_def)
    moreover have "toLowerUnits (nameAt ?s c) = toLowerUnits className"
      using tree_node [OF ok k] m(4) n by (auto simp: nameAt_def)
    ultimately have path: "(a, c) \<notin> (supers ?s t)\<^sup>*"
      using parent_path [OF m(1), of a c] p' m(4) by auto
    have top: "superAt ?s c = None" using root by (simp add: superAt_def)
    obtain s' where s': "addSubClass a c ?s = Done ((), s')" "treeOk s' t" "classAt s' t = classAt ?s t" "nameAt s' = nameAt ?s"
      "superAt s' = (superAt ?s)(c \<mapsto> a)" "\<forall>x n. nodes ?s x = Some n \<longrightarrow> (\<exists>n'. nodes s' x = Some n' \<and> iprov n' = iprov n)"
      using addSubClass_spec [OF m(1) _ c top path] p' m(5) by blast
    obtain c' where c': "nodes s' c = Some c'" "iprov c' = False"
      using spec [OF spec [OF s'(6)], of c "n\<lparr>iprov := False\<rparr>"] by auto
    have sc: "isuper c' = Some a" using fun_cong [OF s'(5), of c] c'(1) by (simp add: superAt_def)
    have same: "\<exists>m. nodes s' x = Some m \<and> iprov m = iprov j \<and> isuper m = isuper j"
      if x: "x \<in> members ?s t" "x \<noteq> c" "nodes ?s x = Some j" for x j
    proof -
      obtain m where "nodes s' x = Some m" "iprov m = iprov j" using s'(6) x(3) by blast
      moreover have "isuper m = isuper j"
        using fun_cong [OF s'(5), of x] x(2,3) calculation(1) by (simp add: superAt_def)
      ultimately show ?thesis by blast
    qed
    have ck: "classAt ?s t className = Some c" using m(2) k(2) by simp
    have "view s' t = (view ?s t)(toLowerUnits className \<mapsto> (iprov c', map_option (\<lambda>p. toLowerUnits (nameAt ?s p)) (isuper c')))"
      by (rule view_change [OF m(1) s'(2-4) k(1) ck c'(1) same])
    then have "view s' t = (view s t)(toLowerUnits className \<mapsto> (False, Some sname))"
      unfolding v using c'(2) sc p' m(4) by simp
    then show ?thesis using s'(1,2) n Some by (auto simp: bindF_def getNode_def putNode_def)
  qed
qed

lemma insertTree_spec:
  assumes ok: "treeOk s t" and k: "nul_free className" "nul_free superName"
    and no: "\<And>b q. view s t (toLowerUnits className) \<noteq> Some (b, Some q)"
    and path: "superName \<noteq> [] \<Longrightarrow> (toLowerUnits superName, toLowerUnits className) \<notin> (parentH (view s t))\<^sup>*"
  shows "\<exists>s'. insertTree t className superName s = Done ((), s') \<and> treeOk s' t \<and>
    view s' t = insertH className superName (view s t)"
proof (cases "superName = []")
  case True
  obtain c s1 where s1: "findOrMake t className s = Done (c, s1)" "treeOk s1 t" "classAt s1 t className = Some c"
    "view s1 t = ensureH className (view s t)"
    using view_findOrMake [OF ok k(1)] by blast
  have "view s1 t (toLowerUnits className) \<noteq> Some (b, Some q)" for b q
    using no [of b q] unfolding s1(4) by (auto simp: ensureH_def)
  from finish_insert [OF s1(2) k(1) s1(3) this, of None]
  show ?thesis using True s1(1,4) by (simp add: insertTree_def insertH_def bindF_def [of "retF None"] retF_def bindF_def [of "findOrMake t className"])
next
  case False
  obtain p s0 where s0: "findOrMake t superName s = Done (p, s0)" "treeOk s0 t" "classAt s0 t superName = Some p"
    "view s0 t = ensureH superName (view s t)"
    using view_findOrMake [OF ok k(2)] by blast
  obtain c s1 where s1: "findOrMake t className s0 = Done (c, s1)" "treeOk s1 t" "classAt s1 t className = Some c"
    "view s1 t = ensureH className (view s0 t)" "\<And>j b. nul_free j \<Longrightarrow> classAt s0 t j = Some b \<Longrightarrow> classAt s1 t j = Some b"
    using view_findOrMake [OF s0(2) k(1)] by blast
  have no1: "view s1 t (toLowerUnits className) \<noteq> Some (b, Some q)" for b q
    using no [of b q] unfolding s1(4) s0(4) by (auto simp: ensureH_def)
  have p1: "classAt s1 t superName = Some p" using s1(5) [OF k(2) s0(3)] .
  then have "p \<in> members s1 t" using k(2) by (auto simp: members_def)
  moreover have "toLowerUnits (nameAt s1 p) = toLowerUnits superName"
    using tree_node [OF s1(2) k(2) p1] by (auto simp: nameAt_def)
  moreover have "(toLowerUnits superName, toLowerUnits className) \<notin> (parentH (view s1 t))\<^sup>*"
    using path [OF False] unfolding s1(4) s0(4) by simp
  ultimately obtain s' where "bindF (getNode c) (\<lambda>n. bindF (putNode c (n\<lparr>iprov := False\<rparr>)) (\<lambda>_.
      case Some p of Some p \<Rightarrow> addSubClass p c | None \<Rightarrow> retF ())) s1 = Done ((), s')" "treeOk s' t"
    "view s' t = (view s1 t)(toLowerUnits className \<mapsto> (False, map_option (\<lambda>_. toLowerUnits superName) (Some p)))"
    using finish_insert [OF s1(2) k(1) s1(3) no1, of "Some p" "toLowerUnits superName"] by blast
  then show ?thesis using False s0(1,4) s1(1,4)
    by (intro exI [of _ s'])
       (simp add: insertTree_def insertH_def bindF_def [of "findOrMake t className"] bindF_def [of "findOrMake t superName"]
         bindF_def [of "bindF _ _"] retF_def)
qed

subsection \<open>Removing a class\<close>

lemma sibs_Nil_iff: "sibs s q xs \<Longrightarrow> q = None \<longleftrightarrow> xs = []"
  by (cases xs) auto

text \<open>A node has links exactly when some class names it as its superclass.\<close>

lemma hasLinks_view:
  assumes ok: "treeOk s t" and k: "nul_free k" "classAt s t k = Some c" "nodes s c = Some n"
  shows "hasLinks n \<longleftrightarrow> (\<exists>j. (j, toLowerUnits k) \<in> parentH (view s t))"
proof -
  have c: "c \<in> members s t" using k by (auto simp: members_def)
  obtain xs where xs: "kidsOf s c xs" "set xs = {b \<in> members s t. superAt s b = Some c}" using tree_kids [OF ok c] by blast
  have name: "toLowerUnits (nameAt s c) = toLowerUnits k" using tree_node [OF ok k(1,2)] by (auto simp: nameAt_def)
  have "hasLinks n \<longleftrightarrow> xs \<noteq> []"
    using xs(1) k(3) sibs_Nil_iff [of s _ xs] by (auto simp: kidsOf_def hasLinks_def)
  also have "\<dots> \<longleftrightarrow> (\<exists>b \<in> members s t. superAt s b = Some c)" using xs(2) by (auto simp flip: set_empty)
  also have "\<dots> \<longleftrightarrow> (\<exists>j. (j, toLowerUnits k) \<in> parentH (view s t))"
  proof
    assume "\<exists>b \<in> members s t. superAt s b = Some c"
    then obtain b where "(b, c) \<in> supers s t" by (auto simp: supers_def)
    from parent_step [OF ok this] name show "\<exists>j. (j, toLowerUnits k) \<in> parentH (view s t)" by metis
  next
    assume "\<exists>j. (j, toLowerUnits k) \<in> parentH (view s t)"
    then obtain j b where j: "view s t j = Some (b, Some (toLowerUnits k))" by (auto simp: parentH_def)
    then have jn: "nul_free j" "toLowerUnits j = j" by (auto simp: view_def split: if_splits)
    with j obtain a m where a: "classAt s t j = Some a" "nodes s a = Some m" by (auto simp: view_def split: option.splits)
    have am: "a \<in> members s t" using a jn by (auto simp: members_def)
    obtain p where p: "isuper m = Some p" "toLowerUnits (nameAt s p) = toLowerUnits k"
      using j view_node [OF ok jn(1) a] jn(2) by (cases "isuper m") auto
    have "p \<in> members s t" using tree_super [OF ok am] p(1) a(2) by (simp add: superAt_def)
    then have "p = c" using name_inj [OF ok _ c] p(2) name by simp
    then show "\<exists>b \<in> members s t. superAt s b = Some c"
      by (intro bexI [OF _ am]) (use a(2) p(1) in \<open>simp add: superAt_def\<close>)
  qed
  finally show ?thesis .
qed

lemma unlink_spec:
  assumes ok: "treeOk s t" and c: "c \<in> members s t"
  shows "\<exists>s'. (case superAt s c of Some p \<Rightarrow> bindF (removeSubClass p c) (\<lambda>_. retF ()) | None \<Rightarrow> retF ()) s = Done ((), s') \<and>
    trees s' = trees s \<and> nextNode s' = nextNode s \<and>
    nodes s' c = nodes s c \<and> nameAt s' = nameAt s \<and> superAt s' = superAt s \<and>
    (\<forall>a n. nodes s a = Some n \<longrightarrow> (\<exists>n'. nodes s' a = Some n' \<and> iprov n' = iprov n)) \<and> dom (nodes s') = dom (nodes s) \<and>
    (\<forall>a \<in> members s t. \<exists>xs. kidsOf s' a xs \<and> distinct xs \<and> set xs = {b \<in> members s t. superAt s b = Some a} - {c})"
proof (cases "superAt s c")
  case None
  have "\<exists>xs. kidsOf s a xs \<and> distinct xs \<and> set xs = {b \<in> members s t. superAt s b = Some a} - {c}" if "a \<in> members s t" for a
    using tree_kids [OF ok that] None by auto
  then show ?thesis using None by (intro exI [of _ s]) (auto simp: retF_def)
next
  case (Some p)
  obtain s' where s': "removeSubClass p c s = Done (True, s')" "trees s' = trees s" "nextNode s' = nextNode s"
    "nodes s' c = nodes s c" "nameAt s' = nameAt s" "superAt s' = superAt s"
    "\<forall>a n. nodes s a = Some n \<longrightarrow> (\<exists>n'. nodes s' a = Some n' \<and> iprov n' = iprov n)" "dom (nodes s') = dom (nodes s)"
    and kids: "\<forall>a \<in> members s t. \<forall>xs. kidsOf s a xs \<longrightarrow> set xs = {b \<in> members s t. superAt s b = Some a} \<longrightarrow> distinct xs \<longrightarrow>
        kidsOf s' a (if a = p then remove1 c xs else xs)"
    using removeSubClass_spec [OF ok c Some] by (elim exE conjE)
  have "\<exists>xs. kidsOf s' a xs \<and> distinct xs \<and> set xs = {b \<in> members s t. superAt s b = Some a} - {c}" if a: "a \<in> members s t" for a
  proof -
    obtain xs where xs: "kidsOf s a xs" "distinct xs" "set xs = {b \<in> members s t. superAt s b = Some a}"
      using tree_kids [OF ok a] by blast
    then have "kidsOf s' a (if a = p then remove1 c xs else xs)" using kids a by blast
    moreover have "set (if a = p then remove1 c xs else xs) = set xs - {c}"
      using xs(2,3) Some by (auto simp: set_remove1_eq)
    ultimately show ?thesis using xs by (intro exI [of _ "if a = p then remove1 c xs else xs"]) auto
  qed
  then show ?thesis using Some s' by (intro exI [of _ s']) (simp add: bindF_def retF_def)
qed

lemma removeTree_spec:
  assumes ok: "treeOk s t" and k: "nul_free k"
  shows "case view s t (toLowerUnits k) of
      None \<Rightarrow> removeTree t k u None s = Throws (InvalidClass k)
    | Some _ \<Rightarrow>
        if \<exists>j. (j, toLowerUnits k) \<in> parentH (view s t) then removeTree t k u None s = Throws (ClassHasChildren k)
        else \<exists>s'. removeTree t k u None s = Done ((), s') \<and> treeOk s' t \<and> view s' t = (view s t)(toLowerUnits k := None)"
proof (cases "classAt s t k")
  case None
  have "view s t (toLowerUnits k) = None" using None view_None [OF ok k] by simp
  then show ?thesis using None lookupClass_eq [OF ok k] by (simp add: removeTree_def bindF_def throwF_def)
next
  case (Some c)
  obtain n where n: "nodes s c = Some n" using tree_node [OF ok k Some] by blast
  have c: "c \<in> members s t" using Some k by (auto simp: members_def)
  note v = view_node [OF ok k Some n] and links = hasLinks_view [OF ok k Some n]
  show ?thesis
  proof (cases "hasLinks n")
    case True
    then have "removeTree t k u None s = Throws (ClassHasChildren k)"
      using Some n lookupClass_eq [OF ok k] by (simp add: removeTree_def bindF_def throwF_def getNode_def)
    with True v links show ?thesis by simp
  next
    case False
    obtain s1 where s1: "(case superAt s c of Some p \<Rightarrow> bindF (removeSubClass p c) (\<lambda>_. retF ()) | None \<Rightarrow> retF ()) s = Done ((), s1)"
      "trees s1 = trees s" "nextNode s1 = nextNode s" "nodes s1 c = nodes s c" "nameAt s1 = nameAt s" "superAt s1 = superAt s"
      and prov: "\<forall>a n. nodes s a = Some n \<longrightarrow> (\<exists>n'. nodes s1 a = Some n' \<and> iprov n' = iprov n)" and dom: "dom (nodes s1) = dom (nodes s)"
      and kids: "\<forall>a \<in> members s t. \<exists>xs. kidsOf s1 a xs \<and> distinct xs \<and> set xs = {b \<in> members s t. superAt s b = Some a} - {c}"
      using unlink_spec [OF ok c] by (elim exE conjE)
    have sn: "superAt s c = isuper n" using n by (simp add: superAt_def)
    obtain tb where tb: "trees s t = Some tb" "treeTable tb" using tree_table [OF ok] by blast
    obtain tb' where tb': "dropClass t k s1 = Done ((), s1\<lparr>trees := (trees s1)(t \<mapsto> tb')\<rparr>)" "treeTable tb'"
      "\<And>k'. nul_free k' \<Longrightarrow> contents equalNoCaseFunc tb' k' = (if toLowerUnits k' = toLowerUnits k then None else classAt s1 t k')"
      using dropClass_eq [of s1 t tb k] tb k s1(2) by auto
    define s' where "s' = s1\<lparr>trees := (trees s1)(t \<mapsto> tb'), nodes := (nodes s1)(c := None)\<rparr>"
    have c1: "classAt s1 t = classAt s t" using s1(2) by (auto simp: classAt_def)
    have run: "removeTree t k u None s = Done ((), s')"
    proof -
      have "deleteNode c (s1\<lparr>trees := (trees s1)(t \<mapsto> tb')\<rparr>) = Done ((), s')"
        using s1(4) n by (simp add: deleteNode_def s'_def)
      then show ?thesis
        using Some n False lookupClass_eq [OF ok k] s1(1) tb'(1) unfolding sn
        by (simp add: removeTree_def bindF_def [of "lookupClass t k"] bindF_def [of "getNode c"] getNode_def
            bindF_def [of "case isuper n of None \<Rightarrow> retF () | Some p \<Rightarrow> bindF (removeSubClass p c) (\<lambda>_. retF ())"]
            bindF_def [of "dropClass t k"])
    qed
    have at: "classAt s' t j = (if toLowerUnits j = toLowerUnits k then None else classAt s t j)" if "nul_free j" for j
      using tb'(3) [OF that] c1 by (simp add: classAt_def s'_def)
    have mem: "members s' t = members s t - {c}"
    proof (intro equalityI subsetI)
      fix a assume "a \<in> members s' t"
      then obtain j where j: "nul_free j" "classAt s' t j = Some a" by (auto simp: members_def)
      then have "toLowerUnits j \<noteq> toLowerUnits k" "classAt s t j = Some a" using at by (auto split: if_splits)
      then show "a \<in> members s t - {c}" using classAt_inj [OF ok j(1) k, of a] Some j(1) by (auto simp: members_def)
    next
      fix a assume "a \<in> members s t - {c}"
      then obtain j where j: "nul_free j" "classAt s t j = Some a" "a \<noteq> c" by (auto simp: members_def)
      then have "toLowerUnits j \<noteq> toLowerUnits k" using classAt_cong [OF ok j(1) k] Some by auto
      then show "a \<in> members s' t" using at [OF j(1)] j by (auto simp: members_def)
    qed
    have sup: "superAt s' a = superAt s a" if "a \<noteq> c" for a
      using that fun_cong [OF s1(6), of a] by (simp add: superAt_def s'_def)
    have name: "nameAt s' a = nameAt s a" if "a \<noteq> c" for a
      using that fun_cong [OF s1(5), of a] by (simp add: nameAt_def s'_def)
    have leaf: "superAt s b \<noteq> Some c" if "b \<in> members s t" for b
    proof
      assume "superAt s b = Some c"
      then have "(b, c) \<in> supers s t" using that by (simp add: supers_def)
      from parent_step [OF ok this] have "(toLowerUnits (nameAt s b), toLowerUnits (nameAt s c)) \<in> parentH (view s t)" .
      moreover have "toLowerUnits (nameAt s c) = toLowerUnits k" using tree_node [OF ok k Some] n by (simp add: nameAt_def)
      ultimately show False using links False by auto
    qed
    have "treeOk s' t"
    proof (rule treeOkI)
      show "trees s' t = Some tb'" by (simp add: s'_def)
      fix j a assume j: "nul_free j" "classAt s' t j = Some a"
      then have ja: "classAt s t j = Some a" "toLowerUnits j \<noteq> toLowerUnits k" using at by (auto split: if_splits)
      then have ac: "a \<noteq> c" using classAt_inj [OF ok j(1) k] Some by auto
      obtain m where m: "nodes s a = Some m" "nul_free (iname m)" "toLowerUnits (iname m) = toLowerUnits j"
        using tree_node [OF ok j(1) ja(1)] by blast
      obtain m' where "nodes s1 a = Some m'" using prov m(1) by blast
      then show "\<exists>n. nodes s' a = Some n \<and> nul_free (iname n) \<and> toLowerUnits (iname n) = toLowerUnits j"
        using m fun_cong [OF s1(5), of a] ac by (auto simp: s'_def nameAt_def)
    next
      fix a p assume a: "a \<in> members s' t" "superAt s' a = Some p"
      then have "a \<in> members s t" "superAt s a = Some p" using mem sup by auto
      then show "p \<in> members s' t" using tree_super [OF ok, of a p] leaf [of a] mem by auto
    next
      fix a assume a: "a \<in> members s' t"
      then obtain xs where xs: "kidsOf s1 a xs" "distinct xs" "set xs = {b \<in> members s t. superAt s b = Some a} - {c}"
        using kids mem by blast
      have "kidsOf s' a xs"
        by (rule kidsOf_frame [OF xs(1)]) (use xs(3) a mem in \<open>auto simp: s'_def\<close>)
      moreover have "{b \<in> members s' t. superAt s' b = Some a} = set xs" unfolding xs(3) mem using sup by auto
      ultimately show "\<exists>xs. kidsOf s' a xs \<and> distinct xs \<and> set xs = {b \<in> members s' t. superAt s' b = Some a}"
        using xs(2) by blast
    next
      have "supers s' t \<subseteq> supers s t" unfolding supers_def mem using sup by auto
      then show "acyclic (supers s' t)" using tree_acyclic [OF ok] acyclic_subset by blast
      fix a m assume "nodes s' a = Some m"
      then have "a \<in> dom (nodes s)" using dom by (auto simp: s'_def split: if_splits)
      then show "a < nextNode s'" using tree_below [OF ok, of a] s1(3) by (auto simp: s'_def)
    qed (rule tb'(2))
    moreover have "view s' t = (view s t)(toLowerUnits k := None)"
    proof (rule view_eqI)
      fix j assume j: "nul_free j" "toLowerUnits j = j"
      show "view s' t j = ((view s t)(toLowerUnits k := None)) j"
      proof (cases "j = toLowerUnits k \<or> classAt s t j = None")
        case True
        then show ?thesis using at [OF j(1)] j by (auto simp: view_def)
      next
        case False
        then obtain a where a: "classAt s t j = Some a" by auto
        have am: "a \<in> members s t" using a j by (auto simp: members_def)
        have ac: "a \<noteq> c" using classAt_inj [OF ok j(1) k a] Some False j(2) by auto
        obtain m where m: "nodes s a = Some m" using tree_node [OF ok j(1) a] by blast
        obtain m' where m': "nodes s1 a = Some m'" "iprov m' = iprov m" using prov m by blast
        have "isuper m' = isuper m" using fun_cong [OF s1(6), of a] m m'(1) by (simp add: superAt_def)
        moreover have "map_option (\<lambda>p. toLowerUnits (nameAt s' p)) (isuper m) = map_option (\<lambda>p. toLowerUnits (nameAt s p)) (isuper m)"
          using leaf [OF am] m name by (cases "isuper m") (auto simp: superAt_def)
        moreover have "nodes s' a = Some m'" using m' ac by (simp add: s'_def)
        ultimately show ?thesis using False a m m'(2) at [OF j(1)] j by (simp add: view_def)
      qed
    next
      fix j assume "\<not> (nul_free j \<and> toLowerUnits j = j)"
      then show "((view s t)(toLowerUnits k := None)) j = None" using view_outside by simp
    qed
    ultimately show ?thesis using run False v links by simp
  qed
qed

subsection \<open>Descendants and ancestors\<close>

lemma parent_back:
  assumes ok: "treeOk s t" and "(j, q) \<in> parentH (view s t)"
  obtains a p where "(a, p) \<in> supers s t" and "j = toLowerUnits (nameAt s a)" and "q = toLowerUnits (nameAt s p)"
proof -
  obtain b where j: "view s t j = Some (b, Some q)" using assms(2) by (auto simp: parentH_def)
  then have jn: "nul_free j" "toLowerUnits j = j" by (auto simp: view_def split: if_splits)
  with j obtain a m where a: "classAt s t j = Some a" "nodes s a = Some m" by (auto simp: view_def split: option.splits)
  obtain p where p: "isuper m = Some p" "toLowerUnits (nameAt s p) = q"
    using j view_node [OF ok jn(1) a] jn(2) by (cases "isuper m") auto
  have "a \<in> members s t" using a jn by (auto simp: members_def)
  moreover have "toLowerUnits (nameAt s a) = j" using tree_node [OF ok jn(1) a(1)] a(2) jn(2) by (simp add: nameAt_def)
  ultimately show thesis using that [of a p] a(2) p by (auto simp: supers_def superAt_def)
qed

lemma supers_members:
  assumes ok: "treeOk s t" and "(a, p) \<in> (supers s t)\<^sup>+"
  shows "a \<in> members s t \<and> p \<in> members s t"
  using assms(2) by (induction rule: trancl_induct) (auto simp: supers_def dest: tree_super [OF ok])

lemma parent_trancl:
  assumes ok: "treeOk s t"
  shows "(j, q) \<in> (parentH (view s t))\<^sup>+ \<longleftrightarrow>
    (\<exists>a p. (a, p) \<in> (supers s t)\<^sup>+ \<and> j = toLowerUnits (nameAt s a) \<and> q = toLowerUnits (nameAt s p))"
proof
  assume "(j, q) \<in> (parentH (view s t))\<^sup>+"
  then show "\<exists>a p. (a, p) \<in> (supers s t)\<^sup>+ \<and> j = toLowerUnits (nameAt s a) \<and> q = toLowerUnits (nameAt s p)"
  proof (induction rule: trancl_induct)
    case (base q)
    then show ?case using parent_back [OF ok base] by (metis r_into_trancl)
  next
    case (step q r)
    then obtain a p where a: "(a, p) \<in> (supers s t)\<^sup>+" "j = toLowerUnits (nameAt s a)" "q = toLowerUnits (nameAt s p)" by blast
    obtain b u where b: "(b, u) \<in> supers s t" "q = toLowerUnits (nameAt s b)" "r = toLowerUnits (nameAt s u)"
      using parent_back [OF ok step.hyps(2)] by metis
    have "p = b" using name_inj [OF ok, of p b] supers_members [OF ok a(1)] b(1,2) a(3) by (auto simp: supers_def)
    then have "(a, u) \<in> (supers s t)\<^sup>+" using a(1) b(1) by (auto intro: trancl_into_trancl)
    then show ?case using a(2) b(3) by blast
  qed
next
  assume "\<exists>a p. (a, p) \<in> (supers s t)\<^sup>+ \<and> j = toLowerUnits (nameAt s a) \<and> q = toLowerUnits (nameAt s p)"
  then obtain a p where a: "(a, p) \<in> (supers s t)\<^sup>+" "j = toLowerUnits (nameAt s a)" "q = toLowerUnits (nameAt s p)" by blast
  show "(j, q) \<in> (parentH (view s t))\<^sup>+"
    unfolding a(2,3) using a(1)
    by (induction rule: trancl_induct) (auto intro: parent_step [OF ok] trancl_into_trancl)
qed

definition belowAny :: "forest \<Rightarrow> nat \<Rightarrow> nat list \<Rightarrow> nat set" where
  "belowAny s t xs = {b \<in> members s t. \<exists>a \<in> set xs. (b, a) \<in> (supers s t)\<^sup>*}"

lemma below_finite: "treeOk s t \<Longrightarrow> finite (belowAny s t xs)"
  by (rule finite_subset [of _ "{..<nextNode s}"]) (use members_finite [of s t] in \<open>auto simp: belowAny_def\<close>)

lemma supers_chain:
  "(b, a) \<in> (supers s t)\<^sup>* \<Longrightarrow> (b, c) \<in> (supers s t)\<^sup>* \<Longrightarrow> (a, c) \<in> (supers s t)\<^sup>* \<or> (c, a) \<in> (supers s t)\<^sup>*"
proof (induction rule: rtrancl_induct)
  case (step a p)
  then consider "(a, c) \<in> (supers s t)\<^sup>*" | "(c, a) \<in> (supers s t)\<^sup>*" by blast
  then show ?case
  proof cases
    case 1
    then show ?thesis
    proof (cases rule: converse_rtranclE)
      case base
      then show ?thesis using step.hyps(2) by blast
    next
      case (step q)
      then have "q = p" using \<open>(a, p) \<in> supers s t\<close> by (simp add: supers_def)
      then show ?thesis using step by blast
    qed
  next
    case 2
    then show ?thesis using step.hyps(2) by (meson rtrancl_into_rtrancl)
  qed
qed simp

text \<open>Two children of the same class have no descendant in common.\<close>

lemma siblings_apart:
  assumes ok: "treeOk s t" and "superAt s a = Some p" "superAt s c = Some p" "a \<in> members s t" "c \<in> members s t" "a \<noteq> c"
  shows "(a, c) \<notin> (supers s t)\<^sup>*"
proof
  assume "(a, c) \<in> (supers s t)\<^sup>*"
  then obtain q where "(a, q) \<in> supers s t" "(q, c) \<in> (supers s t)\<^sup>*" using assms(6) by (meson converse_rtranclE)
  then have "(p, c) \<in> (supers s t)\<^sup>*" using assms(2) by (simp add: supers_def)
  moreover have "(c, p) \<in> supers s t" using assms(3,5) by (simp add: supers_def)
  ultimately have "(c, c) \<in> (supers s t)\<^sup>+" by (meson rtrancl_into_trancl2)
  then show False using tree_acyclic [OF ok] by (auto simp: acyclic_def)
qed

lemma subLoop_shallow:
  assumes "sibs s q xs" and "length xs < fuel" and "\<And>a. a \<in> set xs \<Longrightarrow> \<exists>ys. kidsOf s a ys"
  shows "subLoop fuel False ns q s = Done (map (nameAt s) xs, s)"
  using assms
proof (induction fuel arbitrary: q xs)
  case (Suc fuel)
  show ?case
  proof (cases xs)
    case Nil
    with Suc.prems(1) show ?thesis by (simp add: retF_def)
  next
    case (Cons a ys)
    with Suc.prems(1) obtain n where n: "q = Some a" "nodes s a = Some n" "sibs s (isibling n) ys" by auto
    obtain r where "ilinks n = Subs r" using Suc.prems(3) [of a] Cons n(2) by (auto simp: kidsOf_def)
    then show ?thesis using n Suc.IH [OF n(3)] Suc.prems(2,3) Cons by (simp add: bindF_def getNode_def retF_def nameAt_def)
  qed
qed simp

lemma subLoop_deep:
  assumes ok: "treeOk s t" and "sibs s q xs" and "distinct xs" and "card (belowAny s t xs) < fuel"
    and "\<forall>a \<in> set xs. a \<in> members s t \<and> superAt s a = Some p"
  shows "\<exists>l. subLoop fuel True ns q s = Done (map (nameAt s) l, s) \<and> distinct l \<and> set l = belowAny s t xs"
  using assms(2-)
proof (induction fuel arbitrary: q xs p)
  case (Suc fuel)
  show ?case
  proof (cases xs)
    case Nil
    with Suc.prems(1) show ?thesis by (intro exI [of _ "[]"]) (simp add: retF_def belowAny_def)
  next
    case (Cons a ys)
    with Suc.prems(1) obtain n where n: "q = Some a" "nodes s a = Some n" "sibs s (isibling n) ys" by auto
    have a: "a \<in> members s t" "superAt s a = Some p" using Suc.prems(4) Cons by simp_all
    obtain zs r where zs: "ilinks n = Subs r" "sibs s r zs" "distinct zs" "set zs = {b \<in> members s t. superAt s b = Some a}"
      using tree_kids [OF ok a(1)] n(2) by (auto simp: kidsOf_def)
    have apart: "(a, y) \<notin> (supers s t)\<^sup>*" "(y, a) \<notin> (supers s t)\<^sup>*" if "y \<in> set ys" for y
      using siblings_apart [OF ok] a Suc.prems(2,4) Cons that by (auto simp: list.set_intros)
    have az: "a \<notin> belowAny s t zs"
    proof
      assume "a \<in> belowAny s t zs"
      then obtain z where "z \<in> set zs" "(a, z) \<in> (supers s t)\<^sup>*" by (auto simp: belowAny_def)
      moreover from this have "(z, a) \<in> supers s t" using zs(4) by (simp add: supers_def)
      ultimately have "(a, a) \<in> (supers s t)\<^sup>+" by (meson rtrancl_into_trancl1)
      then show False using tree_acyclic [OF ok] by (auto simp: acyclic_def)
    qed
    have below: "(b, a) \<in> (supers s t)\<^sup>* \<longleftrightarrow> b = a \<or> b \<in> belowAny s t zs" if "b \<in> members s t" for b
    proof
      assume "(b, a) \<in> (supers s t)\<^sup>*"
      then show "b = a \<or> b \<in> belowAny s t zs"
      proof (cases rule: rtranclE)
        case (step z)
        then have "z \<in> set zs" using zs(4) by (auto simp: supers_def)
        then show ?thesis using step(1) that by (auto simp: belowAny_def)
      qed simp
    next
      assume "b = a \<or> b \<in> belowAny s t zs"
      then show "(b, a) \<in> (supers s t)\<^sup>*"
      proof
        assume "b \<in> belowAny s t zs"
        then obtain z where "z \<in> set zs" "(b, z) \<in> (supers s t)\<^sup>*" by (auto simp: belowAny_def)
        moreover from this have "(z, a) \<in> supers s t" using zs(4) by (simp add: supers_def)
        ultimately show ?thesis by (meson rtrancl_into_rtrancl)
      qed simp
    qed
    have ay: "a \<notin> belowAny s t ys" using apart(1) by (auto simp: belowAny_def)
    have disj: "belowAny s t zs \<inter> belowAny s t ys = {}"
    proof (rule ccontr)
      assume "belowAny s t zs \<inter> belowAny s t ys \<noteq> {}"
      then obtain b y where b: "b \<in> members s t" "b \<in> belowAny s t zs" "y \<in> set ys" "(b, y) \<in> (supers s t)\<^sup>*"
        by (auto simp: belowAny_def)
      have "(b, a) \<in> (supers s t)\<^sup>*" using below [OF b(1)] b(2) by simp
      then show False using supers_chain [OF _ b(4)] apart [OF b(3)] by blast
    qed
    have split: "belowAny s t xs = insert a (belowAny s t zs \<union> belowAny s t ys)"
    proof -
      have "belowAny s t xs = {b \<in> members s t. (b, a) \<in> (supers s t)\<^sup>*} \<union> belowAny s t ys"
        unfolding Cons by (auto simp: belowAny_def)
      moreover have "{b \<in> members s t. (b, a) \<in> (supers s t)\<^sup>*} = insert a (belowAny s t zs)"
        using below a(1) by (auto simp: belowAny_def)
      ultimately show ?thesis by auto
    qed
    have "card (belowAny s t zs) < card (belowAny s t xs)" "card (belowAny s t ys) < card (belowAny s t xs)"
      by (rule psubset_card_mono [OF below_finite [OF ok]]; use split az ay in auto)+
    then have c: "card (belowAny s t zs) < fuel" "card (belowAny s t ys) < fuel" using Suc.prems(3) by simp_all
    have "\<forall>b \<in> set zs. b \<in> members s t \<and> superAt s b = Some a" using zs(4) by simp
    from Suc.IH [OF zs(2,3) c(1) this] obtain l1 where l1: "subLoop fuel True ns r s = Done (map (nameAt s) l1, s)"
      "distinct l1" "set l1 = belowAny s t zs" by blast
    have "distinct ys" "\<forall>b \<in> set ys. b \<in> members s t \<and> superAt s b = Some p" using Suc.prems(2,4) Cons by simp_all
    from Suc.IH [OF n(3) this(1) c(2) this(2)] obtain l2 where l2: "subLoop fuel True ns (isibling n) s = Done (map (nameAt s) l2, s)"
      "distinct l2" "set l2 = belowAny s t ys" by blast
    have "subLoop (Suc fuel) True ns q s = Done (map (nameAt s) (a # l1 @ l2), s)"
      using n(1,2) zs(1) l1(1) l2(1) by (simp add: bindF_def getNode_def retF_def nameAt_def)
    moreover have "distinct (a # l1 @ l2)" "set (a # l1 @ l2) = belowAny s t xs"
      using l1 l2 az ay disj split by auto
    ultimately show ?thesis by blast
  qed
qed simp

end
