(* ===== verification/InheritQueries.thy ===== *)
theory InheritQueries
  imports InheritTree
begin

section \<open>InheritanceTree: what the queries answer\<close>

text \<open>
  The queries of \<^verbatim>\<open>Pegasus/Repository/InheritanceTree.cpp\<close> on a well-formed tree, in terms of the hierarchy
  of names it stands for, and the trees built by inserting classes one by one.
\<close>

subsection \<open>Ancestors\<close>

text \<open>The names from a class up to its root, nearest first.\<close>

fun chainH :: "hierarchy \<Rightarrow> pstr option \<Rightarrow> pstr list \<Rightarrow> bool" where
  "chainH h None l \<longleftrightarrow> l = []"
| "chainH h (Some k) [] \<longleftrightarrow> False"
| "chainH h (Some k) (n # l) \<longleftrightarrow> toLowerUnits n = k \<and> (\<exists>b q. h k = Some (b, q) \<and> chainH h q l)"

lemma member_view:
  assumes "treeOk s t" and "a \<in> members s t"
  obtains n where "nodes s a = Some n" and
    "view s t (toLowerUnits (nameAt s a)) = Some (iprov n, map_option (\<lambda>p. toLowerUnits (nameAt s p)) (isuper n))"
proof -
  obtain n where n: "nodes s a = Some n" "nul_free (iname n)" "classAt s t (iname n) = Some a" using member_node [OF assms] by metis
  then show thesis using that [OF n(1)] view_node [OF assms(1) n(2,3,1)] by (simp add: nameAt_def)
qed

lemma above_finite: "treeOk s t \<Longrightarrow> finite {b. (a, b) \<in> (supers s t)\<^sup>+}"
  by (rule finite_subset [of _ "{..<nextNode s}"]) (use members_finite [of s t] supers_members [of s t] in auto)

lemma superLoop_run:
  assumes ok: "treeOk s t" and "a \<in> members s t" and "card {b. (a, b) \<in> (supers s t)\<^sup>+} < fuel"
  shows "\<exists>l. superLoop fuel (superAt s a) s = Done (l, s) \<and>
    chainH (view s t) (map_option (\<lambda>p. toLowerUnits (nameAt s p)) (superAt s a)) l"
  using assms(2,3)
proof (induction fuel arbitrary: a)
  case (Suc fuel)
  show ?case
  proof (cases "superAt s a")
    case None
    then show ?thesis by (intro exI [of _ "[]"]) (simp add: retF_def)
  next
    case (Some p)
    have p: "p \<in> members s t" using tree_super [OF ok Suc.prems(1) Some] .
    have ap: "(a, p) \<in> supers s t" using Suc.prems(1) Some by (simp add: supers_def)
    have "{b. (p, b) \<in> (supers s t)\<^sup>+} \<subset> {b. (a, b) \<in> (supers s t)\<^sup>+}"
    proof (rule psubsetI)
      show "{b. (p, b) \<in> (supers s t)\<^sup>+} \<subseteq> {b. (a, b) \<in> (supers s t)\<^sup>+}" using ap by (auto intro: trancl_into_trancl2)
      have "(p, p) \<notin> (supers s t)\<^sup>+" using tree_acyclic [OF ok] by (auto simp: acyclic_def)
      then show "{b. (p, b) \<in> (supers s t)\<^sup>+} \<noteq> {b. (a, b) \<in> (supers s t)\<^sup>+}" using ap by blast
    qed
    from psubset_card_mono [OF above_finite [OF ok] this] Suc.prems(2)
    have "card {b. (p, b) \<in> (supers s t)\<^sup>+} < fuel" by simp
    from Suc.IH [OF p this] obtain l where l: "superLoop fuel (superAt s p) s = Done (l, s)"
      "chainH (view s t) (map_option (\<lambda>p. toLowerUnits (nameAt s p)) (superAt s p)) l" by blast
    obtain n where n: "nodes s p = Some n"
      "view s t (toLowerUnits (nameAt s p)) = Some (iprov n, map_option (\<lambda>p. toLowerUnits (nameAt s p)) (isuper n))"
      using member_view [OF ok p] by metis
    then have "superAt s p = isuper n" "nameAt s p = iname n" by (simp_all add: superAt_def nameAt_def)
    then show ?thesis using Some n l by (intro exI [of _ "iname n # l"]) (simp add: bindF_def getNode_def retF_def)
  qed
qed simp

lemma card_members:
  assumes "treeOk s t" and "A \<subseteq> members s t"
  shows "card A < Suc (nextNode s)"
proof -
  have "card A \<le> card {..<nextNode s}" by (rule card_mono) (use assms members_finite [OF assms(1)] in auto)
  then show ?thesis by simp
qed

lemma superClassNames_spec:
  assumes ok: "treeOk s t" and k: "nul_free k"
  shows "case view s t (toLowerUnits k) of
      None \<Rightarrow> treeSuperClassNames t k s = Done (None, s)
    | Some (b, q) \<Rightarrow> (\<exists>l. treeSuperClassNames t k s = Done (Some l, s) \<and> chainH (view s t) q l)"
proof (cases "classAt s t k")
  case None
  then show ?thesis
    using lookupClass_eq [OF ok k] view_None [OF ok k] by (simp add: treeSuperClassNames_def bindF_def retF_def)
next
  case (Some c)
  obtain n where n: "nodes s c = Some n" using tree_node [OF ok k Some] by blast
  have c: "c \<in> members s t" using Some k by (auto simp: members_def)
  have "card {b. (c, b) \<in> (supers s t)\<^sup>+} < Suc (nextNode s)"
    by (rule card_members [OF ok]) (use supers_members [OF ok] in auto)
  from superLoop_run [OF ok c this] obtain l where
    l: "superLoop (Suc (nextNode s)) (isuper n) s = Done (l, s)"
      "chainH (view s t) (map_option (\<lambda>p. toLowerUnits (nameAt s p)) (isuper n)) l"
    using n by (auto simp: superAt_def)
  have "treeSuperClassNames t k s = Done (Some l, s)"
    using lookupClass_eq [OF ok k] Some n l(1)
    by (simp add: treeSuperClassNames_def bindF_def retF_def nodeSuperClassNames_def getNode_def del: superLoop.simps)
  with l(2) view_node [OF ok k Some n] show ?thesis by simp
qed

lemma superClass_spec:
  assumes ok: "treeOk s t" and k: "nul_free k"
  shows "\<exists>r. treeSuperClass t k s = Done (r, s) \<and>
    map_option toLowerUnits r = map_option (\<lambda>(b, q). case q of None \<Rightarrow> [] | Some p \<Rightarrow> p) (view s t (toLowerUnits k))"
proof (cases "classAt s t k")
  case None
  then show ?thesis
    using lookupClass_eq [OF ok k] view_None [OF ok k] by (simp add: treeSuperClass_def bindF_def retF_def)
next
  case (Some c)
  obtain n where n: "nodes s c = Some n" using tree_node [OF ok k Some] by blast
  have c: "c \<in> members s t" using Some k by (auto simp: members_def)
  note v = view_node [OF ok k Some n]
  show ?thesis
  proof (cases "isuper n")
    case None
    then show ?thesis using lookupClass_eq [OF ok k] Some n v
      by (simp add: treeSuperClass_def bindF_def retF_def getNode_def toLowerUnits_eq)
  next
    case p: (Some p)
    have "p \<in> members s t" using tree_super [OF ok c] p n by (simp add: superAt_def)
    then obtain m where "nodes s p = Some m" using member_node [OF ok] by metis
    then show ?thesis using lookupClass_eq [OF ok k] Some n v p
      by (simp add: treeSuperClass_def bindF_def retF_def getNode_def nameAt_def)
  qed
qed

lemma hasSubClasses_spec:
  assumes ok: "treeOk s t" and k: "nul_free k"
  shows "hasSubClasses t k s =
    Done (map_option (\<lambda>_. \<exists>j. (j, toLowerUnits k) \<in> parentH (view s t)) (view s t (toLowerUnits k)), s)"
proof (cases "classAt s t k")
  case None
  then show ?thesis
    using lookupClass_eq [OF ok k] view_None [OF ok k] by (simp add: hasSubClasses_def bindF_def retF_def)
next
  case (Some c)
  obtain n where n: "nodes s c = Some n" using tree_node [OF ok k Some] by blast
  show ?thesis using lookupClass_eq [OF ok k] Some n view_node [OF ok k Some n] hasLinks_view [OF ok k Some n]
    by (simp add: hasSubClasses_def bindF_def retF_def getNode_def)
qed

lemma containsClass_spec:
  "treeOk s t \<Longrightarrow> nul_free k \<Longrightarrow> containsClass t k s = Done (view s t (toLowerUnits k) \<noteq> None, s)"
  by (simp add: containsClass_def bindF_def retF_def lookupClass_eq view_None)


subsection \<open>Descendants\<close>

lemma sorted_concat:
  assumes "\<forall>i < length cs. sorted_wrt P (cs ! i)"
    and "\<forall>i j. i < j \<longrightarrow> j < length cs \<longrightarrow> (\<forall>x \<in> set (cs ! i). \<forall>y \<in> set (cs ! j). P x y)"
  shows "sorted_wrt P (concat cs)"
  using assms
proof (induction cs)
  case (Cons c cs)
  have "\<forall>i < length cs. sorted_wrt P (cs ! i)" using Cons.prems(1) by (metis Suc_less_eq length_Cons nth_Cons_Suc)
  moreover have "\<forall>i j. i < j \<longrightarrow> j < length cs \<longrightarrow> (\<forall>x \<in> set (cs ! i). \<forall>y \<in> set (cs ! j). P x y)"
    using Cons.prems(2) by (metis Suc_less_eq length_Cons nth_Cons_Suc)
  ultimately have "sorted_wrt P (concat cs)" by (rule Cons.IH)
  moreover have "P x y" if h: "x \<in> set c" "y \<in> set (concat cs)" for x y
  proof -
    obtain d where d: "d \<in> set cs" "y \<in> set d" using h(2) by auto
    obtain j where "j < length cs" "cs ! j = d" using d(1) by (auto simp: in_set_conv_nth)
    with d(2) show ?thesis using Cons.prems(2) [rule_format, of 0 "Suc j"] h(1) by simp
  qed
  ultimately show ?case using Cons.prems(1) by (auto simp: sorted_wrt_append)
qed simp

context hash_key begin

lemma entries_apart:
  assumes "tableOk eq hash valid t"
  shows "sorted_wrt (\<lambda>e e'. \<not> eq (fst e) (fst e')) (concat (chains t))"
proof (rule sorted_concat)
  show "\<forall>i < length (chains t). sorted_wrt (\<lambda>e e'. \<not> eq (fst e) (fst e')) (chains t ! i)"
    using chain_entries(2) [OF assms] by blast
  show "\<forall>i j. i < j \<longrightarrow> j < length (chains t) \<longrightarrow> (\<forall>x \<in> set (chains t ! i). \<forall>y \<in> set (chains t ! j). \<not> eq (fst x) (fst y))"
  proof (intro allI impI ballI notI)
    fix i j x y assume h: "i < j" "j < length (chains t)" "x \<in> set (chains t ! i)" "y \<in> set (chains t ! j)" "eq (fst x) (fst y)"
    have "i < length (chains t)" using h(1,2) by simp
    from chain_entries(1) [OF assms this h(3)] chain_entries(1) [OF assms h(2,4)] hash_cong [OF _ _ h(5)] h(1)
    show False by auto
  qed
qed

lemma entries_valid: "tableOk eq hash valid t \<Longrightarrow> e \<in> set (concat (chains t)) \<Longrightarrow> valid (fst e)"
proof -
  assume h: "tableOk eq hash valid t" "e \<in> set (concat (chains t))"
  obtain c where c: "c \<in> set (chains t)" "e \<in> set c" using h(2) by auto
  obtain i where "i < length (chains t)" "chains t ! i = c" using c(1) by (auto simp: in_set_conv_nth)
  with chain_entries(1) [OF h(1), of i e] c(2) show ?thesis by simp
qed

lemma lookup_apart:
  assumes "sorted_wrt (\<lambda>e e'. \<not> eq (fst e) (fst e')) b" and "\<forall>e \<in> set b. valid (fst e)" and "e \<in> set b"
  shows "lookupChain eq (fst e) b = Some (snd e)"
  using assms
proof (induction b)
  case (Cons d b)
  show ?case
  proof (cases "e = d")
    case False
    then have "e \<in> set b" using Cons.prems(3) by simp
    moreover have "\<not> eq (fst e) (fst d)"
      using Cons.prems(1,2) calculation eq_sym [of "fst e" "fst d"] by auto
    ultimately show ?thesis using Cons by (cases d) simp
  qed (use Cons.prems(2) eq_refl in \<open>cases d; simp\<close>)
qed simp

lemma entry_contents:
  "tableOk eq hash valid t \<Longrightarrow> e \<in> set (concat (chains t)) \<Longrightarrow> contents eq t (fst e) = Some (snd e)"
  unfolding contents_def using lookup_apart [OF entries_apart _] entries_valid by blast

end


lemma findEntry_lookup:
  assumes "\<forall>e \<in> set b. nul_free (fst e)" and "nul_free k"
  shows "findEntry k b = lookupChain equalNoCaseFunc k b"
  using assms(1)
proof (induction b)
  case (Cons e b)
  have "cimNameEqual k (fst e) = equalNoCaseFunc k (fst e)"
    using Cons.prems assms(2) by (simp add: cimNameEqual_def equalNoCase_eq equalNoCaseFunc_iff)
  then show ?case using Cons by (cases e) simp
qed simp

lemma nodeSub_spec:
  assumes ok: "treeOk s t" and c: "c \<in> members s t"
  shows "\<exists>l. nodeSubClassNames c deep ns s = Done (map (nameAt s) l, s) \<and> distinct l \<and>
    set l = {b. (b, c) \<in> (if deep then (supers s t)\<^sup>+ else supers s t)}"
proof -
  obtain n where n: "nodes s c = Some n" using member_node [OF ok c] by metis
  obtain xs q where xs: "ilinks n = Subs q" "sibs s q xs" "distinct xs" "set xs = {b \<in> members s t. superAt s b = Some c}"
    using tree_kids [OF ok c] n by (auto simp: kidsOf_def)
  have kid: "set xs = {b. (b, c) \<in> supers s t}" using xs(4) by (auto simp: supers_def)
  have run: "nodeSubClassNames c deep ns s = subLoop (Suc (nextNode s)) deep ns q s"
    using n xs(1) by (simp add: nodeSubClassNames_def followSubs_def bindF_def getNode_def del: subLoop.simps)
  show ?thesis
  proof (cases deep)
    case False
    have "length xs < Suc (nextNode s)"
      using card_members [OF ok, of "set xs"] distinct_card [OF xs(3)] xs(4) by auto
    moreover have "\<exists>ys. kidsOf s a ys" if "a \<in> set xs" for a using tree_kids [OF ok, of a] that xs(4) by auto
    ultimately show ?thesis
      using subLoop_shallow [OF xs(2)] run False xs(3) kid by (intro exI [of _ xs]) (simp del: subLoop.simps)
  next
    case True
    have "belowAny s t xs = {b. (b, c) \<in> (supers s t)\<^sup>+}"
    proof (intro equalityI subsetI)
      fix b assume "b \<in> belowAny s t xs"
      then obtain a where "a \<in> set xs" "(b, a) \<in> (supers s t)\<^sup>*" by (auto simp: belowAny_def)
      then show "b \<in> {b. (b, c) \<in> (supers s t)\<^sup>+}" using kid by (auto intro: rtrancl_into_trancl1)
    next
      fix b assume b: "b \<in> {b. (b, c) \<in> (supers s t)\<^sup>+}"
      then obtain a where "(b, a) \<in> (supers s t)\<^sup>*" "(a, c) \<in> supers s t" by (auto dest: tranclD2)
      moreover have "b \<in> members s t" using supers_members [OF ok, of b c] b by simp
      ultimately show "b \<in> belowAny s t xs" using kid by (auto simp: belowAny_def)
    qed
    moreover have "card (belowAny s t xs) < Suc (nextNode s)"
      by (rule card_members [OF ok]) (auto simp: belowAny_def)
    moreover have "\<forall>a \<in> set xs. a \<in> members s t \<and> superAt s a = Some c" using xs(4) by simp
    ultimately show ?thesis
      using subLoop_deep [OF ok xs(2,3), of "Suc (nextNode s)" c ns] run True by (auto simp del: subLoop.simps)
  qed
qed

text \<open>The nodes of a set of members, as names.\<close>

lemma parent_one:
  assumes ok: "treeOk s t"
  shows "(j, q) \<in> parentH (view s t) \<longleftrightarrow>
    (\<exists>a p. (a, p) \<in> supers s t \<and> j = toLowerUnits (nameAt s a) \<and> q = toLowerUnits (nameAt s p))"
  using parent_step [OF ok] parent_back [OF ok, of j q] by metis

lemma names_distinct:
  assumes ok: "treeOk s t" and "distinct l" and "set l \<subseteq> members s t"
  shows "distinct (map toLowerUnits (map (nameAt s) l))"
  using assms(2,3) name_inj [OF ok] by (auto simp: distinct_map inj_on_def)

lemma subClassNames_spec:
  assumes ok: "treeOk s t" and k: "nul_free k" "k \<noteq> []"
  shows "if view s t (toLowerUnits k) = None then treeSubClassNames t k deep ns s = Done (None, s)
    else (\<exists>l. treeSubClassNames t k deep ns s = Done (Some l, s) \<and> distinct (map toLowerUnits l) \<and>
      set (map toLowerUnits l) = {j. (j, toLowerUnits k) \<in> (if deep then (parentH (view s t))\<^sup>+ else parentH (view s t))})"
proof -
  obtain tb where tb: "trees s t = Some tb" "treeTable tb" using tree_table [OF ok] by blast
  have "\<forall>e \<in> set (concat (chains tb)). nul_free (fst e)" using noCaseKey.entries_valid [OF tb(2)] by blast
  from findEntry_lookup [OF this k(1)] have entry: "findEntry k (visit (startIterator tb)) = classAt s t k"
    using tb(1) by (simp add: visit_start classAt_def contents_def)
  have run: "treeSubClassNames t k deep ns s =
    (case classAt s t k of Some a \<Rightarrow> bindF (nodeSubClassNames a deep ns) (\<lambda>l. retF (Some l)) | None \<Rightarrow> retF None) s"
    using tb(1) k(2) entry by (simp add: treeSubClassNames_def bindF_def [of "getTree t"] getTree_def)
  show ?thesis
  proof (cases "classAt s t k")
    case None
    then show ?thesis using run view_None [OF ok k(1)] by (simp add: retF_def)
  next
    case (Some c)
    have c: "c \<in> members s t" using Some k(1) by (auto simp: members_def)
    have name: "toLowerUnits (nameAt s c) = toLowerUnits k" using tree_node [OF ok k(1) Some] by (auto simp: nameAt_def)
    let ?R = "if deep then (supers s t)\<^sup>+ else supers s t" and ?P = "if deep then (parentH (view s t))\<^sup>+ else parentH (view s t)"
    obtain l where l: "nodeSubClassNames c deep ns s = Done (map (nameAt s) l, s)" "distinct l" "set l = {b. (b, c) \<in> ?R}"
      using nodeSub_spec [OF ok c] by blast
    have in_mem: "a \<in> members s t \<and> p \<in> members s t" if "(a, p) \<in> ?R" for a p
      using supers_members [OF ok, of a p] that by (auto split: if_splits)
    have same: "(j, q) \<in> ?P \<longleftrightarrow> (\<exists>a p. (a, p) \<in> ?R \<and> j = toLowerUnits (nameAt s a) \<and> q = toLowerUnits (nameAt s p))" for j q
      using parent_trancl [OF ok, of j q] parent_one [OF ok, of j q] by (cases deep) simp_all
    have "set (map toLowerUnits (map (nameAt s) l)) = {j. (j, toLowerUnits k) \<in> ?P}"
    proof (intro equalityI subsetI)
      fix j assume "j \<in> set (map toLowerUnits (map (nameAt s) l))"
      then obtain b where "(b, c) \<in> ?R" "j = toLowerUnits (nameAt s b)" using l(3) by auto
      then have "\<exists>a p. (a, p) \<in> ?R \<and> j = toLowerUnits (nameAt s a) \<and> toLowerUnits k = toLowerUnits (nameAt s p)"
        using name by (intro exI [of _ b] exI [of _ c]) simp
      then show "j \<in> {j. (j, toLowerUnits k) \<in> ?P}" unfolding mem_Collect_eq by (rule iffD2 [OF same])
    next
      fix j assume "j \<in> {j. (j, toLowerUnits k) \<in> ?P}"
      then obtain a p where a: "(a, p) \<in> ?R" "j = toLowerUnits (nameAt s a)" "toLowerUnits k = toLowerUnits (nameAt s p)"
        using same [of j "toLowerUnits k"] by blast
      have "p = c" using name_inj [OF ok _ c] in_mem [OF a(1)] a(3) name by simp
      then show "j \<in> set (map toLowerUnits (map (nameAt s) l))" using a(1,2) l(3) by auto
    qed
    moreover have "distinct (map toLowerUnits (map (nameAt s) l))"
      by (rule names_distinct [OF ok l(2)]) (use l(3) in_mem in auto)
    moreover have "treeSubClassNames t k deep ns s = Done (Some (map (nameAt s) l), s)"
      using run Some l(1) by (simp add: bindF_def retF_def)
    moreover have "view s t (toLowerUnits k) \<noteq> None" using Some view_None [OF ok k(1)] by simp
    ultimately show ?thesis by (subst if_not_P) blast+
  qed
qed


text \<open>All classes, or the roots.\<close>

lemma allLoop_run:
  assumes "\<forall>e \<in> set es. \<exists>n q. nodes s (snd e) = Some n \<and> ilinks n = Subs q"
  shows "allLoop deep ns es s = Done (map fst (filter (\<lambda>e. deep \<or> superAt s (snd e) = None) es), s)"
  using assms
proof (induction es)
  case (Cons e es)
  then obtain n q where "nodes s (snd e) = Some n" "ilinks n = Subs q" by auto
  with Cons show ?case by (simp add: bindF_def getNode_def retF_def superAt_def)
qed (simp add: retF_def)

lemma entry_facts:
  assumes ok: "treeOk s t" and tb: "trees s t = Some tb" "treeTable tb" and e: "e \<in> set (concat (chains tb))"
  shows "nul_free (fst e)" and "classAt s t (fst e) = Some (snd e)" and "snd e \<in> members s t"
    and "\<exists>n q. nodes s (snd e) = Some n \<and> ilinks n = Subs q"
proof -
  show f: "nul_free (fst e)" using noCaseKey.entries_valid [OF tb(2) e] .
  show c: "classAt s t (fst e) = Some (snd e)" using noCaseKey.entry_contents [OF tb(2) e] tb(1) by (simp add: classAt_def)
  show m: "snd e \<in> members s t" using f c by (auto simp: members_def)
  obtain xs where "kidsOf s (snd e) xs" using tree_kids [OF ok m] by blast
  then show "\<exists>n q. nodes s (snd e) = Some n \<and> ilinks n = Subs q" by (auto simp: kidsOf_def)
qed

lemma view_entry:
  assumes tb: "trees s t = Some tb" "treeTable tb" and j: "view s t j \<noteq> None"
  obtains e where "e \<in> set (concat (chains tb))" and "toLowerUnits (fst e) = j"
proof -
  have n: "nul_free j" "toLowerUnits j = j" using j by (auto simp: view_def split: if_splits)
  then have "contents equalNoCaseFunc tb j \<noteq> None" using j tb(1) by (auto simp: view_def classAt_def split: option.splits)
  then obtain e where e: "e \<in> set (concat (chains tb))" "equalNoCaseFunc j (fst e)"
    unfolding contents_def lookupChain_None_iff by blast
  then show thesis using that [OF e(1)] n noCaseKey.entries_valid [OF tb(2) e(1)] by (simp add: equalNoCase_lower)
qed

lemma entries_lower:
  assumes tb: "treeTable tb"
  shows "distinct (map toLowerUnits (map fst (filter P (concat (chains tb)))))"
proof -
  have "distinct (map (\<lambda>e. toLowerUnits (fst e)) es)"
    if "sorted_wrt (\<lambda>e e'. \<not> equalNoCaseFunc (fst e) (fst e')) es" "\<forall>e \<in> set es. nul_free (fst e)" for es :: "(pstr \<times> nat) list"
    using that by (induction es) (auto simp: equalNoCase_lower)
  from this [OF noCaseKey.entries_apart [OF tb]] noCaseKey.entries_valid [OF tb]
  have "distinct (map (\<lambda>e. toLowerUnits (fst e)) (concat (chains tb)))" by blast
  then have "distinct (map (\<lambda>e. toLowerUnits (fst e)) (filter P (concat (chains tb))))" by (rule distinct_map_filter)
  then show ?thesis by (simp add: comp_def)
qed

lemma allClassNames_spec:
  assumes ok: "treeOk s t"
  shows "\<exists>l. treeSubClassNames t [] deep ns s = Done (Some l, s) \<and> distinct (map toLowerUnits l) \<and>
    set (map toLowerUnits l) = {j. \<exists>b q. view s t j = Some (b, q) \<and> (deep \<or> q = None)}"
proof -
  obtain tb where tb: "trees s t = Some tb" "treeTable tb" using tree_table [OF ok] by blast
  let ?l = "map fst (filter (\<lambda>e. deep \<or> superAt s (snd e) = None) (concat (chains tb)))"
  note facts = entry_facts [OF ok tb]
  have "\<forall>e \<in> set (concat (chains tb)). \<exists>n q. nodes s (snd e) = Some n \<and> ilinks n = Subs q" using facts(4) by blast
  from allLoop_run [OF this] have "treeSubClassNames t [] deep ns s = Done (Some ?l, s)"
    using tb(1) by (simp add: treeSubClassNames_def bindF_def getTree_def visit_start retF_def)
  moreover have "set (map toLowerUnits ?l) = {j. \<exists>b q. view s t j = Some (b, q) \<and> (deep \<or> q = None)}"
  proof (intro equalityI subsetI)
    fix j assume "j \<in> set (map toLowerUnits ?l)"
    then obtain e where e: "e \<in> set (concat (chains tb))" "j = toLowerUnits (fst e)" "deep \<or> superAt s (snd e) = None" by auto
    obtain n where n: "nodes s (snd e) = Some n" using facts(4) [OF e(1)] by blast
    show "j \<in> {j. \<exists>b q. view s t j = Some (b, q) \<and> (deep \<or> q = None)}"
      using view_node [OF ok facts(1,2) [OF e(1)] n] e(2,3) n by (simp add: superAt_def)
  next
    fix j assume "j \<in> {j. \<exists>b q. view s t j = Some (b, q) \<and> (deep \<or> q = None)}"
    then obtain b q where j: "view s t j = Some (b, q)" "deep \<or> q = None" by blast
    then obtain e where e: "e \<in> set (concat (chains tb))" "toLowerUnits (fst e) = j"
      using view_entry [OF tb, of j] by auto
    obtain n where n: "nodes s (snd e) = Some n" using facts(4) [OF e(1)] by blast
    then have "deep \<or> superAt s (snd e) = None"
      using view_node [OF ok facts(1,2) [OF e(1)] n] e(2) j by (auto simp: superAt_def)
    then show "j \<in> set (map toLowerUnits ?l)" using e by auto
  qed
  ultimately show ?thesis using entries_lower [OF tb(2)] by blast
qed

text \<open>The check finds a class that was named as a superclass and never inserted.\<close>

lemma checkLoop_run:
  assumes "\<forall>e \<in> set es. nodes s (snd e) \<noteq> None"
  shows "checkLoop es s =
    (case find (\<lambda>e. \<exists>n. nodes s (snd e) = Some n \<and> iprov n) es of
       None \<Rightarrow> Done ((), s) | Some e \<Rightarrow> Throws (InvalidInheritanceTree (nameAt s (snd e))))"
  using assms by (induction es) (auto simp: retF_def bindF_def getNode_def throwF_def nameAt_def)

lemma checkTree_spec:
  assumes ok: "treeOk s t"
  shows "if \<forall>j b q. view s t j = Some (b, q) \<longrightarrow> \<not> b then checkTree t s = Done ((), s)
    else (\<exists>k q. view s t (toLowerUnits k) = Some (True, q) \<and> checkTree t s = Throws (InvalidInheritanceTree k))"
proof -
  obtain tb where tb: "trees s t = Some tb" "treeTable tb" using tree_table [OF ok] by blast
  let ?es = "concat (chains tb)"
  note facts = entry_facts [OF ok tb]
  have "\<forall>e \<in> set ?es. nodes s (snd e) \<noteq> None" using facts(4) by blast
  from checkLoop_run [OF this] have run: "checkTree t s =
    (case find (\<lambda>e. \<exists>n. nodes s (snd e) = Some n \<and> iprov n) ?es of
       None \<Rightarrow> Done ((), s) | Some e \<Rightarrow> Throws (InvalidInheritanceTree (nameAt s (snd e))))"
    using tb(1) by (simp add: checkTree_def bindF_def getTree_def visit_start)
  show ?thesis
  proof (cases "find (\<lambda>e. \<exists>n. nodes s (snd e) = Some n \<and> iprov n) ?es")
    case None
    have "\<not> b" if h: "view s t j = Some (b, q)" for j b q
    proof -
      obtain e where e: "e \<in> set ?es" "toLowerUnits (fst e) = j" using view_entry [OF tb, of j] h by auto
      obtain n where n: "nodes s (snd e) = Some n" using facts(4) [OF e(1)] by blast
      then have "\<not> iprov n" using None e(1) unfolding find_None_iff by blast
      then show ?thesis using view_node [OF ok facts(1,2) [OF e(1)] n] e(2) h by simp
    qed
    then show ?thesis using run None by auto
  next
    case (Some e)
    then obtain i where "i < length ?es" "\<exists>n. nodes s (snd (?es ! i)) = Some n \<and> iprov n" "e = ?es ! i"
      unfolding find_Some_iff by blast
    then have e: "e \<in> set ?es" "\<exists>n. nodes s (snd e) = Some n \<and> iprov n" using nth_mem by metis+
    then obtain n where n: "nodes s (snd e) = Some n" "iprov n" by blast
    have v: "view s t (toLowerUnits (nameAt s (snd e))) = Some (True, map_option (\<lambda>p. toLowerUnits (nameAt s p)) (isuper n))"
      using member_view [OF ok facts(3) [OF e(1)]] n by (metis option.sel)
    then show ?thesis using run Some by auto
  qed
qed


subsection \<open>Building a tree\<close>

text \<open>\<open>NameSpace::_buildInheritanceTree\<close> for a namespace without a parent, and then with one.\<close>

primrec buildTree :: "nat \<Rightarrow> (pstr \<times> pstr) list \<Rightarrow> unit fprog" where
  "buildTree t [] = retF ()"
| "buildTree t (e # es) = bindF (insertTree t (fst e) (snd e)) (\<lambda>_. buildTree t es)"

primrec buildTreeExt :: "nat \<Rightarrow> (pstr \<times> pstr) list \<Rightarrow> nat \<Rightarrow> nat \<Rightarrow> unit fprog" where
  "buildTreeExt t [] parentTree tag = retF ()"
| "buildTreeExt t (e # es) parentTree tag =
    bindF (insertTreeExt t (fst e) (snd e) parentTree tag) (\<lambda>_. buildTreeExt t es parentTree tag)"

text \<open>The hierarchy a list of classes with their superclasses describes, whatever its order.\<close>

definition linksOf :: "(pstr \<times> pstr) list \<Rightarrow> (pstr \<times> pstr) set" where
  "linksOf l = {(toLowerUnits c, toLowerUnits p) | c p. (c, p) \<in> set l \<and> p \<noteq> []}"

definition hierOf :: "(pstr \<times> pstr) list \<Rightarrow> hierarchy" where
  "hierOf l k =
    (case map_of (map (\<lambda>e. (toLowerUnits (fst e), snd e)) l) k of
       Some p \<Rightarrow> Some (False, if p = [] then None else Some (toLowerUnits p))
     | None \<Rightarrow> if k \<in> snd ` linksOf l then Some (True, None) else None)"

lemma linksOf_snoc: "linksOf (xs @ [(c, p)]) = linksOf xs \<union> (if p = [] then {} else {(toLowerUnits c, toLowerUnits p)})"
  by (auto simp: linksOf_def)

lemma map_of_lower:
  "k \<notin> toLowerUnits ` fst ` set xs \<Longrightarrow> map_of (map (\<lambda>e. (toLowerUnits (fst e), snd e)) xs) k = None"
  by (simp add: map_of_eq_None_iff image_image)

lemma ensureH_apply: "ensureH n h k = (if k = toLowerUnits n \<and> h k = None then Some (True, None) else h k)"
  by (cases "k = toLowerUnits n") (auto simp: ensureH_def)

lemma insertH_other:
  assumes "k \<noteq> toLowerUnits c"
  shows "insertH c p h k = (if p \<noteq> [] \<and> k = toLowerUnits p \<and> h k = None then Some (True, None) else h k)"
  using assms by (cases "p = []") (simp_all add: insertH_def ensureH_apply)

lemma hierOf_snoc:
  assumes "toLowerUnits c \<notin> toLowerUnits ` fst ` set xs"
  shows "hierOf (xs @ [(c, p)]) = insertH c p (hierOf xs)"
proof
  fix k
  have "map_of (map (\<lambda>e. (toLowerUnits (fst e), snd e)) xs) (toLowerUnits c) = None" by (rule map_of_lower [OF assms])
  note none = this
  show "hierOf (xs @ [(c, p)]) k = insertH c p (hierOf xs) k"
  proof (cases "k = toLowerUnits c")
    case True
    then show ?thesis using none by (simp add: hierOf_def insertH_def map_add_def)
  next
    case False
    have "hierOf (xs @ [(c, p)]) k =
        (if p \<noteq> [] \<and> k = toLowerUnits p \<and> hierOf xs k = None then Some (True, None) else hierOf xs k)"
      using False by (simp add: hierOf_def linksOf_snoc map_add_def image_Un split: option.splits)
    then show ?thesis unfolding insertH_other [OF False] .
  qed
qed

lemma parent_hierOf: "parentH (hierOf xs) \<subseteq> linksOf xs"
proof
  fix e assume "e \<in> parentH (hierOf xs)"
  then obtain k q b where e: "e = (k, q)" "hierOf xs k = Some (b, Some q)" by (auto simp: parentH_def)
  then obtain p where "map_of (map (\<lambda>e. (toLowerUnits (fst e), snd e)) xs) k = Some p" "p \<noteq> []" "q = toLowerUnits p"
    by (auto simp: hierOf_def split: option.splits if_splits)
  from map_of_SomeD [OF this(1)] obtain c where "(c, p) \<in> set xs" "k = toLowerUnits c" by auto
  with \<open>p \<noteq> []\<close> \<open>q = toLowerUnits p\<close> show "e \<in> linksOf xs" unfolding linksOf_def e(1) by blast
qed

lemma build_from:
  assumes "treeOk s t" and "view s t = hierOf xs"
    and "distinct (map toLowerUnits (map fst (xs @ l)))" and "acyclic (linksOf (xs @ l))"
    and "\<forall>(c, p) \<in> set l. nul_free c \<and> nul_free p"
  shows "\<exists>s'. buildTree t l s = Done ((), s') \<and> treeOk s' t \<and> view s' t = hierOf (xs @ l)"
  using assms
proof (induction l arbitrary: s xs)
  case Nil
  then show ?case by (simp add: retF_def)
next
  case (Cons e l)
  obtain c p where e: "e = (c, p)" by (cases e)
  have new: "toLowerUnits c \<notin> toLowerUnits ` fst ` set xs" using Cons.prems(3) e by auto
  have "hierOf xs (toLowerUnits c) \<noteq> Some (b, Some q)" for b q
    by (simp add: hierOf_def map_of_lower [OF new])
  then have no: "view s t (toLowerUnits c) \<noteq> Some (b, Some q)" for b q using Cons.prems(2) by simp
  have sub: "linksOf xs \<union> (if p = [] then {} else {(toLowerUnits c, toLowerUnits p)}) \<subseteq> linksOf (xs @ e # l)"
    by (auto simp: linksOf_def e)
  have path: "(toLowerUnits p, toLowerUnits c) \<notin> (parentH (view s t))\<^sup>*" if "p \<noteq> []"
  proof
    assume "(toLowerUnits p, toLowerUnits c) \<in> (parentH (view s t))\<^sup>*"
    moreover have "parentH (view s t) \<subseteq> linksOf (xs @ e # l)" using parent_hierOf [of xs] sub Cons.prems(2) by auto
    ultimately have "(toLowerUnits p, toLowerUnits c) \<in> (linksOf (xs @ e # l))\<^sup>*" using rtrancl_mono by blast
    moreover have "(toLowerUnits c, toLowerUnits p) \<in> linksOf (xs @ e # l)" using sub that by auto
    ultimately have "(toLowerUnits c, toLowerUnits c) \<in> (linksOf (xs @ e # l))\<^sup>+" by (meson rtrancl_into_trancl2)
    then show False using Cons.prems(4) by (auto simp: acyclic_def)
  qed
  have cp: "nul_free c" "nul_free p" using Cons.prems(5) e by auto
  obtain s1 where s1: "insertTree t c p s = Done ((), s1)" "treeOk s1 t" "view s1 t = insertH c p (view s t)"
    using insertTree_spec [OF Cons.prems(1) cp no path] by blast
  have "view s1 t = hierOf (xs @ [e])" using s1(3) Cons.prems(2) hierOf_snoc [OF new] e by simp
  moreover have "distinct (map toLowerUnits (map fst ((xs @ [e]) @ l)))" "acyclic (linksOf ((xs @ [e]) @ l))"
    "\<forall>(c, p) \<in> set l. nul_free c \<and> nul_free p" using Cons.prems(3-5) by simp_all
  ultimately obtain s' where "buildTree t l s1 = Done ((), s')" "treeOk s' t" "view s' t = hierOf ((xs @ [e]) @ l)"
    using Cons.IH [OF s1(2)] by blast
  then show ?case using s1(1) e by (auto simp: bindF_def)
qed

text \<open>A tree that has just been made.\<close>

lemma emptyTable_ok: "treeTable emptyTree" and contents_empty: "contents equalNoCaseFunc emptyTree k = None"
  by (simp_all add: emptyTree_def noCaseKey.new_ok noCaseKey.contents_new)

lemma emptyTree_ok:
  assumes "trees s t = Some emptyTree" and "\<forall>a. nodes s a \<noteq> None \<longrightarrow> a < nextNode s"
  shows "treeOk s t" and "view s t = hierOf []"
proof -
  have none: "classAt s t k = None" for k using assms(1) by (simp add: classAt_def contents_empty)
  have m: "members s t = {}" using none by (simp add: members_def)
  have "nul_free k \<Longrightarrow> toLowerUnits k = k \<Longrightarrow> view s t k = hierOf [] k" for k using none by (simp add: view_def hierOf_def linksOf_def)
  then show "view s t = hierOf []" by (auto simp: fun_eq_iff view_def hierOf_def linksOf_def none)
  show "treeOk s t"
    by (rule treeOkI [OF assms(1) emptyTable_ok]) (use none m assms(2) in \<open>auto simp: supers_def acyclic_def\<close>)
qed


subsection \<open>Properties\<close>

text \<open>
  C3: on a well-formed tree, \<open>insert\<close> and \<open>remove\<close> are insertion and removal in the hierarchy of names.
  A class that has no superclass yet is entered below its superclass, made provisional when it is not
  there, unless that would close a cycle; removing fails for an unknown class and for one with
  subclasses, and else takes out that class alone. The chains of siblings, the superclass pointers and
  the table stay consistent, and no node that has been deleted is read.
\<close>

theorem tree_refines_hierarchy:
  assumes "treeOk s t" and "nul_free c" and "nul_free p"
  shows "((\<forall>b q. view s t (toLowerUnits c) \<noteq> Some (b, Some q)) \<and>
      (p \<noteq> [] \<longrightarrow> (toLowerUnits p, toLowerUnits c) \<notin> (parentH (view s t))\<^sup>*) \<longrightarrow>
      (\<exists>s'. insertTree t c p s = Done ((), s') \<and> treeOk s' t \<and> view s' t = insertH c p (view s t))) \<and>
    (case view s t (toLowerUnits c) of
       None \<Rightarrow> removeTree t c u None s = Throws (InvalidClass c)
     | Some _ \<Rightarrow>
         if \<exists>j. (j, toLowerUnits c) \<in> parentH (view s t) then removeTree t c u None s = Throws (ClassHasChildren c)
         else \<exists>s'. removeTree t c u None s = Done ((), s') \<and> treeOk s' t \<and> view s' t = (view s t)(toLowerUnits c := None))"
  using insertTree_spec [OF assms] removeTree_spec [OF assms(1,2), of u] by blast

text \<open>A forest with one empty tree, and classes whose names get longer towards the leaves.\<close>

definition emptyForest :: forest where
  "emptyForest = \<lparr>nodes = \<lambda>_. None, nextNode = 0, trees = (\<lambda>_. None)(0 \<mapsto> emptyTree)\<rparr>"

lemma emptyForest_ok: "treeOk emptyForest 0" and emptyForest_view: "view emptyForest 0 = hierOf []"
  using emptyTree_ok [of emptyForest 0] by (simp_all add: emptyForest_def)

lemma length_lower [simp]: "length (toLowerUnits k) = length k"
  by (simp add: toLowerUnits_eq)

lemma lower_longer: "length j < length k \<Longrightarrow> toLowerUnits j \<noteq> toLowerUnits k"
  by (metis length_lower nat_neq_iff)

lemma lower_Nil [simp]: "toLowerUnits [] = []"
  by (simp add: toLowerUnits_eq)

theorem tree_refines_hierarchy_witness:
  "\<exists>s'. insertTree 0 (units ''CIM_Fan'') [] emptyForest = Done ((), s') \<and> treeOk s' 0 \<and>
    view s' 0 (toLowerUnits (units ''CIM_Fan'')) = Some (False, None)"
proof -
  have "nul_free (units ''CIM_Fan'')" "nul_free []" by (simp_all add: units_def nul_free_def)
  from tree_refines_hierarchy [OF emptyForest_ok this]
  obtain s' where s': "insertTree 0 (units ''CIM_Fan'') [] emptyForest = Done ((), s')" "treeOk s' 0"
    "view s' 0 = insertH (units ''CIM_Fan'') [] (view emptyForest 0)"
    by (auto simp: emptyForest_view hierOf_def linksOf_def)
  have "view s' 0 (toLowerUnits (units ''CIM_Fan'')) = Some (False, None)" unfolding s'(3) by (simp add: insertH_def)
  with s'(1,2) show ?thesis by blast
qed

text \<open>A tree of two classes.\<close>

definition diskClasses :: "(pstr \<times> pstr) list" where
  "diskClasses = [(units ''A_Disk'', units ''A_Dev''), (units ''A_Dev'', [])]"

lemma disk_names:
  shows "toLowerUnits (units ''A_Dev'') \<noteq> toLowerUnits (units ''A_Disk'')"
    and "nul_free (units ''A_Dev'')" and "nul_free (units ''A_Disk'')" and "units ''A_Dev'' \<noteq> []"
  by (rule lower_longer) (simp_all add: units_def nul_free_def)

lemma disk_links: "linksOf diskClasses = {(toLowerUnits (units ''A_Disk''), toLowerUnits (units ''A_Dev''))}"
  by (auto simp: linksOf_def units_def diskClasses_def)

lemma disk_hyps:
  shows "acyclic (linksOf diskClasses)" and "distinct (map toLowerUnits (map fst diskClasses))"
    and "\<forall>(c, p) \<in> set diskClasses. nul_free c \<and> nul_free p"
proof -
  show "acyclic (linksOf diskClasses)" unfolding disk_links using disk_names(1) by (simp add: acyclic_insert wf_acyclic)
  show "distinct (map toLowerUnits (map fst diskClasses))" using disk_names(1) by (simp add: diskClasses_def)
  show "\<forall>(c, p) \<in> set diskClasses. nul_free c \<and> nul_free p" by (simp add: diskClasses_def units_def nul_free_def)
qed

lemma disk_hier:
  shows "hierOf diskClasses (toLowerUnits (units ''A_Dev'')) = Some (False, None)"
    and "hierOf diskClasses (toLowerUnits (units ''A_Disk'')) = Some (False, Some (toLowerUnits (units ''A_Dev'')))"
    and "parentH (hierOf diskClasses) = {(toLowerUnits (units ''A_Disk''), toLowerUnits (units ''A_Dev''))}"
proof -
  show dev: "hierOf diskClasses (toLowerUnits (units ''A_Dev'')) = Some (False, None)"
    using disk_names(1) by (simp add: hierOf_def diskClasses_def)
  show disk: "hierOf diskClasses (toLowerUnits (units ''A_Disk'')) = Some (False, Some (toLowerUnits (units ''A_Dev'')))"
    using disk_names(4) by (simp add: hierOf_def diskClasses_def)
  have "(toLowerUnits (units ''A_Disk''), toLowerUnits (units ''A_Dev'')) \<in> parentH (hierOf diskClasses)"
    using disk by (auto simp: parentH_def)
  then show "parentH (hierOf diskClasses) = {(toLowerUnits (units ''A_Disk''), toLowerUnits (units ''A_Dev''))}"
    using parent_hierOf [of diskClasses] unfolding disk_links by blast
qed

lemma disk_tree:
  obtains s where "buildTree 0 diskClasses emptyForest = Done ((), s)" and "treeOk s 0" and "view s 0 = hierOf diskClasses"
  using build_from [OF emptyForest_ok emptyForest_view, of diskClasses] disk_hyps by auto

text \<open>
  C7: \<open>getSubClassNames\<close> returns on every well-formed tree. For a class that is there it lists each class
  directly below it, or with deep inheritance each class below it at any depth, exactly once; without
  a class name it lists the roots, or all classes; and it returns false exactly for an unknown class.
\<close>

theorem subclasses_exact:
  assumes "treeOk s t" and "nul_free k"
  shows "(if k \<noteq> [] \<and> view s t (toLowerUnits k) = None then treeSubClassNames t k deep ns s = Done (None, s)
    else (\<exists>l. treeSubClassNames t k deep ns s = Done (Some l, s) \<and> distinct (map toLowerUnits l) \<and>
      set (map toLowerUnits l) =
        (if k = [] then {j. \<exists>b q. view s t j = Some (b, q) \<and> (deep \<or> q = None)}
         else {j. (j, toLowerUnits k) \<in> (if deep then (parentH (view s t))\<^sup>+ else parentH (view s t))})))"
proof (cases "k = []")
  case True
  then show ?thesis using allClassNames_spec [OF assms(1), of deep ns] by simp
next
  case False
  show ?thesis using subClassNames_spec [OF assms False, of deep ns] by (simp only: False simp_thms if_False)
qed

theorem subclasses_exact_witness:
  "\<exists>s l. buildTree 0 diskClasses emptyForest = Done ((), s) \<and>
    treeSubClassNames 0 (units ''A_Dev'') False None s = Done (Some l, s) \<and> length l = 1"
proof -
  obtain s where s: "buildTree 0 diskClasses emptyForest = Done ((), s)" "treeOk s 0" "view s 0 = hierOf diskClasses"
    by (rule disk_tree)
  obtain l where l: "treeSubClassNames 0 (units ''A_Dev'') False None s = Done (Some l, s)" "distinct (map toLowerUnits l)"
    "set (map toLowerUnits l) = {toLowerUnits (units ''A_Disk'')}"
    using subclasses_exact [OF s(2) disk_names(2), of False None] disk_names(4) unfolding s(3) disk_hier by auto
  have "length l = 1" using distinct_card [OF l(2)] l(3) by simp
  with s(1) l(1) show ?thesis by blast
qed

text \<open>
  C18: \<open>getSuperClassNames\<close> returns on every well-formed tree, with the chain of superclasses up to the
  root, nearest first, or false for an unknown class; \<open>getSuperClass\<close> gives the first of them, the null
  name for a root; \<open>hasSubClasses\<close> and \<open>containsClass\<close> answer for the hierarchy. None changes the tree.
\<close>

theorem superclasses_exact:
  assumes "treeOk s t" and "nul_free k"
  shows "(case view s t (toLowerUnits k) of
       None \<Rightarrow> treeSuperClassNames t k s = Done (None, s)
     | Some (b, q) \<Rightarrow> (\<exists>l. treeSuperClassNames t k s = Done (Some l, s) \<and> chainH (view s t) q l)) \<and>
    (\<exists>r. treeSuperClass t k s = Done (r, s) \<and>
      map_option toLowerUnits r = map_option (\<lambda>(b, q). case q of None \<Rightarrow> [] | Some p \<Rightarrow> p) (view s t (toLowerUnits k))) \<and>
    hasSubClasses t k s =
      Done (map_option (\<lambda>_. \<exists>j. (j, toLowerUnits k) \<in> parentH (view s t)) (view s t (toLowerUnits k)), s) \<and>
    containsClass t k s = Done (view s t (toLowerUnits k) \<noteq> None, s)"
  using superClassNames_spec [OF assms] superClass_spec [OF assms] hasSubClasses_spec [OF assms] containsClass_spec [OF assms]
  by blast

theorem superclasses_exact_witness:
  "\<exists>s n. buildTree 0 diskClasses emptyForest = Done ((), s) \<and>
    treeSuperClassNames 0 (units ''A_Disk'') s = Done (Some [n], s) \<and> toLowerUnits n = toLowerUnits (units ''A_Dev'')"
proof -
  obtain s where s: "buildTree 0 diskClasses emptyForest = Done ((), s)" "treeOk s 0" "view s 0 = hierOf diskClasses"
    by (rule disk_tree)
  obtain l where l: "treeSuperClassNames 0 (units ''A_Disk'') s = Done (Some l, s)"
    "chainH (view s 0) (Some (toLowerUnits (units ''A_Dev''))) l"
    using superclasses_exact [OF s(2) disk_names(3)] unfolding s(3) disk_hier by auto
  obtain n where "l = [n]" "toLowerUnits n = toLowerUnits (units ''A_Dev'')"
    using l(2) unfolding s(3) by (cases l) (auto simp: disk_hier)
  with s(1) l(1) show ?thesis by blast
qed

text \<open>
  C11: inserting the classes of a namespace into an empty tree, in any order, gives the tree of the
  hierarchy they describe: the result depends only on which classes there are. The check that follows
  passes when every superclass is among the classes and else throws, naming one that is not.
\<close>

theorem built_tree_complete:
  assumes "trees s t = Some emptyTree" and "\<forall>a. nodes s a \<noteq> None \<longrightarrow> a < nextNode s"
    and "distinct (map toLowerUnits (map fst l))" and "acyclic (linksOf l)" and "\<forall>(c, p) \<in> set l. nul_free c \<and> nul_free p"
  shows "\<exists>s'. buildTree t l s = Done ((), s') \<and> treeOk s' t \<and> view s' t = hierOf l \<and>
    (if snd ` linksOf l \<subseteq> toLowerUnits ` fst ` set l then checkTree t s' = Done ((), s')
     else (\<exists>k. toLowerUnits k \<in> snd ` linksOf l - toLowerUnits ` fst ` set l \<and>
       checkTree t s' = Throws (InvalidInheritanceTree k)))"
proof -
  obtain s' where s': "buildTree t l s = Done ((), s')" "treeOk s' t" "view s' t = hierOf l"
    using build_from [OF emptyTree_ok [OF assms(1,2)], of l] assms(3-5) by (simp only: append_Nil) blast
  have prov: "(\<exists>q. hierOf l k = Some (True, q)) \<longleftrightarrow> k \<in> snd ` linksOf l - toLowerUnits ` fst ` set l" for k
  proof (cases "map_of (map (\<lambda>e. (toLowerUnits (fst e), snd e)) l) k")
    case None
    then have "k \<notin> toLowerUnits ` fst ` set l" by (simp add: map_of_eq_None_iff image_image)
    then show ?thesis using None by (simp add: hierOf_def)
  next
    case (Some p)
    then obtain c where "(c, p) \<in> set l" "k = toLowerUnits c" using map_of_SomeD [OF Some] by auto
    then have "k \<in> toLowerUnits ` fst ` set l" by force
    then show ?thesis using Some by (simp add: hierOf_def)
  qed
  have "(\<forall>j b q. view s' t j = Some (b, q) \<longrightarrow> \<not> b) \<longleftrightarrow> snd ` linksOf l \<subseteq> toLowerUnits ` fst ` set l"
  proof -
    have "(\<forall>j b q. hierOf l j = Some (b, q) \<longrightarrow> \<not> b) \<longleftrightarrow> \<not> (\<exists>j q. hierOf l j = Some (True, q))" by (metis (full_types))
    then show ?thesis unfolding s'(3) prov by (simp only: Diff_eq_empty_iff [symmetric]) blast
  qed
  note all = this
  have "if snd ` linksOf l \<subseteq> toLowerUnits ` fst ` set l then checkTree t s' = Done ((), s')
     else (\<exists>k. toLowerUnits k \<in> snd ` linksOf l - toLowerUnits ` fst ` set l \<and>
       checkTree t s' = Throws (InvalidInheritanceTree k))"
  proof (cases "snd ` linksOf l \<subseteq> toLowerUnits ` fst ` set l")
    case True
    with checkTree_spec [OF s'(2)] show ?thesis unfolding all by simp
  next
    case False
    with checkTree_spec [OF s'(2)] obtain k q where k: "view s' t (toLowerUnits k) = Some (True, q)"
      "checkTree t s' = Throws (InvalidInheritanceTree k)" unfolding all by auto
    then have "toLowerUnits k \<in> snd ` linksOf l - toLowerUnits ` fst ` set l" unfolding prov [symmetric] s'(3) by blast
    with k(2) False show ?thesis by (subst if_not_P) blast+
  qed
  with s' show ?thesis by blast
qed

theorem built_tree_complete_witness:
  "\<exists>s'. buildTree 0 diskClasses emptyForest = Done ((), s') \<and> checkTree 0 s' = Done ((), s')"
proof -
  have "snd ` linksOf diskClasses \<subseteq> toLowerUnits ` fst ` set diskClasses" unfolding disk_links by (simp add: diskClasses_def)
  then show ?thesis using built_tree_complete [of emptyForest 0 diskClasses] disk_hyps by (auto simp: emptyForest_def)
qed

subsection \<open>Two namespaces with one parent\<close>

lemma extLoop_state:
  assumes "\<forall>a l s'. follow a s = Done (l, s') \<longrightarrow> s' = s" and "extLoop follow name ns es s = Done (l, s')"
  shows "s' = s"
  using assms(2)
proof (induction es arbitrary: l)
  case (Cons e es)
  then show ?case using assms(1)
    by (auto simp: bindF_def retF_def split: if_splits outcome.splits) blast+
qed (simp add: retF_def)

text \<open>What the loop does for one node before it goes on to the sibling.\<close>

definition oneNode :: "nat \<Rightarrow> bool \<Rightarrow> nat option \<Rightarrow> inode \<Rightarrow> pstr list fprog" where
  "oneNode fuel deep ns n =
    (case ilinks n of
       Exts es \<Rightarrow> extLoop (followSubs (subLoop fuel deep ns)) (iname n) ns es
     | Subs q \<Rightarrow> if deep then bindF (subLoop fuel True ns q) (\<lambda>l. retF (iname n # l)) else retF [iname n]
     | FreedExts \<Rightarrow> undefinedF)"

lemma subLoop_Suc:
  assumes "nodes s a = Some n"
  shows "subLoop (Suc fuel) deep ns (Some a) s =
    bindF (oneNode fuel deep ns n) (\<lambda>l. bindF (subLoop fuel deep ns (isibling n)) (\<lambda>m. retF (l @ m))) s"
  using assms by (simp add: bindF_def [of "getNode a"] getNode_def oneNode_def)

lemma oneNode_state:
  assumes "\<forall>deep p l s'. subLoop fuel deep ns p s = Done (l, s') \<longrightarrow> s' = s" and "oneNode fuel deep ns n s = Done (l, s')"
  shows "s' = s"
proof (cases "ilinks n")
  case (Exts es)
  have "\<forall>a l s'. followSubs (subLoop fuel deep ns) a s = Done (l, s') \<longrightarrow> s' = s"
    using assms(1) by (auto simp: followSubs_def bindF_def getNode_def undefinedF_def split: option.splits links.splits)
  from extLoop_state [of "followSubs (subLoop fuel deep ns)" s, OF this] assms(2) Exts show ?thesis by (simp add: oneNode_def)
next
  case (Subs q)
  then show ?thesis using assms by (auto simp: oneNode_def bindF_def retF_def split: if_splits outcome.splits)
qed (use assms(2) in \<open>simp add: oneNode_def undefinedF_def\<close>)

lemma bindF_Done: "bindF m f s = Done r \<longleftrightarrow> (\<exists>x s'. m s = Done (x, s') \<and> f x s' = Done r)"
  by (auto simp: bindF_def split: outcome.splits)

lemma subLoop_state: "subLoop fuel deep ns p s = Done (l, s') \<Longrightarrow> s' = s"
proof (induction fuel arbitrary: deep p l s')
  case (Suc fuel)
  show ?case
  proof (cases p)
    case (Some a)
    with Suc.prems obtain n where n: "nodes s a = Some n" by (auto simp: bindF_def getNode_def split: option.splits)
    obtain l1 s1 l2 where r: "oneNode fuel deep ns n s = Done (l1, s1)" "subLoop fuel deep ns (isibling n) s1 = Done (l2, s')"
      using Suc.prems unfolding Some subLoop_Suc [OF n] bindF_Done retF_def by blast
    have "s1 = s" by (rule oneNode_state [OF _ r(1)]) (use Suc.IH in blast)
    then show ?thesis using r(2) Suc.IH by blast
  qed (use Suc.prems in \<open>simp add: retF_def\<close>)
qed (simp add: undefinedF_def)

text \<open>A node that is its own sibling keeps the loop from ending.\<close>

lemma self_sibling:
  assumes "nodes s a = Some n" and "isibling n = Some a"
  shows "subLoop fuel deep ns (Some a) s \<noteq> Done r"
proof (induction fuel arbitrary: r)
  case (Suc fuel)
  show ?case
  proof
    assume "subLoop (Suc fuel) deep ns (Some a) s = Done r"
    then obtain l1 s1 r2 where r: "oneNode fuel deep ns n s = Done (l1, s1)" "subLoop fuel deep ns (Some a) s1 = Done r2"
      unfolding subLoop_Suc [OF assms(1)] bindF_Done assms(2) by blast
    have "s1 = s" by (rule oneNode_state [OF _ r(1)]) (use subLoop_state in blast)
    then show False using r(2) Suc.IH by blast
  qed
qed (simp add: undefinedF_def)


text \<open>The tables of names, entry by entry.\<close>

lemma table_steps:
  assumes "treeTable tb" and "nul_free k"
  shows "tableLookup equalNoCaseFunc hashLowerCase k tb = Some (contents equalNoCaseFunc tb k)"
    and "contents equalNoCaseFunc tb k = None \<Longrightarrow>
      \<exists>tb'. tableInsert equalNoCaseFunc hashLowerCase k a tb = Some (True, tb') \<and> treeTable tb' \<and>
        (\<forall>k'. nul_free k' \<longrightarrow> contents equalNoCaseFunc tb' k' =
          (if toLowerUnits k' = toLowerUnits k then Some a else contents equalNoCaseFunc tb k'))"
    and "\<exists>b tb'. tableRemove equalNoCaseFunc hashLowerCase k tb = Some (b, tb') \<and> treeTable tb' \<and>
        (\<forall>k'. nul_free k' \<longrightarrow> contents equalNoCaseFunc tb' k' =
          (if toLowerUnits k' = toLowerUnits k then None else contents equalNoCaseFunc tb k'))"
proof -
  show "tableLookup equalNoCaseFunc hashLowerCase k tb = Some (contents equalNoCaseFunc tb k)"
    by (rule noCaseKey.lookup_exact [OF assms])
  show "\<exists>tb'. tableInsert equalNoCaseFunc hashLowerCase k a tb = Some (True, tb') \<and> treeTable tb' \<and>
        (\<forall>k'. nul_free k' \<longrightarrow> contents equalNoCaseFunc tb' k' =
          (if toLowerUnits k' = toLowerUnits k then Some a else contents equalNoCaseFunc tb k'))"
    if "contents equalNoCaseFunc tb k = None"
    using noCaseKey.insert_exact [OF assms, of a] that assms(2) by (auto simp: equalNoCase_lower)
  show "\<exists>b tb'. tableRemove equalNoCaseFunc hashLowerCase k tb = Some (b, tb') \<and> treeTable tb' \<and>
        (\<forall>k'. nul_free k' \<longrightarrow> contents equalNoCaseFunc tb' k' =
          (if toLowerUnits k' = toLowerUnits k then None else contents equalNoCaseFunc tb k'))"
  proof -
    obtain b tb' where "tableRemove equalNoCaseFunc hashLowerCase k tb = Some (b, tb')" "treeTable tb'"
      "\<forall>k'. nul_free k' \<longrightarrow> contents equalNoCaseFunc tb' k' =
         (if equalNoCaseFunc k' k then None else contents equalNoCaseFunc tb k')"
      using noCaseKey.remove_exact [OF assms] by auto
    then show ?thesis using assms(2) by (intro exI [of _ b] exI [of _ tb']) (simp add: equalNoCase_lower)
  qed
qed

text \<open>Entering the first class of a namespace below the parent with tree \<open>u\<close>.\<close>

lemma insertExt_first:
  assumes "trees s u = Some emptyTree" and "trees s t = Some emptyTree" and "t \<noteq> u"
    and "nul_free c" and "nul_free p" and "p \<noteq> []" and "toLowerUnits c \<noteq> toLowerUnits p"
  shows "\<exists>tu tt. insertTreeExt t c p u tag s = Done ((), s\<lparr>
      nodes := (nodes s)(
        nextNode s \<mapsto> \<lparr>iname = p, isuper = None, isibling = None, ilinks = Subs (Some (Suc (nextNode s))), iprov = True\<rparr>,
        Suc (nextNode s) \<mapsto> \<lparr>iname = c, isuper = Some (nextNode s), isibling = None,
          ilinks = Exts [(tag, Suc (Suc (nextNode s)))], iprov = False\<rparr>,
        Suc (Suc (nextNode s)) \<mapsto> \<lparr>iname = c, isuper = Some (nextNode s), isibling = None, ilinks = Subs None, iprov = True\<rparr>),
      nextNode := Suc (Suc (Suc (nextNode s))),
      trees := (trees s)(u \<mapsto> tu, t \<mapsto> tt)\<rparr>) \<and>
    treeTable tu \<and> treeTable tt \<and>
    contents equalNoCaseFunc tu p = Some (nextNode s) \<and> contents equalNoCaseFunc tu c = Some (Suc (nextNode s)) \<and>
    contents equalNoCaseFunc tt c = Some (Suc (Suc (nextNode s)))"
proof -
  let ?N = "nextNode s"
  note look = table_steps(1) and ins = table_steps(2)
  obtain t1 where t1: "tableInsert equalNoCaseFunc hashLowerCase p ?N emptyTree = Some (True, t1)" "treeTable t1"
    "\<forall>k'. nul_free k' \<longrightarrow> contents equalNoCaseFunc t1 k' = (if toLowerUnits k' = toLowerUnits p then Some ?N else None)"
    using ins [of emptyTree p ?N, OF emptyTable_ok assms(5) contents_empty] unfolding contents_empty by blast
  have c1: "contents equalNoCaseFunc t1 c = None" using t1(3) assms(4,7) by simp
  obtain tu where tu: "tableInsert equalNoCaseFunc hashLowerCase c (Suc ?N) t1 = Some (True, tu)" "treeTable tu"
    "\<forall>k'. nul_free k' \<longrightarrow> contents equalNoCaseFunc tu k' =
      (if toLowerUnits k' = toLowerUnits c then Some (Suc ?N) else contents equalNoCaseFunc t1 k')"
    using ins [OF t1(2) assms(4) c1] by blast
  obtain tt where tt: "tableInsert equalNoCaseFunc hashLowerCase c (Suc (Suc ?N)) emptyTree = Some (True, tt)" "treeTable tt"
    "\<forall>k'. nul_free k' \<longrightarrow> contents equalNoCaseFunc tt k' = (if toLowerUnits k' = toLowerUnits c then Some (Suc (Suc ?N)) else None)"
    using ins [of emptyTree c "Suc (Suc ?N)", OF emptyTable_ok assms(4) contents_empty] unfolding contents_empty by blast
  have "insertTreeExt t c p u tag s = Done ((), s\<lparr>
      nodes := (nodes s)(
        nextNode s \<mapsto> \<lparr>iname = p, isuper = None, isibling = None, ilinks = Subs (Some (Suc (nextNode s))), iprov = True\<rparr>,
        Suc (nextNode s) \<mapsto> \<lparr>iname = c, isuper = Some (nextNode s), isibling = None,
          ilinks = Exts [(tag, Suc (Suc (nextNode s)))], iprov = False\<rparr>,
        Suc (Suc (nextNode s)) \<mapsto> \<lparr>iname = c, isuper = Some (nextNode s), isibling = None, ilinks = Subs None, iprov = True\<rparr>),
      nextNode := Suc (Suc (Suc (nextNode s))),
      trees := (trees s)(u \<mapsto> tu, t \<mapsto> tt)\<rparr>)"
    using assms(1-3,6) t1(1) tu(1) tt(1) c1 look [OF emptyTable_ok assms(4)] look [OF emptyTable_ok assms(5)] look [OF t1(2) assms(4)]
    by (simp add: insertTreeExt_def findOrMake_def lookupClass_def enterClass_def newNode_def getTree_def putTree_def
        getNode_def putNode_def addSubClass_def bindF_def retF_def contents_empty fun_eq_iff)
  then show ?thesis using tu tt t1(3) assms(4,5,7) by (intro exI [of _ tu] exI [of _ tt]) simp
qed


text \<open>Entering the same class for a second namespace makes its node in the parent its own sibling.\<close>

lemma insertExt_twice:
  assumes "trees s u = Some emptyTree" and "trees s t = Some emptyTree" and "trees s t' = Some emptyTree"
    and "t \<noteq> u" and "t' \<noteq> u" and "t' \<noteq> t"
    and "nul_free c" and "nul_free p" and "p \<noteq> []" and "toLowerUnits c \<noteq> toLowerUnits p"
  shows "\<exists>s' n m. bindF (insertTreeExt t c p u tag) (\<lambda>_. insertTreeExt t' c p u tag') s = Done ((), s') \<and>
    classAt s' u p = Some (nextNode s) \<and> nodes s' (nextNode s) = Some n \<and> ilinks n = Subs (Some (Suc (nextNode s))) \<and>
    nodes s' (Suc (nextNode s)) = Some m \<and> isibling m = Some (Suc (nextNode s))"
proof -
  let ?N = "nextNode s"
  obtain tu tt s1 where s1: "insertTreeExt t c p u tag s = Done ((), s1)"
    and s1_def: "s1 = s\<lparr>
      nodes := (nodes s)(
        nextNode s \<mapsto> \<lparr>iname = p, isuper = None, isibling = None, ilinks = Subs (Some (Suc (nextNode s))), iprov = True\<rparr>,
        Suc (nextNode s) \<mapsto> \<lparr>iname = c, isuper = Some (nextNode s), isibling = None,
          ilinks = Exts [(tag, Suc (Suc (nextNode s)))], iprov = False\<rparr>,
        Suc (Suc (nextNode s)) \<mapsto> \<lparr>iname = c, isuper = Some (nextNode s), isibling = None, ilinks = Subs None, iprov = True\<rparr>),
      nextNode := Suc (Suc (Suc (nextNode s))),
      trees := (trees s)(u \<mapsto> tu, t \<mapsto> tt)\<rparr>"
    and tu: "treeTable tu" "contents equalNoCaseFunc tu p = Some ?N" "contents equalNoCaseFunc tu c = Some (Suc ?N)"
    using insertExt_first [OF assms(1,2,4,7-10), of tag] by blast
  obtain tt' where tt': "tableInsert equalNoCaseFunc hashLowerCase c (Suc (Suc (Suc ?N))) emptyTree = Some (True, tt')"
    using table_steps(2) [OF emptyTable_ok assms(7) contents_empty] by blast
  note look = table_steps(1) [OF emptyTable_ok assms(7)] table_steps(1) [OF tu(1) assms(7)] table_steps(1) [OF tu(1) assms(8)]
  define s2 where "s2 = s1\<lparr>
      nodes := (nodes s1)(
        ?N \<mapsto> \<lparr>iname = p, isuper = None, isibling = None, ilinks = Subs (Some (Suc ?N)), iprov = True\<rparr>,
        Suc ?N \<mapsto> \<lparr>iname = c, isuper = Some ?N, isibling = Some (Suc ?N),
          ilinks = Exts [(tag, Suc (Suc ?N)), (tag', Suc (Suc (Suc ?N)))], iprov = False\<rparr>,
        Suc (Suc (Suc ?N)) \<mapsto> \<lparr>iname = c, isuper = Some ?N, isibling = None, ilinks = Subs None, iprov = True\<rparr>),
      nextNode := Suc (Suc (Suc (Suc ?N))),
      trees := (trees s1)(t' \<mapsto> tt')\<rparr>"
  have "insertTreeExt t' c p u tag' s1 = Done ((), s2)"
    using assms(1-6,9) tt' look tu(2,3)
    by (simp add: s2_def s1_def insertTreeExt_def findOrMake_def lookupClass_def enterClass_def newNode_def getTree_def putTree_def
        getNode_def putNode_def addSubClass_def bindF_def retF_def contents_empty fun_eq_iff)
  moreover have "classAt s2 u p = Some ?N" using assms(4,5) tu(2) by (simp add: classAt_def s2_def s1_def)
  ultimately show ?thesis
    by (intro exI [of _ s2]) (use s1 in \<open>simp add: bindF_def s2_def\<close>)
qed

text \<open>
  C28: two namespaces below one parent that both have a class of the same name: the second \<open>insert\<close> links
  the node of the class among the children of its superclass in the parent's tree again, which makes it
  its own sibling, and \<open>getSubClassNames\<close> of the superclass never returns there, whatever the fuel. When
  one such namespace removes its class, the node keeps its place among the children in the parent's
  tree though its array of extensions has been deleted, and the next \<open>getSubClassNames\<close> reads it.
\<close>

theorem extension_defects:
  assumes "trees s u = Some emptyTree" and "trees s t = Some emptyTree" and "trees s t' = Some emptyTree"
    and "t \<noteq> u" and "t' \<noteq> u" and "t' \<noteq> t"
    and "nul_free c" and "nul_free p" and "p \<noteq> []" and "toLowerUnits c \<noteq> toLowerUnits p"
  shows "(\<exists>s' a. bindF (insertTreeExt t c p u tag) (\<lambda>_. insertTreeExt t' c p u tag') s = Done ((), s') \<and>
      classAt s' u p = Some a \<and> (\<forall>fuel deep ns r. followSubs (subLoop fuel deep ns) a s' \<noteq> Done r)) \<and>
    (\<exists>s' a. bindF (insertTreeExt t c p u tag) (\<lambda>_. removeTree t c u (Some tag)) s = Done ((), s') \<and>
      classAt s' u p = Some a \<and> (\<forall>fuel deep ns. followSubs (subLoop fuel deep ns) a s' = Undefined))"
proof (intro conjI)
  obtain s' n m where s': "bindF (insertTreeExt t c p u tag) (\<lambda>_. insertTreeExt t' c p u tag') s = Done ((), s')"
    "classAt s' u p = Some (nextNode s)" "nodes s' (nextNode s) = Some n" "ilinks n = Subs (Some (Suc (nextNode s)))"
    "nodes s' (Suc (nextNode s)) = Some m" "isibling m = Some (Suc (nextNode s))"
    using insertExt_twice [OF assms] by blast
  show "\<exists>s' a. bindF (insertTreeExt t c p u tag) (\<lambda>_. insertTreeExt t' c p u tag') s = Done ((), s') \<and>
      classAt s' u p = Some a \<and> (\<forall>fuel deep ns r. followSubs (subLoop fuel deep ns) a s' \<noteq> Done r)"
    by (intro exI [of _ s'] exI [of _ "nextNode s"])
       (use s' self_sibling [OF s'(5,6)] in \<open>simp add: followSubs_def bindF_def getNode_def\<close>)
next
  let ?N = "nextNode s"
  obtain tu tt s1 where s1: "insertTreeExt t c p u tag s = Done ((), s1)"
    and s1_def: "s1 = s\<lparr>
      nodes := (nodes s)(
        nextNode s \<mapsto> \<lparr>iname = p, isuper = None, isibling = None, ilinks = Subs (Some (Suc (nextNode s))), iprov = True\<rparr>,
        Suc (nextNode s) \<mapsto> \<lparr>iname = c, isuper = Some (nextNode s), isibling = None,
          ilinks = Exts [(tag, Suc (Suc (nextNode s)))], iprov = False\<rparr>,
        Suc (Suc (nextNode s)) \<mapsto> \<lparr>iname = c, isuper = Some (nextNode s), isibling = None, ilinks = Subs None, iprov = True\<rparr>),
      nextNode := Suc (Suc (Suc (nextNode s))),
      trees := (trees s)(u \<mapsto> tu, t \<mapsto> tt)\<rparr>"
    and tu: "treeTable tu" "contents equalNoCaseFunc tu p = Some ?N" "contents equalNoCaseFunc tu c = Some (Suc ?N)"
    and tt: "treeTable tt" "contents equalNoCaseFunc tt c = Some (Suc (Suc ?N))"
    using insertExt_first [OF assms(1,2,4,7-10), of tag] by blast
  obtain b tu' where tu': "tableRemove equalNoCaseFunc hashLowerCase c tu = Some (b, tu')"
    "\<forall>k'. nul_free k' \<longrightarrow> contents equalNoCaseFunc tu' k' =
          (if toLowerUnits k' = toLowerUnits c then None else contents equalNoCaseFunc tu k')"
    using table_steps(3) [OF tu(1) assms(7)] by blast
  obtain b' tt' where tt': "tableRemove equalNoCaseFunc hashLowerCase c tt = Some (b', tt')"
    using table_steps(3) [OF tt(1) assms(7)] by blast
  have p: "contents equalNoCaseFunc tu' p = Some ?N" using tu'(2) assms(8,10) tu(2) by auto
  note look = table_steps(1) [OF tu(1) assms(7)] table_steps(1) [OF tt(1) assms(7)]
  have "removeTree t c u (Some tag) s1 = Done ((), s1\<lparr>
      nodes := ((nodes s1)(Suc ?N \<mapsto> \<lparr>iname = c, isuper = Some ?N, isibling = None, ilinks = FreedExts, iprov = False\<rparr>))
        (Suc (Suc ?N) := None),
      trees := (trees s1)(u \<mapsto> tu', t \<mapsto> tt')\<rparr>)"
    using assms(4) look tu(3) tt(2) tu'(1) tt'
    by (simp add: s1_def removeTree_def removeExt_def lookupClass_def dropClass_def getTree_def putTree_def hasLinks_def
        getNode_def putNode_def deleteNode_def bindF_def retF_def fun_eq_iff)
  moreover define s' where "s' = s1\<lparr>
      nodes := ((nodes s1)(Suc ?N \<mapsto> \<lparr>iname = c, isuper = Some ?N, isibling = None, ilinks = FreedExts, iprov = False\<rparr>))
        (Suc (Suc ?N) := None),
      trees := (trees s1)(u \<mapsto> tu', t \<mapsto> tt')\<rparr>"
  ultimately have run: "bindF (insertTreeExt t c p u tag) (\<lambda>_. removeTree t c u (Some tag)) s = Done ((), s')"
    using s1 by (simp add: bindF_def)
  have at: "classAt s' u p = Some ?N" using p assms(4) by (simp add: s'_def classAt_def)
  have n: "nodes s' ?N = Some \<lparr>iname = p, isuper = None, isibling = None, ilinks = Subs (Some (Suc ?N)), iprov = True\<rparr>"
    "nodes s' (Suc ?N) = Some \<lparr>iname = c, isuper = Some ?N, isibling = None, ilinks = FreedExts, iprov = False\<rparr>"
    by (simp_all add: s'_def s1_def)
  have "subLoop fuel deep ns (Some (Suc ?N)) s' = Undefined" for fuel deep ns
    using n(2) by (cases fuel) (simp_all add: undefinedF_def bindF_def getNode_def)
  then show "\<exists>s' a. bindF (insertTreeExt t c p u tag) (\<lambda>_. removeTree t c u (Some tag)) s = Done ((), s') \<and>
      classAt s' u p = Some a \<and> (\<forall>fuel deep ns. followSubs (subLoop fuel deep ns) a s' = Undefined)"
    by (intro exI [of _ s'] exI [of _ ?N]) (use run at n(1) in \<open>simp add: followSubs_def bindF_def getNode_def\<close>)
qed

theorem extension_defects_witness:
  "\<exists>s' a. bindF (insertTreeExt 1 (units ''A_Disk'') (units ''A_Dev'') 0 1)
      (\<lambda>_. insertTreeExt 2 (units ''A_Disk'') (units ''A_Dev'') 0 2)
      (emptyForest\<lparr>trees := \<lambda>_. Some emptyTree\<rparr>) = Done ((), s') \<and>
    classAt s' 0 (units ''A_Dev'') = Some a \<and> (\<forall>deep ns r. nodeSubClassNames a deep ns s' \<noteq> Done r)"
proof -
  let ?s = "emptyForest\<lparr>trees := \<lambda>_. Some emptyTree\<rparr>"
  have "trees ?s i = Some emptyTree" for i by simp
  from extension_defects [OF this this this, of 1 0 2 "units ''A_Disk''" "units ''A_Dev''" 1 2] disk_names
  obtain s' a where s': "bindF (insertTreeExt 1 (units ''A_Disk'') (units ''A_Dev'') 0 1)
      (\<lambda>_. insertTreeExt 2 (units ''A_Disk'') (units ''A_Dev'') 0 2) ?s = Done ((), s')"
    "classAt s' 0 (units ''A_Dev'') = Some a" "\<forall>fuel deep ns r. followSubs (subLoop fuel deep ns) a s' \<noteq> Done r"
    by auto
  then show ?thesis unfolding nodeSubClassNames_def by blast
qed

end
