(* ===== verification/NameSpaces.thy ===== *)
theory NameSpaces
  imports InheritQueries
begin

section \<open>NameSpaceManager: the namespaces of the repository\<close>

text \<open>
  \<^verbatim>\<open>Pegasus/Repository/NameSpaceManager.cpp\<close>. A namespace is an object with its own inheritance tree; the
  number of the object is also the number of its tree and the tag of its classes in the tree of its
  parent. The objects are linked by \<open>parent\<close>, and the dependents of a primary namespace form a chain
  through \<open>dependent\<close> and \<open>nextDependent\<close>. The table maps names to objects, without regard to case.
  Reading an object that has been deleted, or calling a method on the null pointer, is \<open>Undefined\<close>.

  The second half shows that the links stay consistent under every operation that the repository
  performs, what each operation answers, and where the guards are not enough.
\<close>

subsection \<open>State\<close>

record nspace =
  nsName :: pstr
  nsParent :: "nat option"
  nsDependent :: "nat option"
  nsNextDependent :: "nat option"
  nsShareable :: bool
  nsUpdatesAllowed :: bool
  nsRemoteInfo :: pstr

record manager =
  spaces :: "nat \<Rightarrow> nspace option"
  nextSpace :: nat
  spaceTable :: "(pstr, nat) table"
  hier :: forest

type_synonym 'a nprog = "(manager, 'a) sprog"

definition getSpace :: "nat \<Rightarrow> nspace nprog" where
  "getSpace a m = (case spaces m a of Some n \<Rightarrow> Done (n, m) | None \<Rightarrow> Undefined)"

definition putSpace :: "nat \<Rightarrow> nspace \<Rightarrow> unit nprog" where
  "putSpace a n m = Done ((), m\<lparr>spaces := (spaces m)(a \<mapsto> n)\<rparr>)"

text \<open>An operation of an inheritance tree.\<close>

definition onTree :: "'a fprog \<Rightarrow> 'a nprog" where
  "onTree f m =
    (case f (hier m) of Done (x, s) \<Rightarrow> Done (x, m\<lparr>hier := s\<rparr>) | Throws e \<Rightarrow> Throws e | Undefined \<Rightarrow> Undefined)"

text \<open>\<open>_rep->table.lookup\<close>, \<open>insert\<close> and \<open>remove\<close>, the last two with their results.\<close>

definition lookupName :: "pstr \<Rightarrow> nat option nprog" where
  "lookupName name m =
    (case tableLookup equalNoCaseFunc hashLowerCase name (spaceTable m) of None \<Rightarrow> Undefined | Some r \<Rightarrow> Done (r, m))"

definition insertName :: "pstr \<Rightarrow> nat \<Rightarrow> bool nprog" where
  "insertName name a m =
    (case tableInsert equalNoCaseFunc hashLowerCase name a (spaceTable m) of
       None \<Rightarrow> Undefined | Some (b, tb) \<Rightarrow> Done (b, m\<lparr>spaceTable := tb\<rparr>))"

definition removeName :: "pstr \<Rightarrow> bool nprog" where
  "removeName name m =
    (case tableRemove equalNoCaseFunc hashLowerCase name (spaceTable m) of
       None \<Rightarrow> Undefined | Some (b, tb) \<Rightarrow> Done (b, m\<lparr>spaceTable := tb\<rparr>))"

text \<open>The manager as it is made, with a table of the default number of chains.\<close>

definition newManager :: manager where
  "newManager =
    \<lparr>spaces = \<lambda>_. None, nextSpace = 0, spaceTable = newTable 32,
     hier = \<lparr>nodes = \<lambda>_. None, nextNode = 0, trees = \<lambda>_. None\<rparr>\<rparr>"

subsection \<open>Namespaces\<close>

text \<open>\<open>primaryParent\<close> and \<open>rwParent\<close> follow the parents; a chain is no longer than there are objects.\<close>

primrec primaryLoop :: "nat \<Rightarrow> nat \<Rightarrow> nat nprog" where
  "primaryLoop 0 this = undefinedF"
| "primaryLoop (Suc fuel) this =
    bindF (getSpace this) (\<lambda>n. case nsParent n of None \<Rightarrow> retF this | Some p \<Rightarrow> primaryLoop fuel p)"

definition primaryParent :: "nat \<Rightarrow> nat nprog" where
  "primaryParent this m = primaryLoop (Suc (nextSpace m)) this m"

primrec rwLoop :: "nat \<Rightarrow> nat \<Rightarrow> nat nprog" where
  "rwLoop 0 this = undefinedF"
| "rwLoop (Suc fuel) this =
    bindF (getSpace this) (\<lambda>n.
      if nsUpdatesAllowed n then retF this
      else (case nsParent n of None \<Rightarrow> undefinedF | Some p \<Rightarrow> rwLoop fuel p))"

definition rwParent :: "nat \<Rightarrow> nat nprog" where
  "rwParent this m = rwLoop (Suc (nextSpace m)) this m"

text \<open>The constructor: the object and its empty tree, the classes, and the link from the primary parent.\<close>

definition makeSpace :: "pstr \<Rightarrow> bool \<Rightarrow> bool \<Rightarrow> nat option \<Rightarrow> pstr \<Rightarrow> nat nprog" where
  "makeSpace name shareable updatesAllowed parent remoteInfo m =
    (let a = nextSpace m; s = hier m in
     Done (a, m\<lparr>
       spaces := (spaces m)(a \<mapsto>
         \<lparr>nsName = name, nsParent = parent, nsDependent = None, nsNextDependent = None,
          nsShareable = shareable, nsUpdatesAllowed = updatesAllowed, nsRemoteInfo = remoteInfo\<rparr>),
       nextSpace := Suc a,
       hier := s\<lparr>trees := (trees s)(a \<mapsto> emptyTree)\<rparr>\<rparr>))"

definition newSpace :: "pstr \<Rightarrow> bool \<Rightarrow> bool \<Rightarrow> nat option \<Rightarrow> pstr \<Rightarrow> (pstr \<times> pstr) list \<Rightarrow> nat nprog" where
  "newSpace name shareable updatesAllowed parent remoteInfo classList =
    bindF (makeSpace name shareable updatesAllowed parent remoteInfo) (\<lambda>this.
    bindF (case parent of
        None \<Rightarrow> onTree (buildTree this classList)
      | Some p \<Rightarrow>
          bindF (if updatesAllowed then onTree (buildTreeExt this classList p this) else retF ()) (\<lambda>_.
          bindF (primaryParent p) (\<lambda>ens.
          bindF (getSpace ens) (\<lambda>e. bindF (getSpace this) (\<lambda>n.
          bindF (putSpace this (n\<lparr>nsNextDependent := nsDependent e\<rparr>)) (\<lambda>_.
          bindF (getSpace ens) (\<lambda>e. putSpace ens (e\<lparr>nsDependent := Some this\<rparr>))))))))
     (\<lambda>_. retF this))"

text \<open>The destructor deletes the nodes in the table of the tree.\<close>

primrec deleteNodes :: "(pstr \<times> nat) list \<Rightarrow> unit fprog" where
  "deleteNodes [] = retF ()"
| "deleteNodes (e # es) = bindF (deleteNode (snd e)) (\<lambda>_. deleteNodes es)"

definition deleteTree :: "nat \<Rightarrow> unit fprog" where
  "deleteTree t =
    bindF (getTree t) (\<lambda>tb. bindF (deleteNodes (visit (startIterator tb))) (\<lambda>_ s.
      Done ((), s\<lparr>trees := (trees s)(t := None)\<rparr>)))"

definition deleteSpace :: "nat \<Rightarrow> unit nprog" where
  "deleteSpace a =
    bindF (getSpace a) (\<lambda>_. bindF (onTree (deleteTree a)) (\<lambda>_ m.
      Done ((), m\<lparr>spaces := (spaces m)(a := None)\<rparr>)))"

definition getSuperClassNameOf :: "nat \<Rightarrow> pstr \<Rightarrow> pstr nprog" where
  "getSuperClassNameOf a className =
    bindF (getSpace a) (\<lambda>_. bindF (onTree (treeSuperClass a className)) (\<lambda>r.
      case r of None \<Rightarrow> throwF (NotFound className) | Some p \<Rightarrow> retF p))"

subsection \<open>The namespaces of the manager\<close>

definition getNameSpace :: "pstr \<Rightarrow> nat nprog" where
  "getNameSpace ns = bindF (lookupName ns) (\<lambda>r. case r of None \<Rightarrow> throwF (InvalidNamespace ns) | Some a \<Rightarrow> retF a)"

text \<open>The assertion that the parent is there is compiled out, as in a release build.\<close>

definition initializeNameSpace :: "pstr \<Rightarrow> bool \<Rightarrow> bool \<Rightarrow> pstr \<Rightarrow> pstr \<Rightarrow> (pstr \<times> pstr) list \<Rightarrow> unit nprog" where
  "initializeNameSpace name shareable updatesAllowed parent remoteInfo classList =
    bindF (if parent \<noteq> [] then lookupName parent else retF None) (\<lambda>parentSpace.
    bindF (newSpace name shareable updatesAllowed parentSpace remoteInfo classList) (\<lambda>a.
    bindF (insertName name a) (\<lambda>_. retF ())))"

definition nameSpaceExists :: "pstr \<Rightarrow> bool nprog" where
  "nameSpaceExists name = bindF (lookupName name) (\<lambda>r. retF (r \<noteq> None))"

definition createNameSpace :: "pstr \<Rightarrow> bool \<Rightarrow> bool \<Rightarrow> pstr \<Rightarrow> pstr \<Rightarrow> unit nprog" where
  "createNameSpace name shareable updatesAllowed parent remoteInfo =
    bindF (nameSpaceExists name) (\<lambda>e.
    if e then throwF (AlreadyExists name)
    else
      bindF (if parent = [] then retF None
             else bindF (lookupName parent) (\<lambda>r.
               case r of
                 None \<Rightarrow> throwF (Failed (units ''Parent namespace '' @ parent @ units '' not found''))
               | Some p \<Rightarrow> retF (Some p))) (\<lambda>parentSpace.
      bindF (case parentSpace of
          None \<Rightarrow> retF ()
        | Some p \<Rightarrow> bindF (getSpace p) (\<lambda>pn.
            if \<not> nsShareable pn then throwF (Failed (units ''Parent namespace '' @ parent @ units '' not shareable''))
            else if updatesAllowed \<and> nsParent pn \<noteq> None
              then throwF (Failed (units ''Parent namespace '' @ parent @ units '' not a primary namespace''))
            else retF ())) (\<lambda>_.
      bindF (newSpace name shareable updatesAllowed parentSpace remoteInfo []) (\<lambda>a.
      bindF (insertName name a) (\<lambda>_. retF ())))))"

definition modifyNameSpace :: "pstr \<Rightarrow> bool \<Rightarrow> bool \<Rightarrow> unit nprog" where
  "modifyNameSpace name shareable updatesAllowed =
    bindF (getNameSpace name) (\<lambda>a. bindF (getSpace a) (\<lambda>n.
      putSpace a (n\<lparr>nsUpdatesAllowed := updatesAllowed, nsShareable := shareable\<rparr>)))"

definition modifyNameSpaceName :: "pstr \<Rightarrow> pstr \<Rightarrow> unit nprog" where
  "modifyNameSpaceName name newName =
    bindF (getNameSpace name) (\<lambda>a. bindF (removeName name) (\<lambda>_.
    bindF (getSpace a) (\<lambda>n. bindF (putSpace a (n\<lparr>nsName := newName\<rparr>)) (\<lambda>_.
    bindF (insertName newName a) (\<lambda>_. retF ())))))"

text \<open>
  \<open>deleteNameSpace\<close> takes the object out of the dependents of every namespace above it. \<open>pd\<close> is the pointer
  that led here: the \<open>dependent\<close> of \<open>p\<close>, or the \<open>nextDependent\<close> of a dependent.
\<close>

datatype depPtr = FromDependent nat | FromNext nat

definition writeDep :: "depPtr \<Rightarrow> nat option \<Rightarrow> unit nprog" where
  "writeDep pd v =
    (case pd of
       FromDependent p \<Rightarrow> bindF (getSpace p) (\<lambda>n. putSpace p (n\<lparr>nsDependent := v\<rparr>))
     | FromNext d \<Rightarrow> bindF (getSpace d) (\<lambda>n. putSpace d (n\<lparr>nsNextDependent := v\<rparr>)))"

primrec unlinkLoop :: "nat \<Rightarrow> nat \<Rightarrow> depPtr \<Rightarrow> nat option \<Rightarrow> unit nprog" where
  "unlinkLoop 0 this pd d = undefinedF"
| "unlinkLoop (Suc fuel) this pd d =
    (case d of
       None \<Rightarrow> retF ()
     | Some a \<Rightarrow>
         bindF (getSpace a) (\<lambda>n.
           if a = this then writeDep pd (nsNextDependent n)
           else unlinkLoop fuel this (FromNext a) (nsNextDependent n)))"

primrec unlinkAbove :: "nat \<Rightarrow> nat \<Rightarrow> nat option \<Rightarrow> unit nprog" where
  "unlinkAbove 0 this p = undefinedF"
| "unlinkAbove (Suc fuel) this p =
    (case p of
       None \<Rightarrow> retF ()
     | Some a \<Rightarrow>
         bindF (getSpace a) (\<lambda>n.
         bindF (\<lambda>m. unlinkLoop (Suc (nextSpace m)) this (FromDependent a) (nsDependent n) m) (\<lambda>_.
         bindF (getSpace a) (\<lambda>n. unlinkAbove fuel this (nsParent n)))))"

definition deleteNameSpace :: "pstr \<Rightarrow> unit nprog" where
  "deleteNameSpace name =
    bindF (getNameSpace name) (\<lambda>a. bindF (getSpace a) (\<lambda>n.
    bindF (\<lambda>m. unlinkAbove (Suc (nextSpace m)) a (nsParent n) m) (\<lambda>_.
    bindF (removeName name) (\<lambda>_. deleteSpace a))))"


subsection \<open>Queries about namespaces\<close>

definition isRemoteNameSpace :: "pstr \<Rightarrow> pstr option nprog" where
  "isRemoteNameSpace name =
    bindF (lookupName name) (\<lambda>r.
      case r of
        None \<Rightarrow> retF None
      | Some a \<Rightarrow> bindF (getSpace a) (\<lambda>n. retF (if nsRemoteInfo n = [] then None else Some (nsRemoteInfo n))))"

definition getNameSpaceNames :: "pstr list nprog" where
  "getNameSpaceNames m = Done (map fst (visit (startIterator (spaceTable m))), m)"

text \<open>The name of the parent stays as the caller set it when there is no parent.\<close>

definition getNameSpaceAttributes :: "pstr \<Rightarrow> (bool \<times> bool \<times> pstr option \<times> pstr) option nprog" where
  "getNameSpaceAttributes name =
    bindF (lookupName name) (\<lambda>r.
      case r of
        None \<Rightarrow> retF None
      | Some a \<Rightarrow>
          bindF (getSpace a) (\<lambda>n.
          bindF (case nsParent n of
                   None \<Rightarrow> retF None
                 | Some p \<Rightarrow> bindF (getSpace p) (\<lambda>pn. retF (Some (nsName pn)))) (\<lambda>parent.
          retF (Some (nsShareable n, nsUpdatesAllowed n, parent, nsRemoteInfo n)))))"

definition validateNameSpace :: "pstr \<Rightarrow> unit nprog" where
  "validateNameSpace name = bindF (getNameSpace name) (\<lambda>_. retF ())"

primrec dependentNames :: "nat \<Rightarrow> nat option \<Rightarrow> pstr list nprog" where
  "dependentNames 0 d = undefinedF"
| "dependentNames (Suc fuel) d =
    (case d of
       None \<Rightarrow> retF []
     | Some a \<Rightarrow> bindF (getSpace a) (\<lambda>n.
         bindF (dependentNames fuel (nsNextDependent n)) (\<lambda>l. retF (nsName n # l))))"

definition getDependentSchemaNameSpaceNames :: "pstr \<Rightarrow> pstr list nprog" where
  "getDependentSchemaNameSpaceNames name =
    bindF (getNameSpace name) (\<lambda>a. bindF (getSpace a) (\<lambda>n.
    bindF (\<lambda>m. dependentNames (Suc (nextSpace m)) (nsDependent n) m) (\<lambda>l. retF (nsName n # l))))"

primrec findChild :: "nat \<Rightarrow> (pstr \<times> nat) list \<Rightarrow> pstr option nprog" where
  "findChild a [] = retF None"
| "findChild a (e # es) =
    bindF (getSpace (snd e)) (\<lambda>n. if nsParent n = Some a then retF (Some (nsName n)) else findChild a es)"

definition hasDependentNameSpace :: "pstr \<Rightarrow> pstr option nprog" where
  "hasDependentNameSpace name =
    bindF (getNameSpace name) (\<lambda>a m. findChild a (visit (startIterator (spaceTable m))) m)"

definition rwSpace :: "nat \<Rightarrow> nat nprog" where
  "rwSpace a = bindF (getSpace a) (\<lambda>n. if \<not> nsUpdatesAllowed n then rwParent a else retF a)"

definition getSchemaNameSpaceNames :: "pstr \<Rightarrow> pstr list nprog" where
  "getSchemaNameSpaceNames name =
    bindF (getNameSpace name) (\<lambda>a. bindF (rwSpace a) (\<lambda>b. bindF (getSpace b) (\<lambda>n.
      case nsParent n of
        None \<Rightarrow> retF [nsName n]
      | Some _ \<Rightarrow> bindF (primaryParent b) (\<lambda>c. bindF (getSpace c) (\<lambda>pn. retF [nsName n, nsName pn])))))"

subsection \<open>Classes\<close>

definition validateClass :: "pstr \<Rightarrow> pstr \<Rightarrow> unit nprog" where
  "validateClass name className =
    bindF (getNameSpace name) (\<lambda>a. bindF (rwSpace a) (\<lambda>b.
    bindF (onTree (treeSuperClass b className)) (\<lambda>r.
    if r \<noteq> None then retF ()
    else
      bindF (getSpace b) (\<lambda>n.
        case nsParent n of
          None \<Rightarrow> throwF (InvalidClass className)
        | Some _ \<Rightarrow>
            bindF (primaryParent b) (\<lambda>c. bindF (onTree (treeSuperClass c className)) (\<lambda>r.
              if r \<noteq> None then retF () else throwF (InvalidClass className)))))))"

definition getSuperClassName :: "pstr \<Rightarrow> pstr \<Rightarrow> pstr nprog" where
  "getSuperClassName name className = bindF (getNameSpace name) (\<lambda>a. getSuperClassNameOf a className)"

text \<open>\<open>classExists\<close> looks in the namespace, then in its dependents.\<close>

primrec existsLoop :: "nat \<Rightarrow> nat option \<Rightarrow> pstr \<Rightarrow> bool \<Rightarrow> bool nprog" where
  "existsLoop 0 d className throwExcp = undefinedF"
| "existsLoop (Suc fuel) d className throwExcp =
    (case d of
       None \<Rightarrow> retF False
     | Some a \<Rightarrow>
         bindF (onTree (containsClass a className)) (\<lambda>b.
           if b then (if throwExcp then throwF (AlreadyExists className) else retF True)
           else bindF (getSpace a) (\<lambda>n. existsLoop fuel (nsNextDependent n) className throwExcp)))"

definition classExistsIn :: "nat \<Rightarrow> pstr \<Rightarrow> bool \<Rightarrow> bool nprog" where
  "classExistsIn a className throwExcp =
    bindF (onTree (containsClass a className)) (\<lambda>b.
      if b then (if throwExcp then throwF (AlreadyExists className) else retF True)
      else bindF (getSpace a) (\<lambda>n m. existsLoop (Suc (nextSpace m)) (nsDependent n) className throwExcp m))"

definition classExists :: "pstr \<Rightarrow> pstr \<Rightarrow> bool nprog" where
  "classExists name className = bindF (getNameSpace name) (\<lambda>a. classExistsIn a className False)"

definition locateClass :: "pstr \<Rightarrow> pstr \<Rightarrow> (pstr \<times> pstr) nprog" where
  "locateClass name className =
    bindF (getNameSpace name) (\<lambda>a. bindF (getSpace a) (\<lambda>n.
    bindF (case nsParent n of None \<Rightarrow> retF True | Some _ \<Rightarrow> classExistsIn a className False) (\<lambda>here.
      case nsParent n of
        Some p \<Rightarrow>
          if \<not> here
          then bindF (getSpace p) (\<lambda>pn. bindF (getSuperClassNameOf p className) (\<lambda>sc. retF (nsName pn, sc)))
          else bindF (getSuperClassNameOf a className) (\<lambda>sc. retF (nsName n, sc))
      | None \<Rightarrow> bindF (getSuperClassNameOf a className) (\<lambda>sc. retF (nsName n, sc)))))"

definition checkDeleteClass :: "pstr \<Rightarrow> pstr \<Rightarrow> unit nprog" where
  "checkDeleteClass name className =
    bindF (getNameSpace name) (\<lambda>a. bindF (getSpace a) (\<lambda>n.
      if \<not> nsUpdatesAllowed n then
        bindF (case nsParent n of None \<Rightarrow> retF False | Some p \<Rightarrow> classExistsIn p className True) (\<lambda>_.
          throwF (AccessDenied (units ''R/O Namespace '' @ nsName n)))
      else retF ()))"

definition checkNameSpaceUpdateAllowed :: "pstr \<Rightarrow> unit nprog" where
  "checkNameSpaceUpdateAllowed name =
    bindF (getNameSpace name) (\<lambda>a. bindF (getSpace a) (\<lambda>n.
      if \<not> nsUpdatesAllowed n then throwF (AccessDenied (units ''R/O Namespace '' @ nsName n)) else retF ()))"

definition deleteClass :: "pstr \<Rightarrow> pstr \<Rightarrow> unit nprog" where
  "deleteClass name className =
    bindF (getNameSpace name) (\<lambda>a. bindF (getSpace a) (\<lambda>n.
      case nsParent n of
        Some p \<Rightarrow> onTree (removeTree a className p (Some a))
      | None \<Rightarrow> onTree (removeTree a className a None)))"

primrec collisionLoop :: "nat \<Rightarrow> nat option \<Rightarrow> pstr \<Rightarrow> unit nprog" where
  "collisionLoop 0 d className = undefinedF"
| "collisionLoop (Suc fuel) d className =
    (case d of
       None \<Rightarrow> retF ()
     | Some a \<Rightarrow>
         bindF (getSpace a) (\<lambda>n.
         bindF (if nsUpdatesAllowed n then onTree (containsClass a className) else retF False) (\<lambda>b.
           if b then throwF (AlreadyExists className)
           else collisionLoop fuel (nsNextDependent n) className)))"

definition checkCreateClass :: "pstr \<Rightarrow> pstr \<Rightarrow> pstr \<Rightarrow> unit nprog" where
  "checkCreateClass name className superClassName =
    bindF (getNameSpace name) (\<lambda>a. bindF (getSpace a) (\<lambda>n.
    if \<not> nsUpdatesAllowed n then throwF (AccessDenied (units ''R/O Namespace '' @ name))
    else
      bindF (onTree (containsClass a className)) (\<lambda>b.
      if b then throwF (AlreadyExists className)
      else
        bindF (case nsParent n of
            Some p \<Rightarrow>
              bindF (onTree (containsClass p className)) (\<lambda>b. if b then throwF (AlreadyExists className) else retF ())
          | None \<Rightarrow> (\<lambda>m. collisionLoop (Suc (nextSpace m)) (nsDependent n) className m)) (\<lambda>_.
        if superClassName = [] then retF ()
        else
          bindF (onTree (containsClass a superClassName)) (\<lambda>b.
          if b then retF ()
          else
            bindF (case nsParent n of None \<Rightarrow> retF False | Some p \<Rightarrow> onTree (containsClass p superClassName)) (\<lambda>b.
            if b then retF () else throwF (InvalidSuperclass superClassName)))))))"

definition createClass :: "pstr \<Rightarrow> pstr \<Rightarrow> pstr \<Rightarrow> unit nprog" where
  "createClass name className superClassName =
    bindF (getNameSpace name) (\<lambda>a. bindF (getSpace a) (\<lambda>n.
      case nsParent n of
        None \<Rightarrow> onTree (insertTree a className superClassName)
      | Some p \<Rightarrow>
          bindF (if superClassName = [] then retF False else onTree (containsClass a superClassName)) (\<lambda>b.
            if \<not> b then onTree (insertTreeExt a className superClassName p a)
            else onTree (insertTree a className superClassName))))"

definition checkModifyClass :: "pstr \<Rightarrow> pstr \<Rightarrow> pstr \<Rightarrow> bool \<Rightarrow> pstr nprog" where
  "checkModifyClass name className superClassName allowNonLeafModification =
    bindF (getNameSpace name) (\<lambda>a. bindF (onTree (treeSuperClass a className)) (\<lambda>r.
      case r of
        None \<Rightarrow> throwF (NotFound className)
      | Some oldSuperClassName \<Rightarrow>
          if allowNonLeafModification then
            (if superClassName = [] then retF oldSuperClassName
             else
               bindF (onTree (treeSuperClassNames a superClassName)) (\<lambda>q.
                 case q of
                   None \<Rightarrow> throwF (InvalidSuperclass superClassName)
                 | Some l \<Rightarrow>
                     if (\<exists>i < length l. cimNameEqual (l ! i) className) then throwF (InvalidSuperclass superClassName)
                     else retF oldSuperClassName))
          else if \<not> cimNameEqual superClassName oldSuperClassName
            then throwF (Failed (units ''attempt to change superclass''))
          else
            bindF (onTree (hasSubClasses a className)) (\<lambda>h.
              case h of
                None \<Rightarrow> undefinedF
              | Some b \<Rightarrow> if b then throwF (ClassHasChildren className) else retF oldSuperClassName)))"

definition getSubClassNames :: "pstr \<Rightarrow> pstr \<Rightarrow> bool \<Rightarrow> bool \<Rightarrow> pstr list nprog" where
  "getSubClassNames name className deep enm0 =
    bindF (getNameSpace name) (\<lambda>a. bindF (getSpace a) (\<lambda>n.
    let enm = enm0 \<or> className = [] \<and> nsParent n \<noteq> None in
    bindF (if enm \<and> nsParent n \<noteq> None
           then bindF (rwParent a) (\<lambda>d. bindF (primaryParent a) (\<lambda>c. retF (Some d, c)))
           else retF (None, a)) (\<lambda>(dns, b).
    bindF (onTree (treeSubClassNames b className deep dns)) (\<lambda>r.
      case r of
        Some l \<Rightarrow> retF l
      | None \<Rightarrow>
          bindF (getSpace b) (\<lambda>bn.
            if nsParent bn \<noteq> None then
              (if \<not> enm then
                 bindF (rwParent b) (\<lambda>_. bindF (primaryParent b) (\<lambda>c.
                 bindF (onTree (treeSubClassNames c className deep None)) (\<lambda>r.
                   case r of Some l \<Rightarrow> retF l | None \<Rightarrow> throwF (InvalidClass className))))
               else throwF (InvalidClass className))
            else
              (case dns of
                 Some d \<Rightarrow>
                   if enm then
                     bindF (rwParent d) (\<lambda>c. bindF (onTree (treeSubClassNames c className deep None)) (\<lambda>r.
                       case r of Some l \<Rightarrow> retF l | None \<Rightarrow> throwF (InvalidClass className)))
                   else throwF (InvalidClass className)
               | None \<Rightarrow> throwF (InvalidClass className)))))))"

definition getSuperClassNames :: "pstr \<Rightarrow> pstr \<Rightarrow> pstr list nprog" where
  "getSuperClassNames name className =
    bindF (getNameSpace name) (\<lambda>a. bindF (rwParent a) (\<lambda>b.
    bindF (onTree (treeSuperClassNames b className)) (\<lambda>r.
      case r of Some l \<Rightarrow> retF l | None \<Rightarrow> throwF (InvalidClass className))))"


section \<open>The links between namespaces\<close>

subsection \<open>Well-formed managers\<close>

definition spaceAt :: "manager \<Rightarrow> pstr \<Rightarrow> nat option" where
  "spaceAt m k = contents equalNoCaseFunc (spaceTable m) k"

definition parents :: "manager \<Rightarrow> (nat \<times> nat) set" where
  "parents m = {(a, p). \<exists>n. spaces m a = Some n \<and> nsParent n = Some p}"

fun deps :: "manager \<Rightarrow> nat option \<Rightarrow> nat list \<Rightarrow> bool" where
  "deps m d [] \<longleftrightarrow> d = None"
| "deps m d (a # xs) \<longleftrightarrow> d = Some a \<and> (\<exists>n. spaces m a = Some n \<and> deps m (nsNextDependent n) xs)"

definition dependents :: "manager \<Rightarrow> nat \<Rightarrow> nat set" where
  "dependents m a = (if \<exists>n. spaces m a = Some n \<and> nsParent n = None then {b. (b, a) \<in> (parents m)\<^sup>+} else {})"

definition spacesOk :: "manager \<Rightarrow> bool" where
  "spacesOk m \<longleftrightarrow>
     treeTable (spaceTable m) \<and>
     (\<forall>k a. nul_free k \<longrightarrow> spaceAt m k = Some a \<longrightarrow> (\<exists>n. spaces m a = Some n \<and> toLowerUnits (nsName n) = toLowerUnits k)) \<and>
     (\<forall>a n. spaces m a = Some n \<longrightarrow> nul_free (nsName n) \<and> spaceAt m (nsName n) = Some a) \<and>
     (\<forall>a p. (a, p) \<in> parents m \<longrightarrow> p < a \<and> spaces m p \<noteq> None) \<and>
     (\<forall>a. spaces m a \<noteq> None \<longrightarrow> a < nextSpace m) \<and>
     (\<forall>a n. spaces m a = Some n \<longrightarrow> (\<exists>xs. deps m (nsDependent n) xs \<and> distinct xs \<and> set xs = dependents m a))"

lemma spacesOkI:
  assumes "treeTable (spaceTable m)"
    "\<And>k a. nul_free k \<Longrightarrow> spaceAt m k = Some a \<Longrightarrow> \<exists>n. spaces m a = Some n \<and> toLowerUnits (nsName n) = toLowerUnits k"
    "\<And>a n. spaces m a = Some n \<Longrightarrow> nul_free (nsName n) \<and> spaceAt m (nsName n) = Some a"
    "\<And>a p. (a, p) \<in> parents m \<Longrightarrow> p < a \<and> spaces m p \<noteq> None"
    "\<And>a n. spaces m a = Some n \<Longrightarrow> a < nextSpace m"
    "\<And>a n. spaces m a = Some n \<Longrightarrow> \<exists>xs. deps m (nsDependent n) xs \<and> distinct xs \<and> set xs = dependents m a"
  shows "spacesOk m"
  unfolding spacesOk_def using assms by blast

lemma spacesOkD:
  assumes "spacesOk m"
  shows space_table: "treeTable (spaceTable m)"
    and space_at: "nul_free k \<Longrightarrow> spaceAt m k = Some a \<Longrightarrow> \<exists>n. spaces m a = Some n \<and> toLowerUnits (nsName n) = toLowerUnits k"
    and space_name: "spaces m a = Some n \<Longrightarrow> nul_free (nsName n) \<and> spaceAt m (nsName n) = Some a"
    and space_parent: "(a, p) \<in> parents m \<Longrightarrow> p < a \<and> spaces m p \<noteq> None"
    and space_below: "spaces m a = Some n \<Longrightarrow> a < nextSpace m"
    and space_deps: "spaces m a = Some n \<Longrightarrow> \<exists>xs. deps m (nsDependent n) xs \<and> distinct xs \<and> set xs = dependents m a"
  using assms unfolding spacesOk_def by blast+

lemma spaceAt_cong:
  assumes "spacesOk m" and "nul_free k" and "nul_free k'" and "toLowerUnits k = toLowerUnits k'"
  shows "spaceAt m k = spaceAt m k'"
proof -
  have "equalNoCaseFunc k k'" using assms(2-4) by (simp add: equalNoCase_lower)
  from noCaseKey.entries.look_cong [OF space_table [OF assms(1)] assms(2,3) this] show ?thesis by (simp add: spaceAt_def)
qed

lemma bindF_Done_step: "m s = Done (x, s') \<Longrightarrow> bindF m f s = f x s'"
  by (simp add: bindF_def)

lemma lookupName_eq: "spacesOk m \<Longrightarrow> nul_free k \<Longrightarrow> lookupName k m = Done (spaceAt m k, m)"
  using noCaseKey.lookup_exact [OF space_table] by (simp add: lookupName_def spaceAt_def)

lemma getNameSpace_eq:
  "spacesOk m \<Longrightarrow> nul_free k \<Longrightarrow>
    getNameSpace k m = (case spaceAt m k of None \<Rightarrow> Throws (InvalidNamespace k) | Some a \<Rightarrow> Done (a, m))"
  by (simp add: getNameSpace_def bindF_def lookupName_eq throwF_def retF_def split: option.split)

lemma insertName_eq:
  assumes "spacesOk m" and "nul_free k" and "spaceAt m k = None" and "spaceTable m' = spaceTable m"
  shows "\<exists>tb. insertName k a m' = Done (True, m'\<lparr>spaceTable := tb\<rparr>) \<and> treeTable tb \<and>
    (\<forall>k'. nul_free k' \<longrightarrow> contents equalNoCaseFunc tb k' = (if toLowerUnits k' = toLowerUnits k then Some a else spaceAt m k'))"
  using table_steps(2) [OF space_table [OF assms(1)] assms(2), of a] assms(3,4) by (auto simp: insertName_def spaceAt_def)

lemma removeName_eq:
  assumes "spacesOk m" and "nul_free k" and "spaceTable m' = spaceTable m"
  shows "\<exists>b tb. removeName k m' = Done (b, m'\<lparr>spaceTable := tb\<rparr>) \<and> treeTable tb \<and>
    (\<forall>k'. nul_free k' \<longrightarrow> contents equalNoCaseFunc tb k' = (if toLowerUnits k' = toLowerUnits k then None else spaceAt m k'))"
proof -
  obtain b tb where "tableRemove equalNoCaseFunc hashLowerCase k (spaceTable m) = Some (b, tb)" "treeTable tb"
    "\<forall>k'. nul_free k' \<longrightarrow> contents equalNoCaseFunc tb k' =
      (if toLowerUnits k' = toLowerUnits k then None else contents equalNoCaseFunc (spaceTable m) k')"
    using table_steps(3) [OF space_table [OF assms(1)] assms(2)] by blast
  then show ?thesis using assms(3) by (intro exI [of _ b] exI [of _ tb]) (simp add: removeName_def spaceAt_def)
qed

subsection \<open>Parents\<close>

lemma parent_unique: "(a, p) \<in> parents m \<Longrightarrow> (a, q) \<in> parents m \<Longrightarrow> p = q"
  by (auto simp: parents_def)

lemma primary_unique:
  assumes "(a, r) \<in> (parents m)\<^sup>*" and "(a, q) \<in> (parents m)\<^sup>*" and "\<forall>p. (r, p) \<notin> parents m" and "\<forall>p. (q, p) \<notin> parents m"
  shows "q = r"
  using assms(1,2)
proof (induction rule: converse_rtrancl_induct)
  case base
  then show ?case using assms(3) by (auto elim: converse_rtranclE)
next
  case (step a b)
  have "a \<noteq> q" using step.hyps(1) assms(4) by auto
  then obtain c where "(a, c) \<in> parents m" "(c, q) \<in> (parents m)\<^sup>*" using step.prems by (auto elim: converse_rtranclE)
  then show ?case using step parent_unique by metis
qed

lemma live_parent:
  assumes "spacesOk m" and "(a, p) \<in> (parents m)\<^sup>*" and "spaces m a \<noteq> None"
  shows "spaces m p \<noteq> None"
  using assms(2,3,1) by (induction rule: rtrancl_induct) (auto dest: space_parent)

lemma trancl_less:
  assumes "spacesOk m" and "(a, p) \<in> (parents m)\<^sup>+"
  shows "p < a"
  using assms(2,1) by (induction rule: trancl_induct) (auto dest: space_parent intro: less_trans)

lemma primaryLoop_run:
  assumes ok: "spacesOk m" and "spaces m a \<noteq> None" and "a < fuel"
  shows "\<exists>r n. primaryLoop fuel a m = Done (r, m) \<and> (a, r) \<in> (parents m)\<^sup>* \<and> spaces m r = Some n \<and> nsParent n = None"
  using assms(2,3)
proof (induction fuel arbitrary: a)
  case (Suc fuel)
  then obtain n where n: "spaces m a = Some n" by blast
  show ?case
  proof (cases "nsParent n")
    case None
    with n show ?thesis by (auto simp: bindF_def getSpace_def retF_def)
  next
    case (Some p)
    have ap: "(a, p) \<in> parents m" using n Some by (simp add: parents_def)
    then have "p < fuel" "spaces m p \<noteq> None" using space_parent [OF ok ap] Suc.prems(2) by simp_all
    from Suc.IH [OF this(2,1)] show ?thesis using n Some ap by (auto simp: bindF_def getSpace_def intro: converse_rtrancl_into_rtrancl)
  qed
qed simp

lemma primaryParent_run:
  assumes ok: "spacesOk m" and "spaces m a = Some n"
  obtains r rn where "primaryParent a m = Done (r, m)" and "(a, r) \<in> (parents m)\<^sup>*" and "spaces m r = Some rn" and "nsParent rn = None"
  using primaryLoop_run [OF ok, of a "Suc (nextSpace m)"] space_below [OF assms] assms(2)
  by (auto simp: primaryParent_def simp del: primaryLoop.simps)

text \<open>\<open>rwParent\<close> finds the nearest namespace that allows updates, and follows a null pointer if there is none.\<close>

lemma rwLoop_run:
  assumes ok: "spacesOk m" and "spaces m a \<noteq> None" and "a < fuel"
  shows "(\<exists>r n. rwLoop fuel a m = Done (r, m) \<and> (a, r) \<in> (parents m)\<^sup>* \<and> spaces m r = Some n \<and> nsUpdatesAllowed n) \<or>
    rwLoop fuel a m = Undefined \<and> (\<forall>r n. (a, r) \<in> (parents m)\<^sup>* \<longrightarrow> spaces m r = Some n \<longrightarrow> \<not> nsUpdatesAllowed n)"
  using assms(2,3)
proof (induction fuel arbitrary: a)
  case (Suc fuel)
  then obtain n where n: "spaces m a = Some n" by blast
  show ?case
  proof (cases "nsUpdatesAllowed n")
    case True
    with n show ?thesis by (auto simp: bindF_def getSpace_def retF_def)
  next
    case False
    show ?thesis
    proof (cases "nsParent n")
      case None
      then have "\<forall>p. (a, p) \<notin> parents m" using n by (simp add: parents_def)
      then have "\<forall>r. (a, r) \<in> (parents m)\<^sup>* \<longrightarrow> r = a" by (auto elim: converse_rtranclE)
      moreover have "rwLoop (Suc fuel) a m = Undefined" using n False None by (simp add: bindF_def getSpace_def undefinedF_def)
      ultimately show ?thesis using n False by (metis option.sel)
    next
      case (Some p)
      have ap: "(a, p) \<in> parents m" using n Some by (simp add: parents_def)
      then have p: "p < fuel" "spaces m p \<noteq> None" using space_parent [OF ok ap] Suc.prems(2) by simp_all
      have up: "(a, r) \<in> (parents m)\<^sup>* \<longleftrightarrow> r = a \<or> (p, r) \<in> (parents m)\<^sup>*" for r
        using ap parent_unique [OF _ ap] by (metis converse_rtranclE converse_rtrancl_into_rtrancl rtrancl.rtrancl_refl)
      have "rwLoop (Suc fuel) a m = rwLoop fuel p m" using n False Some by (simp add: bindF_def getSpace_def)
      moreover have "\<not> nsUpdatesAllowed k" if "r = a" "spaces m r = Some k" for r k using that n False by simp
      ultimately show ?thesis using Suc.IH [OF p(2,1)] unfolding up by metis
    qed
  qed
qed simp


subsection \<open>Creating a namespace\<close>

lemma deps_frame:
  assumes "deps m d xs"
    and "\<And>a n. a \<in> set xs \<Longrightarrow> spaces m a = Some n \<Longrightarrow> \<exists>n'. spaces m' a = Some n' \<and> nsNextDependent n' = nsNextDependent n"
  shows "deps m' d xs"
  using assms by (induction xs arbitrary: d) (simp, force)

lemma primary_iff: "spaces m a = Some n \<Longrightarrow> nsParent n = None \<longleftrightarrow> (\<forall>p. (a, p) \<notin> parents m)"
  by (cases "nsParent n") (auto simp: parents_def)

text \<open>The object of a new namespace, linked from its primary parent, but not yet in the table.\<close>

definition linkSpace :: "nspace \<Rightarrow> nat option \<Rightarrow> manager \<Rightarrow> manager" where
  "linkSpace new root m = m\<lparr>
     spaces := (case root of
         None \<Rightarrow> (spaces m)(nextSpace m \<mapsto> new)
       | Some r \<Rightarrow> (spaces m)(nextSpace m \<mapsto> new\<lparr>nsNextDependent := nsDependent (the (spaces m r))\<rparr>,
           r \<mapsto> (the (spaces m r))\<lparr>nsDependent := Some (nextSpace m)\<rparr>)),
     nextSpace := Suc (nextSpace m),
     hier := (hier m)\<lparr>trees := (trees (hier m))(nextSpace m \<mapsto> emptyTree)\<rparr>\<rparr>"

abbreviation freshSpace :: "pstr \<Rightarrow> bool \<Rightarrow> bool \<Rightarrow> nat option \<Rightarrow> pstr \<Rightarrow> nspace" where
  "freshSpace name shareable updatesAllowed parent remoteInfo \<equiv>
    \<lparr>nsName = name, nsParent = parent, nsDependent = None, nsNextDependent = None,
     nsShareable = shareable, nsUpdatesAllowed = updatesAllowed, nsRemoteInfo = remoteInfo\<rparr>"

lemma primaryLoop_frame:
  assumes ok: "spacesOk m" and more: "\<And>a n. spaces m a = Some n \<Longrightarrow> spaces m1 a = Some n"
    and "primaryLoop fuel a m = Done (r, m)" and "spaces m a \<noteq> None"
  shows "primaryLoop fuel a m1 = Done (r, m1)"
  using assms(3,4)
proof (induction fuel arbitrary: a)
  case (Suc fuel)
  then obtain n where n: "spaces m a = Some n" by blast
  have "spaces m q \<noteq> None" if "nsParent n = Some q" for q
    using space_parent [OF ok, of a q] n that by (simp add: parents_def)
  then show ?case using Suc n more [OF n] by (auto simp: bindF_def getSpace_def retF_def split: option.splits)
qed (simp add: undefinedF_def)

text \<open>A new namespace enters its classes in its tree and is linked from its primary parent.\<close>

definition rootOf :: "manager \<Rightarrow> nat option \<Rightarrow> nat option \<Rightarrow> bool" where
  "rootOf m q root \<longleftrightarrow> (case q of None \<Rightarrow> root = None
      | Some p \<Rightarrow> spaces m p \<noteq> None \<and> (\<exists>r rn. root = Some r \<and> (p, r) \<in> (parents m)\<^sup>* \<and> spaces m r = Some rn \<and> nsParent rn = None))"

definition enterClasses :: "nat \<Rightarrow> bool \<Rightarrow> nat option \<Rightarrow> (pstr \<times> pstr) list \<Rightarrow> unit fprog" where
  "enterClasses a up q cl = (case q of None \<Rightarrow> buildTree a cl | Some p \<Rightarrow> if up then buildTreeExt a cl p a else retF ())"

lemma newSpace_eq:
  assumes ok: "spacesOk m" and q: "\<forall>p. q = Some p \<longrightarrow> spaces m p \<noteq> None"
  shows "\<exists>root. rootOf m q root \<and> newSpace name sh up q rem cl m =
    (case enterClasses (nextSpace m) up q cl (hier (linkSpace (freshSpace name sh up q rem) root m)) of
       Done (_, s) \<Rightarrow> Done (nextSpace m, (linkSpace (freshSpace name sh up q rem) root m)\<lparr>hier := s\<rparr>)
     | Throws e \<Rightarrow> Throws e | Undefined \<Rightarrow> Undefined)"
proof (cases q)
  case None
  then show ?thesis
    by (intro exI [of _ None])
       (simp add: rootOf_def newSpace_def makeSpace_def bindF_def onTree_def retF_def linkSpace_def Let_def enterClasses_def
         split: outcome.split)
next
  case (Some p)
  let ?N = "nextSpace m"
  let ?new = "freshSpace name sh up q rem"
  define m1 where "m1 s = m\<lparr>spaces := (spaces m)(?N \<mapsto> ?new), nextSpace := Suc ?N, hier := s\<rparr>" for s
  have old: "a < ?N" if "spaces m a = Some n" for a n using space_below [OF ok that] .
  obtain pn where p: "spaces m p = Some pn" using q Some by auto
  obtain r rn where r: "primaryLoop (Suc (Suc ?N)) p m = Done (r, m)" "(p, r) \<in> (parents m)\<^sup>*" "spaces m r = Some rn" "nsParent rn = None"
    using primaryLoop_run [OF ok, of p "Suc (Suc ?N)"] p old [OF p] by (auto simp del: primaryLoop.simps)
  have more: "spaces (m1 s) a = Some n" if "spaces m a = Some n" for a n s using that old [OF that] by (simp add: m1_def)
  have nx: "nextSpace (m1 s) = Suc ?N" for s by (simp add: m1_def)
  have prim: "primaryParent p (m1 s) = Done (r, m1 s)" for s
    unfolding primaryParent_def nx by (rule primaryLoop_frame [OF ok more r(1)]) (use p in simp_all)
  have rN: "r \<noteq> ?N" using old [OF r(3)] by simp
  define L where "L = linkSpace ?new (Some r) m"
  have tail: "bindF (primaryParent p) (\<lambda>ens.
          bindF (getSpace ens) (\<lambda>e. bindF (getSpace ?N) (\<lambda>n.
          bindF (putSpace ?N (n\<lparr>nsNextDependent := nsDependent e\<rparr>)) (\<lambda>_.
          bindF (getSpace ens) (\<lambda>e. putSpace ens (e\<lparr>nsDependent := Some ?N\<rparr>)))))) (m1 s) = Done ((), L\<lparr>hier := s\<rparr>)" for s
    unfolding bindF_Done_step [of "primaryParent p", OF prim] using r(3) rN
    by (simp add: bindF_def getSpace_def putSpace_def m1_def L_def linkSpace_def fun_eq_iff)
  have make: "makeSpace name sh up (Some p) rem m = Done (?N, m1 (hier L))"
    using Some by (simp add: makeSpace_def Let_def m1_def L_def linkSpace_def)
  have "newSpace name sh up (Some p) rem cl m =
    (case enterClasses ?N up q cl (hier L) of Done (_, s) \<Rightarrow> Done (?N, L\<lparr>hier := s\<rparr>) | Throws e \<Rightarrow> Throws e | Undefined \<Rightarrow> Undefined)"
  proof -
    have on: "bindF (onTree f) g (m1 h) = (case f h of Done (x, s) \<Rightarrow> g x (m1 s) | Throws e \<Rightarrow> Throws e | Undefined \<Rightarrow> Undefined)"
      for f :: "unit fprog" and g :: "unit \<Rightarrow> 'x nprog" and h
      by (simp add: bindF_def onTree_def m1_def split: outcome.split)
    show ?thesis
    proof (cases up)
      case True
      show ?thesis
        unfolding newSpace_def bindF_Done_step [of "makeSpace _ _ _ _ _", OF make] option.case if_P [OF True]
        using True Some tail by (simp add: bindF_def [of "bindF _ _"] on enterClasses_def retF_def split: outcome.split)
    next
      case False
      have "bindF (retF ()) g (m1 (hier L)) = g () (m1 (hier L))" for g :: "unit \<Rightarrow> unit nprog" by (simp add: bindF_def retF_def)
      then show ?thesis
        unfolding newSpace_def bindF_Done_step [of "makeSpace _ _ _ _ _", OF make] option.case
        using False Some tail by (simp add: bindF_def [of "bindF _ _"] enterClasses_def retF_def)
    qed
  qed
  then have "newSpace name sh up q rem cl m =
    (case enterClasses ?N up q cl (hier (linkSpace ?new (Some r) m)) of
       Done (_, s) \<Rightarrow> Done (?N, (linkSpace ?new (Some r) m)\<lparr>hier := s\<rparr>)
     | Throws e \<Rightarrow> Throws e | Undefined \<Rightarrow> Undefined)"
    unfolding L_def Some by simp
  moreover have "rootOf m q (Some r)" using Some p r(2-4) by (simp add: rootOf_def)
  ultimately show ?thesis by blast
qed

lemma newSpace_empty:
  assumes "spacesOk m" and "\<forall>p. q = Some p \<longrightarrow> spaces m p \<noteq> None"
  obtains root where "rootOf m q root"
    and "newSpace name sh up q rem [] m = Done (nextSpace m, linkSpace (freshSpace name sh up q rem) root m)"
  using newSpace_eq [OF assms, of name sh up rem "[]"]
  by (auto simp: enterClasses_def retF_def split: option.splits if_splits)

lemma link_spaces:
  assumes "root = Some r \<Longrightarrow> spaces m r \<noteq> None \<and> r \<noteq> nextSpace m"
  shows "spaces (linkSpace new root m) a =
    (if root = Some a then Some ((the (spaces m a))\<lparr>nsDependent := Some (nextSpace m)\<rparr>)
     else if a = nextSpace m then Some (case root of None \<Rightarrow> new | Some r \<Rightarrow> new\<lparr>nsNextDependent := nsDependent (the (spaces m r))\<rparr>)
     else spaces m a)"
  by (cases root) (auto simp: linkSpace_def)

lemma create_ok:
  assumes ok: "spacesOk m" and k: "nul_free name" and free: "spaceAt m name = None"
    and new: "new = freshSpace name sh up parent rem"
    and root: "rootOf m parent root"
    and tb: "treeTable tb" "\<forall>k'. nul_free k' \<longrightarrow> contents equalNoCaseFunc tb k' =
      (if toLowerUnits k' = toLowerUnits name then Some (nextSpace m) else spaceAt m k')"
  defines "m' \<equiv> (linkSpace new root m)\<lparr>spaceTable := tb\<rparr>"
  shows "spacesOk m'" and "parents m' = parents m \<union> (case parent of None \<Rightarrow> {} | Some p \<Rightarrow> {(nextSpace m, p)})"
    and "\<And>a. dependents m' a = dependents m a \<union> (if root = Some a then {nextSpace m} else {})"
proof -
  let ?N = "nextSpace m"
  note root = root [unfolded rootOf_def]
  have fresh: "spaces m ?N = None" using space_below [OF ok, of ?N] by (cases "spaces m ?N") auto
  have r: "spaces m r \<noteq> None \<and> r \<noteq> ?N" if "root = Some r" for r
    using root that fresh by (cases parent) auto
  have at: "spaces m' a = (if root = Some a then Some ((the (spaces m a))\<lparr>nsDependent := Some ?N\<rparr>)
     else if a = ?N then Some (case root of None \<Rightarrow> new | Some r \<Rightarrow> new\<lparr>nsNextDependent := nsDependent (the (spaces m r))\<rparr>)
     else spaces m a)" for a
    unfolding m'_def using link_spaces [of root _ m new a] r by auto
  have old: "\<exists>n'. spaces m' a = Some n' \<and> nsName n' = nsName n \<and> nsParent n' = nsParent n \<and> nsNextDependent n' = nsNextDependent n \<and>
      nsDependent n' = (if root = Some a then Some ?N else nsDependent n)"
    if n: "spaces m a = Some n" for a n
  proof -
    have "a \<noteq> ?N" using fresh n by auto
    then show ?thesis using n by (simp add: at)
  qed
  define n0 where "n0 = (case root of None \<Rightarrow> new | Some r \<Rightarrow> new\<lparr>nsNextDependent := nsDependent (the (spaces m r))\<rparr>)"
  have n0: "spaces m' ?N = Some n0" "nsName n0 = name" "nsParent n0 = parent" "nsDependent n0 = None"
    "nsNextDependent n0 = (case root of None \<Rightarrow> None | Some r \<Rightarrow> nsDependent (the (spaces m r)))"
  proof -
    have "root \<noteq> Some ?N" using r by blast
    then show "spaces m' ?N = Some n0" unfolding at n0_def by simp
  qed (cases root; simp add: n0_def new)+
  have revat: "a = ?N \<or> (\<exists>n. spaces m a = Some n \<and> nsName n' = nsName n \<and> nsParent n' = nsParent n)"
    if h: "spaces m' a = Some n'" for a n'
  proof (cases "spaces m a")
    case None
    then have "root \<noteq> Some a" using r by blast
    then show ?thesis using h None at [of a] by (metis option.distinct(1))
  next
    case (Some n)
    with old [OF Some] h show ?thesis by auto
  qed
  have name_at: "spaceAt m' k' = (if toLowerUnits k' = toLowerUnits name then Some ?N else spaceAt m k')" if "nul_free k'" for k'
    using tb(2) that by (simp add: spaceAt_def m'_def)
  show par: "parents m' = parents m \<union> (case parent of None \<Rightarrow> {} | Some p \<Rightarrow> {(?N, p)})"
  proof (intro equalityI subsetI)
    fix e assume "e \<in> parents m'"
    then obtain a p n' where e: "e = (a, p)" "spaces m' a = Some n'" "nsParent n' = Some p" by (auto simp: parents_def)
    with revat [OF e(2)] n0 show "e \<in> parents m \<union> (case parent of None \<Rightarrow> {} | Some p \<Rightarrow> {(?N, p)})"
      by (auto simp: parents_def)
  next
    fix e assume e: "e \<in> parents m \<union> (case parent of None \<Rightarrow> {} | Some p \<Rightarrow> {(?N, p)})"
    then show "e \<in> parents m'"
    proof
      assume "e \<in> parents m"
      then obtain a p n where "e = (a, p)" "spaces m a = Some n" "nsParent n = Some p" by (auto simp: parents_def)
      with old [of a n] show ?thesis by (auto simp: parents_def)
    qed (use n0 in \<open>auto simp: parents_def split: option.splits\<close>)
  qed
  have noN: "(b, ?N) \<notin> parents m'" for b
    using space_parent [OF ok, of b ?N] fresh root by (auto simp: par split: option.splits)
  have reach: "(b, a) \<in> (parents m')\<^sup>+ \<longleftrightarrow> (b, a) \<in> (parents m)\<^sup>+ \<or> b = ?N \<and> (\<exists>p. parent = Some p \<and> (p, a) \<in> (parents m)\<^sup>*)" for a b
  proof (cases parent)
    case None
    then show ?thesis by (simp add: par)
  next
    case (Some p)
    have "(b, ?N) \<in> (parents m)\<^sup>* \<longleftrightarrow> b = ?N"
    proof
      assume "(b, ?N) \<in> (parents m)\<^sup>*"
      then show "b = ?N" using noN by (cases rule: rtranclE) (auto simp: par)
    qed simp
    then show ?thesis using Some by (simp add: par trancl_insert)
  qed
  have dep_old: "dependents m' a = dependents m a \<union> (if root = Some a then {?N} else {})" if n: "spaces m a = Some n" for a n
  proof -
    obtain n' where n': "spaces m' a = Some n'" "nsParent n' = nsParent n" using old [OF n] by blast
    show ?thesis
    proof (cases "nsParent n")
      case None
      have "(\<exists>p. parent = Some p \<and> (p, a) \<in> (parents m)\<^sup>*) \<longleftrightarrow> root = Some a"
      proof
        assume "\<exists>p. parent = Some p \<and> (p, a) \<in> (parents m)\<^sup>*"
        then obtain p where p: "parent = Some p" "(p, a) \<in> (parents m)\<^sup>*" by blast
        then obtain r rn where q: "root = Some r" "(p, r) \<in> (parents m)\<^sup>*" "spaces m r = Some rn" "nsParent rn = None"
          using root by auto
        have "r = a"
          by (rule primary_unique [OF p(2) q(2)])
             (use primary_iff [OF n] primary_iff [OF q(3)] None q(4) in blast)+
        with q(1) show "root = Some a" by simp
      next
        assume "root = Some a"
        then show "\<exists>p. parent = Some p \<and> (p, a) \<in> (parents m)\<^sup>*" using root by (cases parent) auto
      qed
      note up = this
      have "dependents m' a = {b. (b, a) \<in> (parents m')\<^sup>+}" "dependents m a = {b. (b, a) \<in> (parents m)\<^sup>+}"
        using n n' None by (simp_all add: dependents_def)
      then show ?thesis unfolding reach up by (simp only: Collect_disj_eq) auto
    next
      case (Some q)
      then have "root \<noteq> Some a" using root n by (cases parent) auto
      then show ?thesis using n n' Some by (simp add: dependents_def)
    qed
  qed
  have dep_new: "dependents m' ?N = {}"
    using noN by (auto simp: dependents_def elim: tranclE)
  show "dependents m' a = dependents m a \<union> (if root = Some a then {?N} else {})" for a
  proof (cases "spaces m a")
    case None
    show ?thesis
    proof (cases "a = ?N")
      case True
      then show ?thesis using dep_new r None by (auto simp: dependents_def)
    next
      case False
      then have "spaces m' a = None" using None r at [of a] by auto
      then show ?thesis using None r by (auto simp: dependents_def)
    qed
  qed (rule dep_old)
  show "spacesOk m'"
  proof (rule spacesOkI)
    show "treeTable (spaceTable m')" using tb(1) by (simp add: m'_def)
  next
    fix k' a assume h: "nul_free k'" "spaceAt m' k' = Some a"
    show "\<exists>n. spaces m' a = Some n \<and> toLowerUnits (nsName n) = toLowerUnits k'"
    proof (cases "toLowerUnits k' = toLowerUnits name")
      case True
      then show ?thesis using h name_at [OF h(1)] n0 by simp
    next
      case False
      then have "spaceAt m k' = Some a" using h name_at by simp
      with space_at [OF ok h(1)] old show ?thesis by metis
    qed
  next
    fix a n' assume h: "spaces m' a = Some n'"
    from revat [OF h] show "nul_free (nsName n') \<and> spaceAt m' (nsName n') = Some a"
    proof
      assume "a = ?N"
      then show ?thesis using h n0 k name_at [OF k] by auto
    next
      assume "\<exists>n. spaces m a = Some n \<and> nsName n' = nsName n \<and> nsParent n' = nsParent n"
      then obtain n where n: "spaces m a = Some n" "nsName n' = nsName n" by blast
      note s = space_name [OF ok n(1)]
      then have "toLowerUnits (nsName n) \<noteq> toLowerUnits name" using free spaceAt_cong [OF ok _ k] by auto
      then show ?thesis using s n(2) name_at by simp
    qed
  next
    fix a p assume "(a, p) \<in> parents m'"
    then show "p < a \<and> spaces m' p \<noteq> None"
    proof (cases "(a, p) \<in> parents m")
      case True
      with space_parent [OF ok True] old [of p] show ?thesis by auto
    next
      case False
      with \<open>(a, p) \<in> parents m'\<close> have e: "a = ?N" "parent = Some p" by (auto simp: par split: option.splits)
      then obtain pn where "spaces m p = Some pn" using root by auto
      then show ?thesis using space_below [OF ok] old [of p pn] e by auto
    qed
  next
    fix a n' assume h: "spaces m' a = Some n'"
    from revat [OF h] show "a < nextSpace m'" using space_below [OF ok] by (auto simp: m'_def linkSpace_def intro: less_SucI)
  next
    fix a n' assume h: "spaces m' a = Some n'"
    have frame: "deps m' d xs" if "deps m d xs" for d xs
      by (rule deps_frame [OF that]) (use old in blast)
    show "\<exists>xs. deps m' (nsDependent n') xs \<and> distinct xs \<and> set xs = dependents m' a"
    proof (cases "a = ?N")
      case True
      then show ?thesis using dep_new n0 h by (intro exI [of _ "[]"]) simp
    next
      case False
      with revat [OF h] obtain n where n: "spaces m a = Some n" by blast
      obtain xs where xs: "deps m (nsDependent n) xs" "distinct xs" "set xs = dependents m a" using space_deps [OF ok n] by blast
      show ?thesis
      proof (cases "root = Some a")
        case True
        then have "nsDependent n' = Some ?N" "nsNextDependent n0 = nsDependent n" using old [OF n] h n0(5) n by auto
        then have "deps m' (nsDependent n') (?N # xs)" using n0(1) frame [OF xs(1)] by simp
        moreover have "?N \<notin> set xs"
        proof
          assume "?N \<in> set xs"
          then have "(?N, a) \<in> (parents m)\<^sup>+" using xs(3) by (auto simp: dependents_def split: if_splits)
          then obtain p where "(?N, p) \<in> parents m" by (blast dest: tranclD)
          then show False using fresh by (simp add: parents_def)
        qed
        ultimately show ?thesis using xs dep_old [OF n] True by (intro exI [of _ "?N # xs"]) auto
      next
        case False
        then have "nsDependent n' = nsDependent n" using old [OF n] h by auto
        then show ?thesis using frame [OF xs(1)] xs dep_old [OF n] False by auto
      qed
    qed
  qed
qed


text \<open>What a namespace shows of itself, and the registry of all: by lower-case name, the lower-case name
  of the parent, the two flags and the remote information.\<close>

definition core :: "nspace \<Rightarrow> pstr \<times> nat option \<times> bool \<times> bool \<times> pstr" where
  "core n = (nsName n, nsParent n, nsShareable n, nsUpdatesAllowed n, nsRemoteInfo n)"

type_synonym registry = "pstr \<Rightarrow> (pstr option \<times> bool \<times> bool \<times> pstr) option"

definition parentName :: "manager \<Rightarrow> nat option \<Rightarrow> pstr option" where
  "parentName m q = map_option (\<lambda>p. toLowerUnits (nsName (the (spaces m p)))) q"

definition registry :: "manager \<Rightarrow> registry" where
  "registry m k =
    (if nul_free k \<and> toLowerUnits k = k
     then (case spaceAt m k of
         None \<Rightarrow> None
       | Some a \<Rightarrow> (case spaces m a of
           None \<Rightarrow> None
         | Some n \<Rightarrow> Some (parentName m (nsParent n), nsShareable n, nsUpdatesAllowed n, nsRemoteInfo n)))
     else None)"

lemma registry_at:
  assumes ok: "spacesOk m" and k: "nul_free k"
  shows "registry m (toLowerUnits k) = (case spaceAt m k of
      None \<Rightarrow> None
    | Some a \<Rightarrow> (case spaces m a of
        None \<Rightarrow> None
      | Some n \<Rightarrow> Some (parentName m (nsParent n), nsShareable n, nsUpdatesAllowed n, nsRemoteInfo n)))"
  using spaceAt_cong [OF ok _ k, of "toLowerUnits k"] k by (simp add: registry_def)

lemma registry_None: "spacesOk m \<Longrightarrow> nul_free k \<Longrightarrow> registry m (toLowerUnits k) = None \<longleftrightarrow> spaceAt m k = None"
  using space_at [of m k] by (auto simp: registry_at split: option.split)

lemma parentName_keep:
  assumes "spacesOk m" and "spaces m a = Some n"
    and "\<forall>a n. spaces m a = Some n \<longrightarrow> (\<exists>n'. spaces m' a = Some n' \<and> nsName n' = nsName n)"
  shows "parentName m' (nsParent n) = parentName m (nsParent n)"
proof (cases "nsParent n")
  case (Some p)
  then obtain pn where pn: "spaces m p = Some pn" using space_parent [OF assms(1), of a p] assms(2) by (auto simp: parents_def)
  then obtain pn' where "spaces m' p = Some pn'" "nsName pn' = nsName pn" using assms(3) by blast
  with pn Some show ?thesis by (simp add: parentName_def)
qed (simp add: parentName_def)

lemma registry_insert:
  assumes ok: "spacesOk m" and k: "nul_free name"
    and at: "\<forall>k'. nul_free k' \<longrightarrow> spaceAt m' k' = (if toLowerUnits k' = toLowerUnits name then Some N else spaceAt m k')"
    and old: "\<forall>a n. spaces m a = Some n \<longrightarrow> (\<exists>n'. spaces m' a = Some n' \<and> core n' = core n)"
    and new: "spaces m' N = Some n0" "nsParent n0 = None \<or> (\<exists>p. nsParent n0 = Some p \<and> spaces m p \<noteq> None)"
  shows "registry m' = (registry m)(toLowerUnits name \<mapsto>
    (parentName m (nsParent n0), nsShareable n0, nsUpdatesAllowed n0, nsRemoteInfo n0))"
proof
  fix j
  have keep: "\<forall>a n. spaces m a = Some n \<longrightarrow> (\<exists>n'. spaces m' a = Some n' \<and> nsName n' = nsName n)"
    using old unfolding core_def by blast
  show "registry m' j = ((registry m)(toLowerUnits name \<mapsto>
    (parentName m (nsParent n0), nsShareable n0, nsUpdatesAllowed n0, nsRemoteInfo n0))) j"
  proof (cases "j = toLowerUnits name")
    case True
    have "parentName m' (nsParent n0) = parentName m (nsParent n0)"
    proof (cases "nsParent n0")
      case (Some p)
      then obtain pn where "spaces m p = Some pn" using new(2) by auto
      moreover from this obtain pn' where "spaces m' p = Some pn'" "nsName pn' = nsName pn" using keep by blast
      ultimately show ?thesis using Some by (simp add: parentName_def)
    qed (simp add: parentName_def)
    moreover have "spaceAt m' j = Some N" using at k True by simp
    ultimately show ?thesis using True k new(1) by (simp add: registry_def)
  next
    case False
    show ?thesis
    proof (cases "nul_free j \<and> toLowerUnits j = j")
      case True
      then have e: "spaceAt m' j = spaceAt m j" using at False by auto
      show ?thesis
      proof (cases "spaceAt m j")
        case None
        then show ?thesis using e False by (simp add: registry_def)
      next
        case (Some a)
        then obtain n where n: "spaces m a = Some n" using space_at [OF ok, of j a] True by blast
        then obtain n' where "spaces m' a = Some n'" "core n' = core n" using old by blast
        then show ?thesis using Some e False True n parentName_keep [OF ok n keep] by (simp add: registry_def core_def)
      qed
    qed (use False in \<open>auto simp: registry_def\<close>)
  qed
qed

lemma spacesOk_hier [simp]:
  "spaceAt (m\<lparr>hier := s\<rparr>) = spaceAt m" "parents (m\<lparr>hier := s\<rparr>) = parents m" "deps (m\<lparr>hier := s\<rparr>) = deps m"
  "dependents (m\<lparr>hier := s\<rparr>) = dependents m" "spacesOk (m\<lparr>hier := s\<rparr>) = spacesOk m" "registry (m\<lparr>hier := s\<rparr>) = registry m"
proof -
  show at: "spaceAt (m\<lparr>hier := s\<rparr>) = spaceAt m" by (simp add: spaceAt_def fun_eq_iff)
  show par: "parents (m\<lparr>hier := s\<rparr>) = parents m" by (simp add: parents_def)
  have "deps (m\<lparr>hier := s\<rparr>) d xs = deps m d xs" for d xs by (induction xs arbitrary: d) simp_all
  then show deps: "deps (m\<lparr>hier := s\<rparr>) = deps m" by (simp add: fun_eq_iff)
  show dep: "dependents (m\<lparr>hier := s\<rparr>) = dependents m" 
  proof
    have "spaces (m\<lparr>hier := s\<rparr>) = spaces m" by simp
    then show "dependents (m\<lparr>hier := s\<rparr>) a = dependents m a" for a by (simp only: dependents_def par)
  qed
  show "spacesOk (m\<lparr>hier := s\<rparr>) = spacesOk m" by (simp add: spacesOk_def at par deps dep)
  have pn: "parentName (m\<lparr>hier := s\<rparr>) = parentName m" by (simp add: parentName_def fun_eq_iff)
  have sp: "spaces (m\<lparr>hier := s\<rparr>) = spaces m" by simp
  show "registry (m\<lparr>hier := s\<rparr>) = registry m" by (rule ext) (simp only: registry_def at pn sp)
qed

text \<open>The part that \<open>createNameSpace\<close> and \<open>initializeNameSpace\<close> share: make the object and enter its name.\<close>

lemma addSpace_spec:
  assumes ok: "spacesOk m" and k: "nul_free name" and free: "spaceAt m name = None"
    and q: "\<forall>p. q = Some p \<longrightarrow> spaces m p \<noteq> None"
  shows "case enterClasses (nextSpace m) up q cl ((hier m)\<lparr>trees := (trees (hier m))(nextSpace m \<mapsto> emptyTree)\<rparr>) of
      Done (x, s) \<Rightarrow>
        (\<exists>m'. bindF (newSpace name sh up q rem cl) (\<lambda>a. bindF (insertName name a) (\<lambda>_. retF ())) m = Done ((), m') \<and> spacesOk m' \<and>
          registry m' = (registry m)(toLowerUnits name \<mapsto> (parentName m q, sh, up, rem)) \<and> hier m' = s \<and>
          nextSpace m' = Suc (nextSpace m) \<and> dom (spaces m') = insert (nextSpace m) (dom (spaces m)))
    | Throws e \<Rightarrow> bindF (newSpace name sh up q rem cl) (\<lambda>a. bindF (insertName name a) (\<lambda>_. retF ())) m = Throws e
    | Undefined \<Rightarrow> bindF (newSpace name sh up q rem cl) (\<lambda>a. bindF (insertName name a) (\<lambda>_. retF ())) m = Undefined"
proof -
  obtain root where root: "rootOf m q root"
    "newSpace name sh up q rem cl m =
    (case enterClasses (nextSpace m) up q cl (hier (linkSpace (freshSpace name sh up q rem) root m)) of
       Done (_, s) \<Rightarrow> Done (nextSpace m, (linkSpace (freshSpace name sh up q rem) root m)\<lparr>hier := s\<rparr>)
     | Throws e \<Rightarrow> Throws e | Undefined \<Rightarrow> Undefined)"
    using newSpace_eq [OF ok q, of name sh up rem cl] by (elim exE conjE)
  have h0: "hier (linkSpace (freshSpace name sh up q rem) root m) = (hier m)\<lparr>trees := (trees (hier m))(nextSpace m \<mapsto> emptyTree)\<rparr>"
    by (simp add: linkSpace_def)
  have "\<exists>m'. bindF (insertName name (nextSpace m)) (\<lambda>_. retF ()) ((linkSpace (freshSpace name sh up q rem) root m)\<lparr>hier := s\<rparr>) = Done ((), m') \<and>
      spacesOk m' \<and> registry m' = (registry m)(toLowerUnits name \<mapsto> (parentName m q, sh, up, rem)) \<and> hier m' = s \<and>
      nextSpace m' = Suc (nextSpace m) \<and> dom (spaces m') = insert (nextSpace m) (dom (spaces m))" for s
  proof -
    let ?L = "linkSpace (freshSpace name sh up q rem) root m"
    obtain tb where tb: "insertName name (nextSpace m) (?L\<lparr>hier := s\<rparr>) = Done (True, ?L\<lparr>hier := s, spaceTable := tb\<rparr>)" "treeTable tb"
      "\<forall>k'. nul_free k' \<longrightarrow> contents equalNoCaseFunc tb k' = (if toLowerUnits k' = toLowerUnits name then Some (nextSpace m) else spaceAt m k')"
      using insertName_eq [OF ok k free, of "?L\<lparr>hier := s\<rparr>" "nextSpace m"] by (auto simp: linkSpace_def)
    define m' where "m' = ?L\<lparr>spaceTable := tb\<rparr>"
    note c = create_ok [OF ok k free refl root(1) tb(2,3)]
    have fresh: "spaces m (nextSpace m) = None" using space_below [OF ok, of "nextSpace m"] by (cases "spaces m (nextSpace m)") auto
    have r: "spaces m r \<noteq> None \<and> r \<noteq> nextSpace m" if "root = Some r" for r
      using root(1) that fresh by (cases q) (auto simp: rootOf_def)
    note at = link_spaces [of root _ m "freshSpace name sh up q rem", OF r]
    have at': "spaces m' a = (if root = Some a then Some ((the (spaces m a))\<lparr>nsDependent := Some (nextSpace m)\<rparr>)
     else if a = nextSpace m then Some (case root of None \<Rightarrow> freshSpace name sh up q rem | Some r \<Rightarrow> (freshSpace name sh up q rem)\<lparr>nsNextDependent := nsDependent (the (spaces m r))\<rparr>)
     else spaces m a)" for a
      using at [of _ a] by (simp add: m'_def)
    have old: "\<forall>a n. spaces m a = Some n \<longrightarrow> (\<exists>n'. spaces m' a = Some n' \<and> core n' = core n)"
      using fresh by (auto simp: at' core_def)
    define n0 where "n0 = (case root of None \<Rightarrow> freshSpace name sh up q rem | Some r \<Rightarrow> (freshSpace name sh up q rem)\<lparr>nsNextDependent := nsDependent (the (spaces m r))\<rparr>)"
    have "root \<noteq> Some (nextSpace m)" using r by blast
    then have n0: "spaces m' (nextSpace m) = Some n0" unfolding at' n0_def by simp
    have core0: "nsParent n0 = q" "nsShareable n0 = sh" "nsUpdatesAllowed n0 = up" "nsRemoteInfo n0 = rem"
      by (cases root; simp add: n0_def)+
    have "\<forall>k'. nul_free k' \<longrightarrow> spaceAt m' k' = (if toLowerUnits k' = toLowerUnits name then Some (nextSpace m) else spaceAt m k')"
      using tb(3) by (simp add: spaceAt_def m'_def)
    from registry_insert [OF ok k this old n0] q core0
    have "registry m' = (registry m)(toLowerUnits name \<mapsto> (parentName m q, sh, up, rem))" by (cases q) simp_all
    moreover have "spacesOk m'" unfolding m'_def by (rule c(1))
    moreover have "bindF (insertName name (nextSpace m)) (\<lambda>_. retF ()) (?L\<lparr>hier := s\<rparr>) = Done ((), m'\<lparr>hier := s\<rparr>)"
      using tb(1) by (simp add: bindF_def retF_def m'_def)
    moreover have "nextSpace m' = Suc (nextSpace m)" by (simp add: m'_def linkSpace_def)
    moreover have "dom (spaces m') = insert (nextSpace m) (dom (spaces m))"
    proof (rule set_eqI)
      fix a show "a \<in> dom (spaces m') \<longleftrightarrow> a \<in> insert (nextSpace m) (dom (spaces m))"
        using r unfolding domIff at' by auto
    qed
    ultimately show ?thesis by (intro exI [of _ "m'\<lparr>hier := s\<rparr>"]) simp
  qed
  then show ?thesis unfolding bindF_def [of "newSpace _ _ _ _ _ _"] root(2) h0
    by (auto split: outcome.split)
qed

lemma createNameSpace_spec:
  assumes ok: "spacesOk m" and k: "nul_free name" "nul_free parent"
  shows "case registry m (toLowerUnits name) of
      Some _ \<Rightarrow> createNameSpace name sh up parent rem m = Throws (AlreadyExists name)
    | None \<Rightarrow>
        if parent = [] then
          (\<exists>m'. createNameSpace name sh up parent rem m = Done ((), m') \<and> spacesOk m' \<and>
            registry m' = (registry m)(toLowerUnits name \<mapsto> (None, sh, up, rem)))
        else (case registry m (toLowerUnits parent) of
            None \<Rightarrow> createNameSpace name sh up parent rem m = Throws (Failed (units ''Parent namespace '' @ parent @ units '' not found''))
          | Some (q, psh, pup, prem) \<Rightarrow>
              if \<not> psh then
                createNameSpace name sh up parent rem m = Throws (Failed (units ''Parent namespace '' @ parent @ units '' not shareable''))
              else if up \<and> q \<noteq> None then
                createNameSpace name sh up parent rem m =
                  Throws (Failed (units ''Parent namespace '' @ parent @ units '' not a primary namespace''))
              else
                (\<exists>m'. createNameSpace name sh up parent rem m = Done ((), m') \<and> spacesOk m' \<and>
                  registry m' = (registry m)(toLowerUnits name \<mapsto> (Some (toLowerUnits parent), sh, up, rem))))"
proof (cases "spaceAt m name")
  case (Some a)
  then obtain n where "spaces m a = Some n" using space_at [OF ok k(1)] by blast
  then show ?thesis using Some lookupName_eq [OF ok k(1)]
    by (simp add: registry_at [OF ok k(1)] createNameSpace_def nameSpaceExists_def bindF_def retF_def throwF_def)
next
  case None
  note free = this
  have reg: "registry m (toLowerUnits name) = None" using free registry_None [OF ok k(1)] by simp
  have exists: "nameSpaceExists name m = Done (False, m)"
    using free lookupName_eq [OF ok k(1)] by (simp add: nameSpaceExists_def bindF_def retF_def)
  have final: "\<exists>m'. bindF (newSpace name sh up q rem []) (\<lambda>a. bindF (insertName name a) (\<lambda>_. retF ())) m = Done ((), m') \<and> spacesOk m' \<and>
      registry m' = (registry m)(toLowerUnits name \<mapsto> (parentName m q, sh, up, rem))"
    if q: "\<forall>p. q = Some p \<longrightarrow> spaces m p \<noteq> None" for q
    using addSpace_spec [OF ok k(1) free q, where up = up and cl = "[]" and sh = sh and rem = rem]
    by (auto simp: enterClasses_def retF_def split: option.splits if_splits)
  show ?thesis
  proof (cases "parent = []")
    case True
    have "createNameSpace name sh up parent rem m = bindF (newSpace name sh up None rem []) (\<lambda>a. bindF (insertName name a) (\<lambda>_. retF ())) m"
      unfolding createNameSpace_def bindF_Done_step [of "nameSpaceExists name", OF exists] using True by (simp add: bindF_def [of "retF _"] retF_def)
    then show ?thesis using reg True final [of None] by (simp add: parentName_def)
  next
    case False
    note look = lookupName_eq [OF ok k(2)]
    show ?thesis
    proof (cases "spaceAt m parent")
      case None
      then have "createNameSpace name sh up parent rem m = Throws (Failed (units ''Parent namespace '' @ parent @ units '' not found''))"
        unfolding createNameSpace_def bindF_Done_step [of "nameSpaceExists name", OF exists] using False look by (simp add: bindF_def throwF_def)
      then show ?thesis using reg False None by (simp add: registry_at [OF ok k(2)])
    next
      case (Some p)
      then obtain pn where pn: "spaces m p = Some pn" "toLowerUnits (nsName pn) = toLowerUnits parent"
        using space_at [OF ok k(2)] by blast
      have pname: "parentName m (Some p) = Some (toLowerUnits parent)" using pn by (simp add: parentName_def)
      have some: "parentName m (nsParent pn) \<noteq> None \<longleftrightarrow> nsParent pn \<noteq> None" by (simp add: parentName_def)
      have "createNameSpace name sh up parent rem m =
        (if \<not> nsShareable pn then Throws (Failed (units ''Parent namespace '' @ parent @ units '' not shareable''))
         else if up \<and> nsParent pn \<noteq> None
           then Throws (Failed (units ''Parent namespace '' @ parent @ units '' not a primary namespace''))
         else bindF (newSpace name sh up (Some p) rem []) (\<lambda>a. bindF (insertName name a) (\<lambda>_. retF ())) m)"
        unfolding createNameSpace_def bindF_Done_step [of "nameSpaceExists name", OF exists] using False look Some pn(1)
        by (cases "nsParent pn") (simp_all add: bindF_def [of "bindF _ _"] bindF_def [of "lookupName _"] bindF_def [of "retF _"] bindF_def [of "getSpace _"]
            retF_def throwF_def getSpace_def)
      note run = this
      have regp: "registry m (toLowerUnits parent) = Some (parentName m (nsParent pn), nsShareable pn, nsUpdatesAllowed pn, nsRemoteInfo pn)"
        using Some pn(1) by (simp add: registry_at [OF ok k(2)])
      have last: "\<exists>m'. bindF (newSpace name sh up (Some p) rem []) (\<lambda>a. bindF (insertName name a) (\<lambda>_. retF ())) m = Done ((), m') \<and>
        spacesOk m' \<and> registry m' = (registry m)(toLowerUnits name \<mapsto> (Some (toLowerUnits parent), sh, up, rem))"
        using final [of "Some p"] pn(1) pname by simp
      show ?thesis
      proof (cases "nsShareable pn \<and> (up \<longrightarrow> nsParent pn = None)")
        case True
        then show ?thesis unfolding reg regp run using True False last by (cases up) (simp_all add: parentName_def)
      next
        case f: False
        show ?thesis unfolding reg regp run
          using f False some by (cases "nsShareable pn") simp_all
      qed
    qed
  qed
qed


subsection \<open>Deleting a namespace\<close>

lemma unlinkLoop_run:
  assumes "deps m d (xs @ a # ys)" and "a \<notin> set xs" and "length xs < fuel" and "spaces m a = Some n"
  shows "unlinkLoop fuel a pd d m = writeDep (if xs = [] then pd else FromNext (last xs)) (nsNextDependent n) m"
  using assms
proof (induction fuel arbitrary: pd d xs)
  case (Suc fuel)
  show ?case
  proof (cases xs)
    case Nil
    with Suc.prems show ?thesis by (simp add: bindF_def getSpace_def)
  next
    case (Cons b zs)
    with Suc.prems(1) obtain k where k: "d = Some b" "spaces m b = Some k" "deps m (nsNextDependent k) (zs @ a # ys)" by auto
    have "unlinkLoop (Suc fuel) a pd d m = unlinkLoop fuel a (FromNext b) (nsNextDependent k) m"
      using k Suc.prems(2) Cons by (auto simp: bindF_def getSpace_def)
    then show ?thesis using Suc.IH [OF k(3)] Suc.prems(2-4) Cons by simp
  qed
qed simp

lemma deps_unlink:
  assumes "deps m d (xs @ a # ys)" and "distinct (xs @ a # ys)" and "xs \<noteq> []" and "spaces m a = Some n" and "spaces m (last xs) = Some k"
    and m': "spaces m' = (spaces m)(last xs \<mapsto> k\<lparr>nsNextDependent := nsNextDependent n\<rparr>)"
  shows "deps m' d (xs @ ys)"
  using assms(1-5) m'
proof (induction xs arbitrary: d)
  case (Cons b zs)
  from Cons.prems(1) obtain j where j: "d = Some b" "spaces m b = Some j" "deps m (nsNextDependent j) (zs @ a # ys)" by auto
  show ?case
  proof (cases "zs = []")
    case True
    then have "deps m (nsNextDependent n) ys" using j(3) Cons.prems(4) by auto
    then have "deps m' (nsNextDependent n) ys"
      by (rule deps_frame) (use Cons.prems(2) True in \<open>auto simp: Cons.prems(6)\<close>)
    then show ?thesis using j True by (simp add: Cons.prems(6))
  next
    case False
    then have "b \<noteq> last zs" using Cons.prems(2) last_in_set [OF False] by auto
    moreover have "deps m' (nsNextDependent j) (zs @ ys)" using Cons.IH [OF j(3)] Cons.prems False by simp
    ultimately show ?thesis using j False by (simp add: Cons.prems(6))
  qed
qed simp

lemma dependents_below: "spacesOk m \<Longrightarrow> dependents m a \<subseteq> {..<nextSpace m}"
proof
  fix b assume ok: "spacesOk m" and b: "b \<in> dependents m a"
  then have "(b, a) \<in> (parents m)\<^sup>+" by (auto simp: dependents_def split: if_splits)
  then obtain p where "(b, p) \<in> parents m" by (blast dest: tranclD)
  then show "b \<in> {..<nextSpace m}" using space_below [OF ok] by (auto simp: parents_def)
qed

lemma deps_length:
  assumes "spacesOk m" and "distinct xs" and "set xs = dependents m a"
  shows "length xs \<le> nextSpace m"
proof -
  have "card (set xs) \<le> card {..<nextSpace m}" by (rule card_mono) (use dependents_below [OF assms(1)] assms(3) in auto)
  then show ?thesis using distinct_card [OF assms(2)] by simp
qed

text \<open>Only the primary namespace at the top has dependents, and the one to be deleted is among them.\<close>

lemma unlinkAbove_run:
  assumes ok: "spacesOk m" and n: "spaces m a = Some n" and "(a, q) \<in> (parents m)\<^sup>+" and "Suc q < fuel"
  shows "\<exists>r rn xs ys. spaces m r = Some rn \<and> nsParent rn = None \<and> (a, r) \<in> (parents m)\<^sup>+ \<and> deps m (nsDependent rn) (xs @ a # ys) \<and>
    distinct (xs @ a # ys) \<and> set (xs @ a # ys) = dependents m r \<and>
    unlinkAbove fuel a (Some q) m = writeDep (if xs = [] then FromDependent r else FromNext (last xs)) (nsNextDependent n) m"
  using assms(3,4)
proof (induction fuel arbitrary: q)
  case (Suc fuel)
  obtain qn where qn: "spaces m q = Some qn"
    using live_parent [OF ok, of a q] n trancl_into_rtrancl [OF Suc.prems(1)] by auto
  obtain zs where zs: "deps m (nsDependent qn) zs" "distinct zs" "set zs = dependents m q" using space_deps [OF ok qn] by blast
  note len = deps_length [OF ok zs(2,3)]
  show ?case
  proof (cases "nsParent qn")
    case None
    then have "a \<in> set zs" using zs(3) qn Suc.prems(1) by (simp add: dependents_def)
    then obtain xs ys where xs: "zs = xs @ a # ys" "a \<notin> set xs" by (meson split_list_first)
    let ?pd = "if xs = [] then FromDependent q else FromNext (last xs)"
    have loop: "unlinkLoop (Suc (nextSpace m)) a (FromDependent q) (nsDependent qn) m = writeDep ?pd (nsNextDependent n) m"
      using unlinkLoop_run [of m "nsDependent qn" xs a ys "Suc (nextSpace m)" n "FromDependent q"] zs(1) xs n len
      by (simp del: unlinkLoop.simps)
    obtain f where f: "fuel = Suc f" using Suc.prems(2) by (cases fuel) auto
    have "unlinkAbove (Suc fuel) a (Some q) m = writeDep ?pd (nsNextDependent n) m"
    proof (cases "xs = []")
      case True
      then show ?thesis using qn loop None f
        by (simp add: bindF_def getSpace_def putSpace_def writeDep_def retF_def del: unlinkLoop.simps)
    next
      case False
      have "last xs \<in> dependents m q" using zs(3) xs(1) last_in_set [OF False] by auto
      then have ne: "(last xs, q) \<in> (parents m)\<^sup>+" by (auto simp: dependents_def split: if_splits)
      then have "last xs \<noteq> q" using trancl_less [OF ok ne] by simp
      moreover obtain k where "spaces m (last xs) = Some k"
        using ne by (auto simp: parents_def dest: tranclD)
      ultimately show ?thesis using qn loop None f False
        by (simp add: bindF_def getSpace_def putSpace_def writeDep_def retF_def del: unlinkLoop.simps)
    qed
    then show ?thesis using qn None Suc.prems(1) zs xs(1) by blast
  next
    case (Some p)
    have qp: "(q, p) \<in> parents m" using qn Some by (simp add: parents_def)
    have "dependents m q = {}" using qn Some by (simp add: dependents_def)
    then have "nsDependent qn = None" using zs by auto
    then have "unlinkAbove (Suc fuel) a (Some q) m = unlinkAbove fuel a (Some p) m"
      using qn Some by (simp add: bindF_def [of "getSpace q"] bindF_def [of "\<lambda>m. _ m"] getSpace_def retF_def)
    moreover have "(a, p) \<in> (parents m)\<^sup>+" using Suc.prems(1) qp by (rule trancl_into_trancl)
    moreover have "Suc p < fuel" using space_parent [OF ok qp] Suc.prems(2) by simp
    ultimately show ?thesis using Suc.IH by metis
  qed
qed simp


lemma dependentD:
  assumes "b \<in> dependents m c"
  shows dependent_path: "(b, c) \<in> (parents m)\<^sup>+" and dependent_top: "\<forall>p. (c, p) \<notin> parents m"
    and dependent_live: "\<exists>n p. spaces m b = Some n \<and> nsParent n = Some p"
proof -
  show b: "(b, c) \<in> (parents m)\<^sup>+" using assms by (simp add: dependents_def split: if_splits)
  show "\<forall>p. (c, p) \<notin> parents m" using assms by (auto simp: dependents_def parents_def split: if_splits)
  obtain p where "(b, p) \<in> parents m" using b by (blast dest: tranclD)
  then show "\<exists>n p. spaces m b = Some n \<and> nsParent n = Some p" by (auto simp: parents_def)
qed

lemma dependents_apart:
  assumes "b \<in> dependents m c" and "b \<in> dependents m r"
  shows "c = r"
  using primary_unique [OF trancl_into_rtrancl trancl_into_rtrancl] dependentD [OF assms(1)] dependentD [OF assms(2)] by blast

lemma dependent_less: "spacesOk m \<Longrightarrow> b \<in> dependents m c \<Longrightarrow> c < b"
  using trancl_less dependent_path by blast

lemma unlink_space:
  assumes ok: "spacesOk m" and n: "spaces m a = Some n"
  shows "\<exists>mw. unlinkAbove (Suc (nextSpace m)) a (nsParent n) m = Done ((), mw) \<and>
    nextSpace mw = nextSpace m \<and> spaceTable mw = spaceTable m \<and> hier mw = hier m \<and>
    (\<forall>b k. spaces m b = Some k \<longrightarrow> (\<exists>k'. spaces mw b = Some k' \<and> core k' = core k)) \<and>
    (\<forall>b. spaces m b = None \<longrightarrow> spaces mw b = None) \<and>
    (\<forall>c k'. spaces mw c = Some k' \<longrightarrow> (\<exists>xs. deps mw (nsDependent k') xs \<and> distinct xs \<and> set xs = dependents m c - {a}))"
proof (cases "nsParent n")
  case None
  have "a \<notin> dependents m c" for c
    using n None dependent_live [of a m c] by auto
  then have "\<exists>xs. deps m (nsDependent k') xs \<and> distinct xs \<and> set xs = dependents m c - {a}" if "spaces m c = Some k'" for c k'
    using space_deps [OF ok that] by auto
  then show ?thesis using None by (intro exI [of _ m]) (simp add: retF_def)
next
  case (Some q)
  have aq: "(a, q) \<in> parents m" using n Some by (simp add: parents_def)
  then have "Suc q < Suc (nextSpace m)" using space_parent [OF ok aq] space_below [OF ok n] by simp
  from unlinkAbove_run [OF ok n r_into_trancl [OF aq] this]
  obtain r rn xs ys where r: "spaces m r = Some rn" "nsParent rn = None" "(a, r) \<in> (parents m)\<^sup>+" "deps m (nsDependent rn) (xs @ a # ys)"
    "distinct (xs @ a # ys)" "set (xs @ a # ys) = dependents m r"
    and run: "unlinkAbove (Suc (nextSpace m)) a (Some q) m =
      writeDep (if xs = [] then FromDependent r else FromNext (last xs)) (nsNextDependent n) m" by blast
  have apart: "b \<notin> dependents m c" if "b \<in> dependents m r" "c \<noteq> r" for b c
    using dependents_apart [of b m c r] that by blast
  define w where "w = (if xs = [] then r else last xs)"
  have "spaces m w \<noteq> None"
  proof (cases "xs = []")
    case False
    then have "last xs \<in> dependents m r" unfolding r(6) [symmetric] using False by simp
    then show ?thesis using False dependent_live [of "last xs" m r] by (auto simp: w_def)
  qed (simp add: w_def r(1))
  then obtain k where k: "spaces m w = Some k" by blast
  define k1 where "k1 = (if xs = [] then k\<lparr>nsDependent := nsNextDependent n\<rparr> else k\<lparr>nsNextDependent := nsNextDependent n\<rparr>)"
  define mw where "mw = m\<lparr>spaces := (spaces m)(w \<mapsto> k1)\<rparr>"
  have fin: "unlinkAbove (Suc (nextSpace m)) a (nsParent n) m = Done ((), mw)"
    unfolding Some run using k by (cases "xs = []") (simp_all add: writeDep_def w_def bindF_def getSpace_def putSpace_def mw_def k1_def)
  have core1: "core k1 = core k" by (simp add: k1_def core_def)
  have at: "spaces mw b = (if b = w then Some k1 else spaces m b)" for b by (simp add: mw_def)
  have chains: "\<exists>zs. deps mw (nsDependent k') zs \<and> distinct zs \<and> set zs = dependents m c - {a}" if h: "spaces mw c = Some k'" for c k'
  proof -
    obtain j where j: "spaces m c = Some j" using h k by (auto simp: at split: if_splits)
    show ?thesis
    proof (cases "c = r")
      case True
      show ?thesis
      proof (cases "xs = []")
        case e: True
        then have "k' = k1" "k = rn" using h True k r(1) by (simp_all add: at w_def)
        then have d: "nsDependent k' = nsNextDependent n" using e by (simp add: k1_def)
        have "deps m (nsNextDependent n) ys" using r(4) n e by simp
        moreover have "w \<notin> set ys" using r(6) dependent_less [OF ok, of r r] e by (auto simp: w_def)
        ultimately have "deps mw (nsNextDependent n) ys" by (auto simp: at intro: deps_frame)
        then show ?thesis using d r(5,6) e True by (intro exI [of _ ys]) auto
      next
        case f: False
        have "last xs \<in> dependents m r" unfolding r(6) [symmetric] using f by simp
        then have "w \<noteq> r" using f dependent_less [OF ok, of r r] by (auto simp: w_def)
        then have "k' = rn" using h True r(1) by (simp add: at)
        moreover have "deps mw (nsDependent rn) (xs @ ys)"
          by (rule deps_unlink [OF r(4,5) f n]) (use k f in \<open>simp_all add: w_def mw_def k1_def\<close>)
        ultimately show ?thesis using r(5,6) True by (intro exI [of _ "xs @ ys"]) auto
      qed
    next
      case False
      obtain zs where zs: "deps m (nsDependent j) zs" "distinct zs" "set zs = dependents m c" using space_deps [OF ok j] by blast
      have "w \<notin> set zs \<or> nsNextDependent k1 = nsNextDependent k"
        using apart [OF _ False] zs(3) last_in_set r(6) by (cases "xs = []") (auto simp: w_def k1_def)
      then have "deps mw (nsDependent j) zs"
        using k by (intro deps_frame [OF zs(1)]) (auto simp: at)
      moreover have "nsDependent k' = nsDependent j" using h j k False by (auto simp: at k1_def w_def split: if_splits)
      moreover have "a \<notin> dependents m c" using apart [OF _ False] r(6) by auto
      ultimately show ?thesis using zs(2,3) by (intro exI [of _ zs]) auto
    qed
  qed
  show ?thesis
    by (intro exI [of _ mw] conjI fin) (use k core1 chains in \<open>auto simp: at\<close>, simp_all add: mw_def)
qed


definition emptyTreeAt :: "manager \<Rightarrow> nat \<Rightarrow> bool" where
  "emptyTreeAt m a \<longleftrightarrow> (\<exists>tb. trees (hier m) a = Some tb \<and> concat (chains tb) = [])"

lemma delete_run:
  assumes ok: "spacesOk m" and k: "nul_free name" and a: "spaceAt m name = Some a" "spaces m a = Some n" and tree: "emptyTreeAt m a"
  shows "\<exists>mw tb m'. deleteNameSpace name m = Done ((), m') \<and> spaces m' = (spaces mw)(a := None) \<and> nextSpace m' = nextSpace m \<and>
    hier m' = (hier m)\<lparr>trees := (trees (hier m))(a := None)\<rparr> \<and> spaceTable m' = tb \<and> treeTable tb \<and>
    (\<forall>k'. nul_free k' \<longrightarrow> contents equalNoCaseFunc tb k' = (if toLowerUnits k' = toLowerUnits name then None else spaceAt m k')) \<and>
    (\<forall>b k. spaces m b = Some k \<longrightarrow> (\<exists>k'. spaces mw b = Some k' \<and> core k' = core k)) \<and>
    (\<forall>b. spaces m b = None \<longrightarrow> spaces mw b = None) \<and>
    (\<forall>c k'. spaces mw c = Some k' \<longrightarrow> (\<exists>xs. deps mw (nsDependent k') xs \<and> distinct xs \<and> set xs = dependents m c - {a}))"
proof -
  obtain mw where mw: "unlinkAbove (Suc (nextSpace m)) a (nsParent n) m = Done ((), mw)"
    "nextSpace mw = nextSpace m" "spaceTable mw = spaceTable m" "hier mw = hier m"
    "\<forall>b k. spaces m b = Some k \<longrightarrow> (\<exists>k'. spaces mw b = Some k' \<and> core k' = core k)"
    "\<forall>b. spaces m b = None \<longrightarrow> spaces mw b = None"
    "\<forall>c k'. spaces mw c = Some k' \<longrightarrow> (\<exists>xs. deps mw (nsDependent k') xs \<and> distinct xs \<and> set xs = dependents m c - {a})"
    using unlink_space [OF ok a(2)] by (elim exE conjE)
  obtain b tb where tb: "removeName name mw = Done (b, mw\<lparr>spaceTable := tb\<rparr>)" "treeTable tb"
    "\<forall>k'. nul_free k' \<longrightarrow> contents equalNoCaseFunc tb k' = (if toLowerUnits k' = toLowerUnits name then None else spaceAt m k')"
    using removeName_eq [OF ok k mw(3)] by (elim exE conjE)
  obtain n' where n': "spaces mw a = Some n'" using mw(5) a(2) by blast
  obtain t0 where t0: "trees (hier m) a = Some t0" "concat (chains t0) = []" using tree by (auto simp: emptyTreeAt_def)
  define s' where "s' = (hier m)\<lparr>trees := (trees (hier m))(a := None)\<rparr>"
  have "visit (startIterator t0) = []" unfolding visit_start by (rule t0(2))
  then have "deleteTree a (hier m) = Done ((), s')"
    using t0(1) by (simp add: deleteTree_def bindF_def getTree_def retF_def s'_def)
  then have "deleteSpace a (mw\<lparr>spaceTable := tb\<rparr>) = Done ((), mw\<lparr>spaceTable := tb, hier := s', spaces := (spaces mw)(a := None)\<rparr>)"
    using n' mw(4) by (simp add: deleteSpace_def bindF_def getSpace_def onTree_def)
  moreover have "getNameSpace name m = Done (a, m)" using getNameSpace_eq [OF ok k] a(1) by simp
  ultimately have "deleteNameSpace name m = Done ((), mw\<lparr>spaceTable := tb, hier := s', spaces := (spaces mw)(a := None)\<rparr>)"
    using a(2) mw(1) tb(1) by (simp add: deleteNameSpace_def bindF_def getSpace_def del: unlinkAbove.simps)
  then show ?thesis
    by (intro exI [of _ mw] exI [of _ tb] exI [of _ "mw\<lparr>spaceTable := tb, hier := s', spaces := (spaces mw)(a := None)\<rparr>"])
       (use mw tb in \<open>simp add: s'_def\<close>)
qed

lemma deleteNameSpace_spec:
  assumes ok: "spacesOk m" and k: "nul_free name" and a: "spaceAt m name = Some a"
    and leaf: "\<forall>b. (b, a) \<notin> parents m" and tree: "emptyTreeAt m a"
  shows "\<exists>m'. deleteNameSpace name m = Done ((), m') \<and> spacesOk m' \<and> registry m' = (registry m)(toLowerUnits name := None)"
proof -
  obtain n where n: "spaces m a = Some n" "toLowerUnits (nsName n) = toLowerUnits name" using space_at [OF ok k a] by blast
  obtain mw tb m' where m': "deleteNameSpace name m = Done ((), m')" "spaces m' = (spaces mw)(a := None)" "nextSpace m' = nextSpace m"
    "hier m' = (hier m)\<lparr>trees := (trees (hier m))(a := None)\<rparr>"
    "spaceTable m' = tb" "treeTable tb"
    "\<forall>k'. nul_free k' \<longrightarrow> contents equalNoCaseFunc tb k' = (if toLowerUnits k' = toLowerUnits name then None else spaceAt m k')"
    "\<forall>b k. spaces m b = Some k \<longrightarrow> (\<exists>k'. spaces mw b = Some k' \<and> core k' = core k)"
    "\<forall>b. spaces m b = None \<longrightarrow> spaces mw b = None"
    "\<forall>c k'. spaces mw c = Some k' \<longrightarrow> (\<exists>xs. deps mw (nsDependent k') xs \<and> distinct xs \<and> set xs = dependents m c - {a})"
    using delete_run [OF ok k a n(1) tree] by (elim exE conjE)
  have at: "spaceAt m' k' = (if toLowerUnits k' = toLowerUnits name then None else spaceAt m k')" if "nul_free k'" for k'
    using m'(5,7) that by (simp add: spaceAt_def)
  have fwd: "\<exists>k'. spaces m' b = Some k' \<and> core k' = core j" if "spaces m b = Some j" "b \<noteq> a" for b j
    using m'(8) that by (simp add: m'(2))
  have bwd: "b \<noteq> a \<and> (\<exists>j. spaces m b = Some j \<and> core j = core j')" if h: "spaces m' b = Some j'" for b j'
  proof -
    have "b \<noteq> a" "spaces mw b = Some j'" using h by (auto simp: m'(2) split: if_splits)
    moreover from this obtain j where j: "spaces m b = Some j" using m'(9) by (cases "spaces m b") auto
    moreover have "core j' = core j" using m'(8) j calculation(2) by fastforce
    ultimately show ?thesis by simp
  qed
  have par: "parents m' = {(b, c). b \<noteq> a \<and> (b, c) \<in> parents m}"
  proof (intro equalityI subsetI)
    fix e assume "e \<in> parents m'"
    then obtain b c j' where "e = (b, c)" "spaces m' b = Some j'" "nsParent j' = Some c" by (auto simp: parents_def)
    with bwd [of b j'] show "e \<in> {(b, c). b \<noteq> a \<and> (b, c) \<in> parents m}" by (auto simp: parents_def core_def)
  next
    fix e assume "e \<in> {(b, c). b \<noteq> a \<and> (b, c) \<in> parents m}"
    then obtain b c j where "e = (b, c)" "b \<noteq> a" "spaces m b = Some j" "nsParent j = Some c" by (auto simp: parents_def)
    with fwd [of b j] show "e \<in> parents m'" by (auto simp: parents_def core_def)
  qed
  have reach: "(b, c) \<in> (parents m')\<^sup>+ \<longleftrightarrow> b \<noteq> a \<and> (b, c) \<in> (parents m)\<^sup>+" for b c
  proof
    assume h: "(b, c) \<in> (parents m')\<^sup>+"
    have "parents m' \<subseteq> parents m" by (auto simp: par)
    then have "(b, c) \<in> (parents m)\<^sup>+" using h trancl_mono by blast
    moreover have "b \<noteq> a" using tranclD [OF h] by (auto simp: par)
    ultimately show "b \<noteq> a \<and> (b, c) \<in> (parents m)\<^sup>+" by simp
  next
    assume h: "b \<noteq> a \<and> (b, c) \<in> (parents m)\<^sup>+"
    then have "(b, c) \<in> (parents m)\<^sup>+" "b \<noteq> a" by simp_all
    then show "(b, c) \<in> (parents m')\<^sup>+"
    proof (induction rule: converse_trancl_induct)
      case (base b)
      then show ?case by (auto simp: par)
    next
      case (step b d)
      then have "d \<noteq> a" "(b, d) \<in> parents m'" using leaf by (auto simp: par)
      then show ?case using step.IH by (meson trancl_into_trancl2)
    qed
  qed
  have dep: "dependents m' c = dependents m c - {a}" if h: "spaces m' c = Some j'" for c j'
  proof -
    obtain j where "spaces m c = Some j" "core j = core j'" using bwd [OF h] by blast
    then have "(\<exists>n. spaces m' c = Some n \<and> nsParent n = None) \<longleftrightarrow> (\<exists>n. spaces m c = Some n \<and> nsParent n = None)"
      using h by (simp add: core_def)
    then show ?thesis unfolding dependents_def reach by auto
  qed
  have other: "b \<noteq> a" if "nul_free k'" "toLowerUnits k' \<noteq> toLowerUnits name" "spaceAt m k' = Some b" for k' b
    using space_at [OF ok that(1,3)] that(2) n by auto
  have ok': "spacesOk m'"
  proof (rule spacesOkI)
    show "treeTable (spaceTable m')" using m'(5,6) by simp
  next
    fix k' b assume h: "nul_free k'" "spaceAt m' k' = Some b"
    then have e: "toLowerUnits k' \<noteq> toLowerUnits name" "spaceAt m k' = Some b" using at by (auto split: if_splits)
    obtain j where "spaces m b = Some j" "toLowerUnits (nsName j) = toLowerUnits k'" using space_at [OF ok h(1) e(2)] by blast
    with fwd [of b j] other [OF h(1) e] show "\<exists>n. spaces m' b = Some n \<and> toLowerUnits (nsName n) = toLowerUnits k'"
      by (auto simp: core_def)
  next
    fix b j' assume h: "spaces m' b = Some j'"
    then obtain j where j: "b \<noteq> a" "spaces m b = Some j" "nsName j' = nsName j" using bwd [OF h] by (auto simp: core_def)
    note s = space_name [OF ok j(2)]
    then have "toLowerUnits (nsName j) \<noteq> toLowerUnits name" using spaceAt_cong [OF ok _ k] a j(1) by auto
    then show "nul_free (nsName j') \<and> spaceAt m' (nsName j') = Some b" using s j(3) at by simp
  next
    fix b p assume "(b, p) \<in> parents m'"
    then have h: "b \<noteq> a" "(b, p) \<in> parents m" by (auto simp: par)
    then have "p \<noteq> a" using leaf by auto
    moreover obtain pn where "spaces m p = Some pn" using space_parent [OF ok h(2)] by blast
    ultimately show "p < b \<and> spaces m' p \<noteq> None" using space_parent [OF ok h(2)] fwd [of p pn] by auto
  next
    fix b j' assume "spaces m' b = Some j'"
    then show "b < nextSpace m'" using bwd [of b j'] space_below [OF ok] m'(3) by auto
  next
    fix c j' assume h: "spaces m' c = Some j'"
    then have "spaces mw c = Some j'" by (simp add: m'(2) split: if_splits)
    then obtain xs where xs: "deps mw (nsDependent j') xs" "distinct xs" "set xs = dependents m c - {a}" using m'(10) by blast
    have "deps m' (nsDependent j') xs" by (rule deps_frame [OF xs(1)]) (use xs(3) in \<open>auto simp: m'(2)\<close>)
    then show "\<exists>xs. deps m' (nsDependent j') xs \<and> distinct xs \<and> set xs = dependents m' c"
      using xs dep [OF h] by blast
  qed
  have reg: "registry m' = (registry m)(toLowerUnits name := None)"
  proof
    fix j show "registry m' j = ((registry m)(toLowerUnits name := None)) j"
    proof (cases "nul_free j \<and> toLowerUnits j = j \<and> j \<noteq> toLowerUnits name")
      case True
      then have e: "spaceAt m' j = spaceAt m j" using at by auto
      show ?thesis
      proof (cases "spaceAt m j")
        case None
        then show ?thesis using e True by (simp add: registry_def)
      next
        case (Some b)
        obtain bn where bn: "spaces m b = Some bn" using space_at [OF ok _ Some] True by blast
        have ba: "b \<noteq> a" using other [OF _ _ Some] True by auto
        then obtain bn' where bn': "spaces m' b = Some bn'" "core bn' = core bn" using fwd [OF bn] by blast
        have "parentName m' (nsParent bn) = parentName m (nsParent bn)"
        proof (cases "nsParent bn")
          case (Some p)
          then have bp: "(b, p) \<in> parents m" using bn by (simp add: parents_def)
          then have "p \<noteq> a" using leaf by auto
          moreover obtain pn where "spaces m p = Some pn" using space_parent [OF ok bp] by blast
          moreover obtain pn' where "spaces m' p = Some pn'" "core pn' = core pn" using fwd calculation by blast
          ultimately show ?thesis using Some by (simp add: parentName_def core_def)
        qed (simp add: parentName_def)
        then show ?thesis using e Some True bn bn' by (simp add: registry_def core_def)
      qed
    next
      case False
      then consider "j = toLowerUnits name" | "\<not> (nul_free j \<and> toLowerUnits j = j)" by blast
      then show ?thesis
      proof cases
        case 1
        then have "spaceAt m' j = None" using at [of j] k by simp
        then show ?thesis using 1 by (simp add: registry_def)
      next
        case 2
        then show ?thesis by (auto simp: registry_def)
      qed
    qed
  qed
  from m'(1) ok' reg show ?thesis by blast
qed


subsection \<open>Modifying a namespace\<close>

text \<open>Changing the names, the flags and the table, with the links between the objects as they are.\<close>

lemma same_links_ok:
  assumes ok: "spacesOk m" and size: "nextSpace m' = nextSpace m"
    and fwd: "\<forall>a n. spaces m a = Some n \<longrightarrow> (\<exists>n'. spaces m' a = Some n' \<and> nsParent n' = nsParent n \<and>
      nsDependent n' = nsDependent n \<and> nsNextDependent n' = nsNextDependent n)"
    and none: "\<forall>a. spaces m a = None \<longrightarrow> spaces m' a = None"
    and tb: "treeTable (spaceTable m')"
    and at: "\<And>k a. nul_free k \<Longrightarrow> spaceAt m' k = Some a \<Longrightarrow> \<exists>n. spaces m' a = Some n \<and> toLowerUnits (nsName n) = toLowerUnits k"
    and name: "\<And>a n. spaces m' a = Some n \<Longrightarrow> nul_free (nsName n) \<and> spaceAt m' (nsName n) = Some a"
  shows "spacesOk m'" and "parents m' = parents m"
proof -
  have bwd: "\<exists>n. spaces m a = Some n \<and> nsParent n' = nsParent n \<and> nsDependent n' = nsDependent n \<and> nsNextDependent n' = nsNextDependent n"
    if h: "spaces m' a = Some n'" for a n'
  proof -
    obtain n where "spaces m a = Some n" using none h by (cases "spaces m a") auto
    with fwd h show ?thesis by fastforce
  qed
  show par: "parents m' = parents m"
  proof (intro equalityI subsetI)
    fix e assume "e \<in> parents m'"
    then obtain a p n' where "e = (a, p)" "spaces m' a = Some n'" "nsParent n' = Some p" by (auto simp: parents_def)
    with bwd [of a n'] show "e \<in> parents m" by (auto simp: parents_def)
  next
    fix e assume "e \<in> parents m"
    then obtain a p n where "e = (a, p)" "spaces m a = Some n" "nsParent n = Some p" by (auto simp: parents_def)
    with fwd show "e \<in> parents m'" by (force simp: parents_def)
  qed
  have dep: "dependents m' c = dependents m c" for c
  proof -
    have "(\<exists>n. spaces m' c = Some n \<and> nsParent n = None) \<longleftrightarrow> (\<exists>n. spaces m c = Some n \<and> nsParent n = None)"
      using fwd bwd by metis
    then show ?thesis by (simp only: dependents_def par)
  qed
  show "spacesOk m'"
  proof (rule spacesOkI [OF tb at name])
    fix a p assume "(a, p) \<in> parents m'"
    then show "p < a \<and> spaces m' p \<noteq> None" using space_parent [OF ok, of a p] fwd par by (metis not_None_eq)
  next
    fix a n' assume "spaces m' a = Some n'"
    then show "a < nextSpace m'" using bwd space_below [OF ok] size by metis
  next
    fix a n' assume h: "spaces m' a = Some n'"
    obtain n where n: "spaces m a = Some n" "nsDependent n' = nsDependent n" using bwd [OF h] by blast
    obtain xs where xs: "deps m (nsDependent n) xs" "distinct xs" "set xs = dependents m a" using space_deps [OF ok n(1)] by blast
    have "deps m' (nsDependent n) xs" by (rule deps_frame [OF xs(1)]) (use fwd in blast)
    with xs n(2) dep show "\<exists>xs. deps m' (nsDependent n') xs \<and> distinct xs \<and> set xs = dependents m' a" by metis
  qed
qed

lemma modifyNameSpace_spec:
  assumes ok: "spacesOk m" and k: "nul_free name"
  shows "case registry m (toLowerUnits name) of
      None \<Rightarrow> modifyNameSpace name sh up m = Throws (InvalidNamespace name)
    | Some (q, _, _, rem) \<Rightarrow> (\<exists>m'. modifyNameSpace name sh up m = Done ((), m') \<and> spacesOk m' \<and> parents m' = parents m \<and>
        registry m' = (registry m)(toLowerUnits name \<mapsto> (q, sh, up, rem)))"
proof (cases "spaceAt m name")
  case None
  then show ?thesis using getNameSpace_eq [OF ok k] by (simp add: registry_at [OF ok k] modifyNameSpace_def bindF_def)
next
  case (Some a)
  obtain n where n: "spaces m a = Some n" "toLowerUnits (nsName n) = toLowerUnits name" using space_at [OF ok k Some] by blast
  define m' where "m' = m\<lparr>spaces := (spaces m)(a \<mapsto> n\<lparr>nsUpdatesAllowed := up, nsShareable := sh\<rparr>)\<rparr>"
  have run: "modifyNameSpace name sh up m = Done ((), m')"
    using getNameSpace_eq [OF ok k] Some n(1) by (simp add: modifyNameSpace_def bindF_def getSpace_def putSpace_def m'_def)
  have at: "spaces m' b = (if b = a then Some (n\<lparr>nsUpdatesAllowed := up, nsShareable := sh\<rparr>) else spaces m b)" for b
    by (simp add: m'_def)
  have sa: "spaceAt m' = spaceAt m" by (simp add: fun_eq_iff spaceAt_def m'_def)
  have names: "\<forall>b j. spaces m b = Some j \<longrightarrow> (\<exists>j'. spaces m' b = Some j' \<and> nsName j' = nsName j)"
    using n(1) by (auto simp: at)
  have size: "nextSpace m' = nextSpace m" and tb: "treeTable (spaceTable m')" using space_table [OF ok] by (simp_all add: m'_def)
  have none: "\<forall>b. spaces m b = None \<longrightarrow> spaces m' b = None" using n(1) by (simp add: at)
  have fwd: "\<forall>b j. spaces m b = Some j \<longrightarrow> (\<exists>j'. spaces m' b = Some j' \<and> nsParent j' = nsParent j \<and>
      nsDependent j' = nsDependent j \<and> nsNextDependent j' = nsNextDependent j)"
    using n(1) by (auto simp: at)
  have back1: "\<exists>n. spaces m' b = Some n \<and> toLowerUnits (nsName n) = toLowerUnits k'" if "nul_free k'" "spaceAt m' k' = Some b" for k' b
    using space_at [OF ok that(1), of b] that(2) names unfolding sa by metis
  have back2: "nul_free (nsName j) \<and> spaceAt m' (nsName j) = Some b" if "spaces m' b = Some j" for b j
    using space_name [OF ok, of b] that n(1) unfolding sa at by (auto split: if_splits)
  note ok' = same_links_ok [OF ok size fwd none tb back1 back2]
  have "registry m' = (registry m)(toLowerUnits name \<mapsto> (parentName m (nsParent n), sh, up, nsRemoteInfo n))"
  proof
    fix j show "registry m' j = ((registry m)(toLowerUnits name \<mapsto> (parentName m (nsParent n), sh, up, nsRemoteInfo n))) j"
    proof (cases "nul_free j \<and> toLowerUnits j = j")
      case True
      show ?thesis
      proof (cases "spaceAt m j")
        case None
        then have "j \<noteq> toLowerUnits name" using Some spaceAt_cong [OF ok, of "toLowerUnits name" name] k by auto
        then show ?thesis using None by (simp add: registry_def sa)
      next
        case b: (Some b)
        obtain bn where bn: "spaces m b = Some bn" "toLowerUnits (nsName bn) = j" using space_at [OF ok _ b] True by auto
        have keep: "parentName m' (nsParent bn) = parentName m (nsParent bn)" by (rule parentName_keep [OF ok bn(1) names])
        have "b = a \<longleftrightarrow> j = toLowerUnits name"
          using n bn b Some spaceAt_cong [OF ok _ k, of j] True by auto
        then show ?thesis using b True bn keep n(1) by (auto simp: registry_def sa at)
      qed
    next
      case False
      then have "j \<noteq> toLowerUnits name" using k by auto
      then show ?thesis using False by (auto simp: registry_def)
    qed
  qed
  then show ?thesis using run ok' Some n(1) by (simp add: registry_at [OF ok k])
qed


text \<open>A new name moves the entry and shows as the parent of its children.\<close>

definition renameH :: "pstr \<Rightarrow> pstr \<Rightarrow> registry \<Rightarrow> registry" where
  "renameH old new h j =
    map_option (\<lambda>(q, r). (map_option (\<lambda>x. if x = old then new else x) q, r))
      (if j = new then h old else if j = old then None else h j)"

lemma space_unique:
  assumes ok: "spacesOk m" and "spaces m a = Some n" and "spaces m b = Some j" and "toLowerUnits (nsName n) = toLowerUnits (nsName j)"
  shows "a = b"
  using space_name [OF ok assms(2)] space_name [OF ok assms(3)] spaceAt_cong [OF ok _ _ assms(4)] by simp

lemma rename_run:
  assumes ok: "spacesOk m" and k: "nul_free name" "nul_free new" and a: "spaceAt m name = Some a" "spaces m a = Some n"
  shows "\<exists>m'. modifyNameSpaceName name new m = Done ((), m') \<and> nextSpace m' = nextSpace m \<and> hier m' = hier m \<and>
    spaces m' = (spaces m)(a \<mapsto> n\<lparr>nsName := new\<rparr>) \<and> treeTable (spaceTable m') \<and>
    (\<forall>k'. nul_free k' \<longrightarrow> spaceAt m' k' =
      (if toLowerUnits new = toLowerUnits name \<or> spaceAt m new = None
       then (if toLowerUnits k' = toLowerUnits new then Some a else if toLowerUnits k' = toLowerUnits name then None else spaceAt m k')
       else (if toLowerUnits k' = toLowerUnits name then None else spaceAt m k')))"
proof -
  obtain b tb where tb: "removeName name m = Done (b, m\<lparr>spaceTable := tb\<rparr>)" "treeTable tb"
    "\<forall>k'. nul_free k' \<longrightarrow> contents equalNoCaseFunc tb k' = (if toLowerUnits k' = toLowerUnits name then None else spaceAt m k')"
    using removeName_eq [OF ok k(1) refl] by (elim exE conjE)
  obtain b' tb' where tb': "tableInsert equalNoCaseFunc hashLowerCase new a tb = Some (b', tb')" "treeTable tb'"
    "\<forall>k'. nul_free k' \<longrightarrow> contents equalNoCaseFunc tb' k' =
      (if contents equalNoCaseFunc tb new = None \<and> toLowerUnits k' = toLowerUnits new then Some a else contents equalNoCaseFunc tb k')"
  proof -
    obtain t' where "tableInsert equalNoCaseFunc hashLowerCase new a tb = Some (contents equalNoCaseFunc tb new = None, t')" "treeTable t'"
      "\<forall>k'. nul_free k' \<longrightarrow> contents equalNoCaseFunc t' k' =
        (if contents equalNoCaseFunc tb new = None \<and> equalNoCaseFunc k' new then Some a else contents equalNoCaseFunc tb k')"
      using noCaseKey.insert_exact [OF tb(2) k(2), of a] by blast
    then show ?thesis by (intro that) (simp_all add: equalNoCase_lower k(2))
  qed
  define m' where "m' = m\<lparr>spaces := (spaces m)(a \<mapsto> n\<lparr>nsName := new\<rparr>), spaceTable := tb'\<rparr>"
  have "modifyNameSpaceName name new m = Done ((), m')"
    using getNameSpace_eq [OF ok k(1)] a tb(1) tb'(1)
    by (simp add: modifyNameSpaceName_def bindF_def getSpace_def putSpace_def insertName_def retF_def m'_def)
  moreover have "spaceAt m' k' =
      (if toLowerUnits new = toLowerUnits name \<or> spaceAt m new = None
       then (if toLowerUnits k' = toLowerUnits new then Some a else if toLowerUnits k' = toLowerUnits name then None else spaceAt m k')
       else (if toLowerUnits k' = toLowerUnits name then None else spaceAt m k'))" if "nul_free k'" for k'
    using tb(3) tb'(3) that k by (simp add: m'_def spaceAt_def)
  ultimately show ?thesis using tb'(2) by (intro exI [of _ m']) (simp add: m'_def)
qed

lemma modifyNameSpaceName_spec:
  assumes ok: "spacesOk m" and k: "nul_free name" "nul_free new"
    and free: "toLowerUnits new = toLowerUnits name \<or> registry m (toLowerUnits new) = None"
  shows "if registry m (toLowerUnits name) = None then modifyNameSpaceName name new m = Throws (InvalidNamespace name)
    else (\<exists>m'. modifyNameSpaceName name new m = Done ((), m') \<and> spacesOk m' \<and> parents m' = parents m \<and>
      registry m' = renameH (toLowerUnits name) (toLowerUnits new) (registry m))"
proof (cases "spaceAt m name")
  case None
  then show ?thesis using getNameSpace_eq [OF ok k(1)] registry_None [OF ok k(1)] by (simp add: modifyNameSpaceName_def bindF_def)
next
  case (Some a)
  obtain n where n: "spaces m a = Some n" "toLowerUnits (nsName n) = toLowerUnits name" using space_at [OF ok k(1) Some] by blast
  have free': "toLowerUnits new = toLowerUnits name \<or> spaceAt m new = None" using free registry_None [OF ok k(2)] by simp
  obtain m' where m': "modifyNameSpaceName name new m = Done ((), m')" "nextSpace m' = nextSpace m" "hier m' = hier m"
    "spaces m' = (spaces m)(a \<mapsto> n\<lparr>nsName := new\<rparr>)" "treeTable (spaceTable m')"
    "\<forall>k'. nul_free k' \<longrightarrow> spaceAt m' k' =
       (if toLowerUnits k' = toLowerUnits new then Some a else if toLowerUnits k' = toLowerUnits name then None else spaceAt m k')"
    using rename_run [OF ok k Some n(1)] unfolding if_P [OF free'] by blast
  have other: "b \<noteq> a \<longleftrightarrow> toLowerUnits (nsName j) \<noteq> toLowerUnits name" if "spaces m b = Some j" for b j
    using space_unique [OF ok that n(1)] that n by auto
  have taken: "b = a" if "spaces m b = Some j" "toLowerUnits (nsName j) = toLowerUnits new" for b j
  proof (rule ccontr)
    assume ba: "b \<noteq> a"
    note s = space_name [OF ok that(1)]
    have "spaceAt m new = Some b" using spaceAt_cong [OF ok k(2), of "nsName j"] s that(2) by simp
    then show False using free' other [OF that(1)] ba that(2) by auto
  qed
  have none: "\<forall>b. spaces m b = None \<longrightarrow> spaces m' b = None" using n(1) by (simp add: m'(4))
  have fwd: "\<forall>b j. spaces m b = Some j \<longrightarrow> (\<exists>j'. spaces m' b = Some j' \<and> nsParent j' = nsParent j \<and>
      nsDependent j' = nsDependent j \<and> nsNextDependent j' = nsNextDependent j)"
    using n(1) by (auto simp: m'(4))
  have back1: "\<exists>j. spaces m' b = Some j \<and> toLowerUnits (nsName j) = toLowerUnits k'" if h: "nul_free k'" "spaceAt m' k' = Some b" for k' b
  proof (cases "toLowerUnits k' = toLowerUnits new")
    case True
    then show ?thesis using h m'(6) by (simp add: m'(4))
  next
    case False
    then have e: "toLowerUnits k' \<noteq> toLowerUnits name" "spaceAt m k' = Some b" using h m'(6) by (auto split: if_splits)
    obtain j where j: "spaces m b = Some j" "toLowerUnits (nsName j) = toLowerUnits k'" using space_at [OF ok h(1) e(2)] by blast
    then show ?thesis using other [OF j(1)] e(1) by (simp add: m'(4))
  qed
  have back2: "nul_free (nsName j') \<and> spaceAt m' (nsName j') = Some b" if h: "spaces m' b = Some j'" for b j'
  proof (cases "b = a")
    case True
    then show ?thesis using h k(2) m'(6) by (auto simp: m'(4))
  next
    case False
    then have j: "spaces m b = Some j'" using h by (simp add: m'(4))
    then show ?thesis using space_name [OF ok j] other [OF j] taken [OF j] False m'(6) by auto
  qed
  note ok' = same_links_ok [OF ok m'(2) fwd none m'(5) back1 back2]
  have pn: "parentName m' (nsParent j) = map_option (\<lambda>x. if x = toLowerUnits name then toLowerUnits new else x) (parentName m (nsParent j))"
    if h: "spaces m b = Some j" for b j
  proof (cases "nsParent j")
    case (Some p)
    then obtain q where q: "spaces m p = Some q" using space_parent [OF ok, of b p] h by (auto simp: parents_def)
    then show ?thesis using Some other [OF q] n by (simp add: parentName_def m'(4))
  qed (simp add: parentName_def)
  have "registry m' = renameH (toLowerUnits name) (toLowerUnits new) (registry m)"
  proof
    fix j show "registry m' j = renameH (toLowerUnits name) (toLowerUnits new) (registry m) j"
    proof (cases "nul_free j \<and> toLowerUnits j = j")
      case True
      consider "j = toLowerUnits new" | "j \<noteq> toLowerUnits new" "j = toLowerUnits name"
        | "j \<noteq> toLowerUnits new" "j \<noteq> toLowerUnits name" by blast
      then show ?thesis
      proof cases
        case 1
        then have "spaceAt m' j = Some a" using m'(6) True by simp
        then show ?thesis using 1 True pn [OF n(1)] n(1) Some
          by (simp add: registry_def [of m'] renameH_def registry_at [OF ok k(1)] m'(4))
      next
        case 2
        then have "spaceAt m' j = None" using m'(6) True by simp
        then show ?thesis using 2 by (simp add: registry_def [of m'] renameH_def)
      next
        case 3
        then have e: "spaceAt m' j = spaceAt m j" using m'(6) True by simp
        show ?thesis
        proof (cases "spaceAt m j")
          case None
          then show ?thesis using 3 e by (simp add: registry_def renameH_def)
        next
          case s: (Some b)
          obtain bn where bn: "spaces m b = Some bn" "toLowerUnits (nsName bn) = j" using space_at [OF ok _ s] True by auto
          then have "b \<noteq> a" using other [OF bn(1)] 3 by simp
          then show ?thesis using 3 e s True bn pn [OF bn(1)] by (simp add: registry_def renameH_def m'(4))
        qed
      qed
    next
      case False
      then have "j \<noteq> toLowerUnits new" using k by auto
      then show ?thesis using False by (auto simp: registry_def renameH_def)
    qed
  qed
  moreover have "registry m (toLowerUnits name) \<noteq> None" using Some registry_None [OF ok k(1)] by simp
  ultimately show ?thesis using m'(1) ok' by (subst if_not_P) blast+
qed


subsection \<open>Queries\<close>

lemma trancl_image:
  assumes R: "\<And>x y. (x, y) \<in> R \<longleftrightarrow> (\<exists>a b. (a, b) \<in> r \<and> x = f a \<and> y = f b)"
    and inj: "\<And>a b c d. (a, b) \<in> r \<Longrightarrow> (c, d) \<in> r \<Longrightarrow> f b = f c \<Longrightarrow> b = c"
  shows "(x, y) \<in> R\<^sup>+ \<longleftrightarrow> (\<exists>a b. (a, b) \<in> r\<^sup>+ \<and> x = f a \<and> y = f b)"
proof
  assume "(x, y) \<in> R\<^sup>+"
  then show "\<exists>a b. (a, b) \<in> r\<^sup>+ \<and> x = f a \<and> y = f b"
  proof (induction rule: trancl_induct)
    case (base y)
    then show ?case using R by blast
  next
    case (step y z)
    then obtain a b where a: "(a, b) \<in> r\<^sup>+" "x = f a" "y = f b" by blast
    obtain c d where c: "(c, d) \<in> r" "y = f c" "z = f d" using step.hyps(2) R by blast
    obtain e where "(e, b) \<in> r" using tranclD2 [OF a(1)] by blast
    then have "b = c" using inj c a(3) by metis
    then show ?case using a c by (metis trancl_into_trancl)
  qed
next
  assume "\<exists>a b. (a, b) \<in> r\<^sup>+ \<and> x = f a \<and> y = f b"
  then obtain a b where a: "(a, b) \<in> r\<^sup>+" "x = f a" "y = f b" by blast
  show "(x, y) \<in> R\<^sup>+" unfolding a(2,3) using a(1)
  proof (induction rule: trancl_induct)
    case (base y)
    then show ?case using R by blast
  next
    case (step y z)
    then show ?case using R by (blast intro: trancl_into_trancl)
  qed
qed

definition parentR :: "registry \<Rightarrow> (pstr \<times> pstr) set" where
  "parentR R = {(k, q). \<exists>r. R k = Some (Some q, r)}"

definition lname :: "manager \<Rightarrow> nat \<Rightarrow> pstr" where
  "lname m a = toLowerUnits (nsName (the (spaces m a)))"

lemma registry_live:
  assumes ok: "spacesOk m" and n: "spaces m a = Some n"
  shows "registry m (lname m a) = Some (parentName m (nsParent n), nsShareable n, nsUpdatesAllowed n, nsRemoteInfo n)"
  using space_name [OF ok n] n by (simp add: lname_def registry_at [OF ok])

lemma registry_Some:
  assumes ok: "spacesOk m" and "registry m k = Some e"
  obtains a n where "spaces m a = Some n" and "lname m a = k" and "spaceAt m k = Some a" and "nul_free k" and "toLowerUnits k = k"
    and "e = (parentName m (nsParent n), nsShareable n, nsUpdatesAllowed n, nsRemoteInfo n)"
proof -
  have k: "nul_free k" "toLowerUnits k = k" using assms(2) by (auto simp: registry_def split: if_splits)
  then obtain a n where "spaceAt m k = Some a" "spaces m a = Some n"
    "e = (parentName m (nsParent n), nsShareable n, nsUpdatesAllowed n, nsRemoteInfo n)"
    using assms(2) by (auto simp: registry_def split: option.splits)
  with k space_at [OF ok k(1)] that show thesis by (auto simp: lname_def)
qed

lemma lname_inj: "spacesOk m \<Longrightarrow> spaces m a \<noteq> None \<Longrightarrow> spaces m b \<noteq> None \<Longrightarrow> lname m a = lname m b \<Longrightarrow> a = b"
  using space_unique by (auto simp: lname_def)

lemma parentName_lname: "parentName m q = map_option (lname m) q"
  by (simp add: parentName_def lname_def comp_def cong: map_option_cong)

lemma parentR_iff:
  assumes ok: "spacesOk m"
  shows "(x, y) \<in> parentR (registry m) \<longleftrightarrow> (\<exists>a b. (a, b) \<in> parents m \<and> x = lname m a \<and> y = lname m b)"
proof
  assume "(x, y) \<in> parentR (registry m)"
  then obtain r where "registry m x = Some (Some y, r)" by (auto simp: parentR_def)
  from registry_Some [OF ok this] obtain a n where "spaces m a = Some n" "lname m a = x"
    "(Some y, r) = (parentName m (nsParent n), nsShareable n, nsUpdatesAllowed n, nsRemoteInfo n)" by metis
  then have "spaces m a = Some n" "lname m a = x" "parentName m (nsParent n) = Some y" by auto
  then show "\<exists>a b. (a, b) \<in> parents m \<and> x = lname m a \<and> y = lname m b"
    by (auto simp: parentName_lname parents_def)
next
  assume "\<exists>a b. (a, b) \<in> parents m \<and> x = lname m a \<and> y = lname m b"
  then obtain a b n where "spaces m a = Some n" "nsParent n = Some b" "x = lname m a" "y = lname m b" by (auto simp: parents_def)
  with registry_live [OF ok] show "(x, y) \<in> parentR (registry m)" by (simp add: parentR_def parentName_lname)
qed

lemma parentR_trancl:
  assumes ok: "spacesOk m"
  shows "(x, y) \<in> (parentR (registry m))\<^sup>+ \<longleftrightarrow> (\<exists>a b. (a, b) \<in> (parents m)\<^sup>+ \<and> x = lname m a \<and> y = lname m b)"
proof (rule trancl_image)
  show "(x, y) \<in> parentR (registry m) \<longleftrightarrow> (\<exists>a b. (a, b) \<in> parents m \<and> x = lname m a \<and> y = lname m b)" for x y
    by (rule parentR_iff [OF ok])
  show "b = c" if "(a, b) \<in> parents m" "(c, d) \<in> parents m" "lname m b = lname m c" for a b c d
    using lname_inj [OF ok _ _ that(3)] space_parent [OF ok that(1)] that(2) by (auto simp: parents_def)
qed

lemma dependentNames_run:
  assumes "deps m d xs" and "length xs < fuel"
  shows "dependentNames fuel d m = Done (map (\<lambda>b. nsName (the (spaces m b))) xs, m)"
  using assms
proof (induction fuel arbitrary: d xs)
  case (Suc fuel)
  show ?case
  proof (cases xs)
    case Nil
    with Suc.prems show ?thesis by (simp add: retF_def)
  next
    case (Cons b ys)
    with Suc.prems(1) obtain n where "d = Some b" "spaces m b = Some n" "deps m (nsNextDependent n) ys" by auto
    with Suc.IH [of "nsNextDependent n" ys] Suc.prems(2) Cons show ?thesis by (simp add: bindF_def getSpace_def retF_def)
  qed
qed simp

lemma dependents_spec:
  assumes ok: "spacesOk m" and k: "nul_free name"
  shows "case registry m (toLowerUnits name) of
      None \<Rightarrow> getDependentSchemaNameSpaceNames name m = Throws (InvalidNamespace name)
    | Some (q, _) \<Rightarrow> (\<exists>x l. getDependentSchemaNameSpaceNames name m = Done (x # l, m) \<and> toLowerUnits x = toLowerUnits name \<and>
        distinct (map toLowerUnits l) \<and>
        set (map toLowerUnits l) = (if q = None then {j. (j, toLowerUnits name) \<in> (parentR (registry m))\<^sup>+} else {}))"
proof (cases "spaceAt m name")
  case None
  then show ?thesis using getNameSpace_eq [OF ok k]
    by (simp add: registry_at [OF ok k] getDependentSchemaNameSpaceNames_def bindF_def)
next
  case (Some a)
  obtain n where n: "spaces m a = Some n" "toLowerUnits (nsName n) = toLowerUnits name" using space_at [OF ok k Some] by blast
  then have la: "lname m a = toLowerUnits name" by (simp add: lname_def)
  obtain xs where xs: "deps m (nsDependent n) xs" "distinct xs" "set xs = dependents m a" using space_deps [OF ok n(1)] by blast
  let ?l = "map (\<lambda>b. nsName (the (spaces m b))) xs"
  have low: "map toLowerUnits ?l = map (lname m) xs" by (simp add: lname_def comp_def)
  have live: "spaces m b \<noteq> None" if "b \<in> set xs" for b using dependent_live [of b m a] that xs(3) by auto
  have "getDependentSchemaNameSpaceNames name m = Done (nsName n # ?l, m)"
    using getNameSpace_eq [OF ok k] Some n(1) dependentNames_run [OF xs(1), of "Suc (nextSpace m)"] deps_length [OF ok xs(2,3)]
    by (simp add: getDependentSchemaNameSpaceNames_def bindF_def getSpace_def retF_def del: dependentNames.simps)
  moreover have "distinct (map toLowerUnits ?l)"
    unfolding low distinct_map using xs(2) lname_inj [OF ok live live] by (auto simp: inj_on_def)
  moreover have "set (map toLowerUnits ?l) = (if nsParent n = None then {j. (j, toLowerUnits name) \<in> (parentR (registry m))\<^sup>+} else {})"
  proof (cases "nsParent n")
    case None
    then have d: "set xs = {b. (b, a) \<in> (parents m)\<^sup>+}" using n(1) xs(3) by (simp add: dependents_def)
    have "lname m ` set xs = {j. (j, toLowerUnits name) \<in> (parentR (registry m))\<^sup>+}"
    proof (intro equalityI subsetI)
      fix j assume "j \<in> lname m ` set xs"
      then obtain b where "(b, a) \<in> (parents m)\<^sup>+" "j = lname m b" using d by blast
      then show "j \<in> {j. (j, toLowerUnits name) \<in> (parentR (registry m))\<^sup>+}"
        unfolding mem_Collect_eq parentR_trancl [OF ok] using la by metis
    next
      fix j assume "j \<in> {j. (j, toLowerUnits name) \<in> (parentR (registry m))\<^sup>+}"
      then obtain b c where b: "(b, c) \<in> (parents m)\<^sup>+" "j = lname m b" "toLowerUnits name = lname m c"
        by (auto simp: parentR_trancl [OF ok])
      obtain e where "(e, c) \<in> parents m" using tranclD2 [OF b(1)] by blast
      then have "spaces m c \<noteq> None" using space_parent [OF ok] by blast
      then have "c = a" using lname_inj [OF ok, of c a] n(1) la b(3) by simp
      then show "j \<in> lname m ` set xs" using b(1,2) d by auto
    qed
    then show ?thesis using None unfolding low by simp
  next
    case (Some p)
    then show ?thesis using n(1) xs(3) by (simp add: dependents_def)
  qed
  ultimately have "\<exists>x l. getDependentSchemaNameSpaceNames name m = Done (x # l, m) \<and> toLowerUnits x = toLowerUnits name \<and>
        distinct (map toLowerUnits l) \<and>
        set (map toLowerUnits l) = (if nsParent n = None then {j. (j, toLowerUnits name) \<in> (parentR (registry m))\<^sup>+} else {})"
    using n(2) by blast
  moreover have "registry m (toLowerUnits name) = Some (parentName m (nsParent n), nsShareable n, nsUpdatesAllowed n, nsRemoteInfo n)"
    using Some n by (simp add: registry_at [OF ok k])
  moreover have "parentName m (nsParent n) = None \<longleftrightarrow> nsParent n = None" by (simp add: parentName_lname)
  ultimately show ?thesis by (simp only: option.case prod.case)
qed

text \<open>The table lists each namespace once.\<close>

lemma space_entry:
  assumes ok: "spacesOk m" and e: "e \<in> set (concat (chains (spaceTable m)))"
  shows "spaceAt m (fst e) = Some (snd e)" and "nul_free (fst e)" and "spaces m (snd e) \<noteq> None"
    and "lname m (snd e) = toLowerUnits (fst e)"
proof -
  show f: "nul_free (fst e)" using noCaseKey.entries_valid [OF space_table [OF ok] e] .
  show s: "spaceAt m (fst e) = Some (snd e)" using noCaseKey.entry_contents [OF space_table [OF ok] e] by (simp add: spaceAt_def)
  obtain n where "spaces m (snd e) = Some n" "toLowerUnits (nsName n) = toLowerUnits (fst e)" using space_at [OF ok f s] by blast
  then show "spaces m (snd e) \<noteq> None" "lname m (snd e) = toLowerUnits (fst e)" by (simp_all add: lname_def)
qed

lemma lookupChain_Some: "lookupChain eq k b = Some v \<Longrightarrow> \<exists>e \<in> set b. snd e = v \<and> eq k (fst e)"
  by (induction b) (auto split: if_splits)

lemma live_entry:
  assumes ok: "spacesOk m" and n: "spaces m a = Some n"
  obtains e where "e \<in> set (concat (chains (spaceTable m)))" and "snd e = a"
  using lookupChain_Some [of equalNoCaseFunc "nsName n" "concat (chains (spaceTable m))" a] space_name [OF ok n] that
  by (auto simp: spaceAt_def contents_def)

lemma findChild_run:
  assumes "\<forall>e \<in> set es. spaces m (snd e) \<noteq> None"
  shows "\<exists>r. findChild a es m = Done (r, m) \<and>
    (case r of None \<Rightarrow> \<forall>e \<in> set es. (snd e, a) \<notin> parents m
     | Some x \<Rightarrow> \<exists>e \<in> set es. (snd e, a) \<in> parents m \<and> toLowerUnits x = lname m (snd e))"
  using assms
proof (induction es)
  case (Cons e es)
  then obtain n where n: "spaces m (snd e) = Some n" by auto
  show ?case
  proof (cases "nsParent n = Some a")
    case True
    with n show ?thesis by (auto simp: bindF_def getSpace_def retF_def parents_def lname_def)
  next
    case False
    obtain r where r: "findChild a es m = Done (r, m)" "case r of None \<Rightarrow> \<forall>e \<in> set es. (snd e, a) \<notin> parents m
     | Some x \<Rightarrow> \<exists>e \<in> set es. (snd e, a) \<in> parents m \<and> toLowerUnits x = lname m (snd e)" using Cons by auto
    have "findChild a (e # es) m = Done (r, m)" using n False r(1) by (simp add: bindF_def getSpace_def)
    moreover have "(snd e, a) \<notin> parents m" using n False by (simp add: parents_def)
    ultimately show ?thesis using r(2) by (cases r) auto
  qed
qed (simp add: retF_def)

lemma hasDependent_spec:
  assumes ok: "spacesOk m" and k: "nul_free name"
  shows "case registry m (toLowerUnits name) of
      None \<Rightarrow> hasDependentNameSpace name m = Throws (InvalidNamespace name)
    | Some _ \<Rightarrow> (\<exists>r. hasDependentNameSpace name m = Done (r, m) \<and>
        (case r of None \<Rightarrow> \<forall>j. (j, toLowerUnits name) \<notin> parentR (registry m)
         | Some x \<Rightarrow> (toLowerUnits x, toLowerUnits name) \<in> parentR (registry m)))"
    and "hasDependentNameSpace name m = Done (None, m') \<Longrightarrow> spaceAt m name = Some a \<Longrightarrow> \<forall>b. (b, a) \<notin> parents m"
proof -
  let ?es = "concat (chains (spaceTable m))"
  have es: "\<forall>e \<in> set ?es. spaces m (snd e) \<noteq> None" using space_entry(3) [OF ok] by blast
  have run: "hasDependentNameSpace name m = findChild a ?es m" if "spaceAt m name = Some a" for a
    using getNameSpace_eq [OF ok k] that by (simp add: hasDependentNameSpace_def bindF_def visit_start)
  have all: "(\<forall>e \<in> set ?es. (snd e, a) \<notin> parents m) \<longleftrightarrow> (\<forall>b. (b, a) \<notin> parents m)" for a
  proof
    assume h: "\<forall>e \<in> set ?es. (snd e, a) \<notin> parents m"
    show "\<forall>b. (b, a) \<notin> parents m"
    proof (intro allI notI)
      fix b assume b: "(b, a) \<in> parents m"
      then obtain n where "spaces m b = Some n" by (auto simp: parents_def)
      from live_entry [OF ok this] obtain e where "e \<in> set ?es" "snd e = b" by blast
      with h b show False by blast
    qed
  qed simp
  show "\<forall>b. (b, a) \<notin> parents m" if h: "hasDependentNameSpace name m = Done (None, m')" "spaceAt m name = Some a"
    using findChild_run [OF es, of a] h run [OF h(2)] all by auto
  show "case registry m (toLowerUnits name) of
      None \<Rightarrow> hasDependentNameSpace name m = Throws (InvalidNamespace name)
    | Some _ \<Rightarrow> (\<exists>r. hasDependentNameSpace name m = Done (r, m) \<and>
        (case r of None \<Rightarrow> \<forall>j. (j, toLowerUnits name) \<notin> parentR (registry m)
         | Some x \<Rightarrow> (toLowerUnits x, toLowerUnits name) \<in> parentR (registry m)))"
  proof (cases "spaceAt m name")
    case None
    then show ?thesis using getNameSpace_eq [OF ok k] by (simp add: registry_at [OF ok k] hasDependentNameSpace_def bindF_def)
  next
    case (Some a)
    obtain n where n: "spaces m a = Some n" "toLowerUnits (nsName n) = toLowerUnits name" using space_at [OF ok k Some] by blast
    then have la: "lname m a = toLowerUnits name" by (simp add: lname_def)
    obtain r where r: "findChild a ?es m = Done (r, m)" "case r of None \<Rightarrow> \<forall>e \<in> set ?es. (snd e, a) \<notin> parents m
     | Some x \<Rightarrow> \<exists>e \<in> set ?es. (snd e, a) \<in> parents m \<and> toLowerUnits x = lname m (snd e)" using findChild_run [OF es, of a] by blast
    have "case r of None \<Rightarrow> \<forall>j. (j, toLowerUnits name) \<notin> parentR (registry m)
         | Some x \<Rightarrow> (toLowerUnits x, toLowerUnits name) \<in> parentR (registry m)"
    proof (cases r)
      case None
      then have "\<forall>b. (b, a) \<notin> parents m" using r(2) all by simp
      moreover have "c = a" if "(b, c) \<in> parents m" "lname m c = toLowerUnits name" for b c
        using lname_inj [OF ok, of c a] space_parent [OF ok that(1)] n(1) la that(2) by simp
      ultimately show ?thesis using None by (auto simp: parentR_iff [OF ok])
    next
      case (Some x)
      then obtain e where "(snd e, a) \<in> parents m" "toLowerUnits x = lname m (snd e)" using r(2) by auto
      then have "(toLowerUnits x, toLowerUnits name) \<in> parentR (registry m)" unfolding parentR_iff [OF ok] using la by metis
      then show ?thesis using Some by simp
    qed
    then show ?thesis using run [OF Some] r(1) Some n(1) by (simp add: registry_at [OF ok k])
  qed
qed

lemma names_spec:
  assumes ok: "spacesOk m"
  shows "\<exists>l. getNameSpaceNames m = Done (l, m) \<and> distinct (map toLowerUnits l) \<and> set (map toLowerUnits l) = dom (registry m)"
proof -
  let ?es = "concat (chains (spaceTable m))"
  have "set (map toLowerUnits (map fst ?es)) = dom (registry m)"
  proof (intro equalityI subsetI)
    fix j assume "j \<in> set (map toLowerUnits (map fst ?es))"
    then obtain e where e: "e \<in> set ?es" "j = toLowerUnits (fst e)" by auto
    obtain n where "spaces m (snd e) = Some n" using space_entry(3) [OF ok e(1)] by blast
    from registry_live [OF ok this] space_entry(4) [OF ok e(1)] e(2) show "j \<in> dom (registry m)" by auto
  next
    fix j assume "j \<in> dom (registry m)"
    then obtain v where "registry m j = Some v" by blast
    from registry_Some [OF ok this] obtain a n where a: "spaces m a = Some n" "lname m a = j" by metis
    obtain e where e: "e \<in> set ?es" "snd e = a" using live_entry [OF ok a(1)] by blast
    then show "j \<in> set (map toLowerUnits (map fst ?es))" using space_entry(4) [OF ok e(1)] a(2) by force
  qed
  moreover have "distinct (map toLowerUnits (map fst ?es))"
    using entries_lower [OF space_table [OF ok], of "\<lambda>_. True"] by simp
  moreover have "getNameSpaceNames m = Done (map fst ?es, m)" by (simp add: getNameSpaceNames_def visit_start)
  ultimately show ?thesis by blast
qed

lemma attributes_spec:
  assumes ok: "spacesOk m" and k: "nul_free name"
  shows "\<exists>r. getNameSpaceAttributes name m = Done (r, m) \<and>
    map_option (\<lambda>(sh, up, q, rem). (map_option toLowerUnits q, sh, up, rem)) r = registry m (toLowerUnits name)"
proof (cases "spaceAt m name")
  case None
  then show ?thesis using lookupName_eq [OF ok k]
    by (simp add: registry_at [OF ok k] getNameSpaceAttributes_def bindF_def retF_def)
next
  case (Some a)
  obtain n where n: "spaces m a = Some n" "toLowerUnits (nsName n) = toLowerUnits name" using space_at [OF ok k Some] by blast
  show ?thesis
  proof (cases "nsParent n")
    case None
    then show ?thesis using lookupName_eq [OF ok k] Some n
      by (simp add: registry_at [OF ok k] getNameSpaceAttributes_def bindF_def retF_def getSpace_def parentName_def)
  next
    case p: (Some p)
    then obtain pn where "spaces m p = Some pn" using space_parent [OF ok, of a p] n(1) by (auto simp: parents_def)
    then show ?thesis using lookupName_eq [OF ok k] Some n p
      by (simp add: registry_at [OF ok k] getNameSpaceAttributes_def bindF_def retF_def getSpace_def parentName_def)
  qed
qed

end
