(* ===== verification/NameSpaceClasses.thy ===== *)
theory NameSpaceClasses
  imports NameSpaces
begin

section \<open>NameSpaceManager: reachable states and the classes of namespaces\<close>

text \<open>
  What holds of the namespaces of \<^verbatim>\<open>Pegasus/Repository/NameSpaceManager.cpp\<close> in every state the repository
  can reach: the links of the objects, and a table of classes for each. Then the answers of the
  operations on namespaces, the check before a class is created, and the cases the guards miss.
\<close>

subsection \<open>The tables of the trees stay well-formed\<close>

definition tablesOk :: "forest \<Rightarrow> bool" where
  "tablesOk s \<longleftrightarrow> (\<forall>t tb. trees s t = Some tb \<longrightarrow> treeTable tb)"

definition keeps :: "'a fprog \<Rightarrow> bool" where
  "keeps f \<longleftrightarrow> (\<forall>s x s'. tablesOk s \<longrightarrow> f s = Done (x, s') \<longrightarrow> tablesOk s' \<and> dom (trees s') = dom (trees s))"

named_theorems keeping "programs that keep the tables of the trees well-formed"

lemma keepsI:
  assumes "\<And>s x s'. tablesOk s \<Longrightarrow> f s = Done (x, s') \<Longrightarrow> tablesOk s' \<and> dom (trees s') = dom (trees s)"
  shows "keeps f"
  using assms by (simp add: keeps_def)

lemma keeps_same [keeping]:
  "keeps (retF x)" "keeps (throwF e)" "keeps undefinedF" "keeps (getNode a)" "keeps (putNode a n)" "keeps (newNode k)"
  "keeps (deleteNode a)" "keeps (getTree t)"
  by (auto simp: keeps_def tablesOk_def retF_def throwF_def undefinedF_def getNode_def putNode_def newNode_def deleteNode_def getTree_def
      split: option.splits if_splits)

lemma keeps_bind [keeping]:
  assumes "keeps m" and "\<And>x. keeps (f x)"
  shows "keeps (bindF m f)"
proof (rule keepsI)
  fix s x s' assume s: "tablesOk s" "bindF m f s = Done (x, s')"
  then obtain y s1 where "m s = Done (y, s1)" "f y s1 = Done (x, s')" by (auto simp: bindF_Done)
  then show "tablesOk s' \<and> dom (trees s') = dom (trees s)" using s(1) assms unfolding keeps_def by metis
qed

lemma keeps_cases [keeping]:
  "(P \<Longrightarrow> keeps f) \<Longrightarrow> (\<not> P \<Longrightarrow> keeps g) \<Longrightarrow> keeps (if P then f else g)"
  "keeps h1 \<Longrightarrow> (\<And>x. keeps (h2 x)) \<Longrightarrow> keeps (case r of None \<Rightarrow> h1 | Some x \<Rightarrow> h2 x)"
  "(\<And>q. keeps (k1 q)) \<Longrightarrow> (\<And>es. keeps (k2 es)) \<Longrightarrow> keeps k3 \<Longrightarrow>
    keeps (case l of Subs q \<Rightarrow> k1 q | Exts es \<Rightarrow> k2 es | FreedExts \<Rightarrow> k3)"
  "(\<And>x. keeps (k4 x)) \<Longrightarrow> keeps (let x = y in k4 x)"
  by (auto split: option.split links.split)

lemma keeps_lookup [keeping]: "keeps (lookupClass t k)"
  unfolding lookupClass_def by (intro keeping)

lemma tables_insert: "tablesOk s \<Longrightarrow> treeTable tb \<Longrightarrow> tablesOk (s\<lparr>trees := (trees s)(t \<mapsto> tb)\<rparr>)"
  by (simp add: tablesOk_def)

lemma keeps_enter [keeping]:
  assumes "nul_free k"
  shows "keeps (enterClass t k a)"
proof (rule keepsI)
  fix s x s' assume s: "tablesOk s" "enterClass t k a s = Done (x, s')"
  then obtain tb where tb: "trees s t = Some tb" by (auto simp: enterClass_def bindF_Done getTree_def split: option.splits)
  then have "treeTable tb" using s(1) by (simp add: tablesOk_def)
  then obtain b tb' where "tableInsert equalNoCaseFunc hashLowerCase k a tb = Some (b, tb')" "treeTable tb'"
    using noCaseKey.insert_exact [OF _ assms, of tb a] by blast
  with s tb show "tablesOk s' \<and> dom (trees s') = dom (trees s)"
    by (auto simp: enterClass_def bindF_def getTree_def putTree_def intro: tables_insert split: if_splits)
qed

lemma keeps_drop [keeping]:
  assumes "nul_free k"
  shows "keeps (dropClass t k)"
proof (rule keepsI)
  fix s x s' assume s: "tablesOk s" "dropClass t k s = Done (x, s')"
  then obtain tb where tb: "trees s t = Some tb" by (auto simp: dropClass_def bindF_Done getTree_def split: option.splits)
  then have "treeTable tb" using s(1) by (simp add: tablesOk_def)
  then obtain b tb' where "tableRemove equalNoCaseFunc hashLowerCase k tb = Some (b, tb')" "treeTable tb'"
    using table_steps(3) [OF _ assms] by blast
  with s tb show "tablesOk s' \<and> dom (trees s') = dom (trees s)"
    by (auto simp: dropClass_def bindF_def getTree_def putTree_def intro: tables_insert split: if_splits)
qed

lemma keeps_addSub [keeping]: "keeps (addSubClass p c)"
  unfolding addSubClass_def by (intro keeping)

lemma keeps_removeLoop [keeping]: "keeps (removeLoop fuel this sub prev p)"
proof (induction fuel arbitrary: prev p)
  case 0
  show ?case unfolding removeLoop.simps by (intro keeping)
next
  case (Suc fuel)
  show ?case unfolding removeLoop.simps by (intro keeping Suc.IH)
qed

lemma keeps_fuel: "(\<And>n. keeps (g n)) \<Longrightarrow> keeps (\<lambda>s. g (nextNode s) s)"
  unfolding keeps_def by blast

lemma keeps_removeSub [keeping]: "keeps (removeSubClass p c)"
  unfolding removeSubClass_def
  by (intro keeping keeps_fuel [where g = "\<lambda>n. removeLoop (Suc n) p c None _"])

lemma keeps_findOrMake [keeping]: "nul_free k \<Longrightarrow> keeps (findOrMake t k)"
  unfolding findOrMake_def by (intro keeping)

lemma keeps_insert [keeping]: "nul_free c \<Longrightarrow> nul_free p \<Longrightarrow> keeps (insertTree t c p)"
  unfolding insertTree_def by (intro keeping)

lemma keeps_insertExt [keeping]: "nul_free c \<Longrightarrow> nul_free p \<Longrightarrow> keeps (insertTreeExt t c p u tag)"
  unfolding insertTreeExt_def by (intro keeping)

lemma keeps_removeExt [keeping]: "nul_free c \<Longrightarrow> keeps (removeExt u c tag a)"
  unfolding removeExt_def by (intro keeping)

lemma keeps_remove [keeping]: "nul_free c \<Longrightarrow> keeps (removeTree t c u tag)"
  unfolding removeTree_def by (intro keeping)

lemma keeps_build [keeping]:
  "\<forall>(c, p) \<in> set cl. nul_free c \<and> nul_free p \<Longrightarrow> keeps (buildTree t cl)"
  "\<forall>(c, p) \<in> set cl. nul_free c \<and> nul_free p \<Longrightarrow> keeps (buildTreeExt t cl u tag)"
proof -
  assume "\<forall>(c, p) \<in> set cl. nul_free c \<and> nul_free p"
  then show "keeps (buildTree t cl)"
  proof (induction cl)
    case Nil
    show ?case unfolding buildTree.simps by (intro keeping)
  next
    case (Cons e cl)
    then have "nul_free (fst e)" "nul_free (snd e)" "keeps (buildTree t cl)" by (auto split: prod.splits)
    then show ?case unfolding buildTree.simps by (intro keeping)
  qed
next
  assume "\<forall>(c, p) \<in> set cl. nul_free c \<and> nul_free p"
  then show "keeps (buildTreeExt t cl u tag)"
  proof (induction cl)
    case Nil
    show ?case unfolding buildTreeExt.simps by (intro keeping)
  next
    case (Cons e cl)
    then have "nul_free (fst e)" "nul_free (snd e)" "keeps (buildTreeExt t cl u tag)" by (auto split: prod.splits)
    then show ?case unfolding buildTreeExt.simps by (intro keeping)
  qed
qed

lemma keeps_contains [keeping]: "keeps (containsClass t c)"
  unfolding containsClass_def by (intro keeping)

subsection \<open>Reachable managers\<close>

text \<open>Well-formed links, and a well-formed table of classes for every namespace.\<close>

definition managerOk :: "manager \<Rightarrow> bool" where
  "managerOk m \<longleftrightarrow> spacesOk m \<and> tablesOk (hier m) \<and> dom (spaces m) \<subseteq> dom (trees (hier m))"

text \<open>The operations on classes change nothing but the trees.\<close>

definition treesOnly :: "'a nprog \<Rightarrow> bool" where
  "treesOnly f \<longleftrightarrow> (\<forall>m x m'. f m = Done (x, m') \<longrightarrow>
     (\<exists>s. m' = m\<lparr>hier := s\<rparr> \<and> (tablesOk (hier m) \<longrightarrow> tablesOk s \<and> dom (trees s) = dom (trees (hier m)))))"

named_theorems only_trees "programs of the manager that change only the trees"

lemma treesOnly_same [only_trees]:
  "treesOnly (retF x)" "treesOnly (throwF e)" "treesOnly undefinedF" "treesOnly (getSpace a)" "treesOnly (lookupName k)"
proof -
  have id: "treesOnly f" if "\<And>m x m'. f m = Done (x, m') \<Longrightarrow> m' = m" for f :: "'x nprog"
    unfolding treesOnly_def
  proof (intro allI impI)
    fix m x m' assume "f m = Done (x, m')"
    then show "\<exists>s. m' = m\<lparr>hier := s\<rparr> \<and> (tablesOk (hier m) \<longrightarrow> tablesOk s \<and> dom (trees s) = dom (trees (hier m)))"
      using that by (intro exI [of _ "hier m"]) simp
  qed
  show "treesOnly (retF x)" "treesOnly (throwF e)" "treesOnly undefinedF" "treesOnly (getSpace a)" "treesOnly (lookupName k)"
    by (rule id; simp add: retF_def throwF_def undefinedF_def getSpace_def lookupName_def split: option.splits)+
qed

lemma treesOnly_bind [only_trees]:
  assumes "treesOnly m" and "\<And>x. treesOnly (f x)"
  shows "treesOnly (bindF m f)"
  unfolding treesOnly_def
proof (intro allI impI)
  fix s x s' assume "bindF m f s = Done (x, s')"
  then obtain y s1 where r: "m s = Done (y, s1)" "f y s1 = Done (x, s')" by (auto simp: bindF_Done)
  obtain h1 where h1: "s1 = s\<lparr>hier := h1\<rparr>" "tablesOk (hier s) \<longrightarrow> tablesOk h1 \<and> dom (trees h1) = dom (trees (hier s))"
    using r(1) assms(1) unfolding treesOnly_def by blast
  obtain h where h: "s' = s1\<lparr>hier := h\<rparr>" "tablesOk (hier s1) \<longrightarrow> tablesOk h \<and> dom (trees h) = dom (trees (hier s1))"
    using r(2) assms(2) unfolding treesOnly_def by blast
  show "\<exists>h. s' = s\<lparr>hier := h\<rparr> \<and> (tablesOk (hier s) \<longrightarrow> tablesOk h \<and> dom (trees h) = dom (trees (hier s)))"
    by (rule exI [of _ h]) (use h h1 in simp)
qed

lemma treesOnly_cases [only_trees]:
  "(P \<Longrightarrow> treesOnly f) \<Longrightarrow> (\<not> P \<Longrightarrow> treesOnly g) \<Longrightarrow> treesOnly (if P then f else g)"
  "treesOnly h1 \<Longrightarrow> (\<And>x. treesOnly (h2 x)) \<Longrightarrow> treesOnly (case r of None \<Rightarrow> h1 | Some x \<Rightarrow> h2 x)"
  by (auto split: option.split)

lemma treesOnly_tree [only_trees]: "keeps f \<Longrightarrow> treesOnly (onTree f)"
  unfolding treesOnly_def
proof (intro allI impI)
  fix m x m' assume f: "keeps f" "onTree f m = Done (x, m')"
  then obtain s where "f (hier m) = Done (x, s)" "m' = m\<lparr>hier := s\<rparr>" by (auto simp: onTree_def split: outcome.splits)
  with f(1) show "\<exists>s. m' = m\<lparr>hier := s\<rparr> \<and> (tablesOk (hier m) \<longrightarrow> tablesOk s \<and> dom (trees s) = dom (trees (hier m)))"
    unfolding keeps_def by metis
qed

lemma treesOnly_getNameSpace [only_trees]: "treesOnly (getNameSpace k)"
  unfolding getNameSpace_def by (intro only_trees)

lemma treesOnly_createClass: "nul_free c \<Longrightarrow> nul_free p \<Longrightarrow> treesOnly (createClass name c p)"
  unfolding createClass_def by (intro only_trees keeping)

lemma treesOnly_deleteClass: "nul_free c \<Longrightarrow> treesOnly (deleteClass name c)"
  unfolding deleteClass_def by (intro only_trees keeping)

lemma treesOnly_ok:
  assumes "treesOnly f" and "f m = Done (x, m')" and "managerOk m"
  shows "managerOk m'"
proof -
  obtain s where s: "m' = m\<lparr>hier := s\<rparr>" "tablesOk (hier m) \<longrightarrow> tablesOk s \<and> dom (trees s) = dom (trees (hier m))"
    using assms(1,2) unfolding treesOnly_def by blast
  show ?thesis using assms(3) s(2) unfolding managerOk_def s(1) by simp
qed


lemma newManager_ok: "managerOk newManager"
proof -
  have "spacesOk newManager"
    by (rule spacesOkI) (simp_all add: newManager_def noCaseKey.new_ok spaceAt_def noCaseKey.contents_new parents_def)
  then show ?thesis by (simp add: managerOk_def tablesOk_def newManager_def)
qed

text \<open>A new namespace.\<close>

lemma addSpace_ok:
  assumes ok: "managerOk m" and k: "nul_free name" and free: "spaceAt m name = None"
    and q: "\<forall>p. q = Some p \<longrightarrow> spaces m p \<noteq> None" and cl: "\<forall>(c, p) \<in> set cl. nul_free c \<and> nul_free p"
    and run: "bindF (newSpace name sh up q rem cl) (\<lambda>a. bindF (insertName name a) (\<lambda>_. retF ())) m = Done ((), m')"
  shows "managerOk m' \<and> registry m' = (registry m)(toLowerUnits name \<mapsto> (parentName m q, sh, up, rem))"
proof -
  let ?N = "nextSpace m"
  let ?h = "(hier m)\<lparr>trees := (trees (hier m))(?N \<mapsto> emptyTree)\<rparr>"
  have sp: "spacesOk m" using ok by (simp add: managerOk_def)
  note spec = addSpace_spec [OF sp k free q, where up = up and cl = cl and sh = sh and rem = rem]
  obtain x s where s: "enterClasses ?N up q cl ?h = Done (x, s)"
    using spec run by (cases "enterClasses ?N up q cl ?h") auto
  have m': "spacesOk m'" "registry m' = (registry m)(toLowerUnits name \<mapsto> (parentName m q, sh, up, rem))" "hier m' = s"
    "dom (spaces m') = insert ?N (dom (spaces m))"
    using spec run s by auto
  have "keeps (enterClasses ?N up q cl)" unfolding enterClasses_def using cl by (intro keeping)
  moreover have "tablesOk ?h" using ok tables_insert [OF _ emptyTable_ok] by (simp add: managerOk_def)
  ultimately have "tablesOk s" "dom (trees s) = dom (trees ?h)" using s unfolding keeps_def by blast+
  then show ?thesis using m' ok by (auto simp: managerOk_def)
qed

lemma createNameSpace_Done:
  assumes ok: "spacesOk m" and k: "nul_free name" "nul_free parent" and run: "createNameSpace name sh up parent rem m = Done ((), m')"
  obtains q where "spaceAt m name = None" and "\<forall>p. q = Some p \<longrightarrow> spaces m p \<noteq> None"
    and "bindF (newSpace name sh up q rem []) (\<lambda>a. bindF (insertName name a) (\<lambda>_. retF ())) m = Done ((), m')"
proof -
  have e: "nameSpaceExists name m = Done (spaceAt m name \<noteq> None, m)"
    using lookupName_eq [OF ok k(1)] by (simp add: nameSpaceExists_def bindF_def retF_def)
  have free: "spaceAt m name = None"
    using run e by (cases "spaceAt m name") (simp_all add: createNameSpace_def bindF_def throwF_def)
  then have e': "nameSpaceExists name m = Done (False, m)" using e by simp
  show thesis
  proof (cases "parent = []")
    case True
    with run free e' that [of None] show thesis by (simp add: createNameSpace_def bindF_def retF_def)
  next
    case False
    note look = lookupName_eq [OF ok k(2)]
    show thesis
    proof (cases "spaceAt m parent")
      case None
      then show thesis using run False e' look by (simp add: createNameSpace_def bindF_def throwF_def)
    next
      case (Some p)
      obtain pn where "spaces m p = Some pn" using space_at [OF ok k(2) Some] by blast
      with run False e' look Some free that [of "Some p"] show thesis
        unfolding createNameSpace_def bindF_Done_step [of "nameSpaceExists name", OF e']
        by (cases "nsShareable pn"; cases "nsParent pn"; cases up)
           (simp_all add: bindF_Done retF_def throwF_def getSpace_def split: option.splits)
    qed
  qed
qed

text \<open>
  The steps of a repository: loading a namespace at start-up, when its parent has been loaded and its
  name is new; the operations on namespaces, deletion when the repository has found it empty and without
  dependents, and renaming to a name that is free; creating and deleting classes after their checks.
\<close>

inductive repoStep :: "manager \<Rightarrow> manager \<Rightarrow> bool" where
  load: "nul_free name \<Longrightarrow> nul_free parent \<Longrightarrow> \<forall>(c, p) \<in> set cl. nul_free c \<and> nul_free p \<Longrightarrow>
    nameSpaceExists name m = Done (False, m) \<Longrightarrow> parent = [] \<or> nameSpaceExists parent m = Done (True, m) \<Longrightarrow>
    initializeNameSpace name sh up parent rem cl m = Done ((), m') \<Longrightarrow> repoStep m m'"
| create: "nul_free name \<Longrightarrow> nul_free parent \<Longrightarrow> createNameSpace name sh up parent rem m = Done ((), m') \<Longrightarrow> repoStep m m'"
| modify: "nul_free name \<Longrightarrow> modifyNameSpace name sh up m = Done ((), m') \<Longrightarrow> repoStep m m'"
| rename: "nul_free name \<Longrightarrow> nul_free new \<Longrightarrow> nameSpaceExists new m = Done (False, m) \<Longrightarrow>
    modifyNameSpaceName name new m = Done ((), m') \<Longrightarrow> repoStep m m'"
| delete: "nul_free name \<Longrightarrow> hasDependentNameSpace name m = Done (None, m) \<Longrightarrow>
    \<forall>a. spaceAt m name = Some a \<longrightarrow> emptyTreeAt m a \<Longrightarrow>
    deleteNameSpace name m = Done ((), m') \<Longrightarrow> repoStep m m'"
| createClass: "nul_free c \<Longrightarrow> nul_free p \<Longrightarrow> checkCreateClass name c p m = Done ((), m) \<Longrightarrow>
    createClass name c p m = Done ((), m') \<Longrightarrow> repoStep m m'"
| deleteClass: "nul_free c \<Longrightarrow> checkDeleteClass name c m = Done ((), m) \<Longrightarrow>
    deleteClass name c m = Done ((), m') \<Longrightarrow> repoStep m m'"

inductive_cases repoStepE: "repoStep m m'"

lemma exists_eq: "spacesOk m \<Longrightarrow> nul_free k \<Longrightarrow> nameSpaceExists k m = Done (spaceAt m k \<noteq> None, m)"
  using lookupName_eq by (simp add: nameSpaceExists_def bindF_def retF_def)

lemma initialize_Done:
  assumes ok: "spacesOk m" and k: "nul_free name" "nul_free parent"
    and there: "spaceAt m name = None" "parent = [] \<or> spaceAt m parent \<noteq> None"
  shows "\<exists>q. (\<forall>p. q = Some p \<longrightarrow> spaces m p \<noteq> None) \<and> (parent = [] \<longrightarrow> q = None) \<and> (parent \<noteq> [] \<longrightarrow> q = spaceAt m parent) \<and>
    initializeNameSpace name sh up parent rem cl m =
      bindF (newSpace name sh up q rem cl) (\<lambda>a. bindF (insertName name a) (\<lambda>_. retF ())) m"
proof (cases "parent = []")
  case True
  then show ?thesis by (intro exI [of _ None]) (simp add: initializeNameSpace_def bindF_def [of "retF _"] retF_def)
next
  case False
  then obtain p where p: "spaceAt m parent = Some p" using there by auto
  obtain pn where pn: "spaces m p = Some pn" using space_at [OF ok k(2) p] by blast
  then show ?thesis using False lookupName_eq [OF ok k(2)] p
    by (intro exI [of _ "Some p"]) (simp add: initializeNameSpace_def bindF_def [of "lookupName parent"])
qed

lemma modify_run:
  assumes "spacesOk m" and "nul_free name" and "spaceAt m name = Some a" and "spaces m a = Some n"
  shows "modifyNameSpace name sh up m = Done ((), m\<lparr>spaces := (spaces m)(a \<mapsto> n\<lparr>nsUpdatesAllowed := up, nsShareable := sh\<rparr>)\<rparr>)"
  using getNameSpace_eq [OF assms(1,2)] assms(3,4) by (simp add: modifyNameSpace_def bindF_def getSpace_def putSpace_def)

lemma step_ok:
  assumes "repoStep m m'" and ok: "managerOk m"
  shows "managerOk m'"
proof -
  have sp: "spacesOk m" using ok by (simp add: managerOk_def)
  have known: "\<exists>a n. spaceAt m name = Some a \<and> spaces m a = Some n" if "getNameSpace name m = Done r" "nul_free name" for name r
    using getNameSpace_eq [OF sp that(2)] that(1) space_at [OF sp that(2)] by (auto split: option.splits)
  from assms(1) show ?thesis
  proof cases
    case (load name parent cl sh up rem)
    have free: "spaceAt m name = None" "parent = [] \<or> spaceAt m parent \<noteq> None"
      using load(4,5) exists_eq [OF sp load(1)] exists_eq [OF sp load(2)] by auto
    obtain q where q: "\<forall>p. q = Some p \<longrightarrow> spaces m p \<noteq> None" "initializeNameSpace name sh up parent rem cl m =
      bindF (newSpace name sh up q rem cl) (\<lambda>a. bindF (insertName name a) (\<lambda>_. retF ())) m"
      using initialize_Done [OF sp load(1,2) free, of sh up rem cl] by blast
    show ?thesis using addSpace_ok [OF ok load(1) free(1) q(1) load(3)] load(6) q(2) by metis
  next
    case (create name parent sh up rem)
    obtain q where "spaceAt m name = None" "\<forall>p. q = Some p \<longrightarrow> spaces m p \<noteq> None"
      "bindF (newSpace name sh up q rem []) (\<lambda>a. bindF (insertName name a) (\<lambda>_. retF ())) m = Done ((), m')"
      using createNameSpace_Done [OF sp create] by blast
    from addSpace_ok [OF ok create(1) this(1,2) _ this(3)] show ?thesis by simp
  next
    case (modify name sh up)
    then have "\<exists>r. getNameSpace name m = Done r" by (auto simp: modifyNameSpace_def bindF_Done)
    then obtain a n where a: "spaceAt m name = Some a" "spaces m a = Some n" using known modify(1) by blast
    have "spacesOk m'" using modifyNameSpace_spec [OF sp modify(1), of sh up] modify(2) a
      by (auto simp: registry_at [OF sp modify(1)])
    then show ?thesis using modify_run [OF sp modify(1) a, of sh up] modify(2) a ok by (auto simp: managerOk_def)
  next
    case (rename name new)
    then have "\<exists>r. getNameSpace name m = Done r" by (auto simp: modifyNameSpaceName_def bindF_Done)
    then obtain a n where a: "spaceAt m name = Some a" "spaces m a = Some n" using known rename(1) by blast
    have free: "registry m (toLowerUnits new) = None"
      using rename(3) exists_eq [OF sp rename(2)] registry_None [OF sp rename(2)] by simp
    have "registry m (toLowerUnits name) \<noteq> None" using registry_None [OF sp rename(1)] a(1) by simp
    then have "spacesOk m'" using modifyNameSpaceName_spec [OF sp rename(1,2)] free rename(4) by auto
    moreover obtain m2 where "modifyNameSpaceName name new m = Done ((), m2)" "hier m2 = hier m" "spaces m2 = (spaces m)(a \<mapsto> n\<lparr>nsName := new\<rparr>)"
      using rename_run [OF sp rename(1,2) a] by blast
    ultimately show ?thesis using rename(4) a ok by (auto simp: managerOk_def)
  next
    case (delete name)
    then have "\<exists>r. getNameSpace name m = Done r" by (auto simp: deleteNameSpace_def bindF_Done)
    then obtain a n where a: "spaceAt m name = Some a" "spaces m a = Some n" using known delete(1) by blast
    have leaf: "\<forall>b. (b, a) \<notin> parents m" by (rule hasDependent_spec(2) [OF sp delete(1,2) a(1)])
    have tree: "emptyTreeAt m a" using delete(3) a(1) by blast
    have "spacesOk m'" using deleteNameSpace_spec [OF sp delete(1) a(1) leaf tree] delete(4) by auto
    moreover obtain mw tb m2 where "deleteNameSpace name m = Done ((), m2)" "spaces m2 = (spaces mw)(a := None)"
      "nextSpace m2 = nextSpace m" "hier m2 = (hier m)\<lparr>trees := (trees (hier m))(a := None)\<rparr>" "spaceTable m2 = tb" "treeTable tb"
      "\<forall>k'. nul_free k' \<longrightarrow> contents equalNoCaseFunc tb k' = (if toLowerUnits k' = toLowerUnits name then None else spaceAt m k')"
      "\<forall>b k. spaces m b = Some k \<longrightarrow> (\<exists>k'. spaces mw b = Some k' \<and> core k' = core k)"
      "\<forall>b. spaces m b = None \<longrightarrow> spaces mw b = None"
      "\<forall>c k'. spaces mw c = Some k' \<longrightarrow> (\<exists>xs. deps mw (nsDependent k') xs \<and> distinct xs \<and> set xs = dependents m c - {a})"
      using delete_run [OF sp delete(1) a tree] by (elim exE conjE)
    ultimately have m': "spacesOk m'" "spaces m' = (spaces mw)(a := None)"
      "hier m' = (hier m)\<lparr>trees := (trees (hier m))(a := None)\<rparr>" "\<forall>b. spaces m b = None \<longrightarrow> spaces mw b = None"
      using delete(4) by simp_all
    have "tablesOk (hier m')" using ok unfolding managerOk_def tablesOk_def m'(3) by simp
    moreover have "dom (spaces m') \<subseteq> dom (trees (hier m'))"
    proof
      fix b assume "b \<in> dom (spaces m')"
      then have "b \<noteq> a" "b \<in> dom (spaces m)" using m'(4) unfolding m'(2) by (auto split: if_splits)
      then show "b \<in> dom (trees (hier m'))" using ok unfolding managerOk_def m'(3) by auto
    qed
    ultimately show ?thesis using m'(1) by (simp add: managerOk_def)
  next
    case (createClass c p name)
    then show ?thesis using treesOnly_ok [OF treesOnly_createClass] ok by blast
  next
    case (deleteClass c name)
    then show ?thesis using treesOnly_ok [OF treesOnly_deleteClass] ok by blast
  qed
qed


subsection \<open>Classes of namespaces\<close>

definition hasClass :: "manager \<Rightarrow> nat \<Rightarrow> pstr \<Rightarrow> bool" where
  "hasClass m a c \<longleftrightarrow> (\<exists>tb. trees (hier m) a = Some tb \<and> contents equalNoCaseFunc tb c \<noteq> None)"

lemma managerOk_space: "managerOk m \<Longrightarrow> spacesOk m"
  by (simp add: managerOk_def)

lemma contains_run:
  assumes ok: "managerOk m" and a: "spaces m a = Some n" and c: "nul_free c"
  shows "onTree (containsClass a c) m = Done (hasClass m a c, m)"
proof -
  obtain tb where tb: "trees (hier m) a = Some tb" "treeTable tb" using ok a unfolding managerOk_def tablesOk_def by blast
  then have "containsClass a c (hier m) = Done (hasClass m a c, hier m)"
    using noCaseKey.lookup_exact [OF tb(2) c]
    by (simp add: containsClass_def lookupClass_def bindF_def getTree_def retF_def hasClass_def)
  then show ?thesis by (simp add: onTree_def)
qed

lemma collisionLoop_run:
  assumes ok: "managerOk m" and c: "nul_free c" and "deps m d xs" and "length xs < fuel"
  shows "collisionLoop fuel d c m =
    (if \<exists>b \<in> set xs. (\<exists>n. spaces m b = Some n \<and> nsUpdatesAllowed n) \<and> hasClass m b c then Throws (AlreadyExists c) else Done ((), m))"
  using assms(3,4)
proof (induction fuel arbitrary: d xs)
  case (Suc fuel)
  show ?case
  proof (cases xs)
    case Nil
    with Suc.prems show ?thesis by (simp add: retF_def)
  next
    case (Cons b ys)
    with Suc.prems(1) obtain n where n: "d = Some b" "spaces m b = Some n" "deps m (nsNextDependent n) ys" by auto
    have IH: "collisionLoop fuel (nsNextDependent n) c m =
      (if \<exists>b \<in> set ys. (\<exists>n. spaces m b = Some n \<and> nsUpdatesAllowed n) \<and> hasClass m b c then Throws (AlreadyExists c) else Done ((), m))"
      using Suc.IH [OF n(3)] Suc.prems(2) Cons by simp
    have "(if nsUpdatesAllowed n then onTree (containsClass b c) else retF False) m = Done (nsUpdatesAllowed n \<and> hasClass m b c, m)"
      using contains_run [OF ok n(2) c] by (simp add: retF_def)
    then have "collisionLoop (Suc fuel) d c m =
      (if nsUpdatesAllowed n \<and> hasClass m b c then Throws (AlreadyExists c) else collisionLoop fuel (nsNextDependent n) c m)"
      using n(1,2) by (simp add: bindF_def getSpace_def throwF_def)
    then show ?thesis unfolding IH Cons using n(2) by auto
  qed
qed simp

text \<open>Where a class of the same name would collide: in the namespace, in its parent, or in a dependent that
  may define classes.\<close>

definition collides :: "manager \<Rightarrow> nat \<Rightarrow> nspace \<Rightarrow> pstr \<Rightarrow> bool" where
  "collides m a n c \<longleftrightarrow> hasClass m a c \<or>
    (case nsParent n of
       Some p \<Rightarrow> hasClass m p c
     | None \<Rightarrow> \<exists>b \<in> dependents m a. (\<exists>j. spaces m b = Some j \<and> nsUpdatesAllowed j) \<and> hasClass m b c)"

lemma checkCreate_run:
  assumes ok: "managerOk m" and k: "nul_free name" "nul_free c" "nul_free sc"
  shows "checkCreateClass name c sc m =
    (case spaceAt m name of
       None \<Rightarrow> Throws (InvalidNamespace name)
     | Some a \<Rightarrow> (case spaces m a of
         None \<Rightarrow> Undefined
       | Some n \<Rightarrow>
           if \<not> nsUpdatesAllowed n then Throws (AccessDenied (units ''R/O Namespace '' @ name))
           else if collides m a n c then Throws (AlreadyExists c)
           else if sc \<noteq> [] \<and> \<not> hasClass m a sc \<and> \<not> (\<exists>p. nsParent n = Some p \<and> hasClass m p sc)
             then Throws (InvalidSuperclass sc)
           else Done ((), m)))"
proof (cases "spaceAt m name")
  case None
  then show ?thesis using getNameSpace_eq [OF managerOk_space [OF ok] k(1)] by (simp add: checkCreateClass_def bindF_def)
next
  case (Some a)
  have sp: "spacesOk m" using managerOk_space [OF ok] .
  obtain n where n: "spaces m a = Some n" using space_at [OF sp k(1) Some] by blast
  obtain xs where xs: "deps m (nsDependent n) xs" "distinct xs" "set xs = dependents m a" using space_deps [OF sp n] by blast
  have "length xs < Suc (nextSpace m)" using deps_length [OF sp xs(2,3)] by simp
  note loop = collisionLoop_run [OF ok k(2) xs(1) this, unfolded xs(3)]
  note here = contains_run [OF ok n]
  have get: "getNameSpace name m = Done (a, m)" using getNameSpace_eq [OF sp k(1)] Some by simp
  show ?thesis
  proof (cases "nsParent n")
    case None
    define coll where "coll \<longleftrightarrow> (\<exists>b \<in> dependents m a. (\<exists>n. spaces m b = Some n \<and> nsUpdatesAllowed n) \<and> hasClass m b c)"
    have cl: "collides m a n c \<longleftrightarrow> hasClass m a c \<or> coll" using None by (simp add: collides_def coll_def)
    show ?thesis using get Some n here [OF k(2)] here [OF k(3)] loop [folded coll_def] None
      by (cases coll) (simp_all add: cl checkCreateClass_def bindF_def getSpace_def throwF_def retF_def del: collisionLoop.simps)
  next
    case p: (Some p)
    obtain pn where pn: "spaces m p = Some pn" using space_parent [OF sp, of a p] n p by (auto simp: parents_def)
    show ?thesis using get Some n here [OF k(2)] here [OF k(3)] p contains_run [OF ok pn k(2)] contains_run [OF ok pn k(3)]
      by (simp add: checkCreateClass_def bindF_def getSpace_def throwF_def retF_def collides_def)
  qed
qed

text \<open>Creating a class in a primary namespace is insertion in its hierarchy.\<close>

lemma hasClass_view:
  assumes "treeOk (hier m) a" and "nul_free c"
  shows "hasClass m a c \<longleftrightarrow> view (hier m) a (toLowerUnits c) \<noteq> None"
  using view_None [OF assms] tree_table [OF assms(1)] by (auto simp: hasClass_def classAt_def)

lemma parentH_in:
  assumes ok: "treeOk s t" and "(j, q) \<in> (parentH (view s t))\<^sup>*" and "view s t j \<noteq> None"
  shows "view s t q \<noteq> None"
  using assms(2)
proof (cases rule: rtranclE)
  case base
  then show ?thesis using assms(3) by simp
next
  case (step i)
  obtain a p where a: "(a, p) \<in> supers s t" "q = toLowerUnits (nameAt s p)" using parent_back [OF ok step(2)] by blast
  then have "p \<in> members s t" using supers_members [OF ok] by blast
  then show ?thesis using member_view [OF ok, of p] a(2) by (metis option.distinct(1))
qed

lemma createClass_primary:
  assumes ok: "managerOk m" and k: "nul_free name" "nul_free c" "nul_free sc"
    and a: "spaceAt m name = Some a" "spaces m a = Some n" "nsParent n = None" and tree: "treeOk (hier m) a"
    and check: "checkCreateClass name c sc m = Done ((), m)"
  shows "\<exists>m'. createClass name c sc m = Done ((), m') \<and> spaces m' = spaces m \<and> managerOk m' \<and> treeOk (hier m') a \<and>
    view (hier m') a = (view (hier m) a)(toLowerUnits c \<mapsto> (False, if sc = [] then None else Some (toLowerUnits sc)))"
proof -
  have chk: "\<not> hasClass m a c" "sc \<noteq> [] \<longrightarrow> hasClass m a sc"
    using check a unfolding checkCreate_run [OF ok k] by (auto simp: collides_def split: if_splits)
  have v: "view (hier m) a (toLowerUnits c) = None" using chk(1) hasClass_view [OF tree k(2)] by blast
  have vs: "sc \<noteq> [] \<Longrightarrow> view (hier m) a (toLowerUnits sc) \<noteq> None" using chk(2) hasClass_view [OF tree k(3)] by simp
  have path: "(toLowerUnits sc, toLowerUnits c) \<notin> (parentH (view (hier m) a))\<^sup>*" if "sc \<noteq> []"
    using parentH_in [OF tree _ vs [OF that]] v by blast
  have no: "view (hier m) a (toLowerUnits c) \<noteq> Some (b, Some q)" for b q using v by simp
  obtain s' where s': "insertTree a c sc (hier m) = Done ((), s')" "treeOk s' a" "view s' a = insertH c sc (view (hier m) a)"
    using insertTree_spec [OF tree k(2,3) no path] by blast
  have "insertH c sc (view (hier m) a) =
      (view (hier m) a)(toLowerUnits c \<mapsto> (False, if sc = [] then None else Some (toLowerUnits sc)))"
    using v vs by (cases "sc = []") (auto simp: insertH_def ensureH_def)
  moreover have run: "createClass name c sc m = Done ((), m\<lparr>hier := s'\<rparr>)"
    using getNameSpace_eq [OF managerOk_space [OF ok] k(1)] a s'(1)
    by (simp add: createClass_def bindF_def getSpace_def onTree_def)
  moreover have "managerOk (m\<lparr>hier := s'\<rparr>)" by (rule treesOnly_ok [OF treesOnly_createClass [OF k(2,3)] run ok])
  ultimately show ?thesis using s' by (intro exI [of _ "m\<lparr>hier := s'\<rparr>"]) simp
qed

text \<open>Without a namespace above it that allows updates, a read-only one has no schema to look in.\<close>

lemma readonly_undefined:
  assumes ok: "spacesOk m" and k: "nul_free name" and r: "registry m (toLowerUnits name) = Some (None, sh, False, rem)"
  shows "getSchemaNameSpaceNames name m = Undefined" and "validateClass name c m = Undefined" and "getSuperClassNames name c m = Undefined"
proof -
  obtain a where a: "spaceAt m name = Some a" using r registry_None [OF ok k] by (cases "spaceAt m name") auto
  obtain n where n: "spaces m a = Some n" using space_at [OF ok k a] by blast
  have f: "nsParent n = None" "\<not> nsUpdatesAllowed n" using r a n by (auto simp: registry_at [OF ok k] parentName_def)
  have get: "getNameSpace name m = Done (a, m)" using getNameSpace_eq [OF ok k] a by simp
  have "rwParent a m = Undefined" using n f by (simp add: rwParent_def bindF_def getSpace_def undefinedF_def)
  then show "getSchemaNameSpaceNames name m = Undefined" "validateClass name c m = Undefined" "getSuperClassNames name c m = Undefined"
    using get n f by (simp_all add: getSchemaNameSpaceNames_def validateClass_def getSuperClassNames_def rwSpace_def bindF_def getSpace_def)
qed

text \<open>The names above a class are reached from it.\<close>

lemma chainH_path:
  "chainH h q l \<Longrightarrow> h k = Some (b, q) \<Longrightarrow> n \<in> set l \<Longrightarrow> (k, toLowerUnits n) \<in> (parentH h)\<^sup>+"
proof (induction l arbitrary: q k b)
  case (Cons x l)
  then obtain j where q: "q = Some j" by (cases q) auto
  with Cons.prems obtain b' q' where j: "toLowerUnits x = j" "h j = Some (b', q')" "chainH h q' l" by auto
  have kj: "(k, j) \<in> parentH h" using Cons.prems(2) q by (auto simp: parentH_def)
  show ?case
  proof (cases "n = x")
    case True
    then show ?thesis using kj j(1) by auto
  next
    case False
    then have "(j, toLowerUnits n) \<in> (parentH h)\<^sup>+" using Cons.IH [OF j(3,2)] Cons.prems(3) by simp
    then show ?thesis using kj by (meson trancl_into_trancl2)
  qed
qed simp

lemma parentH_acyclic:
  assumes ok: "treeOk s t"
  shows "(k, k) \<notin> (parentH (view s t))\<^sup>+"
proof
  assume "(k, k) \<in> (parentH (view s t))\<^sup>+"
  then obtain a p where a: "(a, p) \<in> (supers s t)\<^sup>+" "toLowerUnits (nameAt s a) = toLowerUnits (nameAt s p)"
    unfolding parent_trancl [OF ok] by auto
  then have "a = p" using name_inj [OF ok] supers_members [OF ok a(1)] by blast
  then show False using a(1) tree_acyclic [OF ok] by (auto simp: acyclic_def)
qed

lemma self_superclass:
  assumes ok: "spacesOk m" and k: "nul_free name" "nul_free c" "c \<noteq> []" and a: "spaceAt m name = Some a"
    and tree: "treeOk (hier m) a" and v: "view (hier m) a (toLowerUnits c) = Some (b, q)"
  shows "\<exists>old. checkModifyClass name c c True m = Done (old, m)"
proof -
  have get: "getNameSpace name m = Done (a, m)" using getNameSpace_eq [OF ok k(1)] a by simp
  obtain r where r: "treeSuperClass a c (hier m) = Done (r, hier m)" "map_option toLowerUnits r = Some (case q of None \<Rightarrow> [] | Some p \<Rightarrow> p)"
    using superClass_spec [OF tree k(2)] v by auto
  then obtain old where old: "r = Some old" by auto
  obtain l where l: "treeSuperClassNames a c (hier m) = Done (Some l, hier m)" "chainH (view (hier m) a) q l"
    using superClassNames_spec [OF tree k(2)] v by auto
  have "\<not> cimNameEqual x c" if "x \<in> set l" for x
  proof
    assume "cimNameEqual x c"
    then have "toLowerUnits x = toLowerUnits c" by (simp add: cimNameEqual_def equalNoCase_eq toLowerUnits_eq)
    then show False using chainH_path [OF l(2) v that] parentH_acyclic [OF tree] by metis
  qed
  then have no: "\<not> (\<exists>i < length l. cimNameEqual (l ! i) c)" by auto
  have "checkModifyClass name c c True m =
    (if \<exists>i < length l. cimNameEqual (l ! i) c then throwF (InvalidSuperclass c) else retF old) m"
    using get r(1) old l(1) k(3) by (simp add: checkModifyClass_def bindF_def onTree_def)
  then show ?thesis unfolding if_not_P [OF no] by (simp add: retF_def)
qed


subsection \<open>Properties\<close>


text \<open>A manager with one namespace.\<close>

lemma root_names:
  shows "nul_free (units ''root'')" and "units ''root'' \<noteq> []" and "nul_free (units ''CIM_A'')" and "units ''CIM_A'' \<noteq> []"
  by (simp_all add: units_def nul_free_def)

lemma registry_new: "registry newManager = (\<lambda>_. None)"
  by (simp add: registry_def spaceAt_def newManager_def noCaseKey.contents_new fun_eq_iff)

lemma root_manager:
  obtains m where "createNameSpace (units ''root'') True up [] [] newManager = Done ((), m)" and "managerOk m"
    and "registry m = (\<lambda>_. None)(toLowerUnits (units ''root'') \<mapsto> (None, True, up, []))"
proof -
  note ok = managerOk_space [OF newManager_ok]
  have "nul_free ([] :: pstr)" by simp
  from createNameSpace_spec [OF ok root_names(1) this, of True up "[]"] obtain m where
    m: "createNameSpace (units ''root'') True up [] [] newManager = Done ((), m)"
      "registry m = (registry newManager)(toLowerUnits (units ''root'') \<mapsto> (None, True, up, []))"
    by (auto simp: registry_new)
  have "repoStep newManager m" by (rule repoStep.create [OF root_names(1) _ m(1)]) simp
  then have "managerOk m" using step_ok newManager_ok by blast
  with m that show thesis unfolding registry_new by blast
qed


text \<open>
  C9: \<open>createNameSpace\<close>, exactly. It fails for a name that is taken up to case, for a parent that is not
  there, for a parent that is not shareable, and for a namespace with updates below a parent that has a
  parent itself; else it adds the one entry to the registry and changes no other.
\<close>

theorem create_namespace_exact:
  assumes "managerOk m" and "nul_free name" and "nul_free parent"
  shows "case registry m (toLowerUnits name) of
      Some _ \<Rightarrow> createNameSpace name sh up parent rem m = Throws (AlreadyExists name)
    | None \<Rightarrow>
        if parent = [] then
          (\<exists>m'. createNameSpace name sh up parent rem m = Done ((), m') \<and> spacesOk m' \<and>
            registry m' = (registry m)(toLowerUnits name \<mapsto> (None, sh, up, rem)))
        else (case registry m (toLowerUnits parent) of
            None \<Rightarrow> createNameSpace name sh up parent rem m = Throws (Failed (units ''Parent namespace '' @ parent @ units '' not found''))
          | Some (q, psh, pup, prem) \<Rightarrow>
              if \<not> psh then
                createNameSpace name sh up parent rem m = Throws (Failed (units ''Parent namespace '' @ parent @ units '' not shareable''))
              else if up \<and> q \<noteq> None then
                createNameSpace name sh up parent rem m =
                  Throws (Failed (units ''Parent namespace '' @ parent @ units '' not a primary namespace''))
              else
                (\<exists>m'. createNameSpace name sh up parent rem m = Done ((), m') \<and> spacesOk m' \<and>
                  registry m' = (registry m)(toLowerUnits name \<mapsto> (Some (toLowerUnits parent), sh, up, rem))))"
  by (rule createNameSpace_spec [OF managerOk_space [OF assms(1)] assms(2,3)])

theorem create_namespace_exact_witness:
  "\<exists>m. createNameSpace (units ''root'') True True [] [] newManager = Done ((), m) \<and>
    createNameSpace (units ''root'') True True [] [] m = Throws (AlreadyExists (units ''root''))"
proof -
  obtain m where m: "createNameSpace (units ''root'') True True [] [] newManager = Done ((), m)" "managerOk m"
    "registry m = (\<lambda>_. None)(toLowerUnits (units ''root'') \<mapsto> (None, True, True, []))" by (rule root_manager)
  have "nul_free ([] :: pstr)" by simp
  from create_namespace_exact [OF m(2) root_names(1) this, of True True "[]"] m(1,3) show ?thesis by auto
qed





text \<open>
  C10: \<open>checkCreateClass\<close>, exactly. It fails for an unknown namespace, for one that allows no updates, for a
  class that is in the namespace already, or in its parent, or for a primary namespace in any dependent
  that allows updates, and for a superclass that is neither in the namespace nor in its parent. So when
  it passes, the name of the class is new in every one of them.
\<close>

theorem check_create_class_exact:
  assumes "managerOk m" and "nul_free name" and "nul_free c" and "nul_free sc"
  shows "checkCreateClass name c sc m =
    (case spaceAt m name of
       None \<Rightarrow> Throws (InvalidNamespace name)
     | Some a \<Rightarrow> (case spaces m a of
         None \<Rightarrow> Undefined
       | Some n \<Rightarrow>
           if \<not> nsUpdatesAllowed n then Throws (AccessDenied (units ''R/O Namespace '' @ name))
           else if collides m a n c then Throws (AlreadyExists c)
           else if sc \<noteq> [] \<and> \<not> hasClass m a sc \<and> \<not> (\<exists>p. nsParent n = Some p \<and> hasClass m p sc)
             then Throws (InvalidSuperclass sc)
           else Done ((), m)))"
  by (rule checkCreate_run [OF assms])

theorem check_create_class_exact_witness:
  "checkCreateClass (units ''root'') (units ''CIM_A'') [] newManager = Throws (InvalidNamespace (units ''root''))"
proof -
  have "spaceAt newManager (units ''root'') = None" by (simp add: spaceAt_def newManager_def noCaseKey.contents_new)
  moreover have "nul_free ([] :: pstr)" by simp
  ultimately show ?thesis using check_create_class_exact [OF newManager_ok root_names(1,3)] by simp
qed


lemma root_tree:
  obtains m a n where "createNameSpace (units ''root'') True True [] [] newManager = Done ((), m)" and "managerOk m"
    and "spaceAt m (units ''root'') = Some a" and "spaces m a = Some n" and "nsParent n = None" and "nsUpdatesAllowed n"
    and "treeOk (hier m) a" and "view (hier m) a = hierOf []" and "dependents m a = {}"
proof -
  have sp: "spacesOk newManager" using managerOk_space [OF newManager_ok] .
  have free: "spaceAt newManager (units ''root'') = None" by (simp add: spaceAt_def newManager_def noCaseKey.contents_new)
  obtain m where m: "createNameSpace (units ''root'') True True [] [] newManager = Done ((), m)" "managerOk m"
    "registry m = (\<lambda>_. None)(toLowerUnits (units ''root'') \<mapsto> (None, True, True, []))" by (rule root_manager)
  have "nul_free ([] :: pstr)" by simp
  from createNameSpace_Done [OF sp root_names(1) this m(1)] obtain q where
    q: "\<forall>p. q = Some p \<longrightarrow> spaces newManager p \<noteq> None"
      "bindF (newSpace (units ''root'') True True q [] []) (\<lambda>a. bindF (insertName (units ''root'') a) (\<lambda>_. retF ())) newManager = Done ((), m)"
    by blast
  have "q = None" using q(1) by (cases q) (simp_all add: newManager_def)
  then have h: "hier m = (hier newManager)\<lparr>trees := (trees (hier newManager))(0 \<mapsto> emptyTree)\<rparr>" "dom (spaces m) = {0}"
    using addSpace_spec [OF sp root_names(1) free q(1), where up = True and cl = "[]" and sh = True and rem = "[]"] q(2)
    by (auto simp: enterClasses_def retF_def newManager_def)
  have sm: "spacesOk m" using managerOk_space [OF m(2)] .
  obtain a where a: "spaceAt m (units ''root'') = Some a"
    using registry_None [OF sm root_names(1)] m(3) by (cases "spaceAt m (units ''root'')") auto
  obtain n where n: "spaces m a = Some n" using space_at [OF sm root_names(1) a] by blast
  then have "a = 0" using h(2) by auto
  have nf: "nsParent n = None" "nsUpdatesAllowed n" using m(3) a n registry_at [OF sm root_names(1)] by (auto simp: parentName_def)
  have "trees (hier m) a = Some emptyTree" "\<forall>b. nodes (hier m) b \<noteq> None \<longrightarrow> b < nextNode (hier m)"
    using \<open>a = 0\<close> by (simp_all add: h(1) newManager_def)
  note t = emptyTree_ok [OF this]
  have "(b, p) \<notin> parents m" for b p
  proof
    assume "(b, p) \<in> parents m"
    then obtain j where j: "spaces m b = Some j" "nsParent j = Some p" by (auto simp: parents_def)
    then have "b = a" using h(2) \<open>a = 0\<close> by auto
    then show False using j n nf by simp
  qed
  then have "parents m = {}" by auto
  then have "dependents m a = {}" by (simp add: dependents_def)
  then show thesis using that [OF m(1,2) a n nf t] by blast
qed


text \<open>
  C25: what the guards miss. For a namespace without updates and without a parent, which \<open>createNameSpace\<close>
  allows, \<open>getSchemaNameSpaceNames\<close>, \<open>validateClass\<close> and \<open>getSuperClassNames\<close> follow a null pointer. Renaming
  to the name of another namespace drops the renamed one from the table. \<open>modifyNameSpace\<close> allows updates
  for a namespace below one that has a parent itself, which \<open>createNameSpace\<close> refuses and the rest relies
  on. And \<open>checkModifyClass\<close> with non-leaf modification accepts a class as its own superclass.
\<close>

theorem namespace_defects:
  assumes "managerOk m" and "nul_free name" and "nul_free new" and "nul_free c" and "c \<noteq> []"
  shows "(registry m (toLowerUnits name) = Some (None, sh, False, rem) \<longrightarrow>
      getSchemaNameSpaceNames name m = Undefined \<and> validateClass name c m = Undefined \<and> getSuperClassNames name c m = Undefined) \<and>
    (registry m (toLowerUnits name) \<noteq> None \<and> registry m (toLowerUnits new) \<noteq> None \<and> toLowerUnits new \<noteq> toLowerUnits name \<longrightarrow>
      (\<exists>m'. modifyNameSpaceName name new m = Done ((), m') \<and> spaceAt m' name = None \<and> spaceAt m' new = spaceAt m new)) \<and>
    (registry m (toLowerUnits name) = Some (Some q, sh, up, rem) \<and> registry m q = Some (Some q', r) \<longrightarrow>
      (\<exists>m'. modifyNameSpace name sh True m = Done ((), m') \<and> registry m' (toLowerUnits name) = Some (Some q, sh, True, rem))) \<and>
    (\<forall>a. spaceAt m name = Some a \<and> treeOk (hier m) a \<and> view (hier m) a (toLowerUnits c) \<noteq> None \<longrightarrow>
      (\<exists>old. checkModifyClass name c c True m = Done (old, m)))"
proof (intro conjI impI allI)
  note ok = managerOk_space [OF assms(1)]
  show "getSchemaNameSpaceNames name m = Undefined" "validateClass name c m = Undefined" "getSuperClassNames name c m = Undefined"
    if "registry m (toLowerUnits name) = Some (None, sh, False, rem)"
    using readonly_undefined [OF ok assms(2) that] by blast+
  show "\<exists>m'. modifyNameSpaceName name new m = Done ((), m') \<and> spaceAt m' name = None \<and> spaceAt m' new = spaceAt m new"
    if h: "registry m (toLowerUnits name) \<noteq> None \<and> registry m (toLowerUnits new) \<noteq> None \<and> toLowerUnits new \<noteq> toLowerUnits name"
  proof -
    obtain a where a: "spaceAt m name = Some a" using h registry_None [OF ok assms(2)] by auto
    obtain n where n: "spaces m a = Some n" using space_at [OF ok assms(2) a] by blast
    have "\<not> (toLowerUnits new = toLowerUnits name \<or> spaceAt m new = None)" using h registry_None [OF ok assms(3)] by simp
    from rename_run [OF ok assms(2,3) a n, unfolded if_not_P [OF this]] assms(2,3) h show ?thesis by auto
  qed
  show "\<exists>m'. modifyNameSpace name sh True m = Done ((), m') \<and> registry m' (toLowerUnits name) = Some (Some q, sh, True, rem)"
    if "registry m (toLowerUnits name) = Some (Some q, sh, up, rem) \<and> registry m q = Some (Some q', r)"
    using modifyNameSpace_spec [OF ok assms(2), of sh True] that by auto
  show "\<exists>old. checkModifyClass name c c True m = Done (old, m)"
    if "spaceAt m name = Some a \<and> treeOk (hier m) a \<and> view (hier m) a (toLowerUnits c) \<noteq> None" for a
    using self_superclass [OF ok assms(2,4,5), of a] that by (cases "view (hier m) a (toLowerUnits c)") auto
qed

theorem namespace_defects_witness:
  "\<exists>m. createNameSpace (units ''root'') True False [] [] newManager = Done ((), m) \<and>
    getSchemaNameSpaceNames (units ''root'') m = Undefined"
proof -
  obtain m where m: "createNameSpace (units ''root'') True False [] [] newManager = Done ((), m)" "managerOk m"
    "registry m = (\<lambda>_. None)(toLowerUnits (units ''root'') \<mapsto> (None, True, False, []))" by (rule root_manager)
  from namespace_defects [OF m(2) root_names(1,1,3,4), of True "[]"] m(1,3) show ?thesis by auto
qed

end
