(* ===== verification/RepositoryStart.thy ===== *)
theory RepositoryStart
  imports NameSpaceClasses "HOL-Library.Multiset"
begin

section \<open>CIMRepository: loading the namespaces at start-up\<close>

text \<open>
  The loop of the constructor in \<^verbatim>\<open>Pegasus/Repository/CIMRepository.cpp\<close> that loads the namespaces the
  store lists, in whatever order, parents first: a namespace whose parent is not loaded yet is swapped
  with its parent further on in the list, or dropped when the parent is not there. What the store lists
  and the classes it gives for each namespace are arguments. Then the root namespace is made if there is
  none; what the store does for it is left out.
\<close>

record nsDef =
  defName :: pstr
  defShareable :: bool
  defUpdates :: bool
  defParent :: pstr
  defRemote :: pstr

primrec initLoop :: "nat \<Rightarrow> (pstr \<Rightarrow> (pstr \<times> pstr) list) \<Rightarrow> nat \<Rightarrow> nsDef list \<Rightarrow> unit nprog" where
  "initLoop 0 classes i ds = undefinedF"
| "initLoop (Suc fuel) classes i ds =
    (if i < length ds then
       bindF (if defParent (ds ! i) = [] then retF True else nameSpaceExists (defParent (ds ! i))) (\<lambda>e.
         if e then
           bindF (initializeNameSpace (defName (ds ! i)) (defShareable (ds ! i)) (defUpdates (ds ! i)) (defParent (ds ! i))
               (defRemote (ds ! i)) (classes (defName (ds ! i)))) (\<lambda>_.
           initLoop fuel classes (Suc i) ds)
         else
           (case find (\<lambda>j. equalNoCase (defParent (ds ! i)) (defName (ds ! j))) [Suc i ..< length ds] of
              Some j \<Rightarrow> initLoop fuel classes i (ds[j := ds ! i, i := ds ! j])
            | None \<Rightarrow> initLoop fuel classes i (take i ds @ drop (Suc i) ds)))
     else retF ())"

definition startRepository :: "nat \<Rightarrow> (pstr \<Rightarrow> (pstr \<times> pstr) list) \<Rightarrow> nsDef list \<Rightarrow> unit nprog" where
  "startRepository fuel classes ds =
    bindF (initLoop fuel classes 0 ds) (\<lambda>_.
    bindF (nameSpaceExists (units ''root'')) (\<lambda>e.
      if e then retF () else createNameSpace (units ''root'') False True [] []))"

subsection \<open>What should be loaded\<close>

abbreviation key :: "nsDef \<Rightarrow> pstr" where
  "key d \<equiv> toLowerUnits (defName d)"

inductive loaded :: "pstr set \<Rightarrow> nsDef set \<Rightarrow> pstr \<Rightarrow> bool" for E D where
  root: "d \<in> D \<Longrightarrow> defParent d = [] \<Longrightarrow> loaded E D (key d)"
| there: "d \<in> D \<Longrightarrow> toLowerUnits (defParent d) \<in> E \<Longrightarrow> loaded E D (key d)"
| below: "d \<in> D \<Longrightarrow> loaded E D (toLowerUnits (defParent d)) \<Longrightarrow> loaded E D (key d)"

definition entry :: "nsDef \<Rightarrow> pstr option \<times> bool \<times> bool \<times> pstr" where
  "entry d = (if defParent d = [] then None else Some (toLowerUnits (defParent d)), defShareable d, defUpdates d, defRemote d)"

definition above :: "nsDef set \<Rightarrow> (pstr \<times> pstr) set" where
  "above D = {(key d, toLowerUnits (defParent d)) | d. d \<in> D \<and> defParent d \<noteq> []}"

text \<open>The classes of a primary namespace form a hierarchy; no others are loaded for a dependent one with updates.\<close>

definition classesOk :: "(pstr \<Rightarrow> (pstr \<times> pstr) list) \<Rightarrow> nsDef \<Rightarrow> bool" where
  "classesOk classes d \<longleftrightarrow>
     (let cl = classes (defName d) in
      (\<forall>(c, p) \<in> set cl. nul_free c \<and> nul_free p) \<and>
      (if defParent d = [] then distinct (map toLowerUnits (map fst cl)) \<and> acyclic (linksOf cl)
       else defUpdates d \<longrightarrow> cl = []))"

definition nodesBelow :: "manager \<Rightarrow> bool" where
  "nodesBelow m \<longleftrightarrow> (\<forall>a. nodes (hier m) a \<noteq> None \<longrightarrow> a < nextNode (hier m))"

subsection \<open>Loading one namespace\<close>

lemma load_one:
  assumes ok: "managerOk m" "nodesBelow m" and k: "nul_free (defName d)" "nul_free (defParent d)"
    and free: "registry m (key d) = None" and there: "defParent d = [] \<or> registry m (toLowerUnits (defParent d)) \<noteq> None"
    and cl: "classesOk classes d"
  shows "\<exists>m'. initializeNameSpace (defName d) (defShareable d) (defUpdates d) (defParent d) (defRemote d) (classes (defName d)) m =
      Done ((), m') \<and> managerOk m' \<and> nodesBelow m' \<and> registry m' = (registry m)(key d \<mapsto> entry d)"
proof -
  let ?cl = "classes (defName d)" and ?N = "nextSpace m"
  let ?h = "(hier m)\<lparr>trees := (trees (hier m))(?N \<mapsto> emptyTree)\<rparr>"
  have sp: "spacesOk m" using managerOk_space [OF ok(1)] .
  have free': "spaceAt m (defName d) = None" using free registry_None [OF sp k(1)] by simp
  have there': "defParent d = [] \<or> spaceAt m (defParent d) \<noteq> None" using there registry_None [OF sp k(2)] by simp
  obtain q where q: "\<forall>p. q = Some p \<longrightarrow> spaces m p \<noteq> None" "defParent d = [] \<longrightarrow> q = None" "defParent d \<noteq> [] \<longrightarrow> q = spaceAt m (defParent d)"
    "initializeNameSpace (defName d) (defShareable d) (defUpdates d) (defParent d) (defRemote d) ?cl m =
      bindF (newSpace (defName d) (defShareable d) (defUpdates d) q (defRemote d) ?cl) (\<lambda>a. bindF (insertName (defName d) a) (\<lambda>_. retF ())) m"
    using initialize_Done [OF sp k free' there', of "defShareable d" "defUpdates d" "defRemote d" ?cl] by blast
  have names: "\<forall>(c, p) \<in> set ?cl. nul_free c \<and> nul_free p" using cl by (simp add: classesOk_def Let_def)
  have bound: "\<forall>a. nodes ?h a \<noteq> None \<longrightarrow> a < nextNode ?h" using ok(2) by (simp add: nodesBelow_def)
  obtain s where s: "enterClasses ?N (defUpdates d) q ?cl ?h = Done ((), s)" "\<forall>a. nodes s a \<noteq> None \<longrightarrow> a < nextNode s"
  proof (cases "defParent d = []")
    case True
    have tree: "trees ?h ?N = Some emptyTree" by simp
    have c: "distinct (map toLowerUnits (map fst ([] @ ?cl)))" "acyclic (linksOf ([] @ ?cl))"
      using cl True by (simp_all add: classesOk_def Let_def)
    obtain s where "buildTree ?N ?cl ?h = Done ((), s)" "treeOk s ?N"
      using build_from [OF emptyTree_ok [OF tree bound] c names] by auto
    then show thesis using that [of s] True q(2) tree_below by (auto simp: enterClasses_def)
  next
    case False
    then obtain p where "q = Some p" using q(3) there' by auto
    then have "enterClasses ?N (defUpdates d) q ?cl ?h = Done ((), ?h)"
      using cl False by (simp add: enterClasses_def classesOk_def Let_def retF_def)
    then show thesis using that bound by blast
  qed
  obtain m' where m': "bindF (newSpace (defName d) (defShareable d) (defUpdates d) q (defRemote d) ?cl)
      (\<lambda>a. bindF (insertName (defName d) a) (\<lambda>_. retF ())) m = Done ((), m')" "hier m' = s"
    using addSpace_spec [OF sp k(1) free' q(1), where up = "defUpdates d" and cl = ?cl and sh = "defShareable d" and rem = "defRemote d"] s(1)
    by auto
  have fin: "managerOk m'" "registry m' = (registry m)(key d \<mapsto> (parentName m q, defShareable d, defUpdates d, defRemote d))"
    using addSpace_ok [OF ok(1) k(1) free' q(1) names m'(1)] by simp_all
  have "parentName m q = (if defParent d = [] then None else Some (toLowerUnits (defParent d)))"
  proof (cases "defParent d = []")
    case False
    then obtain p where p: "spaceAt m (defParent d) = Some p" using there' by auto
    obtain pn where "spaces m p = Some pn" "toLowerUnits (nsName pn) = toLowerUnits (defParent d)" using space_at [OF sp k(2) p] by blast
    then show ?thesis using False q(3) p by (simp add: parentName_def)
  qed (use q(2) in \<open>simp add: parentName_def\<close>)
  then show ?thesis using fin m' q(4) s(2) by (intro exI [of _ m']) (simp add: entry_def nodesBelow_def)
qed

subsection \<open>The order of loading\<close>

lemma loaded_mono: "loaded E D k \<Longrightarrow> E \<subseteq> E' \<Longrightarrow> D \<subseteq> D' \<Longrightarrow> loaded E' D' k"
  by (induction rule: loaded.induct) (auto intro: loaded.intros)

lemma loaded_key: "loaded E D k \<Longrightarrow> \<exists>d \<in> D. k = key d"
  by (induction rule: loaded.induct) auto

text \<open>A namespace that can be loaded now may be loaded first.\<close>

lemma loaded_first:
  assumes "defParent d = [] \<or> toLowerUnits (defParent d) \<in> E"
  shows "loaded E (insert d D) k \<longleftrightarrow> k = key d \<or> loaded (insert (key d) E) D k"
proof
  assume "loaded E (insert d D) k"
  then show "k = key d \<or> loaded (insert (key d) E) D k"
    by (induction rule: loaded.induct) (auto intro: loaded.intros)
next
  have now: "loaded E (insert d D) (key d)" using assms by (auto intro: loaded.intros)
  assume "k = key d \<or> loaded (insert (key d) E) D k"
  then show "loaded E (insert d D) k"
  proof
    assume "loaded (insert (key d) E) D k"
    then show ?thesis
    proof (induction rule: loaded.induct)
      case (there e)
      then show ?case using now by (auto intro: loaded.intros)
    qed (auto intro: loaded.intros)
  qed (simp add: now)
qed

text \<open>One whose parent is neither loaded nor listed is never loaded.\<close>

lemma loaded_drop:
  assumes "defParent d \<noteq> []" and "toLowerUnits (defParent d) \<notin> E" and "\<forall>e \<in> insert d D. key e \<noteq> toLowerUnits (defParent d)"
    and "\<forall>e \<in> D. key e \<noteq> key d"
  shows "loaded E (insert d D) k \<longleftrightarrow> loaded E D k"
proof
  assume "loaded E (insert d D) k"
  then show "loaded E D k"
  proof (induction rule: loaded.induct)
    case (root e)
    then show ?case using assms(1) by (auto intro: loaded.intros)
  next
    case (there e)
    then show ?case using assms(2) by (auto intro: loaded.intros)
  next
    case (below e)
    have "e \<noteq> d" using loaded_key [OF below.IH] assms(3) by auto
    then show ?case using below by (auto intro: loaded.intros)
  qed
qed (rule loaded_mono; auto)


subsection \<open>The loop ends\<close>

text \<open>A swap brings the parent to the front, and a parent has fewer namespaces above it.\<close>

definition rank :: "nsDef set \<Rightarrow> nsDef \<Rightarrow> nat" where
  "rank D d = card {x. (key d, x) \<in> (above D)\<^sup>+}"

lemma above_finite_set: "finite D \<Longrightarrow> finite (above D)"
proof -
  assume "finite D"
  moreover have "above D \<subseteq> (\<lambda>d. (key d, toLowerUnits (defParent d))) ` D" by (auto simp: above_def)
  ultimately show ?thesis using finite_subset finite_imageI by blast
qed

lemma rank_finite: "finite D \<Longrightarrow> finite {x. (k, x) \<in> (above D)\<^sup>+}"
proof -
  assume "finite D"
  then have "finite (Range (above D))" using above_finite_set by (simp add: finite_Range)
  moreover have "{x. (k, x) \<in> (above D)\<^sup>+} \<subseteq> Range (above D)" by (auto dest: tranclD2)
  ultimately show ?thesis using finite_subset by blast
qed

lemma rank_bound: "rank (set ds) d \<le> length ds"
proof -
  have "{x. (key d, x) \<in> (above (set ds))\<^sup>+} \<subseteq> (\<lambda>d. toLowerUnits (defParent d)) ` set ds"
  proof
    fix x assume "x \<in> {x. (key d, x) \<in> (above (set ds))\<^sup>+}"
    then obtain y where "(y, x) \<in> above (set ds)" by (auto dest: tranclD2)
    then show "x \<in> (\<lambda>d. toLowerUnits (defParent d)) ` set ds" by (auto simp: above_def)
  qed
  then have "rank (set ds) d \<le> card ((\<lambda>d. toLowerUnits (defParent d)) ` set ds)" unfolding rank_def by (intro card_mono) simp_all
  also have "\<dots> \<le> card (set ds)" by (rule card_image_le) simp
  also have "\<dots> \<le> length ds" by (rule card_length)
  finally show ?thesis .
qed

lemma rank_parent:
  assumes "finite D" and "acyclic (above D)" and "d \<in> D" and "defParent d \<noteq> []" and "key e = toLowerUnits (defParent d)"
  shows "rank D e < rank D d"
proof -
  have de: "(key d, key e) \<in> above D" using assms(3-5) by (auto simp: above_def)
  have "{x. (key e, x) \<in> (above D)\<^sup>+} \<subset> {x. (key d, x) \<in> (above D)\<^sup>+}"
  proof (rule psubsetI)
    show "{x. (key e, x) \<in> (above D)\<^sup>+} \<subseteq> {x. (key d, x) \<in> (above D)\<^sup>+}" using de by (auto intro: trancl_into_trancl2)
    have "(key e, key e) \<notin> (above D)\<^sup>+" using assms(2) by (auto simp: acyclic_def)
    then show "{x. (key e, x) \<in> (above D)\<^sup>+} \<noteq> {x. (key d, x) \<in> (above D)\<^sup>+}" using de by blast
  qed
  then show ?thesis unfolding rank_def by (rule psubset_card_mono [OF rank_finite [OF assms(1)]])
qed

lemma swap_front:
  assumes "0 < t" and "t < length rem"
  shows "(pre @ rem)[length pre + t := (pre @ rem) ! length pre, length pre := (pre @ rem) ! (length pre + t)] =
      pre @ rem[t := rem ! 0, 0 := rem ! t]"
    and "mset (rem[t := rem ! 0, 0 := rem ! t]) = mset rem" and "hd (rem[t := rem ! 0, 0 := rem ! t]) = rem ! t"
    and "length (rem[t := rem ! 0, 0 := rem ! t]) = length rem"
proof -
  show "(pre @ rem)[length pre + t := (pre @ rem) ! length pre, length pre := (pre @ rem) ! (length pre + t)] =
      pre @ rem[t := rem ! 0, 0 := rem ! t]"
    using nth_append [of pre rem "length pre"] nth_append [of pre rem "length pre + t"]
      list_update_append [of pre rem "length pre + t"] list_update_append [of pre _ "length pre"] by simp
  have ne: "rem \<noteq> []" using assms by (cases rem) auto
  then show "mset (rem[t := rem ! 0, 0 := rem ! t]) = mset rem" using assms by (intro mset_swap) simp_all
  show "hd (rem[t := rem ! 0, 0 := rem ! t]) = rem ! t"
  proof -
    have "rem[t := rem ! 0, 0 := rem ! t] \<noteq> []" using ne by simp
    then show ?thesis using assms by (simp add: hd_conv_nth)
  qed
qed simp

text \<open>The guards of the loop in terms of the registry.\<close>

lemma parent_test:
  assumes "spacesOk m" and "nul_free p"
  shows "(if p = [] then retF True else nameSpaceExists p) m = Done (p = [] \<or> registry m (toLowerUnits p) \<noteq> None, m)"
  using exists_eq [OF assms] registry_None [OF assms] by (simp add: retF_def)

lemma initLoop_run:
  assumes D: "finite D" "acyclic (above D)" "\<forall>d \<in> D. rank D d \<le> N"
    and "set rem \<subseteq> D" and "distinct (map key rem)" and "managerOk m" and "nodesBelow m"
    and "\<forall>d \<in> set rem. nul_free (defName d) \<and> nul_free (defParent d) \<and> classesOk classes d \<and> registry m (key d) = None"
    and "length rem * Suc N + (if rem = [] then 0 else rank D (hd rem)) < fuel"
  shows "\<exists>m'. initLoop fuel classes (length pre) (pre @ rem) m = Done ((), m') \<and> managerOk m' \<and>
    (\<forall>d \<in> set rem. registry m' (key d) = (if loaded (dom (registry m)) (set rem) (key d) then Some (entry d) else None)) \<and>
    (\<forall>k. k \<notin> key ` set rem \<longrightarrow> registry m' k = registry m k)"
  using assms(4-)
proof (induction fuel arbitrary: pre rem m)
  case (Suc fuel)
  note ok = managerOk_space [OF Suc.prems(3)]
  show ?case
  proof (cases rem)
    case Nil
    then show ?thesis using Suc.prems(3) by (simp add: retF_def)
  next
    case (Cons d rest)
    have d: "(pre @ rem) ! length pre = d" "length pre < length (pre @ rem)" using Cons by simp_all
    have dp: "nul_free (defName d)" "nul_free (defParent d)" "classesOk classes d" "registry m (key d) = None" "d \<in> D"
      using Suc.prems(1,5) Cons by auto
    let ?now = "defParent d = [] \<or> registry m (toLowerUnits (defParent d)) \<noteq> None"
    let ?E = "dom (registry m)"
    have test: "(if defParent d = [] then retF True else nameSpaceExists (defParent d)) m = Done (?now, m)"
      by (rule parent_test [OF ok dp(2)])
    have rest: "set rest \<subseteq> D" "distinct (map key rest)" "key d \<notin> key ` set rest" using Suc.prems(1,2) Cons by auto
    have ne: "key e \<noteq> key d" if "e \<in> set rest" for e using rest(3) that by (metis imageI)
    have fuel_rest: "length rest * Suc N + (if rest = [] then 0 else rank D (hd rest)) < fuel"
    proof -
      have "(if rest = [] then 0 else rank D (hd rest)) \<le> N" using D(3) rest(1) by (cases rest) auto
      then show ?thesis using Suc.prems(6) Cons by simp
    qed
    show ?thesis
    proof (cases ?now)
      case True
      obtain m1 where m1: "initializeNameSpace (defName d) (defShareable d) (defUpdates d) (defParent d) (defRemote d) (classes (defName d)) m =
          Done ((), m1)" "managerOk m1" "nodesBelow m1" "registry m1 = (registry m)(key d \<mapsto> entry d)"
        using load_one [OF Suc.prems(3,4) dp(1,2,4) True dp(3)] by blast
      have "\<forall>e \<in> set rest. nul_free (defName e) \<and> nul_free (defParent e) \<and> classesOk classes e \<and> registry m1 (key e) = None"
        using Suc.prems(5) Cons ne m1(4) by auto
      from Suc.IH [OF rest(1,2) m1(2,3) this fuel_rest, of "pre @ [d]"]
      obtain m' where m': "initLoop fuel classes (Suc (length pre)) (pre @ rem) m1 = Done ((), m')" "managerOk m'"
        "\<forall>e \<in> set rest. registry m' (key e) = (if loaded (dom (registry m1)) (set rest) (key e) then Some (entry e) else None)"
        "\<forall>k. k \<notin> key ` set rest \<longrightarrow> registry m' k = registry m1 k"
        using Cons by auto
      have run: "initLoop (Suc fuel) classes (length pre) (pre @ rem) m = Done ((), m')"
        using d(2) test True m1(1) m'(1) unfolding initLoop.simps d(1) by (simp add: bindF_def)
      have now: "defParent d = [] \<or> toLowerUnits (defParent d) \<in> ?E" using True by auto
      have E1: "dom (registry m1) = insert (key d) ?E" by (simp add: m1(4))
      have "registry m' (key e) = (if loaded ?E (set rem) (key e) then Some (entry e) else None)" if "e \<in> set rem" for e
      proof (cases "e = d")
        case True
        then show ?thesis using m'(4) rest(3) m1(4) Cons loaded_first [OF now, of "set rest" "key d"] by simp
      next
        case False
        then have "e \<in> set rest" "key e \<noteq> key d" using that Cons ne by auto
        then show ?thesis using m'(3) Cons loaded_first [OF now, of "set rest" "key e"] by (simp add: E1)
      qed
      moreover have "registry m' k = registry m k" if "k \<notin> key ` set rem" for k using that m'(4) m1(4) Cons by simp
      ultimately show ?thesis using run m'(2) by blast
    next
      case False
      let ?found = "find (\<lambda>j. equalNoCase (defParent d) (defName ((pre @ rem) ! j))) [Suc (length pre) ..< length (pre @ rem)]"
      have step: "initLoop (Suc fuel) classes (length pre) (pre @ rem) m =
        (case ?found of
           Some j \<Rightarrow> initLoop fuel classes (length pre) ((pre @ rem)[j := d, length pre := (pre @ rem) ! j])
         | None \<Rightarrow> initLoop fuel classes (length pre) (take (length pre) (pre @ rem) @ drop (Suc (length pre)) (pre @ rem))) m"
        using d(2) test False unfolding initLoop.simps d(1) by (simp add: bindF_def)
      show ?thesis
      proof (cases ?found)
        case None
        have far: "\<forall>e \<in> set rest. key e \<noteq> toLowerUnits (defParent d)"
        proof
          fix e assume "e \<in> set rest"
          then obtain t where t: "t < length rest" "e = rest ! t" by (auto simp: in_set_conv_nth)
          have "Suc (length pre) + t < length (pre @ rem)" using t(1) Cons by simp
          then have "Suc (length pre) + t \<in> set [Suc (length pre) ..< length (pre @ rem)]" unfolding set_upt atLeastLessThan_iff by simp
          moreover have "(pre @ rem) ! (Suc (length pre) + t) = e" using t Cons by (simp add: nth_append)
          ultimately have "\<not> equalNoCase (defParent d) (defName e)" using None unfolding find_None_iff by metis
          then show "key e \<noteq> toLowerUnits (defParent d)" by (simp add: equalNoCase_eq toLowerUnits_eq)
        qed
        have self: "key d \<noteq> toLowerUnits (defParent d)"
        proof
          assume h: "key d = toLowerUnits (defParent d)"
          have "(key d, toLowerUnits (defParent d)) \<in> above D" using dp(5) False by (auto simp: above_def)
          then have "(key d, key d) \<in> above D" unfolding h [symmetric] .
          then show False using D(2) by (auto simp: acyclic_def)
        qed
        have drop: "loaded ?E (set rem) k \<longleftrightarrow> loaded ?E (set rest) k" for k
        proof -
          have "\<forall>e \<in> insert d (set rest). key e \<noteq> toLowerUnits (defParent d)" using far self by simp
          moreover have "defParent d \<noteq> []" "toLowerUnits (defParent d) \<notin> ?E" using False by auto
          moreover have "\<forall>e \<in> set rest. key e \<noteq> key d" using ne by blast
          ultimately have "loaded ?E (insert d (set rest)) k \<longleftrightarrow> loaded ?E (set rest) k" by (intro loaded_drop)
          then show ?thesis using Cons by simp
        qed
        have "\<forall>e \<in> set rest. nul_free (defName e) \<and> nul_free (defParent e) \<and> classesOk classes e \<and> registry m (key e) = None"
          using Suc.prems(5) Cons by auto
        from Suc.IH [OF rest(1,2) Suc.prems(3,4) this fuel_rest, of pre]
        obtain m' where m': "initLoop fuel classes (length pre) (pre @ rest) m = Done ((), m')" "managerOk m'"
          "\<forall>e \<in> set rest. registry m' (key e) = (if loaded ?E (set rest) (key e) then Some (entry e) else None)"
          "\<forall>k. k \<notin> key ` set rest \<longrightarrow> registry m' k = registry m k" by blast
        have "\<not> loaded ?E (set rest) (key d)" using loaded_key rest(3) by blast
        then have "registry m' (key e) = (if loaded ?E (set rem) (key e) then Some (entry e) else None)" if "e \<in> set rem" for e
          using that m'(3,4) Cons rest(3) dp(4) unfolding drop by auto
        moreover have "registry m' k = registry m k" if "k \<notin> key ` set rem" for k using that m'(4) Cons by simp
        ultimately show ?thesis using m'(1,2) step None Cons by auto
      next
        case (Some j)
        then obtain i where i: "i < length [Suc (length pre) ..< length (pre @ rem)]"
          "equalNoCase (defParent d) (defName ((pre @ rem) ! ([Suc (length pre) ..< length (pre @ rem)] ! i)))"
          "j = [Suc (length pre) ..< length (pre @ rem)] ! i" unfolding find_Some_iff by blast
        define t where "t = Suc i"
        have t: "0 < t" "t < length rem" "j = length pre + t" using i by (simp_all add: t_def)
        let ?rem = "rem[t := rem ! 0, 0 := rem ! t]"
        note sw = swap_front [OF t(1,2)]
        have e: "key (rem ! t) = toLowerUnits (defParent d)"
        proof -
          have "equalNoCase (defParent d) (defName ((pre @ rem) ! j))" using i(2,3) by simp
          then show ?thesis unfolding t(3) nth_append_length_plus by (simp add: equalNoCase_eq toLowerUnits_eq)
        qed
        have set: "set ?rem = set rem" using sw(2) by (metis set_mset_mset)
        have dist: "distinct (map key ?rem)"
          using Suc.prems(2) sw(2) mset_eq_imp_distinct_iff [of "map key ?rem" "map key rem"] by (simp add: mset_map)
        have "rank D (rem ! t) < rank D d" using rank_parent [OF D(1,2) dp(5) _ e] False by blast
        then have "length ?rem * Suc N + (if ?rem = [] then 0 else rank D (hd ?rem)) < fuel"
          using Suc.prems(6) Cons sw(3,4) by simp
        from Suc.IH [of ?rem m pre, unfolded set, OF Suc.prems(1) dist Suc.prems(3,4,5) this]
        obtain m' where "initLoop fuel classes (length pre) (pre @ ?rem) m = Done ((), m')" "managerOk m'"
          "\<forall>e \<in> set rem. registry m' (key e) = (if loaded ?E (set rem) (key e) then Some (entry e) else None)"
          "\<forall>k. k \<notin> key ` set rem \<longrightarrow> registry m' k = registry m k" by blast
        moreover have "(pre @ rem)[j := d, length pre := (pre @ rem) ! j] = pre @ ?rem" using sw(1) [of pre] d(1) t(3) by simp
        ultimately show ?thesis using step Some by auto
      qed
    qed
  qed
qed simp


subsection \<open>Properties\<close>




text \<open>
  C26: when the store lists two namespaces each of which is the parent of the other, the loop swaps them
  for ever: no number of rounds is enough, so the constructor does not return.
\<close>

theorem start_cycle_loops:
  assumes "nul_free (defParent d)" and "nul_free (defParent e)" and "defParent d \<noteq> []" and "defParent e \<noteq> []"
    and "key e = toLowerUnits (defParent d)" and "key d = toLowerUnits (defParent e)"
  shows "initLoop fuel classes 0 [d, e] newManager = Undefined"
proof -
  have round: "initLoop (Suc fuel) classes 0 [x, y] newManager = initLoop fuel classes 0 [y, x] newManager"
    if "nul_free (defParent x)" "defParent x \<noteq> []" "key y = toLowerUnits (defParent x)" for x y fuel
  proof -
    have "nameSpaceExists (defParent x) newManager = Done (False, newManager)"
      using exists_eq [OF managerOk_space [OF newManager_ok] that(1)]
      by (simp add: spaceAt_def newManager_def noCaseKey.contents_new)
    moreover have "equalNoCase (defParent x) (defName y)" using that(3) by (simp add: equalNoCase_eq toLowerUnits_eq)
    ultimately show ?thesis using that(2) by (simp add: bindF_def upt_rec [of "Suc 0" "Suc (Suc 0)"])
  qed
  have "initLoop fuel classes 0 [d, e] newManager = Undefined \<and> initLoop fuel classes 0 [e, d] newManager = Undefined"
  proof (induction fuel)
    case 0
    show ?case by (simp add: undefinedF_def)
  next
    case (Suc fuel)
    then show ?case using round [of d e fuel] round [of e d fuel] assms by (simp del: initLoop.simps)
  qed
  then show ?thesis by blast
qed

theorem start_cycle_loops_witness:
  "\<forall>fuel. initLoop fuel (\<lambda>_. []) 0
    [\<lparr>defName = units ''a'', defShareable = True, defUpdates = False, defParent = units ''b'', defRemote = []\<rparr>,
     \<lparr>defName = units ''b'', defShareable = True, defUpdates = False, defParent = units ''a'', defRemote = []\<rparr>] newManager = Undefined"
  by (intro allI, rule start_cycle_loops) (simp_all add: units_def nul_free_def)

end
