(* ===== verification/Wql.thy ===== *)
theory Wql
  imports CimName DateTime
begin

section \<open>WQL: select statements and their where clauses\<close>

text \<open>
  \<^verbatim>\<open>Pegasus/WQL\<close>: the operands and operations (\<^verbatim>\<open>WQLOperand.h\<close>, \<^verbatim>\<open>WQLOperation.h\<close>), the statement the
  parser fills (\<^verbatim>\<open>WQLSelectStatementRep\<close>) with the actions of the grammar (\<^verbatim>\<open>WQL.y\<close>), the stack machine
  that evaluates the where clause, the property source of an instance, the projection and the
  property lists. A condition of the grammar is a tree; the actions of its productions, in the order
  in which the parser reduces them, append its operands and its operations in postfix order. The
  scanner and the parser tables are generated and not modelled.

  A \<open>Real64\<close> is its 64 bits of IEEE 754, compared as the processor does. Assertions are compiled out,
  as in a release build. The theorems say which value a where clause has, and when it throws, in terms of
  the condition; what the projection keeps; and what the property lists contain.
\<close>

subsection \<open>Operands and operations\<close>

datatype wqlOperation =
    WQL_OR | WQL_AND | WQL_NOT | WQL_EQ | WQL_NE | WQL_LT | WQL_LE | WQL_GT | WQL_GE
  | WQL_IS_NULL | WQL_IS_NOT_NULL | WQL_IS_TRUE | WQL_IS_NOT_TRUE | WQL_IS_FALSE | WQL_IS_NOT_FALSE

datatype wqlOperand =
    NullValue
  | IntegerValue u64
  | DoubleValue u64
  | BooleanValue bool
  | StringValue pstr
  | PropertyName pstr

datatype wqlType = NULL_VALUE | INTEGER_VALUE | DOUBLE_VALUE | BOOLEAN_VALUE | STRING_VALUE | PROPERTY_NAME

fun operandType :: "wqlOperand \<Rightarrow> wqlType" where
  "operandType NullValue = NULL_VALUE"
| "operandType (IntegerValue x) = INTEGER_VALUE"
| "operandType (DoubleValue x) = DOUBLE_VALUE"
| "operandType (BooleanValue x) = BOOLEAN_VALUE"
| "operandType (StringValue x) = STRING_VALUE"
| "operandType (PropertyName x) = PROPERTY_NAME"

datatype wqlError =
    TypeMismatch
  | StackUnderflow
  | IndexOutOfBounds
  | NullContext
  | NotFromClass pstr
  | MissingProperty

subsection \<open>Numbers of 64 bits with a point\<close>

definition realNaN :: "u64 \<Rightarrow> bool" where
  "realNaN x \<longleftrightarrow> drop_bit 52 (take_bit 63 x) = 0x7FF \<and> take_bit 52 x \<noteq> 0"

text \<open>The bits without the sign are in the order of the absolute values, and both zeros are zero.\<close>

definition realKey :: "u64 \<Rightarrow> int" where
  "realKey x = (let k = uint (take_bit 63 x) in if bit x 63 then - k else k)"

definition realEqual :: "u64 \<Rightarrow> u64 \<Rightarrow> bool" where
  "realEqual x y \<longleftrightarrow> \<not> realNaN x \<and> \<not> realNaN y \<and> realKey x = realKey y"

definition realLess :: "u64 \<Rightarrow> u64 \<Rightarrow> bool" where
  "realLess x y \<longleftrightarrow> \<not> realNaN x \<and> \<not> realNaN y \<and> realKey x < realKey y"

definition realLessEq :: "u64 \<Rightarrow> u64 \<Rightarrow> bool" where
  "realLessEq x y \<longleftrightarrow> \<not> realNaN x \<and> \<not> realNaN y \<and> realKey x \<le> realKey y"

text \<open>The conversion of \<open>Real32\<close> to \<open>Real64\<close>, which is exact: a subnormal number becomes normal.\<close>

fun leading :: "nat \<Rightarrow> nat" where
  "leading f = (if f < 2 then 0 else Suc (leading (f div 2)))"

declare leading.simps [simp del]

definition widen :: "u32 \<Rightarrow> u64" where
  "widen x =
    (let e = unat (take_bit 8 (drop_bit 23 x)); f = unat (take_bit 23 x);
         (e', f') = (if e = 255 then (2047, f * 2 ^ 29)
                     else if e > 0 then (e + 896, f * 2 ^ 29)
                     else if f = 0 then (0, 0)
                     else (let k = leading f in (k + 874, f * 2 ^ (52 - k) - 2 ^ 52)))
     in push_bit 63 (of_bool (bit x 31)) OR push_bit 52 (of_nat e') OR of_nat f')"


subsection \<open>Comparing operands\<close>

text \<open>\<open>_Compare\<close> at each of the four types.\<close>

definition compareIntegers :: "wqlOperation \<Rightarrow> u64 \<Rightarrow> u64 \<Rightarrow> bool" where
  "compareIntegers op x y =
    (case op of
       WQL_EQ \<Rightarrow> sint x = sint y | WQL_NE \<Rightarrow> sint x \<noteq> sint y
     | WQL_LT \<Rightarrow> sint x < sint y | WQL_LE \<Rightarrow> sint x \<le> sint y
     | WQL_GT \<Rightarrow> sint x > sint y | WQL_GE \<Rightarrow> sint x \<ge> sint y
     | _ \<Rightarrow> False)"

definition compareDoubles :: "wqlOperation \<Rightarrow> u64 \<Rightarrow> u64 \<Rightarrow> bool" where
  "compareDoubles op x y =
    (case op of
       WQL_EQ \<Rightarrow> realEqual x y | WQL_NE \<Rightarrow> \<not> realEqual x y
     | WQL_LT \<Rightarrow> realLess x y | WQL_LE \<Rightarrow> realLessEq x y
     | WQL_GT \<Rightarrow> realLess y x | WQL_GE \<Rightarrow> realLessEq y x
     | _ \<Rightarrow> False)"

definition compareBooleans :: "wqlOperation \<Rightarrow> bool \<Rightarrow> bool \<Rightarrow> bool" where
  "compareBooleans op x y =
    (case op of
       WQL_EQ \<Rightarrow> x = y | WQL_NE \<Rightarrow> x \<noteq> y
     | WQL_LT \<Rightarrow> x < y | WQL_LE \<Rightarrow> x \<le> y
     | WQL_GT \<Rightarrow> x > y | WQL_GE \<Rightarrow> x \<ge> y
     | _ \<Rightarrow> False)"

definition compareStrings :: "wqlOperation \<Rightarrow> pstr \<Rightarrow> pstr \<Rightarrow> bool" where
  "compareStrings op x y =
    (case op of
       WQL_EQ \<Rightarrow> stringEqual x y | WQL_NE \<Rightarrow> \<not> stringEqual x y
     | WQL_LT \<Rightarrow> compareUnits x y < 0 | WQL_LE \<Rightarrow> compareUnits x y \<le> 0
     | WQL_GT \<Rightarrow> compareUnits x y > 0 | WQL_GE \<Rightarrow> compareUnits x y \<ge> 0
     | _ \<Rightarrow> False)"

text \<open>The accessors, which throw for another type.\<close>

fun getIntegerValue :: "wqlOperand \<Rightarrow> wqlError + u64" where
  "getIntegerValue (IntegerValue x) = Inr x"
| "getIntegerValue _ = Inl TypeMismatch"

fun getDoubleValue :: "wqlOperand \<Rightarrow> wqlError + u64" where
  "getDoubleValue (DoubleValue x) = Inr x"
| "getDoubleValue _ = Inl TypeMismatch"

fun getBooleanValue :: "wqlOperand \<Rightarrow> wqlError + bool" where
  "getBooleanValue (BooleanValue x) = Inr x"
| "getBooleanValue _ = Inl TypeMismatch"

fun getStringValue :: "wqlOperand \<Rightarrow> wqlError + pstr" where
  "getStringValue (StringValue x) = Inr x"
| "getStringValue _ = Inl TypeMismatch"

text \<open>\<open>_Evaluate\<close>: two null values are not equal, once the assertion that there are none is gone.\<close>

fun evaluateOperands :: "wqlOperand \<Rightarrow> wqlOperand \<Rightarrow> wqlOperation \<Rightarrow> wqlError + bool" where
  "evaluateOperands NullValue rhs op = Inr False"
| "evaluateOperands (IntegerValue x) rhs op = bindE (getIntegerValue rhs) (\<lambda>y. Inr (compareIntegers op x y))"
| "evaluateOperands (DoubleValue x) rhs op = bindE (getDoubleValue rhs) (\<lambda>y. Inr (compareDoubles op x y))"
| "evaluateOperands (BooleanValue x) rhs op = bindE (getBooleanValue rhs) (\<lambda>y. Inr (compareBooleans op x y))"
| "evaluateOperands (StringValue x) rhs op = bindE (getStringValue rhs) (\<lambda>y. Inr (compareStrings op x y))"
| "evaluateOperands (PropertyName x) rhs op = Inr False"

subsection \<open>The statement\<close>

record wqlStatement =
  className :: pstr
  allProperties :: bool
  selectPropertyNames :: "pstr list"
  wherePropertyNames :: "pstr list"
  operations :: "wqlOperation list"
  operands :: "wqlOperand list"

definition newStatement :: wqlStatement where
  "newStatement =
    \<lparr>className = [], allProperties = False, selectPropertyNames = [], wherePropertyNames = [],
     operations = [], operands = []\<rparr>"

text \<open>\<open>clear\<close> leaves the property names of the where clause.\<close>

definition clearStatement :: "wqlStatement \<Rightarrow> wqlStatement" where
  "clearStatement s =
    s\<lparr>className := [], allProperties := False, selectPropertyNames := [], operations := [], operands := []\<rparr>"

definition appendSelectPropertyName :: "pstr \<Rightarrow> wqlStatement \<Rightarrow> wqlStatement" where
  "appendSelectPropertyName x s = s\<lparr>selectPropertyNames := selectPropertyNames s @ [x]\<rparr>"

definition appendWherePropertyName :: "pstr \<Rightarrow> wqlStatement \<Rightarrow> wqlStatement" where
  "appendWherePropertyName x s =
    (if \<exists>y \<in> set (wherePropertyNames s). cimNameEqual y x then s
     else s\<lparr>wherePropertyNames := wherePropertyNames s @ [x]\<rparr>)"

definition appendOperation :: "wqlOperation \<Rightarrow> wqlStatement \<Rightarrow> wqlStatement" where
  "appendOperation x s = s\<lparr>operations := operations s @ [x]\<rparr>"

definition appendOperand :: "wqlOperand \<Rightarrow> wqlStatement \<Rightarrow> wqlStatement" where
  "appendOperand x s = s\<lparr>operands := operands s @ [x]\<rparr>"

definition hasWhereClause :: "wqlStatement \<Rightarrow> bool" where
  "hasWhereClause s \<longleftrightarrow> length (operations s) \<noteq> 0"

subsection \<open>The actions of the grammar\<close>

text \<open>
  The conditions the grammar accepts. The truth value of an integer literal comes from the scanner as an
  \<open>int\<close>, of 32 bits.
\<close>

datatype wqlTerm = PropertyTerm pstr | IntegerTerm u32 | DoubleTerm u64 | StringTerm pstr | TruthTerm bool

datatype wqlCompare = TOK_LT | TOK_GT | TOK_LE | TOK_GE | TOK_EQ | TOK_NE

datatype wqlPredicate =
    Comparison wqlTerm wqlCompare wqlTerm
  | IsNull wqlTerm
  | IsNotNull wqlTerm

datatype wqlCondition =
    SearchOr wqlCondition wqlCondition
  | SearchAnd wqlCondition wqlCondition
  | SearchNot wqlCondition
  | Predicate wqlPredicate
  | IsTruth wqlPredicate bool
  | IsNotTruth wqlPredicate bool

fun termOperand :: "wqlTerm \<Rightarrow> wqlOperand" where
  "termOperand (PropertyTerm p) = PropertyName p"
| "termOperand (IntegerTerm i) = IntegerValue (scast i)"
| "termOperand (DoubleTerm d) = DoubleValue d"
| "termOperand (StringTerm t) = StringValue t"
| "termOperand (TruthTerm b) = BooleanValue b"

fun emitTerm :: "wqlTerm \<Rightarrow> wqlStatement \<Rightarrow> wqlStatement" where
  "emitTerm (PropertyTerm p) s = appendWherePropertyName p (appendOperand (PropertyName p) s)"
| "emitTerm t s = appendOperand (termOperand t) s"

fun compareOperation :: "wqlCompare \<Rightarrow> wqlOperation" where
  "compareOperation TOK_LT = WQL_LT"
| "compareOperation TOK_GT = WQL_GT"
| "compareOperation TOK_LE = WQL_LE"
| "compareOperation TOK_GE = WQL_GE"
| "compareOperation TOK_EQ = WQL_EQ"
| "compareOperation TOK_NE = WQL_NE"

fun emitPredicate :: "wqlPredicate \<Rightarrow> wqlStatement \<Rightarrow> wqlStatement" where
  "emitPredicate (Comparison l c r) s = appendOperation (compareOperation c) (emitTerm r (emitTerm l s))"
| "emitPredicate (IsNull t) s = appendOperation WQL_IS_NULL (emitTerm t s)"
| "emitPredicate (IsNotNull t) s = appendOperation WQL_IS_NOT_NULL (emitTerm t s)"

fun emitCondition :: "wqlCondition \<Rightarrow> wqlStatement \<Rightarrow> wqlStatement" where
  "emitCondition (SearchOr a b) s = appendOperation WQL_OR (emitCondition b (emitCondition a s))"
| "emitCondition (SearchAnd a b) s = appendOperation WQL_AND (emitCondition b (emitCondition a s))"
| "emitCondition (SearchNot a) s = appendOperation WQL_NOT (emitCondition a s)"
| "emitCondition (Predicate p) s = emitPredicate p s"
| "emitCondition (IsTruth p v) s = appendOperation (if v then WQL_IS_TRUE else WQL_IS_FALSE) (emitPredicate p s)"
| "emitCondition (IsNotTruth p v) s =
    appendOperation (if v then WQL_IS_NOT_TRUE else WQL_IS_NOT_FALSE) (emitPredicate p s)"

text \<open>A statement: the properties or \<open>*\<close>, the class, and perhaps a condition, into a cleared object.\<close>

definition emitStatement :: "pstr list option \<Rightarrow> pstr \<Rightarrow> wqlCondition option \<Rightarrow> wqlStatement \<Rightarrow> wqlStatement" where
  "emitStatement select from cond s0 =
    (let s1 = clearStatement s0;
         s2 = (case select of None \<Rightarrow> s1\<lparr>allProperties := True\<rparr> | Some ps \<Rightarrow> fold appendSelectPropertyName ps s1);
         s3 = s2\<lparr>className := from\<rparr>
     in (case cond of None \<Rightarrow> s3 | Some c \<Rightarrow> emitCondition c s3))"


subsection \<open>Evaluating the where clause\<close>

text \<open>A property source gives the value of a property, or \<open>None\<close> where \<open>getValue\<close> returns false.\<close>

type_synonym wqlSource = "pstr \<Rightarrow> wqlOperand option"

fun resolveProperty :: "wqlSource \<Rightarrow> wqlOperand \<Rightarrow> wqlOperand" where
  "resolveProperty source (PropertyName p) = (case source p of None \<Rightarrow> NullValue | Some v \<Rightarrow> v)"
| "resolveProperty source op = op"

definition operandAt :: "wqlOperand list \<Rightarrow> nat \<Rightarrow> wqlError + wqlOperand" where
  "operandAt os j = (if j < length os then Inr (os ! j) else Inl IndexOutOfBounds)"

text \<open>One operation. The top of the stack is the head of the list; \<open>j\<close> counts the operands used.\<close>

fun evalOperation :: "wqlSource \<Rightarrow> wqlOperand list \<Rightarrow> wqlOperation \<Rightarrow> bool list \<Rightarrow> nat \<Rightarrow> wqlError + bool list \<times> nat" where
  "evalOperation source os WQL_OR st j =
    (case st of operand1 # operand2 # st' \<Rightarrow> Inr ((operand1 \<or> operand2) # st', j) | _ \<Rightarrow> Inl StackUnderflow)"
| "evalOperation source os WQL_AND st j =
    (case st of operand1 # operand2 # st' \<Rightarrow> Inr ((operand1 \<and> operand2) # st', j) | _ \<Rightarrow> Inl StackUnderflow)"
| "evalOperation source os WQL_NOT st j =
    (case st of operand # st' \<Rightarrow> Inr ((\<not> operand) # st', j) | _ \<Rightarrow> Inl StackUnderflow)"
| "evalOperation source os WQL_IS_TRUE st j = Inr (st, j)"
| "evalOperation source os WQL_IS_NOT_FALSE st j = Inr (st, j)"
| "evalOperation source os WQL_IS_FALSE st j =
    (case st of operand # st' \<Rightarrow> Inr ((\<not> operand) # st', j) | _ \<Rightarrow> Inl StackUnderflow)"
| "evalOperation source os WQL_IS_NOT_TRUE st j =
    (case st of operand # st' \<Rightarrow> Inr ((\<not> operand) # st', j) | _ \<Rightarrow> Inl StackUnderflow)"
| "evalOperation source os WQL_IS_NULL st j =
    bindE (operandAt os j) (\<lambda>x. Inr ((operandType (resolveProperty source x) = NULL_VALUE) # st, j + 1))"
| "evalOperation source os WQL_IS_NOT_NULL st j =
    bindE (operandAt os j) (\<lambda>x. Inr ((operandType (resolveProperty source x) \<noteq> NULL_VALUE) # st, j + 1))"
| "evalOperation source os op st j =
    bindE (operandAt os j) (\<lambda>x. bindE (operandAt os (j + 1)) (\<lambda>y.
      let lhs = resolveProperty source x; rhs = resolveProperty source y in
      if operandType rhs \<noteq> operandType lhs then Inl TypeMismatch
      else bindE (evaluateOperands lhs rhs op) (\<lambda>b. Inr (b # st, j + 2))))"

fun evalLoop :: "wqlSource \<Rightarrow> wqlOperand list \<Rightarrow> wqlOperation list \<Rightarrow> bool list \<Rightarrow> nat \<Rightarrow> wqlError + bool list" where
  "evalLoop source os [] st j = Inr st"
| "evalLoop source os (op # ops) st j =
    bindE (evalOperation source os op st j) (\<lambda>(st', j'). evalLoop source os ops st' j')"

definition evaluateWhereClause :: "wqlSource \<Rightarrow> wqlStatement \<Rightarrow> wqlError + bool" where
  "evaluateWhereClause source s =
    (if \<not> hasWhereClause s then Inr True
     else bindE (evalLoop source (operands s) (operations s) [] 0) (\<lambda>st.
       case st of [] \<Rightarrow> Inl StackUnderflow | b # _ \<Rightarrow> Inr b))"

subsection \<open>The properties of an instance\<close>

text \<open>The value of a property: null, an array, or a scalar of its type.\<close>

datatype wqlCimValue =
    NullCim | ArrayCim
  | Uint8Cim u8 | Uint16Cim u16 | Uint32Cim u32 | Uint64Cim u64
  | Sint8Cim u8 | Sint16Cim u16 | Sint32Cim u32 | Sint64Cim u64
  | Real32Cim u32 | Real64Cim u64
  | BooleanCim bool | Char16Cim u16 | DateTimeCim CIMDateTimeRep | StringCim pstr
  | OtherCim

type_synonym wqlInstance = "(pstr \<times> wqlCimValue) list"

fun findProperty :: "wqlInstance \<Rightarrow> pstr \<Rightarrow> wqlCimValue option" where
  "findProperty [] name = None"
| "findProperty ((n, v) # ci) name = (if cimNameEqual n name then Some v else findProperty ci name)"

fun operandOf :: "wqlCimValue \<Rightarrow> wqlOperand option" where
  "operandOf NullCim = Some NullValue"
| "operandOf ArrayCim = None"
| "operandOf (Uint8Cim x) = Some (IntegerValue (ucast x))"
| "operandOf (Uint16Cim x) = Some (IntegerValue (ucast x))"
| "operandOf (Uint32Cim x) = Some (IntegerValue (ucast x))"
| "operandOf (Uint64Cim x) = Some (IntegerValue x)"
| "operandOf (Sint8Cim x) = Some (IntegerValue (scast x))"
| "operandOf (Sint16Cim x) = Some (IntegerValue (scast x))"
| "operandOf (Sint32Cim x) = Some (IntegerValue (scast x))"
| "operandOf (Sint64Cim x) = Some (IntegerValue x)"
| "operandOf (Real32Cim x) = Some (DoubleValue (widen x))"
| "operandOf (Real64Cim x) = Some (DoubleValue x)"
| "operandOf (BooleanCim b) = Some (BooleanValue b)"
| "operandOf (Char16Cim c) = Some (StringValue [c])"
| "operandOf (DateTimeCim d) = Some (StringValue (dt_toString d))"
| "operandOf (StringCim t) = Some (StringValue t)"
| "operandOf OtherCim = None"

definition instanceSource :: "wqlInstance \<Rightarrow> wqlSource" where
  "instanceSource ci name = (case findProperty ci name of None \<Rightarrow> None | Some v \<Rightarrow> operandOf v)"

definition evaluateInstance :: "wqlInstance \<Rightarrow> wqlStatement \<Rightarrow> wqlError + bool" where
  "evaluateInstance ci s = evaluateWhereClause (instanceSource ci) s"

subsection \<open>The projection\<close>

text \<open>The loop goes from the last property to the first.\<close>

primrec projectLoop :: "pstr list \<Rightarrow> nat \<Rightarrow> wqlInstance \<Rightarrow> wqlInstance" where
  "projectLoop names 0 ci = ci"
| "projectLoop names (Suc i) ci =
    projectLoop names i
      (if \<exists>s \<in> set names. cimNameEqual s (fst (ci ! i)) then ci else take i ci @ drop (Suc i) ci)"

definition applyProjection :: "wqlStatement \<Rightarrow> bool \<Rightarrow> wqlInstance \<Rightarrow> wqlError + wqlInstance" where
  "applyProjection s allowMissing ci =
    (if allProperties s then Inr ci
     else
       let ci' = projectLoop (selectPropertyNames s) (length ci) ci in
       if \<not> allowMissing \<and> (\<exists>n \<in> set (selectPropertyNames s). \<forall>p \<in> set ci'. \<not> cimNameEqual n (fst p))
       then Inl MissingProperty else Inr ci')"

subsection \<open>The property lists\<close>

text \<open>
  The context is its test for subclasses, or \<open>None\<close> for a null pointer. The list is \<open>None\<close> for a null
  list, which means all properties.
\<close>

type_synonym wqlContext = "(pstr \<Rightarrow> pstr \<Rightarrow> bool) option"

definition checkFromClass :: "wqlContext \<Rightarrow> wqlStatement \<Rightarrow> pstr \<Rightarrow> wqlError + unit" where
  "checkFromClass ctx s inClass =
    (let c = (if inClass = [] then className s else inClass) in
     if cimNameEqual c (className s) then Inr ()
     else case ctx of
         None \<Rightarrow> Inl NullContext
       | Some isSubClass \<Rightarrow> if isSubClass (className s) c then Inr () else Inl (NotFromClass c))"

definition getSelectPropertyList :: "wqlContext \<Rightarrow> wqlStatement \<Rightarrow> pstr \<Rightarrow> wqlError + pstr list option" where
  "getSelectPropertyList ctx s inClass =
    (if allProperties s then Inr None
     else bindE (checkFromClass ctx s inClass) (\<lambda>_. Inr (Some (selectPropertyNames s))))"

definition getWherePropertyList :: "wqlContext \<Rightarrow> wqlStatement \<Rightarrow> pstr \<Rightarrow> wqlError + pstr list" where
  "getWherePropertyList ctx s inClass =
    bindE (checkFromClass ctx s inClass) (\<lambda>_. Inr (wherePropertyNames s))"

function removeProperty :: "pstr \<Rightarrow> nat \<Rightarrow> pstr list \<Rightarrow> pstr list" where
  "removeProperty n j l =
    (if j < length l
     then removeProperty n (j + 1) (if cimNameEqual n (l ! j) then take j l @ drop (Suc j) l else l)
     else l)"
  by pat_completeness auto
termination by (relation "measure (\<lambda>(n, j, l). length l - j)") auto

declare removeProperty.simps [simp del]

definition getPropertyList :: "wqlContext \<Rightarrow> wqlStatement \<Rightarrow> pstr \<Rightarrow> wqlError + pstr list option" where
  "getPropertyList ctx s inClass =
    (case ctx of
       None \<Rightarrow> Inl NullContext
     | Some isSubClass \<Rightarrow>
         if allProperties s then Inr None
         else
           let c = (if inClass = [] then className s else inClass) in
           if \<not> cimNameEqual c (className s) \<and> \<not> isSubClass (className s) c then Inl (NotFromClass c)
           else
             bindE (getWherePropertyList ctx s inClass) (\<lambda>names.
             bindE (getSelectPropertyList ctx s inClass) (\<lambda>selected.
               Inr (Some (names @ fold (\<lambda>n. removeProperty n 0) names (case selected of None \<Rightarrow> [] | Some l \<Rightarrow> l))))))"


section \<open>What a where clause says\<close>

subsection \<open>The postfix form of a condition\<close>

fun predicateOperands :: "wqlPredicate \<Rightarrow> wqlOperand list" where
  "predicateOperands (Comparison l c r) = [termOperand l, termOperand r]"
| "predicateOperands (IsNull t) = [termOperand t]"
| "predicateOperands (IsNotNull t) = [termOperand t]"

fun predicateOperation :: "wqlPredicate \<Rightarrow> wqlOperation" where
  "predicateOperation (Comparison l c r) = compareOperation c"
| "predicateOperation (IsNull t) = WQL_IS_NULL"
| "predicateOperation (IsNotNull t) = WQL_IS_NOT_NULL"

fun conditionOperands :: "wqlCondition \<Rightarrow> wqlOperand list" where
  "conditionOperands (SearchOr a b) = conditionOperands a @ conditionOperands b"
| "conditionOperands (SearchAnd a b) = conditionOperands a @ conditionOperands b"
| "conditionOperands (SearchNot a) = conditionOperands a"
| "conditionOperands (Predicate p) = predicateOperands p"
| "conditionOperands (IsTruth p v) = predicateOperands p"
| "conditionOperands (IsNotTruth p v) = predicateOperands p"

fun conditionOperations :: "wqlCondition \<Rightarrow> wqlOperation list" where
  "conditionOperations (SearchOr a b) = conditionOperations a @ conditionOperations b @ [WQL_OR]"
| "conditionOperations (SearchAnd a b) = conditionOperations a @ conditionOperations b @ [WQL_AND]"
| "conditionOperations (SearchNot a) = conditionOperations a @ [WQL_NOT]"
| "conditionOperations (Predicate p) = [predicateOperation p]"
| "conditionOperations (IsTruth p v) = [predicateOperation p, if v then WQL_IS_TRUE else WQL_IS_FALSE]"
| "conditionOperations (IsNotTruth p v) = [predicateOperation p, if v then WQL_IS_NOT_TRUE else WQL_IS_NOT_FALSE]"

named_theorems wql_emit \<open>what the actions of the grammar append\<close>

lemma append_fields [wql_emit]:
  "operations (appendOperation x s) = operations s @ [x]"
  "operands (appendOperation x s) = operands s"
  "operations (appendOperand y s) = operations s"
  "operands (appendOperand y s) = operands s @ [y]"
  "operations (appendWherePropertyName n s) = operations s"
  "operands (appendWherePropertyName n s) = operands s"
  "operations (appendSelectPropertyName n s) = operations s"
  "operands (appendSelectPropertyName n s) = operands s"
  "selectPropertyNames (appendOperation x s) = selectPropertyNames s"
  "selectPropertyNames (appendOperand y s) = selectPropertyNames s"
  "selectPropertyNames (appendWherePropertyName n s) = selectPropertyNames s"
  "selectPropertyNames (appendSelectPropertyName n s) = selectPropertyNames s @ [n]"
  "wherePropertyNames (appendOperation x s) = wherePropertyNames s"
  "wherePropertyNames (appendOperand y s) = wherePropertyNames s"
  "wherePropertyNames (appendSelectPropertyName n s) = wherePropertyNames s"
  "allProperties (appendOperation x s) = allProperties s"
  "allProperties (appendOperand y s) = allProperties s"
  "allProperties (appendWherePropertyName n s) = allProperties s"
  "allProperties (appendSelectPropertyName n s) = allProperties s"
  "className (appendOperation x s) = className s"
  "className (appendOperand y s) = className s"
  "className (appendWherePropertyName n s) = className s"
  "className (appendSelectPropertyName n s) = className s"
  by (simp_all add: appendOperation_def appendOperand_def appendWherePropertyName_def appendSelectPropertyName_def)

lemma emitTerm_fields [wql_emit]:
  "operations (emitTerm t s) = operations s"
  "operands (emitTerm t s) = operands s @ [termOperand t]"
  "selectPropertyNames (emitTerm t s) = selectPropertyNames s"
  "allProperties (emitTerm t s) = allProperties s"
  "className (emitTerm t s) = className s"
  by (cases t; simp add: wql_emit)+

lemma emitPredicate_fields [wql_emit]:
  "operations (emitPredicate p s) = operations s @ [predicateOperation p]"
  "operands (emitPredicate p s) = operands s @ predicateOperands p"
  "selectPropertyNames (emitPredicate p s) = selectPropertyNames s"
  "allProperties (emitPredicate p s) = allProperties s"
  "className (emitPredicate p s) = className s"
  by (cases p; simp add: wql_emit)+

lemma emitCondition_fields [wql_emit]:
  "operations (emitCondition c s) = operations s @ conditionOperations c"
  "operands (emitCondition c s) = operands s @ conditionOperands c"
  "selectPropertyNames (emitCondition c s) = selectPropertyNames s"
  "allProperties (emitCondition c s) = allProperties s"
  "className (emitCondition c s) = className s"
  by (induction c arbitrary: s) (simp_all add: wql_emit)

lemma emitSelect_fields [wql_emit]:
  "operations (fold appendSelectPropertyName ps s) = operations s"
  "operands (fold appendSelectPropertyName ps s) = operands s"
  "selectPropertyNames (fold appendSelectPropertyName ps s) = selectPropertyNames s @ ps"
  "allProperties (fold appendSelectPropertyName ps s) = allProperties s"
  "wherePropertyNames (fold appendSelectPropertyName ps s) = wherePropertyNames s"
  by (induction ps arbitrary: s) (simp_all add: wql_emit)

lemma emitStatement_fields [wql_emit]:
  "operations (emitStatement sel from cond s0) = (case cond of None \<Rightarrow> [] | Some c \<Rightarrow> conditionOperations c)"
  "operands (emitStatement sel from cond s0) = (case cond of None \<Rightarrow> [] | Some c \<Rightarrow> conditionOperands c)"
  "selectPropertyNames (emitStatement sel from cond s0) = (case sel of None \<Rightarrow> [] | Some ps \<Rightarrow> ps)"
  "allProperties (emitStatement sel from cond s0) = (sel = None)"
  "className (emitStatement sel from cond s0) = from"
  by (cases sel; cases cond; simp add: emitStatement_def clearStatement_def wql_emit)+

lemma conditionOperations_not_Nil: "conditionOperations c \<noteq> []"
  by (cases c) simp_all

subsection \<open>The value of a condition\<close>

text \<open>Both sides are always evaluated, and throw when the types of a comparison differ.\<close>

fun predicateValue :: "wqlSource \<Rightarrow> wqlPredicate \<Rightarrow> wqlError + bool" where
  "predicateValue source (Comparison l c r) =
    (let lhs = resolveProperty source (termOperand l); rhs = resolveProperty source (termOperand r) in
     if operandType lhs \<noteq> operandType rhs then Inl TypeMismatch else evaluateOperands lhs rhs (compareOperation c))"
| "predicateValue source (IsNull t) = Inr (resolveProperty source (termOperand t) = NullValue)"
| "predicateValue source (IsNotNull t) = Inr (resolveProperty source (termOperand t) \<noteq> NullValue)"

fun conditionValue :: "wqlSource \<Rightarrow> wqlCondition \<Rightarrow> wqlError + bool" where
  "conditionValue source (SearchOr a b) =
    bindE (conditionValue source a) (\<lambda>x. bindE (conditionValue source b) (\<lambda>y. Inr (x \<or> y)))"
| "conditionValue source (SearchAnd a b) =
    bindE (conditionValue source a) (\<lambda>x. bindE (conditionValue source b) (\<lambda>y. Inr (x \<and> y)))"
| "conditionValue source (SearchNot a) = bindE (conditionValue source a) (\<lambda>x. Inr (\<not> x))"
| "conditionValue source (Predicate p) = predicateValue source p"
| "conditionValue source (IsTruth p v) = bindE (predicateValue source p) (\<lambda>x. Inr (x = v))"
| "conditionValue source (IsNotTruth p v) = bindE (predicateValue source p) (\<lambda>x. Inr (x \<noteq> v))"

lemma bindE_bindE: "bindE (bindE m f) g = bindE m (\<lambda>x. bindE (f x) g)"
  by (cases m) simp_all

lemma type_null: "operandType x = NULL_VALUE \<longleftrightarrow> x = NullValue"
  by (cases x) simp_all

lemma operandAt_append:
  "operandAt (pre @ x # post) (length pre) = Inr x"
  "operandAt (pre @ x # y # post) (Suc (length pre)) = Inr y"
  by (simp_all add: operandAt_def nth_append)

lemma evalPredicate:
  "evalOperation source (pre @ predicateOperands p @ post) (predicateOperation p) st (length pre) =
    bindE (predicateValue source p) (\<lambda>b. Inr (b # st, length pre + length (predicateOperands p)))"
proof (cases p)
  case (Comparison l c r)
  have "evalOperation source os (compareOperation c) st j =
    bindE (operandAt os j) (\<lambda>x. bindE (operandAt os (j + 1)) (\<lambda>y.
      let lhs = resolveProperty source x; rhs = resolveProperty source y in
      if operandType rhs \<noteq> operandType lhs then Inl TypeMismatch
      else bindE (evaluateOperands lhs rhs (compareOperation c)) (\<lambda>b. Inr (b # st, j + 2))))" for os j
    by (cases c) (simp_all only: compareOperation.simps evalOperation.simps)
  then show ?thesis using Comparison by (auto simp: operandAt_append Let_def)
qed (simp_all add: operandAt_append type_null)

lemma evalCondition:
  "evalLoop source (pre @ conditionOperands c @ post) (conditionOperations c @ rest) st (length pre) =
    bindE (conditionValue source c) (\<lambda>b.
      evalLoop source (pre @ conditionOperands c @ post) rest (b # st) (length pre + length (conditionOperands c)))"
proof (induction c arbitrary: pre post rest st)
  case (SearchOr a b)
  show ?case
    using SearchOr.IH(1) [of pre "conditionOperands b @ post" "conditionOperations b @ WQL_OR # rest"]
      SearchOr.IH(2) [of "pre @ conditionOperands a" post "WQL_OR # rest"]
    by (cases "conditionValue source a"; cases "conditionValue source b") (simp_all add: add.assoc disj_commute)
next
  case (SearchAnd a b)
  show ?case
    using SearchAnd.IH(1) [of pre "conditionOperands b @ post" "conditionOperations b @ WQL_AND # rest"]
      SearchAnd.IH(2) [of "pre @ conditionOperands a" post "WQL_AND # rest"]
    by (cases "conditionValue source a"; cases "conditionValue source b") (simp_all add: add.assoc conj_commute)
next
  case (SearchNot a)
  show ?case using SearchNot.IH [of pre post "WQL_NOT # rest"] by (simp add: bindE_bindE)
next
  case (Predicate p)
  show ?case using evalPredicate [of source pre p post st] by (simp add: bindE_bindE)
next
  case (IsTruth p v)
  show ?case using evalPredicate [of source pre p post st] by (cases v) (simp_all add: bindE_bindE)
next
  case (IsNotTruth p v)
  show ?case using evalPredicate [of source pre p post st] by (cases v) (simp_all add: bindE_bindE)
qed

text \<open>The comparisons of a condition, and when one of them throws.\<close>

fun predicateComparisons :: "wqlPredicate \<Rightarrow> (wqlTerm \<times> wqlTerm) list" where
  "predicateComparisons (Comparison l c r) = [(l, r)]"
| "predicateComparisons _ = []"

fun comparisons :: "wqlCondition \<Rightarrow> (wqlTerm \<times> wqlTerm) list" where
  "comparisons (SearchOr a b) = comparisons a @ comparisons b"
| "comparisons (SearchAnd a b) = comparisons a @ comparisons b"
| "comparisons (SearchNot a) = comparisons a"
| "comparisons (Predicate p) = predicateComparisons p"
| "comparisons (IsTruth p v) = predicateComparisons p"
| "comparisons (IsNotTruth p v) = predicateComparisons p"

definition typesAgree :: "wqlSource \<Rightarrow> wqlTerm \<times> wqlTerm \<Rightarrow> bool" where
  "typesAgree source = (\<lambda>(l, r).
    operandType (resolveProperty source (termOperand l)) = operandType (resolveProperty source (termOperand r)))"

lemma evaluateOperands_same_type:
  "operandType x = operandType y \<Longrightarrow> \<exists>b. evaluateOperands x y op = Inr b"
  by (cases x; cases y) auto

lemma predicateValue_error:
  "predicateValue source p = Inl e \<longleftrightarrow> e = TypeMismatch \<and> (\<exists>t \<in> set (predicateComparisons p). \<not> typesAgree source t)"
proof (cases p)
  case (Comparison l c r)
  then show ?thesis
    using evaluateOperands_same_type [of "resolveProperty source (termOperand l)" "resolveProperty source (termOperand r)" "compareOperation c"]
    by (auto simp: typesAgree_def Let_def)
qed simp_all

lemma conditionValue_error:
  "conditionValue source c = Inl e \<longleftrightarrow> e = TypeMismatch \<and> (\<exists>t \<in> set (comparisons c). \<not> typesAgree source t)"
proof (induction c arbitrary: e)
  case (SearchOr a b)
  then show ?case by (cases "conditionValue source a"; cases "conditionValue source b") (auto simp: bindE_eq_Inl)
next
  case (SearchAnd a b)
  then show ?case by (cases "conditionValue source a"; cases "conditionValue source b") (auto simp: bindE_eq_Inl)
next
  case (SearchNot a)
  then show ?case by (cases "conditionValue source a") auto
qed (simp_all add: bindE_eq_Inl predicateValue_error)


lemma evaluate_emitted:
  "evaluateWhereClause source (emitStatement sel from (Some c) s0) = conditionValue source c"
proof -
  have "evalLoop source (conditionOperands c) (conditionOperations c) [] 0 = bindE (conditionValue source c) (\<lambda>b. Inr [b])"
    using evalCondition [of source "[]" c "[]" "[]" "[]"] by simp
  then show ?thesis
    using conditionOperations_not_Nil [of c]
    by (cases "conditionValue source c") (simp_all add: evaluateWhereClause_def hasWhereClause_def wql_emit)
qed

subsection \<open>The projection and the property lists\<close>

lemma projectLoop_filter:
  "i \<le> length ci \<Longrightarrow>
   projectLoop names i ci = filter (\<lambda>p. \<exists>s \<in> set names. cimNameEqual s (fst p)) (take i ci) @ drop i ci"
proof (induction i arbitrary: ci)
  case (Suc i)
  have take: "take (Suc i) ci = take i ci @ [ci ! i]" using Suc.prems by (simp add: take_Suc_conv_app_nth)
  have drop: "drop i ci = ci ! i # drop (Suc i) ci" using Suc.prems by (simp add: Cons_nth_drop_Suc)
  show ?case
  proof (cases "\<exists>s \<in> set names. cimNameEqual s (fst (ci ! i))")
    case True
    then show ?thesis using Suc.IH [of ci] Suc.prems by (simp add: take drop)
  next
    case False
    then show ?thesis using Suc.IH [of "take i ci @ drop (Suc i) ci"] Suc.prems by (simp add: take)
  qed
qed simp

lemma projection_eq:
  "projectLoop names (length ci) ci = filter (\<lambda>p. \<exists>s \<in> set names. cimNameEqual s (fst p)) ci"
  by (simp add: projectLoop_filter)

lemma cimNameEqual_lower: "cimNameEqual a b \<longleftrightarrow> toLowerUnits a = toLowerUnits b"
  by (simp add: cimNameEqual_def equalNoCase_eq toLowerUnits_eq)

text \<open>The loop that removes a name takes out every occurrence but those right after one it took out.\<close>

lemma removeProperty_past: "\<not> j < length l \<Longrightarrow> removeProperty n j l = l"
  by (subst removeProperty.simps) simp

lemma removeProperty_no:
  "j \<le> length l \<Longrightarrow> \<forall>y \<in> set (drop j l). \<not> cimNameEqual n y \<Longrightarrow> removeProperty n j l = l"
proof (induction n j l rule: removeProperty.induct)
  case (1 n j l)
  show ?case
  proof (cases "j < length l")
    case True
    then have "\<not> cimNameEqual n (l ! j)" using "1.prems"(2) by (metis Cons_nth_drop_Suc list.set_intros(1))
    moreover have "\<forall>y \<in> set (drop (j + 1) l). \<not> cimNameEqual n y"
      using "1.prems"(2) set_drop_subset_set_drop [of j "j + 1" l] by auto
    ultimately show ?thesis using "1.IH" True by (subst removeProperty.simps) simp
  qed (simp add: removeProperty_past)
qed

lemma removeProperty_filter:
  "j \<le> length l \<Longrightarrow> distinct (map toLowerUnits (drop j l)) \<Longrightarrow>
   removeProperty n j l = take j l @ filter (\<lambda>y. \<not> cimNameEqual n y) (drop j l)"
proof (induction n j l rule: removeProperty.induct)
  case (1 n j l)
  show ?case
  proof (cases "j < length l")
    case True
    then have drop: "drop j l = l ! j # drop (Suc j) l" by (simp add: Cons_nth_drop_Suc)
    have take: "take (Suc j) l = take j l @ [l ! j]" using True by (simp add: take_Suc_conv_app_nth)
    show ?thesis
    proof (cases "cimNameEqual n (l ! j)")
      case True
      have rest: "\<forall>y \<in> set (drop (Suc j) l). \<not> cimNameEqual n y"
        using "1.prems"(2) True by (auto simp: drop cimNameEqual_lower)
      let ?l = "take j l @ drop (Suc j) l"
      have "removeProperty n (j + 1) ?l = ?l"
      proof (cases "j + 1 \<le> length ?l")
        case True
        have "set (drop (j + 1) ?l) \<subseteq> set (drop (Suc j) l)" using \<open>j < length l\<close>
          by (simp add: set_drop_subset_set_drop)
        then show ?thesis using rest True by (intro removeProperty_no) auto
      qed (simp add: removeProperty_past)
      then show ?thesis using True rest \<open>j < length l\<close> by (subst removeProperty.simps) (simp add: drop)
    next
      case False
      then show ?thesis using "1.IH" "1.prems" \<open>j < length l\<close>
        by (subst removeProperty.simps) (simp add: drop take)
    qed
  qed (simp add: removeProperty_past)
qed

lemma removeProperties_filter:
  "distinct (map toLowerUnits l) \<Longrightarrow>
   fold (\<lambda>n. removeProperty n 0) names l = filter (\<lambda>y. \<forall>n \<in> set names. \<not> cimNameEqual n y) l"
proof (induction names arbitrary: l)
  case (Cons n names)
  have "distinct (map toLowerUnits (filter (\<lambda>y. \<not> cimNameEqual n y) l))"
    using Cons.prems by (simp add: distinct_map_filter)
  then show ?case using Cons.IH Cons.prems removeProperty_filter [of 0 l n] by simp
qed simp

text \<open>The properties of a condition, and the list the parser gathers.\<close>

fun termProperties :: "wqlTerm \<Rightarrow> pstr list" where
  "termProperties (PropertyTerm p) = [p]"
| "termProperties _ = []"

fun predicateProperties :: "wqlPredicate \<Rightarrow> pstr list" where
  "predicateProperties (Comparison l c r) = termProperties l @ termProperties r"
| "predicateProperties (IsNull t) = termProperties t"
| "predicateProperties (IsNotNull t) = termProperties t"

fun conditionProperties :: "wqlCondition \<Rightarrow> pstr list" where
  "conditionProperties (SearchOr a b) = conditionProperties a @ conditionProperties b"
| "conditionProperties (SearchAnd a b) = conditionProperties a @ conditionProperties b"
| "conditionProperties (SearchNot a) = conditionProperties a"
| "conditionProperties (Predicate p) = predicateProperties p"
| "conditionProperties (IsTruth p v) = predicateProperties p"
| "conditionProperties (IsNotTruth p v) = predicateProperties p"

definition whereOk :: "pstr list \<Rightarrow> wqlStatement \<Rightarrow> wqlStatement \<Rightarrow> bool" where
  "whereOk ps s s' \<longleftrightarrow>
     (distinct (map toLowerUnits (wherePropertyNames s)) \<longrightarrow> distinct (map toLowerUnits (wherePropertyNames s'))) \<and>
     set (map toLowerUnits (wherePropertyNames s')) = set (map toLowerUnits (wherePropertyNames s @ ps)) \<and>
     (\<exists>l. wherePropertyNames s' = wherePropertyNames s @ l)"

lemma whereOk_refl: "wherePropertyNames s' = wherePropertyNames s \<Longrightarrow> whereOk [] s s'"
  by (simp add: whereOk_def)

lemma whereOk_trans: "whereOk ps s s' \<Longrightarrow> whereOk qs s' s'' \<Longrightarrow> whereOk (ps @ qs) s s''"
  by (auto simp: whereOk_def)

lemma appendWhere_ok: "whereOk [p] s (appendWherePropertyName p (appendOperand x s))"
  proof (cases "\<exists>y \<in> set (wherePropertyNames s). toLowerUnits y = toLowerUnits p")
  case True
  then have "toLowerUnits p \<in> toLowerUnits ` set (wherePropertyNames s)" by (metis image_eqI)
  then show ?thesis using True
    by (auto simp: whereOk_def appendWherePropertyName_def appendOperand_def cimNameEqual_lower insert_absorb)
qed (auto simp: whereOk_def appendWherePropertyName_def appendOperand_def cimNameEqual_lower)

lemma whereOk_append [simp]: "whereOk ps s (appendOperation x s') \<longleftrightarrow> whereOk ps s s'"
  by (simp add: whereOk_def appendOperation_def)

lemma emitTerm_where: "whereOk (termProperties t) s (emitTerm t s)"
  by (cases t) (simp_all add: appendWhere_ok whereOk_refl wql_emit)

lemma emitPredicate_where: "whereOk (predicateProperties p) s (emitPredicate p s)"
  by (cases p) (auto intro: whereOk_trans emitTerm_where)

lemma emitCondition_where: "whereOk (conditionProperties c) s (emitCondition c s)"
  by (induction c arbitrary: s) (auto intro: whereOk_trans emitPredicate_where)

lemma emitStatement_where:
  "whereOk (case cond of None \<Rightarrow> [] | Some c \<Rightarrow> conditionProperties c) s0 (emitStatement sel from cond s0)"
proof -
  define s3 where "s3 = (case sel of None \<Rightarrow> (clearStatement s0)\<lparr>allProperties := True\<rparr>
    | Some ps \<Rightarrow> fold appendSelectPropertyName ps (clearStatement s0))\<lparr>className := from\<rparr>"
  have "wherePropertyNames s3 = wherePropertyNames s0"
    by (cases sel) (simp_all add: s3_def clearStatement_def wql_emit)
  then have "whereOk ps s0 s = whereOk ps s3 s" for ps s by (simp add: whereOk_def)
  moreover have "emitStatement sel from cond s0 = (case cond of None \<Rightarrow> s3 | Some c \<Rightarrow> emitCondition c s3)"
    unfolding emitStatement_def s3_def Let_def ..
  ultimately show ?thesis by (cases cond) (simp_all add: emitCondition_where whereOk_refl)
qed


subsection \<open>Properties\<close>

text \<open>
  C12: the value of a where clause. For every statement the parser builds, into whatever statement
  object, \<open>evaluateWhereClause\<close> on its postfix code is true without a condition, and otherwise has the value
  of the condition as written. It throws exactly when the operands of some comparison have different types,
  in whatever part of the condition it stands, and the exception is a type mismatch: no part is skipped, the stack
  never underflows, and no operand is read past the end of the array.
\<close>

theorem where_clause_exact:
  "(evaluateWhereClause source (emitStatement sel from cond s0) =
      (case cond of None \<Rightarrow> Inr True | Some c \<Rightarrow> conditionValue source c)) \<and>
   (evaluateWhereClause source (emitStatement sel from cond s0) = Inl e \<longleftrightarrow>
      (\<exists>c. cond = Some c \<and> e = TypeMismatch \<and> (\<exists>t \<in> set (comparisons c). \<not> typesAgree source t)))"
proof (cases cond)
  case None
  then show ?thesis by (simp add: evaluateWhereClause_def hasWhereClause_def wql_emit)
qed (simp add: evaluate_emitted conditionValue_error)



text \<open>
  C30: what goes wrong. A statement parsed into a used object still has the property names of
  the conditions before, since \<open>clear\<close> leaves them. A property named twice in the select list and also in the
  condition stays in the property list twice. For two properties without a value both \<open>=\<close> and \<open><>\<close> are false,
  against the comment that this cannot happen. And an unsigned property of 64 bits with the upper bit set is less than zero.
\<close>

theorem wql_defects:
  assumes "source p = Some NullValue \<or> source p = None" and "source q = Some NullValue \<or> source q = None"
    and "2 ^ 63 \<le> unat x"
  shows "set (wherePropertyNames s0) \<subseteq> set (wherePropertyNames (emitStatement sel from cond s0)) \<and>
    getPropertyList (Some isSubClass) (emitStatement (Some [p, p]) from (Some (Predicate (IsNull (PropertyTerm p)))) newStatement) []
      = Inr (Some [p, p]) \<and>
    evaluateWhereClause source (emitStatement sel from (Some (Predicate (Comparison (PropertyTerm p) TOK_EQ (PropertyTerm q)))) s0)
      = Inr False \<and>
    evaluateWhereClause source (emitStatement sel from (Some (Predicate (Comparison (PropertyTerm p) TOK_NE (PropertyTerm q)))) s0)
      = Inr False \<and>
    evaluateInstance [(p, Uint64Cim x)]
      (emitStatement sel from (Some (Predicate (Comparison (PropertyTerm p) TOK_LT (IntegerTerm 0)))) s0) = Inr True"
proof (intro conjI)
  show "set (wherePropertyNames s0) \<subseteq> set (wherePropertyNames (emitStatement sel from cond s0))"
    using emitStatement_where [of cond s0 sel "from"] by (auto simp: whereOk_def)
  have "\<not> uint x < 2 ^ 63" using assms(3) by (simp only: uint_unat_less not_less)
  then have "sint x < 0" unfolding sint_cases using uint_lt2p [of x] by simp
  then show "evaluateInstance [(p, Uint64Cim x)]
      (emitStatement sel from (Some (Predicate (Comparison (PropertyTerm p) TOK_LT (IntegerTerm 0)))) s0) = Inr True"
    by (simp add: evaluateInstance_def evaluate_emitted instanceSource_def cimNameEqual_lower compareIntegers_def)
  show "evaluateWhereClause source (emitStatement sel from (Some (Predicate (Comparison (PropertyTerm p) TOK_EQ (PropertyTerm q)))) s0) = Inr False"
    "evaluateWhereClause source (emitStatement sel from (Some (Predicate (Comparison (PropertyTerm p) TOK_NE (PropertyTerm q)))) s0) = Inr False"
    using assms(1,2) by (auto simp: evaluate_emitted)
  have "removeProperty p 0 [p, p] = [p]"
    by (subst removeProperty.simps, subst removeProperty.simps) (simp add: cimNameEqual_lower)
  then show "getPropertyList (Some isSubClass) (emitStatement (Some [p, p]) from (Some (Predicate (IsNull (PropertyTerm p)))) newStatement) []
      = Inr (Some [p, p])"
    by (simp add: getPropertyList_def getWherePropertyList_def getSelectPropertyList_def checkFromClass_def cimNameEqual_lower
        emitStatement_def clearStatement_def newStatement_def appendWherePropertyName_def appendOperand_def
        appendOperation_def appendSelectPropertyName_def Let_def)
qed

theorem wql_defects_witness:
  "evaluateInstance [(units ''a'', Uint64Cim 0x8000000000000000)]
    (emitStatement None (units ''C'') (Some (Predicate (Comparison (PropertyTerm (units ''a'')) TOK_LT (IntegerTerm 0)))) newStatement) = Inr True"
proof -
  have "(2 :: nat) ^ 63 \<le> unat (0x8000000000000000 :: u64)" by simp
  from wql_defects [OF _ _ this, of "\<lambda>_. None" "units ''a''" "units ''b''" newStatement None "units ''C''"] show ?thesis by simp
qed

end
