(* ===== verification/WqlDnf.thy ===== *)
theory WqlDnf
  imports Wql "HOL-Library.Multiset"
begin

section \<open>The disjunctive normal form of a where clause\<close>

text \<open>
  \<^verbatim>\<open>Pegasus/ProviderManager2/CMPI/CMPI_Wql2Dnf.cpp\<close>: the where clause of a statement as a disjunction of
  conjunctions of comparisons, the tableau that CMPI providers are given. The postfix code becomes two
  arrays, the comparisons and the operators over them, each operator with two operands that are indices
  into one array or the other; an operator comes after its operands. \<open>_pushNOTDown\<close> moves the negations
  to the comparisons, \<open>_factoring\<close> distributes conjunction over disjunction by inserting operators, and
  \<open>_gather\<close> reads off the disjuncts and the conjuncts of each.

  An index outside its array throws, as \<open>Array::operator[]\<close> does. A loop whose end is not evident is a
  function into an \<open>option\<close>, \<open>None\<close> when it does not return. The \<open>int\<close> indices are unbounded. The texts of the
  operands in the final table, made by \<open>_populateTableau\<close>, are left out.
\<close>

subsection \<open>The two arrays\<close>

record termEl =
  tMark :: bool
  tOp :: wqlOperation
  tOpn1 :: wqlOperand
  tOpn2 :: wqlOperand

record stackEl =
  opn :: int
  isTerminal :: bool

record evalEl =
  eMark :: bool
  eOp :: wqlOperation
  eOpn1 :: int
  eTerm1 :: bool
  eOpn2 :: int
  eTerm2 :: bool

definition stackRef :: "int \<Rightarrow> bool \<Rightarrow> stackEl" where
  "stackRef o' t = \<lparr>opn = o', isTerminal = t\<rparr>"

definition getFirst :: "evalEl \<Rightarrow> stackEl" where
  "getFirst e = stackRef (eOpn1 e) (eTerm1 e)"

definition getSecond :: "evalEl \<Rightarrow> stackEl" where
  "getSecond e = stackRef (eOpn2 e) (eTerm2 e)"

definition setFirst :: "stackEl \<Rightarrow> evalEl \<Rightarrow> evalEl" where
  "setFirst s e = e\<lparr>eOpn1 := opn s, eTerm1 := isTerminal s\<rparr>"

definition setSecond :: "stackEl \<Rightarrow> evalEl \<Rightarrow> evalEl" where
  "setSecond s e = e\<lparr>eOpn2 := opn s, eTerm2 := isTerminal s\<rparr>"

definition assignUnaryToFirst :: "evalEl \<Rightarrow> evalEl \<Rightarrow> evalEl" where
  "assignUnaryToFirst assignee e = e\<lparr>eOpn1 := eOpn1 assignee, eTerm1 := eTerm1 assignee\<rparr>"

definition assignUnaryToSecond :: "evalEl \<Rightarrow> evalEl \<Rightarrow> evalEl" where
  "assignUnaryToSecond assignee e = e\<lparr>eOpn2 := eOpn1 assignee, eTerm2 := eTerm1 assignee\<rparr>"

definition order :: "evalEl \<Rightarrow> evalEl" where
  "order e =
    (if \<not> eTerm1 e \<and> \<not> eTerm2 e then
       (if eOpn2 e > eOpn1 e then e\<lparr>eOpn2 := eOpn1 e, eOpn1 := eOpn2 e\<rparr> else e)
     else if eTerm1 e \<and> \<not> eTerm2 e then
       (if eOpn2 e > eOpn1 e then e\<lparr>eOpn2 := eOpn1 e, eOpn1 := eOpn2 e, eTerm1 := False, eTerm2 := True\<rparr> else e)
     else e)"

fun negateOp :: "wqlOperation \<Rightarrow> wqlOperation" where
  "negateOp WQL_EQ = WQL_NE"
| "negateOp WQL_NE = WQL_EQ"
| "negateOp WQL_LT = WQL_GE"
| "negateOp WQL_LE = WQL_GT"
| "negateOp WQL_GT = WQL_LE"
| "negateOp WQL_GE = WQL_LT"
| "negateOp op = op"

definition negateTerm :: "termEl \<Rightarrow> termEl" where
  "negateTerm t = t\<lparr>tOp := negateOp (tOp t)\<rparr>"

text \<open>Equality of operands and of comparisons.\<close>

fun operandEqual :: "wqlOperand \<Rightarrow> wqlOperand \<Rightarrow> bool" where
  "operandEqual (PropertyName x) (PropertyName y) = stringEqual x y"
| "operandEqual (IntegerValue x) (IntegerValue y) = (sint x = sint y)"
| "operandEqual (DoubleValue x) (DoubleValue y) = realEqual x y"
| "operandEqual (BooleanValue x) (BooleanValue y) = (x = y)"
| "operandEqual (StringValue x) (StringValue y) = stringEqual x y"
| "operandEqual NullValue NullValue = True"
| "operandEqual _ _ = False"

definition termEqual :: "termEl \<Rightarrow> termEl \<Rightarrow> bool" where
  "termEqual x y \<longleftrightarrow> tOp x = tOp y \<and> operandEqual (tOpn1 x) (tOpn1 y) \<and> operandEqual (tOpn2 x) (tOpn2 y)"

definition addIfNotExists :: "termEl list \<Rightarrow> termEl \<Rightarrow> termEl list" where
  "addIfNotExists tr el = (if \<exists>t \<in> set tr. termEqual t el then tr else tr @ [el])"

definition elementAt :: "'a list \<Rightarrow> int \<Rightarrow> wqlError + 'a" where
  "elementAt xs i = (if 0 \<le> i \<and> nat i < length xs then Inr (xs ! nat i) else Inl IndexOutOfBounds)"

subsection \<open>From the postfix code to the arrays\<close>

text \<open>The comparison for a test for null has a null operand that is never set.\<close>

definition termOf :: "wqlOperation \<Rightarrow> wqlOperand \<Rightarrow> wqlOperand \<Rightarrow> termEl" where
  "termOf op l r = \<lparr>tMark = False, tOp = op, tOpn1 = l, tOpn2 = r\<rparr>"

type_synonym buildState = "stackEl list \<times> termEl list \<times> evalEl list \<times> nat"

definition pushTerm :: "termEl \<Rightarrow> nat \<Rightarrow> buildState \<Rightarrow> buildState" where
  "pushTerm t j = (\<lambda>(st, ts, h, _). (stackRef (int (length ts)) True # st, ts @ [t], h, j))"

fun buildOperation :: "wqlOperand list \<Rightarrow> wqlOperation \<Rightarrow> buildState \<Rightarrow> wqlError + buildState" where
  "buildOperation os op (st, ts, h, j) =
    (if op = WQL_OR \<or> op = WQL_AND then
       (case st of
          op1 # op2 # st' \<Rightarrow>
            Inr (stackRef (int (length h)) False # st', ts,
              h @ [\<lparr>eMark = False, eOp = op, eOpn1 = opn op1, eTerm1 = isTerminal op1, eOpn2 = opn op2, eTerm2 = isTerminal op2\<rparr>], j)
        | _ \<Rightarrow> Inl StackUnderflow)
     else if op = WQL_NOT \<or> op = WQL_IS_FALSE \<or> op = WQL_IS_NOT_TRUE then
       (case st of
          op1 # st' \<Rightarrow>
            Inr (stackRef (int (length h)) False # st', ts,
              h @ [\<lparr>eMark = False, eOp = op, eOpn1 = opn op1, eTerm1 = isTerminal op1, eOpn2 = -1, eTerm2 = True\<rparr>], j)
        | _ \<Rightarrow> Inl StackUnderflow)
     else if op = WQL_IS_TRUE \<or> op = WQL_IS_NOT_FALSE then Inr (st, ts, h, j)
     else if op = WQL_IS_NULL then
       bindE (operandAt os j) (\<lambda>x. Inr (pushTerm (termOf WQL_EQ x NullValue) (j + 1) (st, ts, h, j)))
     else if op = WQL_IS_NOT_NULL then
       bindE (operandAt os j) (\<lambda>x. Inr (pushTerm (termOf WQL_NE x NullValue) (j + 1) (st, ts, h, j)))
     else
       bindE (operandAt os j) (\<lambda>x. bindE (operandAt os (j + 1)) (\<lambda>y.
         Inr (pushTerm (termOf op x y) (j + 2) (st, ts, h, j)))))"

fun buildEvalHeap :: "wqlOperand list \<Rightarrow> wqlOperation list \<Rightarrow> buildState \<Rightarrow> wqlError + buildState" where
  "buildEvalHeap os [] s = Inr s"
| "buildEvalHeap os (op # ops) s = bindE (buildOperation os op s) (buildEvalHeap os ops)"

subsection \<open>Moving negations down\<close>

definition isNot :: "wqlOperation \<Rightarrow> bool" where
  "isNot op \<longleftrightarrow> op = WQL_NOT \<or> op = WQL_IS_FALSE \<or> op = WQL_IS_NOT_TRUE"

text \<open>Every operand that is entry \<open>i\<close> becomes the operand of entry \<open>i\<close>.\<close>

definition substitute :: "nat \<Rightarrow> evalEl \<Rightarrow> evalEl \<Rightarrow> evalEl" where
  "substitute i x e =
    (let e' = (if \<not> eTerm1 e \<and> eOpn1 e = int i then assignUnaryToFirst x e else e)
     in if \<not> eTerm2 e' \<and> eOpn2 e' = int i then assignUnaryToSecond x e' else e')"

definition dualOp :: "wqlOperation \<Rightarrow> wqlOperation" where
  "dualOp op = (if op = WQL_OR then WQL_AND else if op = WQL_AND then WQL_OR else op)"

definition flipOperand :: "stackEl \<Rightarrow> evalEl list \<times> termEl list \<Rightarrow> wqlError + evalEl list \<times> termEl list" where
  "flipOperand s = (\<lambda>(h, ts).
    if isTerminal s then bindE (elementAt ts (opn s)) (\<lambda>t. Inr (h, ts[nat (opn s) := negateTerm t]))
    else bindE (elementAt h (opn s)) (\<lambda>e. Inr (h[nat (opn s) := e\<lparr>eMark := \<not> eMark e\<rparr>], ts)))"

definition pushStep :: "nat \<Rightarrow> evalEl list \<times> termEl list \<Rightarrow> wqlError + evalEl list \<times> termEl list" where
  "pushStep i = (\<lambda>(h0, ts).
    let h1 = h0[i := order (h0 ! i)];
        (h2, found2) =
          (if isNot (eOp (h1 ! i)) then
             let x = (h1 ! i)\<lparr>eOp := WQL_IS_TRUE\<rparr>;
                 h = take i h1 @ x # map (substitute i x) (drop (Suc i) h1)
             in if eMark x then (h[i := x\<lparr>eMark := False\<rparr>], False) else (h, True)
           else (h1, False));
        (h3, found3) =
          (if eMark (h2 ! i)
           then (h2[i := (h2 ! i)\<lparr>eMark := False, eOp := dualOp (eOp (h2 ! i))\<rparr>], True)
           else (h2, found2));
        y = h3 ! i
    in if found3 then
         bindE (flipOperand (getFirst y) (h3, ts)) (\<lambda>s.
           if eOpn2 y \<ge> 0 then flipOperand (getSecond y) s else Inr s)
       else Inr (h3, ts))"

primrec pushNOTDown :: "nat \<Rightarrow> evalEl list \<times> termEl list \<Rightarrow> wqlError + evalEl list \<times> termEl list" where
  "pushNOTDown 0 s = Inr s"
| "pushNOTDown (Suc i) s = bindE (pushStep i s) (pushNOTDown i)"

subsection \<open>Distributing conjunction over disjunction\<close>

definition insertAt :: "nat \<Rightarrow> 'a \<Rightarrow> 'a list \<Rightarrow> 'a list" where
  "insertAt i x xs = take i xs @ x # drop i xs"

text \<open>An operand of a conjunction that is a disjunction: its index, and the other operand.\<close>

definition findOr :: "evalEl list \<Rightarrow> evalEl \<Rightarrow> wqlError + (stackEl \<times> int) option" where
  "findOr h e =
    (if eOp e = WQL_AND then
       bindE (if \<not> eTerm1 e then bindE (elementAt h (eOpn1 e)) (\<lambda>x. Inr (eOp x = WQL_OR)) else Inr False) (\<lambda>b.
         if b then Inr (Some (getSecond e, eOpn1 e))
         else bindE (if \<not> eTerm2 e then bindE (elementAt h (eOpn2 e)) (\<lambda>x. Inr (eOp x = WQL_OR)) else Inr False) (\<lambda>b.
           if b then Inr (Some (getFirst e, eOpn2 e)) else Inr None))
     else Inr None)"

definition adjust :: "nat \<Rightarrow> evalEl \<Rightarrow> evalEl" where
  "adjust i e =
    e\<lparr>eOpn1 := (if \<not> eTerm1 e \<and> eOpn1 e \<ge> int i then eOpn1 e + 2 else eOpn1 e),
      eOpn2 := (if \<not> eTerm2 e \<and> eOpn2 e \<ge> int i then eOpn2 e + 2 else eOpn2 e)\<rparr>"

definition newAnd :: "stackEl \<Rightarrow> stackEl \<Rightarrow> evalEl \<Rightarrow> evalEl" where
  "newAnd s t e = order (setSecond t (setFirst s (e\<lparr>eMark := False, eOp := WQL_AND\<rparr>)))"

definition distribute :: "nat \<Rightarrow> stackEl \<Rightarrow> int \<Rightarrow> evalEl list \<Rightarrow> wqlError + evalEl list" where
  "distribute i s index h =
    (let evl = \<lparr>eMark = False, eOp = WQL_OR, eOpn1 = int i + 1, eTerm1 = False, eOpn2 = int i, eTerm2 = False\<rparr>;
         h1 = insertAt (i + 1) evl (insertAt (i + 1) evl h);
         h2 = take (i + 3) h1 @ map (adjust i) (drop (i + 3) h1)
     in bindE (elementAt h2 index) (\<lambda>x.
        let h3 = h2[i + 1 := newAnd s (getFirst x) (h2 ! (i + 1))]
        in bindE (elementAt h3 index) (\<lambda>x. Inr (h3[i := newAnd s (getSecond x) (h3 ! i)]))))"

partial_function (option) factoring :: "nat \<Rightarrow> nat \<Rightarrow> evalEl list \<Rightarrow> (wqlError + evalEl list) option" where
  "factoring i n h =
    (if i < n then
       (case findOr h (h ! i) of
          Inl e \<Rightarrow> Some (Inl e)
        | Inr None \<Rightarrow> factoring (i + 1) n h
        | Inr (Some (s, index)) \<Rightarrow>
            (case distribute i s index h of Inl e \<Rightarrow> Some (Inl e) | Inr h' \<Rightarrow> factoring i (n + 2) h'))
     else Some (Inr h))"

declare factoring.simps [code]

subsection \<open>Reading the disjuncts and the conjuncts\<close>

function dropTrue :: "evalEl list \<Rightarrow> evalEl list" where
  "dropTrue h = (if h \<noteq> [] \<and> eOp (last h) = WQL_IS_TRUE then dropTrue (butlast h) else h)"
  by pat_completeness auto
termination by (relation "measure length") auto

declare dropTrue.simps [simp del]

partial_function (option) gatherLoop ::
  "bool \<Rightarrow> nat \<Rightarrow> stackEl list \<Rightarrow> evalEl list \<Rightarrow> (wqlError + stackEl list \<times> evalEl list) option" where
  "gatherLoop orFlag i stk h =
    (if i < length stk then
       (let k = opn (stk ! i) in
        if k < 0 \<or> isTerminal (stk ! i) then gatherLoop orFlag (i + 1) stk h
        else
          (case elementAt h k of
             Inl e \<Rightarrow> Some (Inl e)
           | Inr x \<Rightarrow>
               if eOp x \<noteq> WQL_OR \<and> orFlag \<or> eOp x \<noteq> WQL_AND \<and> \<not> orFlag then gatherLoop orFlag (i + 1) stk h
               else
                 gatherLoop orFlag i (take i stk @ getFirst x # getSecond x # drop (Suc i) stk)
                   (if orFlag then h[nat k := x\<lparr>eOp := WQL_IS_TRUE\<rparr>] else h)))
     else Some (Inr (stk, h)))"

declare gatherLoop.simps [code]

definition gather :: "bool \<Rightarrow> stackEl \<Rightarrow> evalEl list \<Rightarrow> (wqlError + stackEl list \<times> evalEl list) option" where
  "gather orFlag sel h =
    (let h' = dropTrue h in
     if h' = [] then Some (Inr ([], h'))
     else if orFlag then gatherLoop orFlag 0 [stackRef (int (length h') - 1) False] h'
     else if isTerminal sel then Some (Inr ([], h'))
     else gatherLoop orFlag 0 [sel] h')"

subsection \<open>The tableau\<close>

fun addTerms :: "termEl list \<Rightarrow> stackEl list \<Rightarrow> termEl list \<Rightarrow> wqlError + termEl list" where
  "addTerms ts [] tr = Inr tr"
| "addTerms ts (s # ss) tr = bindE (elementAt ts (opn s)) (\<lambda>t. addTerms ts ss (addIfNotExists tr t))"

fun buildRows :: "termEl list \<Rightarrow> stackEl list \<Rightarrow> evalEl list \<Rightarrow> (wqlError + termEl list list) option" where
  "buildRows ts [] h = Some (Inr [])"
| "buildRows ts (d # ds) h =
    (case (if \<not> isTerminal d then gather False d h else Some (Inr ([d], h))) of
       None \<Rightarrow> None
     | Some (Inl e) \<Rightarrow> Some (Inl e)
     | Some (Inr (cs, h')) \<Rightarrow>
         (case addTerms ts cs [] of
            Inl e \<Rightarrow> Some (Inl e)
          | Inr tr \<Rightarrow>
              (case buildRows ts ds h' of
                 None \<Rightarrow> None
               | Some (Inl e) \<Rightarrow> Some (Inl e)
               | Some (Inr trs) \<Rightarrow> Some (Inr (tr # trs)))))"

record dnf =
  terminalHeap :: "termEl list"
  evalHeap :: "evalEl list"
  tableau :: "termEl list list"

definition newDnf :: dnf where
  "newDnf = \<lparr>terminalHeap = [], evalHeap = [], tableau = []\<rparr>"

definition compileDnf :: "wqlStatement \<Rightarrow> dnf \<Rightarrow> (wqlError + dnf) option" where
  "compileDnf wqs d =
    (if \<not> hasWhereClause wqs then Some (Inr d)
     else
       (case bindE (buildEvalHeap (operands wqs) (operations wqs) ([], terminalHeap d, evalHeap d, 0))
               (\<lambda>(_, ts, h, _). pushNOTDown (length h) (h, ts)) of
          Inl e \<Rightarrow> Some (Inl e)
        | Inr (h, ts) \<Rightarrow>
            (case factoring 0 (length h) h of
               None \<Rightarrow> None
             | Some (Inl e) \<Rightarrow> Some (Inl e)
             | Some (Inr h') \<Rightarrow>
                 (case gather True (stackRef 0 True) h' of
                    None \<Rightarrow> None
                  | Some (Inl e) \<Rightarrow> Some (Inl e)
                  | Some (Inr (djs, h'')) \<Rightarrow>
                      (case buildRows ts (if djs = [] \<and> ts \<noteq> [] then [stackRef 0 True] else djs) h'' of
                         None \<Rightarrow> None
                       | Some (Inl e) \<Rightarrow> Some (Inl e)
                       | Some (Inr rows) \<Rightarrow> Some (Inr \<lparr>terminalHeap = ts, evalHeap = [], tableau = rows\<rparr>))))))"

end
