(* ===== verification/DnfPush.thy ===== *)
theory DnfPush
  imports WqlDnf
begin

section \<open>Building the arrays and moving negations down\<close>

text \<open>
  The value of an entry of the array of \<^verbatim>\<open>CMPI_Wql2Dnf.cpp\<close>, as a fold over what it refers to; the arrays built
  from a condition; and that moving the negations down keeps the value. The proof rests on
  the array being a tree then: each entry and each comparison is referred to exactly once.
\<close>

subsection \<open>Folds over the array\<close>

abbreviation Node :: "nat \<Rightarrow> stackEl" where
  "Node k \<equiv> stackRef (int k) False"

abbreviation Leaf :: "nat \<Rightarrow> stackEl" where
  "Leaf k \<equiv> stackRef (int k) True"

definition lowRef :: "nat \<Rightarrow> stackEl \<Rightarrow> bool" where
  "lowRef k r \<longleftrightarrow> (\<not> isTerminal r \<longrightarrow> 0 \<le> opn r \<and> nat (opn r) < k)"

definition heapLow :: "evalEl list \<Rightarrow> bool" where
  "heapLow h \<longleftrightarrow> (\<forall>k < length h. lowRef k (getFirst (h ! k)) \<and> lowRef k (getSecond (h ! k)))"

function hfold :: "(evalEl \<Rightarrow> 'a \<Rightarrow> 'a \<Rightarrow> 'a) \<Rightarrow> (nat \<Rightarrow> 'a) \<Rightarrow> evalEl list \<Rightarrow> nat \<Rightarrow> 'a" where
  "hfold f g h k =
    (let e = h ! k in
     f e
      (if eTerm1 e then g (nat (eOpn1 e)) else if 0 \<le> eOpn1 e \<and> nat (eOpn1 e) < k then hfold f g h (nat (eOpn1 e)) else g 0)
      (if eTerm2 e then g (nat (eOpn2 e)) else if 0 \<le> eOpn2 e \<and> nat (eOpn2 e) < k then hfold f g h (nat (eOpn2 e)) else g 0))"
  by pat_completeness auto
termination by (relation "measure (\<lambda>(f, g, h, k). k)") auto

declare hfold.simps [simp del]

definition rfold :: "(evalEl \<Rightarrow> 'a \<Rightarrow> 'a \<Rightarrow> 'a) \<Rightarrow> (nat \<Rightarrow> 'a) \<Rightarrow> evalEl list \<Rightarrow> stackEl \<Rightarrow> 'a" where
  "rfold f g h r = (if isTerminal r then g (nat (opn r)) else hfold f g h (nat (opn r)))"

lemma ref_fields [simp]:
  "opn (stackRef o' t) = o'" "isTerminal (stackRef o' t) = t"
  "opn (getFirst e) = eOpn1 e" "isTerminal (getFirst e) = eTerm1 e"
  "opn (getSecond e) = eOpn2 e" "isTerminal (getSecond e) = eTerm2 e"
  by (simp_all add: stackRef_def getFirst_def getSecond_def)

lemma stackRef_eq [simp]: "stackRef a b = stackRef c d \<longleftrightarrow> a = c \<and> b = d"
  by (simp add: stackRef_def)

lemma stackRef_cases: "stackRef (opn r) (isTerminal r) = r"
  by (simp add: stackRef_def)

lemma stackEl_eq: "r = stackRef a b \<longleftrightarrow> opn r = a \<and> isTerminal r = b"
  by (auto simp: stackRef_def)

lemma rfold_simps [simp]:
  "rfold f g h (Node k) = hfold f g h k"
  "rfold f g h (Leaf k) = g k"
  "rfold f g h (stackRef o' True) = g (nat o')"
  by (simp_all add: rfold_def)

lemma hfold_eq:
  assumes "lowRef k (getFirst (h ! k))" and "lowRef k (getSecond (h ! k))"
  shows "hfold f g h k = f (h ! k) (rfold f g h (getFirst (h ! k))) (rfold f g h (getSecond (h ! k)))"
  using assms by (subst hfold.simps) (simp add: lowRef_def rfold_def Let_def)

lemma hfold_at:
  "length pre = n \<Longrightarrow> lowRef n (getFirst e) \<Longrightarrow> lowRef n (getSecond e) \<Longrightarrow>
    hfold f g (pre @ e # post) n = f e (rfold f g (pre @ e # post) (getFirst e)) (rfold f g (pre @ e # post) (getSecond e))"
  by (subst hfold_eq) (auto simp: nth_append)

lemma low_eq: "heapLow h \<Longrightarrow> k < length h \<Longrightarrow>
    hfold f g h k = f (h ! k) (rfold f g h (getFirst (h ! k))) (rfold f g h (getSecond (h ! k)))"
  by (simp add: heapLow_def hfold_eq)

lemma lowRef_mono: "lowRef k r \<Longrightarrow> k \<le> n \<Longrightarrow> lowRef n r"
  by (auto simp: lowRef_def)

text \<open>The value of an entry depends on the entries up to it.\<close>

lemma hfold_prefix:
  "\<forall>j \<le> k. h' ! j = h ! j \<Longrightarrow> hfold f g h' k = hfold f g h k"
proof (induction k rule: less_induct)
  case (less k)
  have e: "h' ! k = h ! k" using less.prems by simp
  have "hfold f g h' (nat x) = hfold f g h (nat x)" if "nat x < k" for x using less.IH [OF that] less.prems that by simp
  then show ?case by (subst hfold.simps, subst (3) hfold.simps) (simp add: e Let_def)
qed

lemma rfold_prefix: "\<forall>j < n. h' ! j = h ! j \<Longrightarrow> lowRef n r \<Longrightarrow> rfold f g h' r = rfold f g h r"
  by (auto simp: rfold_def lowRef_def intro!: hfold_prefix)

text \<open>The truth of an entry. An entry that has been disconnected has the value of its first operand.\<close>

definition holds :: "evalEl \<Rightarrow> bool \<Rightarrow> bool \<Rightarrow> bool" where
  "holds e a b \<longleftrightarrow>
     eMark e \<noteq>
     (if eOp e = WQL_OR then a \<or> b else if eOp e = WQL_AND then a \<and> b else if isNot (eOp e) then \<not> a else a)"

definition binary :: "wqlOperation \<Rightarrow> bool" where
  "binary op \<longleftrightarrow> op = WQL_OR \<or> op = WQL_AND"

definition refs :: "evalEl \<Rightarrow> stackEl list" where
  "refs e = (if binary (eOp e) then [getFirst e, getSecond e] else if isNot (eOp e) then [getFirst e] else [])"

lemma op_kinds [simp]:
  "isNot WQL_NOT" "isNot WQL_IS_FALSE" "isNot WQL_IS_NOT_TRUE"
  "\<not> isNot WQL_OR" "\<not> isNot WQL_AND" "\<not> isNot WQL_IS_TRUE"
  "binary WQL_OR" "binary WQL_AND" "\<not> binary WQL_IS_TRUE" "\<not> binary WQL_NOT" "\<not> binary WQL_IS_FALSE" "\<not> binary WQL_IS_NOT_TRUE"
  by (simp_all add: isNot_def binary_def)

lemma holds_simps:
  "eOp e = WQL_OR \<Longrightarrow> holds e a b \<longleftrightarrow> eMark e \<noteq> (a \<or> b)"
  "eOp e = WQL_AND \<Longrightarrow> holds e a b \<longleftrightarrow> eMark e \<noteq> (a \<and> b)"
  "isNot (eOp e) \<Longrightarrow> holds e a b \<longleftrightarrow> eMark e \<noteq> (\<not> a)"
  "eOp e = WQL_IS_TRUE \<Longrightarrow> holds e a b \<longleftrightarrow> eMark e \<noteq> a"
  by (auto simp: holds_def isNot_def)

lemma isNot_not_binary: "isNot op \<Longrightarrow> \<not> binary op"
  by (auto simp: isNot_def binary_def)

subsection \<open>The arrays built from a condition\<close>

fun predicateTerm :: "wqlPredicate \<Rightarrow> termEl" where
  "predicateTerm (Comparison l c r) = termOf (compareOperation c) (termOperand l) (termOperand r)"
| "predicateTerm (IsNull t) = termOf WQL_EQ (termOperand t) NullValue"
| "predicateTerm (IsNotNull t) = termOf WQL_NE (termOperand t) NullValue"

fun conditionTerms :: "wqlCondition \<Rightarrow> termEl list" where
  "conditionTerms (SearchOr a b) = conditionTerms a @ conditionTerms b"
| "conditionTerms (SearchAnd a b) = conditionTerms a @ conditionTerms b"
| "conditionTerms (SearchNot a) = conditionTerms a"
| "conditionTerms (Predicate p) = [predicateTerm p]"
| "conditionTerms (IsTruth p v) = [predicateTerm p]"
| "conditionTerms (IsNotTruth p v) = [predicateTerm p]"

fun nodeCount :: "wqlCondition \<Rightarrow> nat" where
  "nodeCount (SearchOr a b) = nodeCount a + nodeCount b + 1"
| "nodeCount (SearchAnd a b) = nodeCount a + nodeCount b + 1"
| "nodeCount (SearchNot a) = nodeCount a + 1"
| "nodeCount (Predicate p) = 0"
| "nodeCount (IsTruth p v) = (if v then 0 else 1)"
| "nodeCount (IsNotTruth p v) = (if v then 1 else 0)"

definition node2 :: "wqlOperation \<Rightarrow> stackEl \<Rightarrow> stackEl \<Rightarrow> evalEl" where
  "node2 op a b =
    \<lparr>eMark = False, eOp = op, eOpn1 = opn a, eTerm1 = isTerminal a, eOpn2 = opn b, eTerm2 = isTerminal b\<rparr>"

abbreviation node1 :: "wqlOperation \<Rightarrow> stackEl \<Rightarrow> evalEl" where
  "node1 op a \<equiv> node2 op a (stackRef (-1) True)"

lemma node2_fields [simp]:
  "eMark (node2 op a b) = False" "eOp (node2 op a b) = op"
  "getFirst (node2 op a b) = a" "getSecond (node2 op a b) = b"
  "eOpn1 (node2 op a b) = opn a" "eTerm1 (node2 op a b) = isTerminal a"
  "eOpn2 (node2 op a b) = opn b" "eTerm2 (node2 op a b) = isTerminal b"
  by (simp_all add: node2_def getFirst_def getSecond_def stackRef_def)

fun conditionRef :: "nat \<Rightarrow> nat \<Rightarrow> wqlCondition \<Rightarrow> stackEl" where
  "conditionRef t n (Predicate p) = Leaf t"
| "conditionRef t n (IsTruth p v) = (if v then Leaf t else Node n)"
| "conditionRef t n (IsNotTruth p v) = (if v then Node n else Leaf t)"
| "conditionRef t n c = Node (n + nodeCount c - 1)"

fun conditionNodes :: "nat \<Rightarrow> nat \<Rightarrow> wqlCondition \<Rightarrow> evalEl list" where
  "conditionNodes t n (SearchOr a b) =
    conditionNodes t n a @ conditionNodes (t + length (conditionTerms a)) (n + nodeCount a) b @
    [node2 WQL_OR (conditionRef (t + length (conditionTerms a)) (n + nodeCount a) b) (conditionRef t n a)]"
| "conditionNodes t n (SearchAnd a b) =
    conditionNodes t n a @ conditionNodes (t + length (conditionTerms a)) (n + nodeCount a) b @
    [node2 WQL_AND (conditionRef (t + length (conditionTerms a)) (n + nodeCount a) b) (conditionRef t n a)]"
| "conditionNodes t n (SearchNot a) = conditionNodes t n a @ [node1 WQL_NOT (conditionRef t n a)]"
| "conditionNodes t n (Predicate p) = []"
| "conditionNodes t n (IsTruth p v) = (if v then [] else [node1 WQL_IS_FALSE (Leaf t)])"
| "conditionNodes t n (IsNotTruth p v) = (if v then [node1 WQL_IS_NOT_TRUE (Leaf t)] else [])"

lemma length_nodes [simp]: "length (conditionNodes t n c) = nodeCount c"
  by (induction c arbitrary: t n) simp_all

lemma buildPredicate:
  "buildOperation (pre @ predicateOperands p @ post) (predicateOperation p) (st, ts, h, length pre) =
    Inr (Leaf (length ts) # st, ts @ [predicateTerm p], h, length pre + length (predicateOperands p))"
proof (cases p)
  case (Comparison l c r)
  then show ?thesis
    by (cases c) (simp_all add: operandAt_append pushTerm_def)
qed (simp_all add: operandAt_append pushTerm_def)

lemma buildCondition:
  "buildEvalHeap (pre @ conditionOperands c @ post) (conditionOperations c @ rest) (st, ts, h, length pre) =
    buildEvalHeap (pre @ conditionOperands c @ post) rest
      (conditionRef (length ts) (length h) c # st, ts @ conditionTerms c, h @ conditionNodes (length ts) (length h) c,
       length pre + length (conditionOperands c))"
proof (induction c arbitrary: pre post rest st ts h)
  case (SearchOr a b)
  show ?case
    using SearchOr.IH(1) [of pre "conditionOperands b @ post" "conditionOperations b @ WQL_OR # rest" st ts h]
      SearchOr.IH(2) [of "pre @ conditionOperands a" post "WQL_OR # rest" "conditionRef (length ts) (length h) a # st"
        "ts @ conditionTerms a" "h @ conditionNodes (length ts) (length h) a"]
    by (simp add: add.assoc node2_def)
next
  case (SearchAnd a b)
  show ?case
    using SearchAnd.IH(1) [of pre "conditionOperands b @ post" "conditionOperations b @ WQL_AND # rest" st ts h]
      SearchAnd.IH(2) [of "pre @ conditionOperands a" post "WQL_AND # rest" "conditionRef (length ts) (length h) a # st"
        "ts @ conditionTerms a" "h @ conditionNodes (length ts) (length h) a"]
    by (simp add: add.assoc node2_def)
next
  case (SearchNot a)
  show ?case using SearchNot.IH [of pre post "WQL_NOT # rest" st ts h] by (simp add: node2_def)
next
  case (Predicate p)
  show ?case using buildPredicate [of pre p post st ts h] by (simp del: buildOperation.simps)
next
  case (IsTruth p v)
  show ?case using buildPredicate [of pre p post st ts h]
    by (simp del: buildOperation.simps) (simp add: node2_def)
next
  case (IsNotTruth p v)
  show ?case using buildPredicate [of pre p post st ts h]
    by (simp del: buildOperation.simps) (simp add: node2_def)
qed


fun conditionHolds :: "(termEl \<Rightarrow> bool) \<Rightarrow> wqlCondition \<Rightarrow> bool" where
  "conditionHolds v (SearchOr a b) \<longleftrightarrow> conditionHolds v a \<or> conditionHolds v b"
| "conditionHolds v (SearchAnd a b) \<longleftrightarrow> conditionHolds v a \<and> conditionHolds v b"
| "conditionHolds v (SearchNot a) \<longleftrightarrow> \<not> conditionHolds v a"
| "conditionHolds v (Predicate p) \<longleftrightarrow> v (predicateTerm p)"
| "conditionHolds v (IsTruth p b) \<longleftrightarrow> v (predicateTerm p) = b"
| "conditionHolds v (IsNotTruth p b) \<longleftrightarrow> v (predicateTerm p) \<noteq> b"

lemma conditionRef_low: "lowRef (n + nodeCount c) (conditionRef t n c)"
  by (cases c) (auto simp: lowRef_def)

lemma conditionNodes_low:
  "k < nodeCount c \<Longrightarrow>
    lowRef (n + k) (getFirst (conditionNodes t n c ! k)) \<and> lowRef (n + k) (getSecond (conditionNodes t n c ! k))"
proof (induction c arbitrary: t n k)
  case (SearchOr a b)
  show ?case
    using SearchOr.IH(1) [of k n t] SearchOr.IH(2) [of "k - nodeCount a" "n + nodeCount a" "t + length (conditionTerms a)"]
      SearchOr.prems lowRef_mono [OF conditionRef_low [of n a t], of "n + (nodeCount a + nodeCount b)"]
      conditionRef_low [of "n + nodeCount a" b "t + length (conditionTerms a)"]
    by (auto simp: nth_append not_less add.assoc less_Suc_eq)
next
  case (SearchAnd a b)
  show ?case
    using SearchAnd.IH(1) [of k n t] SearchAnd.IH(2) [of "k - nodeCount a" "n + nodeCount a" "t + length (conditionTerms a)"]
      SearchAnd.prems lowRef_mono [OF conditionRef_low [of n a t], of "n + (nodeCount a + nodeCount b)"]
      conditionRef_low [of "n + nodeCount a" b "t + length (conditionTerms a)"]
    by (auto simp: nth_append not_less add.assoc less_Suc_eq)
next
  case (SearchNot a)
  show ?case using SearchNot.IH [of k n t] SearchNot.prems conditionRef_low [of n a t]
    by (auto simp: nth_append less_Suc_eq lowRef_def)
qed (auto simp: lowRef_def split: if_splits)

lemma split_terms:
  assumes "\<forall>i < length (xs @ ys). g (t + i) = v ((xs @ ys) ! i)"
  shows "\<forall>i < length xs. g (t + i) = v (xs ! i)" and "\<forall>i < length ys. g (t + length xs + i) = v (ys ! i)"
proof -
  show "\<forall>i < length xs. g (t + i) = v (xs ! i)" using assms by (simp add: nth_append)
  show "\<forall>i < length ys. g (t + length xs + i) = v (ys ! i)"
  proof (intro allI impI)
    fix i assume "i < length ys"
    then show "g (t + length xs + i) = v (ys ! i)" using assms [rule_format, of "length xs + i"] by (simp add: add.assoc)
  qed
qed

lemma conditionNodes_holds:
  assumes "\<forall>i < length (conditionTerms c). g (t + i) = v (conditionTerms c ! i)" and "length pre = n"
  shows "rfold holds g (pre @ conditionNodes t n c @ post) (conditionRef t n c) = conditionHolds v c"
  using assms
proof (induction c arbitrary: t n pre post)
  case (SearchOr a b)
  let ?t = "t + length (conditionTerms a)" and ?n = "n + nodeCount a"
  let ?H = "pre @ conditionNodes t n (SearchOr a b) @ post" and ?k = "n + nodeCount a + nodeCount b"
  have g: "\<forall>i < length (conditionTerms a). g (t + i) = v (conditionTerms a ! i)"
    "\<forall>i < length (conditionTerms b). g (?t + i) = v (conditionTerms b ! i)"
    using split_terms [of "conditionTerms a" "conditionTerms b" g t v] SearchOr.prems(1) by simp_all
  have H: "?H ! ?k = node2 WQL_OR (conditionRef ?t ?n b) (conditionRef t n a)"
    using SearchOr.prems(2) by (simp add: nth_append)
  have a: "rfold holds g ?H (conditionRef t n a) = conditionHolds v a"
    using SearchOr.IH(1) [OF g(1) SearchOr.prems(2)] by simp
  have b: "rfold holds g ?H (conditionRef ?t ?n b) = conditionHolds v b"
    using SearchOr.IH(2) [OF g(2), of "pre @ conditionNodes t n a" ?n] SearchOr.prems(2) by simp
  have "hfold holds g ?H ?k = holds (?H ! ?k) (rfold holds g ?H (conditionRef ?t ?n b)) (rfold holds g ?H (conditionRef t n a))"
    using conditionRef_low [of ?n b ?t] lowRef_mono [OF conditionRef_low [of n a t], of ?k] H
    by (subst hfold_eq) (simp_all del: ref_fields)
  moreover have "conditionRef t n (SearchOr a b) = Node ?k" by simp
  ultimately show ?case unfolding a b H by (simp only: rfold_simps holds_simps node2_fields) auto
next
  case (SearchAnd a b)
  let ?t = "t + length (conditionTerms a)" and ?n = "n + nodeCount a"
  let ?H = "pre @ conditionNodes t n (SearchAnd a b) @ post" and ?k = "n + nodeCount a + nodeCount b"
  have g: "\<forall>i < length (conditionTerms a). g (t + i) = v (conditionTerms a ! i)"
    "\<forall>i < length (conditionTerms b). g (?t + i) = v (conditionTerms b ! i)"
    using split_terms [of "conditionTerms a" "conditionTerms b" g t v] SearchAnd.prems(1) by simp_all
  have H: "?H ! ?k = node2 WQL_AND (conditionRef ?t ?n b) (conditionRef t n a)"
    using SearchAnd.prems(2) by (simp add: nth_append)
  have a: "rfold holds g ?H (conditionRef t n a) = conditionHolds v a"
    using SearchAnd.IH(1) [OF g(1) SearchAnd.prems(2)] by simp
  have b: "rfold holds g ?H (conditionRef ?t ?n b) = conditionHolds v b"
    using SearchAnd.IH(2) [OF g(2), of "pre @ conditionNodes t n a" ?n] SearchAnd.prems(2) by simp
  have "hfold holds g ?H ?k = holds (?H ! ?k) (rfold holds g ?H (conditionRef ?t ?n b)) (rfold holds g ?H (conditionRef t n a))"
    using conditionRef_low [of ?n b ?t] lowRef_mono [OF conditionRef_low [of n a t], of ?k] H
    by (subst hfold_eq) (simp_all del: ref_fields)
  moreover have "conditionRef t n (SearchAnd a b) = Node ?k" by simp
  ultimately show ?case unfolding a b H by (simp only: rfold_simps holds_simps node2_fields) auto
next
  case (SearchNot a)
  let ?H = "pre @ conditionNodes t n (SearchNot a) @ post" and ?k = "n + nodeCount a"
  have H: "?H ! ?k = node1 WQL_NOT (conditionRef t n a)" using SearchNot.prems(2) by (simp add: nth_append)
  have a: "rfold holds g ?H (conditionRef t n a) = conditionHolds v a" using SearchNot.IH [of t pre n] SearchNot.prems by simp
  have "hfold holds g ?H ?k = holds (?H ! ?k) (rfold holds g ?H (conditionRef t n a)) (g (nat (-1)))"
    using conditionRef_low [of n a t] H by (subst hfold_eq) (simp_all add: lowRef_def)
  moreover have "conditionRef t n (SearchNot a) = Node ?k" by simp
  ultimately show ?case unfolding a H by (simp only: rfold_simps) (simp add: holds_simps)
next
  case (Predicate p)
  then show ?case by simp
next
  case (IsTruth p b)
  then show ?case by (cases b) (simp_all add: hfold_at lowRef_def holds_simps)
next
  case (IsNotTruth p b)
  then show ?case by (cases b) (simp_all add: hfold_at lowRef_def holds_simps)
qed

text \<open>Every entry and every comparison is referred to once, by an entry or by the stack.\<close>

lemma shuffle: "{#x#} + (M + K + (N + L)) = M + (N + {#x#}) + (K + L)"
  by (simp add: ac_simps)

lemma binary_refs:
  assumes "mset (ra # concat (map refs as)) = mset (map Node [n ..< n + i]) + mset (map Leaf [t ..< t + k])"
    and "mset (rb # concat (map refs bs)) = mset (map Node [n + i ..< n + i + j]) + mset (map Leaf [t + k ..< t + k + l])"
    and "binary op"
  shows "mset (Node (n + i + j) # concat (map refs (as @ bs @ [node2 op rb ra]))) =
    mset (map Node [n ..< n + (i + j + 1)]) + mset (map Leaf [t ..< t + (k + l)])"
proof -
  have "[n ..< n + i + j] = [n ..< n + i] @ [n + i ..< n + i + j]" by (rule upt_add_eq_append) simp
  then have n: "[n ..< n + (i + j + 1)] = [n ..< n + i] @ [n + i ..< n + i + j] @ [n + i + j]"
    using upt_Suc_append [of n "n + i + j"] by (simp add: add.assoc)
  have t: "[t ..< t + (k + l)] = [t ..< t + k] @ [t + k ..< t + k + l]"
    unfolding add.assoc [symmetric] by (rule upt_add_eq_append) simp
  have "mset (Node (n + i + j) # concat (map refs (as @ bs @ [node2 op rb ra]))) =
    {#Node (n + i + j)#} + (mset (ra # concat (map refs as)) + mset (rb # concat (map refs bs)))"
    using assms(3) by (simp add: refs_def)
  also have "\<dots> = mset (map Node [n ..< n + (i + j + 1)]) + mset (map Leaf [t ..< t + (k + l)])"
    unfolding assms(1,2) by (simp only: n t map_append mset_append list.map mset.simps shuffle)
  finally show ?thesis .
qed

lemma conditionNodes_refs:
  "mset (conditionRef t n c # concat (map refs (conditionNodes t n c))) =
    mset (map Node [n ..< n + nodeCount c]) + mset (map Leaf [t ..< t + length (conditionTerms c)])"
proof (induction c arbitrary: t n)
  case (SearchOr a b)
  have "conditionRef t n (SearchOr a b) = Node (n + nodeCount a + nodeCount b)" by simp
  then show ?case unfolding conditionNodes.simps nodeCount.simps conditionTerms.simps length_append
    by (simp only: binary_refs [OF SearchOr.IH(1) SearchOr.IH(2)] op_kinds)
next
  case (SearchAnd a b)
  have "conditionRef t n (SearchAnd a b) = Node (n + nodeCount a + nodeCount b)" by simp
  then show ?case unfolding conditionNodes.simps nodeCount.simps conditionTerms.simps length_append
    by (simp only: binary_refs [OF SearchAnd.IH(1) SearchAnd.IH(2)] op_kinds)
next
  case (SearchNot a)
  have "mset (conditionRef t n (SearchNot a) # concat (map refs (conditionNodes t n (SearchNot a)))) =
    {#Node (n + nodeCount a)#} + mset (conditionRef t n a # concat (map refs (conditionNodes t n a)))"
    by (simp add: refs_def)
  then show ?case unfolding SearchNot.IH by simp
next
  case (IsTruth p v)
  then show ?case by (cases v) (simp_all add: refs_def)
next
  case (IsNotTruth p v)
  then show ?case by (cases v) (simp_all add: refs_def)
qed simp

lemma conditionNodes_ops:
  "e \<in> set (conditionNodes t n c) \<Longrightarrow> \<not> eMark e \<and> (binary (eOp e) \<or> isNot (eOp e))"
  by (induction c arbitrary: t n) (auto split: if_splits)


subsection \<open>The invariant of the loop\<close>

fun liveNodes :: "nat \<Rightarrow> evalEl list \<Rightarrow> stackEl list" where
  "liveNodes n [] = []"
| "liveNodes n (e # h) = (if eOp e = WQL_IS_TRUE then [] else [Node n]) @ liveNodes (Suc n) h"

definition settled :: "evalEl \<Rightarrow> bool" where
  "settled e \<longleftrightarrow> \<not> eMark e \<and> (binary (eOp e) \<or> eOp e = WQL_IS_TRUE)"

definition pending :: "evalEl \<Rightarrow> bool" where
  "pending e \<longleftrightarrow> binary (eOp e) \<or> isNot (eOp e) \<and> getSecond e = stackRef (-1) True"

definition treeRefs :: "nat \<Rightarrow> stackEl \<Rightarrow> evalEl list \<Rightarrow> bool" where
  "treeRefs M root h \<longleftrightarrow> mset (root # concat (map refs h)) = mset (liveNodes 0 h) + mset (map Leaf [0 ..< M])"

definition pushInv :: "nat \<Rightarrow> nat \<Rightarrow> stackEl \<Rightarrow> evalEl list \<Rightarrow> bool" where
  "pushInv M i root h \<longleftrightarrow> i \<le> length h \<and> heapLow h \<and> (\<forall>k < i. pending (h ! k)) \<and>
     (\<forall>k < length h. i \<le> k \<longrightarrow> settled (h ! k)) \<and> treeRefs M root h"

lemma liveNodes_append [simp]: "liveNodes n (a @ b) = liveNodes n a @ liveNodes (n + length a) b"
  by (induction a arbitrary: n) simp_all

lemma set_liveNodes: "set (liveNodes n h) = {Node (n + k) | k. k < length h \<and> eOp (h ! k) \<noteq> WQL_IS_TRUE}"
proof (induction h arbitrary: n)
  case (Cons e h)
  have "{Node (n + k) | k. k < length (e # h) \<and> eOp ((e # h) ! k) \<noteq> WQL_IS_TRUE} =
    (if eOp e = WQL_IS_TRUE then {} else {Node n}) \<union> {Node (Suc n + k) | k. k < length h \<and> eOp (h ! k) \<noteq> WQL_IS_TRUE}"
    (is "?L = ?R")
  proof
    show "?L \<subseteq> ?R" by (auto simp: less_Suc_eq_0_disj)
    show "?R \<subseteq> ?L"
    proof (intro Un_least subsetI)
      fix x assume "x \<in> (if eOp e = WQL_IS_TRUE then {} else {Node n})"
      then have "x = Node (n + 0) \<and> 0 < length (e # h) \<and> eOp ((e # h) ! 0) \<noteq> WQL_IS_TRUE" by (simp split: if_splits)
      then show "x \<in> ?L" by blast
    next
      fix x assume "x \<in> {Node (Suc n + k) | k. k < length h \<and> eOp (h ! k) \<noteq> WQL_IS_TRUE}"
      then obtain k where "x = Node (Suc n + k)" "k < length h" "eOp (h ! k) \<noteq> WQL_IS_TRUE" by blast
      then have "x = Node (n + Suc k) \<and> Suc k < length (e # h) \<and> eOp ((e # h) ! Suc k) \<noteq> WQL_IS_TRUE" by simp
      then show "x \<in> ?L" by blast
    qed
  qed
  then show ?case using Cons.IH [of "Suc n"] by simp
qed simp

lemma distinct_liveNodes: "distinct (liveNodes n h)"
  by (induction h arbitrary: n) (auto simp: set_liveNodes)

lemma distinct_concat_nth:
  "distinct (concat xss) \<Longrightarrow> i < length xss \<Longrightarrow> j < length xss \<Longrightarrow> x \<in> set (xss ! i) \<Longrightarrow> x \<in> set (xss ! j) \<Longrightarrow> i = j"
proof (induction xss arbitrary: i j)
  case (Cons xs xss)
  have no: "y \<notin> set (xss ! m)" if "y \<in> set xs" "m < length xss" for y m
    using Cons.prems(1) that by (auto dest: nth_mem)
  show ?case
  proof (cases i; cases j)
    fix i' j' assume "i = Suc i'" "j = Suc j'"
    then show ?thesis using Cons.IH [of i' j'] Cons.prems by simp
  qed (use Cons.prems no in auto)
qed simp

lemma treeRefs_distinct: "treeRefs M root h \<Longrightarrow> distinct (root # concat (map refs h))"
proof -
  assume "treeRefs M root h"
  then have "mset (root # concat (map refs h)) = mset (liveNodes 0 h @ map Leaf [0 ..< M])" by (simp add: treeRefs_def)
  then have "distinct (root # concat (map refs h)) = distinct (liveNodes 0 h @ map Leaf [0 ..< M])"
    by (rule mset_eq_imp_distinct_iff)
  also have "\<dots>" by (auto simp: distinct_liveNodes set_liveNodes distinct_map inj_on_def)
  finally show ?thesis .
qed

lemma treeRefs_set:
  "treeRefs M root h \<Longrightarrow> set (root # concat (map refs h)) =
    {Node k | k. k < length h \<and> eOp (h ! k) \<noteq> WQL_IS_TRUE} \<union> {Leaf t | t. t < M}"
proof -
  assume "treeRefs M root h"
  then have "mset (root # concat (map refs h)) = mset (liveNodes 0 h @ map Leaf [0 ..< M])" by (simp add: treeRefs_def)
  then have "set (root # concat (map refs h)) = set (liveNodes 0 h @ map Leaf [0 ..< M])" by (rule mset_eq_setD)
  also have "\<dots> = {Node k | k. k < length h \<and> eOp (h ! k) \<noteq> WQL_IS_TRUE} \<union> {Leaf t | t. t < M}"
    by (auto simp: set_liveNodes)
  finally show ?thesis .
qed

lemma refs_first: "refs e \<noteq> [] \<Longrightarrow> getFirst e \<in> set (refs e)"
  by (auto simp: refs_def split: if_splits)

lemma treeRefs_ref:
  assumes "treeRefs M root h" and "k < length h" and "r \<in> set (refs (h ! k))"
  shows "(\<exists>j. r = Node j \<and> j < length h \<and> eOp (h ! j) \<noteq> WQL_IS_TRUE) \<or> (\<exists>t < M. r = Leaf t)"
proof -
  have "r \<in> set (root # concat (map refs h))" using assms(2,3) by auto
  then show ?thesis unfolding treeRefs_set [OF assms(1)] by blast
qed

lemma treeRefs_unique:
  assumes "treeRefs M root h" and "k < length h" and "r \<in> set (refs (h ! k))"
  shows "r \<noteq> root" and "distinct (refs (h ! k))" and "j < length h \<Longrightarrow> r \<in> set (refs (h ! j)) \<Longrightarrow> j = k"
proof -
  have d: "distinct (root # concat (map refs h))" using assms(1) by (rule treeRefs_distinct)
  show "r \<noteq> root" using d assms(2,3) by auto
  show "distinct (refs (h ! k))" using d assms(2) by (auto simp: distinct_concat_iff)
  show "j = k" if "j < length h" "r \<in> set (refs (h ! j))"
    using distinct_concat_nth [of "map refs h" j k r] d assms(2,3) that by simp
qed

lemma refs_low:
  "heapLow h \<Longrightarrow> k < length h \<Longrightarrow> r \<in> set (refs (h ! k)) \<Longrightarrow> lowRef k r"
  by (auto simp: heapLow_def refs_def split: if_splits)

text \<open>What an entry that is connected says depends on what it refers to.\<close>

lemma holds_cong:
  assumes "binary (eOp e) \<or> isNot (eOp e)" and "getFirst e \<in> set (refs e) \<Longrightarrow> a = a'" and "getSecond e \<in> set (refs e) \<Longrightarrow> b = b'"
  shows "holds e a b = holds e a' b'"
  using assms by (auto simp: refs_def holds_def binary_def isNot_def)

lemma live_kind:
  "pushInv M i root h \<Longrightarrow> k < length h \<Longrightarrow> eOp (h ! k) \<noteq> WQL_IS_TRUE \<Longrightarrow> binary (eOp (h ! k)) \<or> isNot (eOp (h ! k))"
  by (cases "k < i") (auto simp: pushInv_def pending_def settled_def)

subsection \<open>Flipping what an entry refers to\<close>

lemma twice: "((a \<noteq> c) \<noteq> c) = a" for a c :: bool
  by blast

lemma flip_values:
  assumes inv: "pushInv M n root h" and i: "i < length h" and len: "length h' = length h" and low: "heapLow h'"
    and same: "\<And>k. k < length h \<Longrightarrow> getFirst (h' ! k) = getFirst (h ! k) \<and> getSecond (h' ! k) = getSecond (h ! k)"
    and other: "\<And>k. k < length h \<Longrightarrow> k \<noteq> i \<Longrightarrow> eOp (h' ! k) = eOp (h ! k) \<and> eMark (h' ! k) = (eMark (h ! k) \<noteq> (Node k \<in> C))"
    and C: "C \<subseteq> set (refs (h ! i))"
    and leaves: "\<And>t. t < M \<Longrightarrow> g' t = (g t \<noteq> (Leaf t \<in> C))"
    and at: "\<And>a b. holds (h' ! i) (a \<noteq> (getFirst (h ! i) \<in> C)) (b \<noteq> (getSecond (h ! i) \<in> C)) = holds (h ! i) a b"
    and live: "eOp (h ! i) \<noteq> WQL_IS_TRUE"
    and k: "k < length h" "eOp (h ! k) \<noteq> WQL_IS_TRUE"
  shows "hfold holds g' h' k = (hfold holds g h k \<noteq> (Node k \<in> C))"
  using k
proof (induction k rule: less_induct)
  case (less k)
  have tree: "treeRefs M root h" and lowh: "heapLow h" using inv by (simp_all add: pushInv_def)
  have ref: "rfold holds g' h' r = (rfold holds g h r \<noteq> (r \<in> C))" if r: "r \<in> set (refs (h ! k))" for r
    using treeRefs_ref [OF tree less.prems(1) r]
  proof (elim disjE exE conjE)
    fix j assume j: "r = Node j" "j < length h" "eOp (h ! j) \<noteq> WQL_IS_TRUE"
    then have "j < k" using refs_low [OF lowh less.prems(1) r] by (simp add: lowRef_def)
    then show ?thesis using less.IH [OF _ j(2,3)] j(1) by simp
  next
    fix t assume "t < M" "r = Leaf t"
    then show ?thesis using leaves by simp
  qed
  let ?e = "h ! k" and ?e' = "h' ! k"
  have eq: "hfold holds g h k = holds ?e (rfold holds g h (getFirst ?e)) (rfold holds g h (getSecond ?e))"
    "hfold holds g' h' k = holds ?e' (rfold holds g' h' (getFirst ?e)) (rfold holds g' h' (getSecond ?e))"
    using low_eq [OF lowh less.prems(1)] low_eq [OF low, of k] same less.prems(1) len by simp_all
  note kind = live_kind [OF inv less.prems]
  show ?case
  proof (cases "k = i")
    case True
    have "Node k \<notin> C" using C refs_low [OF lowh i, of "Node i"] True by (auto simp: lowRef_def)
    moreover have "holds ?e' (rfold holds g' h' (getFirst ?e)) (rfold holds g' h' (getSecond ?e)) =
      holds ?e (rfold holds g h (getFirst ?e)) (rfold holds g h (getSecond ?e))"
    proof -
      have "holds ?e (rfold holds g h (getFirst ?e)) (rfold holds g h (getSecond ?e)) =
        holds ?e (rfold holds g' h' (getFirst ?e) \<noteq> (getFirst ?e \<in> C)) (rfold holds g' h' (getSecond ?e) \<noteq> (getSecond ?e \<in> C))"
        using ref by (intro holds_cong kind) auto
      also have "\<dots> = holds ?e' (rfold holds g' h' (getFirst ?e)) (rfold holds g' h' (getSecond ?e))"
        using at [of "rfold holds g' h' (getFirst ?e) \<noteq> (getFirst ?e \<in> C)"
          "rfold holds g' h' (getSecond ?e) \<noteq> (getSecond ?e \<in> C)"]
        unfolding True twice by (rule sym)
      finally show ?thesis ..
    qed
    ultimately show ?thesis using eq by simp
  next
    case False
    have "r \<notin> C" if "r \<in> set (refs ?e)" for r
      using treeRefs_unique(3) [OF tree i, of r k] that C less.prems(1) False by blast
    then have "holds ?e (rfold holds g' h' (getFirst ?e)) (rfold holds g' h' (getSecond ?e)) = hfold holds g h k"
      unfolding eq(1) using ref by (intro holds_cong kind) auto
    moreover have "holds ?e' a b = (holds ?e a b \<noteq> (Node k \<in> C))" for a b
      using other [OF less.prems(1) False] by (auto simp: holds_def)
    ultimately show ?thesis using eq by simp
  qed
qed


subsection \<open>Entries that refer to the same\<close>

lemma liveNodes_cong:
  "length h' = length h \<Longrightarrow> \<forall>k < length h. (eOp (h' ! k) = WQL_IS_TRUE) = (eOp (h ! k) = WQL_IS_TRUE) \<Longrightarrow>
    liveNodes n h' = liveNodes n h"
proof (induction h' h arbitrary: n rule: list_induct2)
  case (Cons x xs y ys)
  have "\<forall>k < length ys. (eOp (xs ! k) = WQL_IS_TRUE) = (eOp (ys ! k) = WQL_IS_TRUE)"
    using Cons.prems by auto
  then show ?case using Cons.IH [of "Suc n"] Cons.prems [rule_format, of 0] by simp
qed simp

lemma mset_concat_cong:
  assumes "length h' = length h" and "\<forall>k < length h. mset (f (h' ! k)) = mset (f (h ! k))"
  shows "mset (concat (map f h')) = mset (concat (map f h))"
  using assms
proof (induction h' h rule: list_induct2)
  case (Cons x xs y ys)
  have "\<forall>k < length ys. mset (f (xs ! k)) = mset (f (ys ! k))" using Cons.prems by auto
  then show ?case using Cons.IH Cons.prems [rule_format, of 0] by simp
qed simp

lemma treeRefs_cong:
  assumes "length h' = length h"
    and "\<forall>k < length h. mset (refs (h' ! k)) = mset (refs (h ! k)) \<and> (eOp (h' ! k) = WQL_IS_TRUE) = (eOp (h ! k) = WQL_IS_TRUE)"
  shows "treeRefs M root h' = treeRefs M root h"
  using mset_concat_cong [of h' h refs] liveNodes_cong [of h' h 0] assms by (simp add: treeRefs_def)

lemma order_fields [simp]: "eOp (order e) = eOp e" "eMark (order e) = eMark e"
  by (simp_all add: order_def)

lemma order_refs:
  "getFirst (order e) = getFirst e \<and> getSecond (order e) = getSecond e \<or>
   \<not> eTerm2 e \<and> getFirst (order e) = getSecond e \<and> getSecond (order e) = getFirst e"
  by (simp add: order_def getFirst_def getSecond_def)

lemma second_term: "getSecond e = stackRef (-1) True \<Longrightarrow> eTerm2 e"
  by (metis ref_fields(2,6))

lemma order_inv:
  assumes inv: "pushInv M n root h" and i: "i < length h"
  defines "h' \<equiv> h[i := order (h ! i)]"
  shows "pushInv M n root h'" and "k < length h \<Longrightarrow> eOp (h ! k) \<noteq> WQL_IS_TRUE \<Longrightarrow> hfold holds g h' k = hfold holds g h k"
proof -
  note [simp] = h'_def
  have low: "heapLow h" using inv by (simp add: pushInv_def)
  have lowi: "lowRef i (getFirst (h ! i))" "lowRef i (getSecond (h ! i))" using low i by (simp_all add: heapLow_def)
  have low': "heapLow h'"
    using i low lowi order_refs [of "h ! i"] by (auto simp: heapLow_def nth_list_update)
  have refs: "mset (refs (order (h ! i))) = mset (refs (h ! i))" if "pending (h ! i) \<or> settled (h ! i)"
    using order_refs [of "h ! i"] that by (auto simp: refs_def pending_def settled_def stackEl_eq)
  have kind: "pending (h ! i) \<or> settled (h ! i)" using inv i by (cases "i < n") (auto simp: pushInv_def)
  have pend: "pending (h ! i) \<Longrightarrow> pending (order (h ! i))" "settled (h ! i) \<Longrightarrow> settled (order (h ! i))"
    using order_refs [of "h ! i"] second_term [of "h ! i"] by (auto simp: pending_def settled_def)
  have "treeRefs M root h' = treeRefs M root h"
    using i refs kind by (intro treeRefs_cong) (auto simp: nth_list_update)
  then show "pushInv M n root h'" using i inv low' pend by (auto simp: pushInv_def nth_list_update)
  show "hfold holds g h' k = hfold holds g h k" if "k < length h" "eOp (h ! k) \<noteq> WQL_IS_TRUE"
    using that
  proof (induction k rule: less_induct)
    case (less k)
    have tree: "treeRefs M root h" using inv by (simp add: pushInv_def)
    have ref: "rfold holds g h' r = rfold holds g h r" if r: "r \<in> set (refs (h ! k))" for r
      using treeRefs_ref [OF tree less.prems(1) r]
    proof (elim disjE exE conjE)
      fix j assume j: "r = Node j" "j < length h" "eOp (h ! j) \<noteq> WQL_IS_TRUE"
      then have "j < k" using refs_low [OF low less.prems(1) r] by (simp add: lowRef_def)
      then show ?thesis using less.IH [OF _ j(2,3)] j(1) by simp
    qed simp
    note kind = live_kind [OF inv less.prems]
    have eq: "hfold holds g h k = holds (h ! k) (rfold holds g h (getFirst (h ! k))) (rfold holds g h (getSecond (h ! k)))"
      "hfold holds g h' k = holds (h' ! k) (rfold holds g h' (getFirst (h' ! k))) (rfold holds g h' (getSecond (h' ! k)))"
      using low_eq [OF low less.prems(1)] low_eq [OF low', of k] less.prems(1) by simp_all
    have same: "holds (h ! k) (rfold holds g h' (getFirst (h ! k))) (rfold holds g h' (getSecond (h ! k))) = hfold holds g h k"
      unfolding eq(1) using ref by (intro holds_cong kind) auto
    show ?case
    proof (cases "k = i")
      case True
      have "holds (order (h ! i)) (rfold holds g h' (getFirst (order (h ! i)))) (rfold holds g h' (getSecond (order (h ! i)))) =
        holds (h ! i) (rfold holds g h' (getFirst (h ! i))) (rfold holds g h' (getSecond (h ! i)))"
      proof -
        have "binary (eOp (h ! i)) \<or> eTerm2 (h ! i)"
          using less.prems True \<open>pending (h ! i) \<or> settled (h ! i)\<close> second_term [of "h ! i"]
          by (auto simp: pending_def settled_def)
        moreover have "holds (order (h ! i)) a b = holds (h ! i) a b" for a b by (simp add: holds_def)
        moreover have "binary (eOp (h ! i)) \<Longrightarrow> holds (h ! i) a b = holds (h ! i) b a" for a b
          by (auto simp: holds_def binary_def)
        ultimately show ?thesis using order_refs [of "h ! i"] by auto
      qed
      then show ?thesis using True same eq(2) i by simp
    next
      case False
      then show ?thesis using same eq(2) by simp
    qed
  qed
qed

subsection \<open>Passing over a negation\<close>

definition redirect :: "nat \<Rightarrow> stackEl \<Rightarrow> stackEl \<Rightarrow> stackEl" where
  "redirect i a r = (if r = Node i then a else r)"

lemma substitute_fields [simp]:
  "eOp (substitute i x e) = eOp e" "eMark (substitute i x e) = eMark e"
  by (simp_all add: substitute_def Let_def assignUnaryToFirst_def assignUnaryToSecond_def)

lemma substitute_refs:
  "getFirst (substitute i x e) = redirect i (getFirst x) (getFirst e)"
  "getSecond (substitute i x e) = redirect i (getFirst x) (getSecond e)"
  by (auto simp: substitute_def Let_def assignUnaryToFirst_def assignUnaryToSecond_def redirect_def stackEl_eq getFirst_def getSecond_def stackRef_def)

lemma refs_substitute: "refs (substitute i x e) = map (redirect i (getFirst x)) (refs e)"
  by (simp add: refs_def substitute_refs)

lemma redirect_low: "lowRef i a \<Longrightarrow> i \<le> k \<Longrightarrow> lowRef k r \<Longrightarrow> lowRef k (redirect i a r)"
  by (auto simp: redirect_def elim: lowRef_mono)

lemma substitute_values:
  assumes low: "heapLow h" and i: "i < length h" "eOp (h ! i) = WQL_IS_TRUE" "\<not> eMark (h ! i)"
    and len: "length h' = length h"
    and h': "\<And>k. k < length h \<Longrightarrow> h' ! k = (if i < k then substitute i (h ! i) (h ! k) else h ! k)"
  shows "heapLow h'" and "k < length h \<Longrightarrow> hfold holds g h' k = hfold holds g h k"
proof -
  have lowi: "lowRef i (getFirst (h ! i))" using low i by (simp add: heapLow_def)
  show low': "heapLow h'"
    using low len h' redirect_low [OF lowi] by (auto simp: heapLow_def substitute_refs)
  show "hfold holds g h' k = hfold holds g h k" if "k < length h"
    using that
  proof (induction k rule: less_induct)
    case (less k)
    have ref: "rfold holds g h' r = rfold holds g h r" if "lowRef k r" for r
      using that less by (auto simp: rfold_def lowRef_def)
    have re: "rfold holds g h' (redirect i (getFirst (h ! i)) r) = rfold holds g h r" if "lowRef k r" "i < k" for r
    proof (cases "r = Node i")
      case True
      have "rfold holds g h' (getFirst (h ! i)) = rfold holds g h (getFirst (h ! i))"
        using that(2) lowi by (intro ref) (auto elim: lowRef_mono)
      also have "\<dots> = hfold holds g h i" using low_eq [OF low i(1), of holds g] i by (simp add: holds_simps)
      finally show ?thesis using True by (simp add: redirect_def)
    next
      case False
      then show ?thesis using ref that by (simp add: redirect_def)
    qed
    have lowk: "lowRef k (getFirst (h ! k))" "lowRef k (getSecond (h ! k))" using low less.prems by (simp_all add: heapLow_def)
    have "holds (substitute i x e) = holds e" for x e by (intro ext) (simp add: holds_def)
    then show ?case
      using low_eq [OF low less.prems, of holds g] low_eq [OF low', of k holds g] h' [OF less.prems] less.prems len lowk ref re
      by (simp add: substitute_refs)
  qed
qed

text \<open>The entry passed over is referred to once; what it referred to takes its place.\<close>

lemma rotate3: "A + (B + C) = A + C + B" for A B C :: "'a multiset"
  by (simp add: ac_simps)

lemma rotate4: "A + (B + add_mset a C) = A + C + B + {#a#}"
  by (simp add: ac_simps)

lemma redirect_count:
  assumes "mset (xs @ ys @ a # zs) = N" and "distinct (xs @ ys @ a # zs)" and "Node i \<in> set (xs @ zs)" and "Node i \<notin> set ys" and "a \<noteq> Node i"
  shows "mset (map (redirect i a) xs @ ys @ map (redirect i a) zs) = N - {#Node i#}"
proof -
  obtain K where K: "mset (xs @ zs) = add_mset (Node i) K" using assms(3) by (metis multi_member_split set_mset_mset)
  have "distinct (xs @ zs)" using assms(2) by auto
  then have "count (mset (xs @ zs)) (Node i) = 1" using assms(3) unfolding distinct_count_atmost_1 by simp
  then have "Node i \<notin># K" unfolding K by (simp add: count_eq_zero_iff)
  then have "image_mset (redirect i a) K = K" by (induction K) (auto simp: redirect_def)
  then have x: "mset (map (redirect i a) (xs @ zs)) = add_mset a K" unfolding mset_map K by (simp add: redirect_def)
  have "mset (map (redirect i a) xs @ ys @ map (redirect i a) zs) = mset (map (redirect i a) (xs @ zs)) + mset ys"
    unfolding map_append mset_append by (rule rotate3)
  moreover have "N = mset (xs @ zs) + mset ys + {#a#}"
    unfolding assms(1) [symmetric] mset_append mset.simps by (rule rotate4)
  ultimately show ?thesis unfolding x K by simp
qed


lemma substitute_cong: "getFirst x = getFirst y \<Longrightarrow> substitute i x e = substitute i y e"
  by (simp add: substitute_def assignUnaryToFirst_def assignUnaryToSecond_def getFirst_def stackRef_def)

lemma split_at: "i < length h \<Longrightarrow> h = take i h @ h ! i # drop (Suc i) h"
  by (rule id_take_nth_drop)

text \<open>A negation is taken out of the tree, and what it negates is flipped unless it was marked itself.\<close>

lemma treeRefs_redirect:
  assumes tree: "treeRefs M root h" and low: "heapLow h" and i: "i < length h" and x: "isNot (eOp (h ! i))"
    and len: "length h' = length h" and xi: "eOp (h' ! i) = WQL_IS_TRUE"
    and pre: "\<And>k. k < i \<Longrightarrow> refs (h' ! k) = refs (h ! k) \<and> eOp (h' ! k) = eOp (h ! k)"
    and post: "\<And>k. i < k \<Longrightarrow> k < length h \<Longrightarrow> refs (h' ! k) = map (redirect i (getFirst (h ! i))) (refs (h ! k)) \<and> eOp (h' ! k) = eOp (h ! k)"
  shows "treeRefs M (redirect i (getFirst (h ! i)) root) h'"
proof -
  let ?a = "getFirst (h ! i)" and ?f = "redirect i (getFirst (h ! i))"
  let ?A = "concat (map refs (take i h))" and ?B = "concat (map refs (drop (Suc i) h))"
  have op: "eOp (h ! i) \<noteq> WQL_IS_TRUE" using x by auto
  have refsi: "refs (h ! i) = [?a]" using x isNot_not_binary by (simp add: refs_def)
  have h: "concat (map refs h) = ?A @ ?a # ?B"
    by (subst split_at [OF i]) (simp add: refsi)
  have lives: "liveNodes 0 h = liveNodes 0 (take i h) @ Node i # liveNodes (Suc i) (drop (Suc i) h)"
    by (subst split_at [OF i]) (use i op in simp)
  have lowa: "lowRef i r" if "r \<in> set ?A \<or> r = ?a" for r
  proof -
    have "lowRef i r" if "r \<in> set ?A"
    proof -
      obtain e where e: "e \<in> set (take i h)" "r \<in> set (refs e)" using \<open>r \<in> set ?A\<close> by auto
      then obtain k where "k < length (take i h)" "take i h ! k = e" unfolding in_set_conv_nth by blast
      then have k: "k < i" "k < length h" "r \<in> set (refs (h ! k))" using e(2) by simp_all
      show ?thesis using lowRef_mono [OF refs_low [OF low k(2,3)], of i] k(1) by simp
    qed
    moreover have "lowRef i ?a" using low i by (simp add: heapLow_def)
    ultimately show ?thesis using that by blast
  qed
  have not_low: "\<not> lowRef i (Node i)" by (simp add: lowRef_def)
  have dist: "distinct ([root] @ ?A @ ?a # ?B)" using treeRefs_distinct [OF tree] h by simp
  have mem: "Node i \<in> set ([root] @ ?A @ ?a # ?B)" using treeRefs_set [OF tree] h i op by simp
  have N: "mset ([root] @ ?A @ ?a # ?B) = mset (liveNodes 0 h) + mset (map Leaf [0 ..< M])"
    using tree h by (simp add: treeRefs_def)
  have "mset (map ?f [root] @ ?A @ map ?f ?B) = mset (liveNodes 0 h) + mset (map Leaf [0 ..< M]) - {#Node i#}"
  proof (rule redirect_count [OF N dist])
    show "Node i \<notin> set ?A" "?a \<noteq> Node i" using lowa not_low by metis+
    then show "Node i \<in> set ([root] @ ?B)" using mem by auto
  qed
  also have "\<dots> = mset (liveNodes 0 (take i h) @ liveNodes (Suc i) (drop (Suc i) h)) + mset (map Leaf [0 ..< M])"
    unfolding lives by simp
  finally have c: "mset (map ?f [root] @ ?A @ map ?f ?B) =
    mset (liveNodes 0 (take i h) @ liveNodes (Suc i) (drop (Suc i) h)) + mset (map Leaf [0 ..< M])" .
  have i': "i < length h'" using i len by simp
  have "map refs (take i h') = map refs (take i h)" using i len pre by (intro nth_equalityI) auto
  moreover have "map refs (drop (Suc i) h') = map (\<lambda>e. map ?f (refs e)) (drop (Suc i) h)"
    using i len post by (intro nth_equalityI) auto
  moreover have "refs (h' ! i) = []" using xi by (simp add: refs_def)
  ultimately have "concat (map refs h') = ?A @ map ?f ?B"
    by (subst split_at [OF i']) (simp add: map_concat comp_def)
  moreover have "liveNodes 0 h' = liveNodes 0 (take i h) @ liveNodes (Suc i) (drop (Suc i) h)"
  proof -
    have "liveNodes n (take i h') = liveNodes n (take i h)" for n using i len pre by (intro liveNodes_cong) auto
    moreover have "liveNodes n (drop (Suc i) h') = liveNodes n (drop (Suc i) h)" for n using i len post by (intro liveNodes_cong) auto
    ultimately show ?thesis by (subst split_at [OF i']) (use i len xi in simp)
  qed
  ultimately show ?thesis using c by (simp add: treeRefs_def)
qed

lemma root_value:
  assumes "treeRefs M root h"
    and "\<And>k. k < length h \<Longrightarrow> eOp (h ! k) \<noteq> WQL_IS_TRUE \<Longrightarrow> hfold holds g' h' k = (hfold holds g h k \<noteq> (Node k \<in> C))"
    and "\<And>t. t < M \<Longrightarrow> g' t = (g t \<noteq> (Leaf t \<in> C))" and "root \<notin> C"
  shows "rfold holds g' h' root = rfold holds g h root"
proof -
  have "root \<in> set (root # concat (map refs h))" by simp
  then consider k where "root = Node k" "k < length h" "eOp (h ! k) \<noteq> WQL_IS_TRUE" | t where "root = Leaf t" "t < M"
    unfolding treeRefs_set [OF assms(1)] by blast
  then show ?thesis using assms(2-4) by cases auto
qed

lemma not_core:
  assumes inv: "pushInv M (Suc i) root h" and x: "isNot (eOp (h ! i))" and i: "i < length h"
    and C: "C = (if eMark (h ! i) then {} else {getFirst (h ! i)})"
    and len: "length h' = length h"
    and h': "\<And>k. k < length h \<Longrightarrow> h' ! k =
      (if k = i then (h ! i)\<lparr>eOp := WQL_IS_TRUE, eMark := False\<rparr>
       else if i < k then substitute i (h ! i) (h ! k)
       else (h ! k)\<lparr>eMark := (eMark (h ! k) \<noteq> (Node k \<in> C))\<rparr>)"
    and leaves: "\<And>t. t < M \<Longrightarrow> g' t = (g t \<noteq> (Leaf t \<in> C))"
  shows "pushInv M i (redirect i (getFirst (h ! i)) root) h'"
    and "rfold holds g' h' (redirect i (getFirst (h ! i)) root) = rfold holds g h root"
proof -
  let ?a = "getFirst (h ! i)"
  have tree: "treeRefs M root h" and low: "heapLow h" using inv by (simp_all add: pushInv_def)
  have op: "eOp (h ! i) \<noteq> WQL_IS_TRUE" using x by auto
  have refsi: "refs (h ! i) = [?a]" using x isNot_not_binary by (simp add: refs_def)
  have lowa: "lowRef i ?a" using low i by (simp add: heapLow_def)
  have Clow: "Node k \<notin> C" if "i \<le> k" for k
  proof
    assume "Node k \<in> C"
    then have "?a = Node k" by (simp add: C split: if_splits)
    then show False using lowa that unfolding \<open>?a = Node k\<close> by (simp add: lowRef_def)
  qed
  define m where "m = map (\<lambda>k. if k = i then (h ! i)\<lparr>eOp := WQL_IS_TRUE, eMark := False\<rparr>
    else (h ! k)\<lparr>eMark := (eMark (h ! k) \<noteq> (Node k \<in> C))\<rparr>) [0 ..< length h]"
  have lenm: "length m = length h" by (simp add: m_def)
  have m: "m ! k = (if k = i then (h ! i)\<lparr>eOp := WQL_IS_TRUE, eMark := False\<rparr>
    else (h ! k)\<lparr>eMark := (eMark (h ! k) \<noteq> (Node k \<in> C))\<rparr>)" if "k < length h" for k using that by (simp add: m_def)
  have refm: "getFirst (m ! k) = getFirst (h ! k) \<and> getSecond (m ! k) = getSecond (h ! k)" if "k < length h" for k
    using that by (simp add: m getFirst_def getSecond_def)
  have lowm: "heapLow m" using low refm by (simp add: heapLow_def lenm)
  have vals: "hfold holds g' m k = (hfold holds g h k \<noteq> (Node k \<in> C))" if "k < length h" "eOp (h ! k) \<noteq> WQL_IS_TRUE" for k
  proof (rule flip_values [OF inv i lenm lowm refm _ _ leaves _ op that])
    show "C \<subseteq> set (refs (h ! i))" by (simp add: C refsi)
    show "holds (m ! i) (a \<noteq> (getFirst (h ! i) \<in> C)) (b \<noteq> (getSecond (h ! i) \<in> C)) = holds (h ! i) a b" for a b
      using x i by (auto simp: m C holds_def isNot_def)
  qed (simp_all add: m)
  have mi: "eOp (m ! i) = WQL_IS_TRUE" "\<not> eMark (m ! i)" using i by (simp_all add: m)
  have sub: "h' ! k = (if i < k then substitute i (m ! i) (m ! k) else m ! k)" if "k < length m" for k
  proof -
    have "substitute i ((h ! i)\<lparr>eOp := WQL_IS_TRUE, eMark := False\<rparr>) e = substitute i (h ! i) e" for e
      by (intro substitute_cong) (simp add: getFirst_def)
    then show ?thesis using that Clow [of k] by (simp add: h' m lenm)
  qed
  have low': "heapLow h'" by (rule substitute_values [OF lowm _ mi _ sub]) (use i lenm len in simp_all)
  have same: "hfold holds g' h' k = hfold holds g' m k" if "k < length h" for k
    by (rule substitute_values [OF lowm _ mi _ sub]) (use i lenm len that in simp_all)
  have refs': "refs (h' ! k) = refs (h ! k) \<and> eOp (h' ! k) = eOp (h ! k)" if "k < i" for k
    using that i by (simp add: h' refs_def getFirst_def getSecond_def)
  have tree': "treeRefs M (redirect i ?a root) h'"
  proof (rule treeRefs_redirect [OF tree low i x len _ refs'])
    show "eOp (h' ! i) = WQL_IS_TRUE" using i by (simp add: h')
    show "refs (h' ! k) = map (redirect i ?a) (refs (h ! k)) \<and> eOp (h' ! k) = eOp (h ! k)" if "i < k" "k < length h" for k
      using that by (simp add: h' refs_substitute)
  qed
  have "pending (h' ! k)" if "k < i" for k
    using that inv i by (auto simp: h' pushInv_def pending_def getSecond_def)
  moreover have "settled (h' ! k)" if "k < length h" "i \<le> k" for k
    using that inv by (auto simp: h' pushInv_def settled_def)
  ultimately show "pushInv M i (redirect i ?a root) h'" using i len low' tree' by (simp add: pushInv_def)
  have root: "root \<notin> C" using treeRefs_unique(1) [OF tree i, of ?a] refsi by (auto simp: C)
  show "rfold holds g' h' (redirect i ?a root) = rfold holds g h root"
  proof (cases "root = Node i")
    case True
    have "rfold holds g' h' ?a = rfold holds g' m ?a" using same lowa i by (auto simp: rfold_def lowRef_def)
    also have "\<dots> = hfold holds g' m i"
      using low_eq [OF lowm, of i holds g'] mi i lenm refm [OF i] by (simp add: holds_simps)
    also have "\<dots> = hfold holds g h i" using vals [OF i op] Clow by simp
    finally show ?thesis using True by (simp add: redirect_def)
  next
    case False
    have "rfold holds g' h' root = rfold holds g h root"
      by (rule root_value [OF tree _ leaves root]) (simp_all add: same vals)
    then show ?thesis using False by (simp add: redirect_def)
  qed
qed


lemma binary_core:
  assumes inv: "pushInv M (Suc i) root h" and x: "binary (eOp (h ! i))" and i: "i < length h"
    and C: "C = (if eMark (h ! i) then {getFirst (h ! i), getSecond (h ! i)} else {})"
    and len: "length h' = length h"
    and h': "\<And>k. k < length h \<Longrightarrow> h' ! k =
      (if k = i then (h ! i)\<lparr>eOp := (if eMark (h ! i) then dualOp (eOp (h ! i)) else eOp (h ! i)), eMark := False\<rparr>
       else (h ! k)\<lparr>eMark := (eMark (h ! k) \<noteq> (Node k \<in> C))\<rparr>)"
    and leaves: "\<And>t. t < M \<Longrightarrow> g' t = (g t \<noteq> (Leaf t \<in> C))"
  shows "pushInv M i root h'" and "rfold holds g' h' root = rfold holds g h root"
proof -
  have tree: "treeRefs M root h" and low: "heapLow h" using inv by (simp_all add: pushInv_def)
  have op: "eOp (h ! i) \<noteq> WQL_IS_TRUE" using x by auto
  have refsi: "refs (h ! i) = [getFirst (h ! i), getSecond (h ! i)]" using x by (simp add: refs_def)
  have bin: "binary (dualOp op)" if "binary op" for op using that by (auto simp: dualOp_def binary_def)
  have Clow: "Node k \<notin> C" if "i \<le> k" for k
  proof
    assume "Node k \<in> C"
    then have "Node k \<in> set (refs (h ! i))" unfolding refsi by (auto simp: C split: if_splits)
    then show False using refs_low [OF low i] that by (fastforce simp: lowRef_def)
  qed
  have refs': "getFirst (h' ! k) = getFirst (h ! k) \<and> getSecond (h' ! k) = getSecond (h ! k)" if "k < length h" for k
    using that by (simp add: h' getFirst_def getSecond_def)
  have low': "heapLow h'" using low refs' by (simp add: heapLow_def len)
  have vals: "hfold holds g' h' k = (hfold holds g h k \<noteq> (Node k \<in> C))" if "k < length h" "eOp (h ! k) \<noteq> WQL_IS_TRUE" for k
  proof (rule flip_values [OF inv i len low' refs' _ _ leaves _ op that])
    show "C \<subseteq> set (refs (h ! i))" by (auto simp: C refsi split: if_splits)
    show "holds (h' ! i) (a \<noteq> (getFirst (h ! i) \<in> C)) (b \<noteq> (getSecond (h ! i) \<in> C)) = holds (h ! i) a b" for a b
      using x i by (auto simp: h' C holds_def binary_def dualOp_def)
  qed (simp_all add: h')
  have "treeRefs M root h' = treeRefs M root h"
  proof (rule treeRefs_cong [OF len], intro allI impI conjI)
    fix k assume k: "k < length h"
    have ops: "binary (eOp (h' ! k)) = binary (eOp (h ! k)) \<and> isNot (eOp (h' ! k)) = isNot (eOp (h ! k)) \<and>
        (eOp (h' ! k) = WQL_IS_TRUE) = (eOp (h ! k) = WQL_IS_TRUE)"
    proof (cases "k = i")
      case True
      then show ?thesis using i x by (auto simp: h' dualOp_def binary_def)
    qed (simp add: h' k)
    then show "mset (refs (h' ! k)) = mset (refs (h ! k))" using refs' [OF k] by (simp add: refs_def)
    show "(eOp (h' ! k) = WQL_IS_TRUE) = (eOp (h ! k) = WQL_IS_TRUE)" using ops by blast
  qed
  moreover have "pending (h' ! k)" if "k < i" for k
    using that inv i by (auto simp: h' pushInv_def pending_def getSecond_def)
  moreover have "settled (h' ! k)" if "k < length h" "i \<le> k" for k
    using that inv x Clow [of k] bin by (auto simp: h' pushInv_def settled_def)
  ultimately show "pushInv M i root h'" using i len low' tree by (simp add: pushInv_def)
  have "root \<notin> C" using treeRefs_unique(1) [OF tree i] by (auto simp: C refsi split: if_splits)
  then show "rfold holds g' h' root = rfold holds g h root" by (intro root_value [OF tree vals leaves])
qed

subsection \<open>The step and the loop\<close>

lemma negateTerm_twice [simp]: "negateTerm (negateTerm t) = t"
  by (cases "tOp t") (simp_all add: negateTerm_def)

lemma flipOperand_leaf: "t < length ts \<Longrightarrow> flipOperand (Leaf t) (h, ts) = Inr (h, ts[t := negateTerm (ts ! t)])"
  by (simp add: flipOperand_def elementAt_def)

lemma flipOperand_node:
  "k < length h \<Longrightarrow> flipOperand (Node k) (h, ts) = Inr (h[k := (h ! k)\<lparr>eMark := \<not> eMark (h ! k)\<rparr>], ts)"
  by (simp add: flipOperand_def elementAt_def)

definition flipped :: "stackEl set \<Rightarrow> evalEl list \<times> termEl list \<Rightarrow> evalEl list \<times> termEl list \<Rightarrow> bool" where
  "flipped C s s' \<longleftrightarrow>
     length (fst s') = length (fst s) \<and> length (snd s') = length (snd s) \<and>
     (\<forall>k < length (fst s). fst s' ! k = (fst s ! k)\<lparr>eMark := (eMark (fst s ! k) \<noteq> (Node k \<in> C))\<rparr>) \<and>
     (\<forall>t < length (snd s). snd s' ! t = (if Leaf t \<in> C then negateTerm (snd s ! t) else snd s ! t))"

lemma flipped_empty: "flipped {} s s"
  by (simp add: flipped_def)

lemma flipOperand_flipped:
  assumes "(\<exists>k < length h. r = Node k) \<or> (\<exists>t < length ts. r = Leaf t)"
  shows "\<exists>s'. flipOperand r (h, ts) = Inr s' \<and> flipped {r} (h, ts) s'"
  using assms by (auto simp: flipOperand_leaf flipOperand_node flipped_def nth_list_update)

lemma flipped_flipped:
  assumes s': "flipped A s s'" and s'': "flipped B s' s''" and AB: "A \<inter> B = {}"
  shows "flipped (A \<union> B) s s''"
proof -
  have m: "((a \<noteq> (x \<in> A)) \<noteq> (x \<in> B)) = (a \<noteq> (x \<in> A \<union> B))" for a x using AB by auto
  have "fst s'' ! k = (fst s ! k)\<lparr>eMark := (eMark (fst s ! k) \<noteq> (Node k \<in> A \<union> B))\<rparr>" if "k < length (fst s)" for k
  proof -
    have "fst s' ! k = (fst s ! k)\<lparr>eMark := (eMark (fst s ! k) \<noteq> (Node k \<in> A))\<rparr>" using s' that by (simp add: flipped_def)
    moreover have "fst s'' ! k = (fst s' ! k)\<lparr>eMark := (eMark (fst s' ! k) \<noteq> (Node k \<in> B))\<rparr>"
      using s' s'' that by (simp add: flipped_def)
    ultimately have "fst s'' ! k = (fst s ! k)\<lparr>eMark := ((eMark (fst s ! k) \<noteq> (Node k \<in> A)) \<noteq> (Node k \<in> B))\<rparr>"
      by simp
    then show ?thesis unfolding m .
  qed
  moreover have "snd s'' ! t = (if Leaf t \<in> A \<union> B then negateTerm (snd s ! t) else snd s ! t)" if "t < length (snd s)" for t
  proof -
    have "snd s' ! t = (if Leaf t \<in> A then negateTerm (snd s ! t) else snd s ! t)" using s' that by (simp add: flipped_def)
    moreover have "snd s'' ! t = (if Leaf t \<in> B then negateTerm (snd s' ! t) else snd s' ! t)"
      using s' s'' that by (simp add: flipped_def)
    ultimately show ?thesis using AB by auto
  qed
  ultimately show ?thesis using s' s'' by (simp add: flipped_def)
qed

lemma flip_two:
  assumes "r \<noteq> r'" and ok: "\<And>x. x \<in> {r, r'} \<Longrightarrow> (\<exists>k < length h. x = Node k) \<or> (\<exists>t < length ts. x = Leaf t)"
  shows "\<exists>s'. bindE (flipOperand r (h, ts)) (flipOperand r') = Inr s' \<and> flipped {r, r'} (h, ts) s'"
proof -
  obtain h1 t1 where s1: "flipOperand r (h, ts) = Inr (h1, t1)" "flipped {r} (h, ts) (h1, t1)"
    using flipOperand_flipped [OF ok [of r]] by auto
  then have "length h1 = length h" "length t1 = length ts" by (simp_all add: flipped_def)
  then have "(\<exists>k < length h1. r' = Node k) \<or> (\<exists>t < length t1. r' = Leaf t)" using ok [of r'] by simp
  from flipOperand_flipped [OF this] obtain s2 where s2: "flipOperand r' (h1, t1) = Inr s2" "flipped {r'} (h1, t1) s2"
    by blast
  have "flipped ({r} \<union> {r'}) (h, ts) s2" using assms(1) by (intro flipped_flipped [OF s1(2) s2(2)]) simp
  then show ?thesis using s1(1) s2(1) by (simp add: insert_commute)
qed

lemma get_update:
  "getFirst (e\<lparr>eOp := q\<rparr>) = getFirst e" "getSecond (e\<lparr>eOp := q\<rparr>) = getSecond e"
  "getFirst (e\<lparr>eMark := m\<rparr>) = getFirst e" "getSecond (e\<lparr>eMark := m\<rparr>) = getSecond e"
  by (simp_all add: getFirst_def getSecond_def)

text \<open>One step: the root may change, its value does not.\<close>

lemma flipped_values:
  assumes "flipped C (h, ts) s'" and "\<forall>t \<in> set ts. v (negateTerm t) \<noteq> v t" and "t < length ts"
  shows "v (snd s' ! t) = (v (ts ! t) \<noteq> (Leaf t \<in> C))"
  using assms by (auto simp: flipped_def)

lemma pushStep_ok:
  assumes inv: "pushInv (length ts) (Suc i) root h0" and good: "\<forall>t \<in> set ts. v (negateTerm t) \<noteq> v t"
  shows "\<exists>root' h' ts'. pushStep i (h0, ts) = Inr (h', ts') \<and> pushInv (length ts) i root' h' \<and>
    length h' = length h0 \<and> length ts' = length ts \<and>
    (\<forall>t < length ts. ts' ! t = ts ! t \<or> ts' ! t = negateTerm (ts ! t)) \<and>
    rfold holds (\<lambda>t. v (ts' ! t)) h' root' = rfold holds (\<lambda>t. v (ts ! t)) h0 root"
proof -
  have i: "i < length h0" using inv by (simp add: pushInv_def)
  define h where "h = h0[i := order (h0 ! i)]"
  let ?g = "\<lambda>t. v (ts ! t)" and ?a = "getFirst (h ! i)" and ?b = "getSecond (h ! i)"
  have inv1: "pushInv (length ts) (Suc i) root h" unfolding h_def by (rule order_inv [OF inv i])
  have len: "length h = length h0" by (simp add: h_def)
  have i1: "i < length h" using i len by simp
  have tree: "treeRefs (length ts) root h" "treeRefs (length ts) root h0" and low: "heapLow h"
    using inv inv1 by (simp_all add: pushInv_def)
  have val0: "rfold holds ?g h root = rfold holds ?g h0 root"
    by (rule root_value [OF tree(2), where C = "{}"]) (simp_all add: h_def order_inv [OF inv i])
  have pend: "pending (h ! i)" using inv1 by (simp add: pushInv_def)
  have valid: "(\<exists>k < length h. r = Node k) \<or> (\<exists>t < length ts. r = Leaf t)" if "r \<in> set (refs (h ! i))" for r
    using treeRefs_ref [OF tree(1) i1 that] by blast
  have lowi: "k < i" if "Node k \<in> set (refs (h ! i))" for k using refs_low [OF low i1 that] by (simp add: lowRef_def)
  have oi: "h0[i := order (h0 ! i)] ! i = h ! i" by (simp add: h_def)
  have finish: ?thesis
    if run: "pushStep i (h0, ts) = Inr s'" and root': "pushInv (length ts) i root' (fst s')"
      and f: "length (fst s') = length h0" "length (snd s') = length ts" "\<forall>t < length ts. snd s' ! t = ts ! t \<or> snd s' ! t = negateTerm (ts ! t)"
      and val: "rfold holds (\<lambda>t. v (snd s' ! t)) (fst s') root' = rfold holds ?g h root" for s' root'
    using that val0 by (intro exI [of _ root'] exI [of _ "fst s'"] exI [of _ "snd s'"]) simp
  show ?thesis
  proof (cases "isNot (eOp (h ! i))")
    case True
    have refsi: "refs (h ! i) = [?a]" using True isNot_not_binary by (simp add: refs_def)
    let ?x = "(h ! i)\<lparr>eOp := WQL_IS_TRUE\<rparr>"
    let ?C = "if eMark (h ! i) then {} else {?a}"
    let ?h3 = "take i h @ ?x\<lparr>eMark := False\<rparr> # map (substitute i ?x) (drop (Suc i) h)"
    have nth3: "?h3 ! k = (if k = i then ?x\<lparr>eMark := False\<rparr> else if i < k then substitute i (h ! i) (h ! k) else h ! k)" if "k < length h" for k
    proof -
      have "substitute i ?x e = substitute i (h ! i) e" for e by (intro substitute_cong) (simp add: getFirst_def)
      then show ?thesis using that i1 by (auto simp: nth_append nth_Cons' not_less)
    qed
    have len3: "length ?h3 = length h" using i1 by simp
    have b: "eOpn2 (h ! i) = -1" using pend True isNot_not_binary ref_fields(1,5) by (metis pending_def)
    have run: "pushStep i (h0, ts) = (if eMark (h ! i) then Inr (?h3, ts) else flipOperand ?a (?h3, ts))"
    proof (cases "eMark (h ! i)")
      case True
      then show ?thesis using \<open>isNot (eOp (h ! i))\<close> i1
        by (simp add: pushStep_def oi Let_def h_def [symmetric] nth_append list_update_append)
    next
      case False
      have e: "(h ! i)\<lparr>eOp := WQL_IS_TRUE, eMark := False\<rparr> = ?x" using False by simp
      show ?thesis unfolding e using b False \<open>isNot (eOp (h ! i))\<close> i1
        by (cases "flipOperand ?a (take i h @ ?x # map (substitute i ?x) (drop (Suc i) h), ts)")
          (simp_all add: pushStep_def oi Let_def h_def [symmetric] nth_append get_update)
    qed
    have "\<exists>s'. pushStep i (h0, ts) = Inr s' \<and> flipped ?C (?h3, ts) s'"
    proof (cases "eMark (h ! i)")
      case False
      have "(\<exists>k < length ?h3. ?a = Node k) \<or> (\<exists>t < length ts. ?a = Leaf t)" unfolding len3 by (rule valid) (simp add: refsi)
      from flipOperand_flipped [OF this] show ?thesis using False run by simp
    qed (simp add: run flipped_empty)
    then obtain s' where s': "pushStep i (h0, ts) = Inr s'" "flipped ?C (?h3, ts) s'" by blast
    have Clow: "Node k \<notin> ?C" if "i \<le> k" for k using lowi [of k] that refsi by (auto split: if_splits)
    have spec: "fst s' ! k =
      (if k = i then (h ! i)\<lparr>eOp := WQL_IS_TRUE, eMark := False\<rparr>
       else if i < k then substitute i (h ! i) (h ! k)
       else (h ! k)\<lparr>eMark := (eMark (h ! k) \<noteq> (Node k \<in> ?C))\<rparr>)" if "k < length h" for k
    proof -
      have "fst s' ! k = (?h3 ! k)\<lparr>eMark := (eMark (?h3 ! k) \<noteq> (Node k \<in> ?C))\<rparr>"
        using s'(2) that len3 by (simp add: flipped_def)
      then show ?thesis unfolding nth3 [OF that] using Clow [of k] by (cases "i \<le> k") auto
    qed
    have lens: "length (fst s') = length h" "length (snd s') = length ts" using s'(2) len3 by (simp_all add: flipped_def)
    note core = not_core [OF inv1 True i1 refl lens(1) spec flipped_values [OF s'(2) good]]
    show ?thesis
      by (rule finish [OF s'(1) core(1) _ lens(2) _ core(2)]) (use lens len s'(2) in \<open>auto simp: flipped_def\<close>)
  next
    case False
    then have bin: "binary (eOp (h ! i))" using pend by (simp add: pending_def)
    have refsi: "refs (h ! i) = [?a, ?b]" using bin by (simp add: refs_def)
    let ?C = "if eMark (h ! i) then {?a, ?b} else {}"
    let ?y = "(h ! i)\<lparr>eMark := False, eOp := dualOp (eOp (h ! i))\<rparr>"
    have "\<exists>k t. ?b = stackRef (int k) t" using valid [of ?b] refsi by auto
    then have b: "eOpn2 (h ! i) \<ge> 0" by (metis ref_fields(1,5) of_nat_0_le_iff)
    have run: "pushStep i (h0, ts) =
      (if eMark (h ! i) then bindE (flipOperand ?a (h[i := ?y], ts)) (flipOperand ?b) else Inr (h, ts))"
      using False i1 b
      by (cases "eMark (h ! i)") (simp_all add: pushStep_def oi Let_def h_def [symmetric] get_update)
    let ?h3 = "if eMark (h ! i) then h[i := ?y] else h"
    have "\<exists>s'. pushStep i (h0, ts) = Inr s' \<and> flipped ?C (?h3, ts) s'"
    proof (cases "eMark (h ! i)")
      case True
      have "?a \<noteq> ?b" using treeRefs_unique(2) [OF tree(1) i1, of ?a] refsi by simp
      from flip_two [OF this, of "h[i := ?y]" ts] show ?thesis using valid refsi True run by simp
    qed (simp add: run flipped_empty)
    then obtain s' where s': "pushStep i (h0, ts) = Inr s'" "flipped ?C (?h3, ts) s'" by blast
    have Clow: "Node k \<notin> ?C" if "i \<le> k" for k using lowi [of k] that refsi by (auto split: if_splits)
    have spec: "fst s' ! k =
      (if k = i then (h ! i)\<lparr>eOp := (if eMark (h ! i) then dualOp (eOp (h ! i)) else eOp (h ! i)), eMark := False\<rparr>
       else (h ! k)\<lparr>eMark := (eMark (h ! k) \<noteq> (Node k \<in> ?C))\<rparr>)" if "k < length h" for k
    proof -
      have "fst s' ! k = (?h3 ! k)\<lparr>eMark := (eMark (?h3 ! k) \<noteq> (Node k \<in> ?C))\<rparr>"
        using s'(2) that by (simp add: flipped_def)
      moreover have "?h3 ! k = (if k = i \<and> eMark (h ! i) then ?y else h ! k)" using that by simp
      ultimately show ?thesis using Clow [of i] by (cases "k = i"; cases "eMark (h ! i)") simp_all
    qed
    have lens: "length (fst s') = length h" "length (snd s') = length ts" using s'(2) by (simp_all add: flipped_def)
    note core = binary_core [OF inv1 bin i1 refl lens(1) spec flipped_values [OF s'(2) good]]
    show ?thesis
      by (rule finish [OF s'(1) core(1) _ lens(2) _ core(2)]) (use lens len s'(2) in \<open>auto simp: flipped_def\<close>)
  qed
qed


lemma pushNOTDown_ok:
  assumes "pushInv (length ts) i root h" and "\<forall>t \<in> set ts. v (negateTerm t) \<noteq> v t"
  shows "\<exists>root' h' ts'. pushNOTDown i (h, ts) = Inr (h', ts') \<and> pushInv (length ts) 0 root' h' \<and> length ts' = length ts \<and>
    (\<forall>t < length ts. ts' ! t = ts ! t \<or> ts' ! t = negateTerm (ts ! t)) \<and>
    rfold holds (\<lambda>t. v (ts' ! t)) h' root' = rfold holds (\<lambda>t. v (ts ! t)) h root"
  using assms
proof (induction i arbitrary: root h ts)
  case 0
  then show ?case by auto
next
  case (Suc i)
  from pushStep_ok [OF Suc.prems] obtain root1 h1 ts1 where s1: "pushStep i (h, ts) = Inr (h1, ts1)"
    "pushInv (length ts) i root1 h1" "length ts1 = length ts"
    "\<forall>t < length ts. ts1 ! t = ts ! t \<or> ts1 ! t = negateTerm (ts ! t)"
    "rfold holds (\<lambda>t. v (ts1 ! t)) h1 root1 = rfold holds (\<lambda>t. v (ts ! t)) h root" by blast
  have good: "\<forall>t \<in> set ts1. v (negateTerm t) \<noteq> v t"
  proof
    fix t assume "t \<in> set ts1"
    then obtain k where k: "k < length ts" "t = ts1 ! k" using s1(3) by (auto simp: in_set_conv_nth)
    then have "t = ts ! k \<or> t = negateTerm (ts ! k)" using s1(4) by blast
    then show "v (negateTerm t) \<noteq> v t" using Suc.prems(2) k(1) by auto
  qed
  have inv1: "pushInv (length ts1) i root1 h1" using s1(2,3) by simp
  from Suc.IH [OF inv1 good] obtain root2 h2 ts2 where s2: "pushNOTDown i (h1, ts1) = Inr (h2, ts2)"
    "pushInv (length ts1) 0 root2 h2" "length ts2 = length ts1"
    "\<forall>t < length ts1. ts2 ! t = ts1 ! t \<or> ts2 ! t = negateTerm (ts1 ! t)"
    "rfold holds (\<lambda>t. v (ts2 ! t)) h2 root2 = rfold holds (\<lambda>t. v (ts1 ! t)) h1 root1" by blast
  have "ts2 ! t = ts ! t \<or> ts2 ! t = negateTerm (ts ! t)" if "t < length ts" for t
    using s1(3,4) s2(4) that by (metis negateTerm_twice)
  then show ?case using s1 s2 by (intro exI [of _ root2] exI [of _ h2] exI [of _ ts2]) simp
qed

text \<open>The arrays after the first two passes, for a condition.\<close>

definition passed :: "nat \<Rightarrow> stackEl \<Rightarrow> evalEl list \<Rightarrow> bool" where
  "passed M root h \<longleftrightarrow> heapLow h \<and> (\<forall>e \<in> set h. settled e) \<and> treeRefs M root h"

lemma build_and_push:
  assumes good: "\<forall>t \<in> set (conditionTerms c). v (negateTerm t) \<noteq> v t"
    and s: "s = emitStatement sel from (Some c) s0"
  shows "\<exists>root h ts. bindE (buildEvalHeap (operands s) (operations s) ([], [], [], 0)) (\<lambda>(_, ts, h, _). pushNOTDown (length h) (h, ts)) =
      Inr (h, ts) \<and> passed (length ts) root h \<and> length ts = length (conditionTerms c) \<and>
    (\<forall>t \<in> set ts. \<exists>u \<in> set (conditionTerms c). t = u \<or> t = negateTerm u) \<and>
    rfold holds (\<lambda>t. v (ts ! t)) h root = conditionHolds v c"
proof -
  let ?h = "conditionNodes 0 0 c" and ?ts = "conditionTerms c" and ?root = "conditionRef 0 0 c"
  have build: "buildEvalHeap (operands s) (operations s) ([], [], [], 0) =
    Inr ([?root], ?ts, ?h, length (conditionOperands c))"
    using buildCondition [of "[]" c "[]" "[]" "[]" "[]" "[]"] by (simp add: s wql_emit)
  have lives: "liveNodes n h = map Node [n ..< n + length h]" if "\<forall>e \<in> set h. eOp e \<noteq> WQL_IS_TRUE" for n h
    using that
  proof (induction h arbitrary: n)
    case (Cons e h)
    have "[n ..< n + length (e # h)] = n # [Suc n ..< Suc n + length h]" by (subst upt_conv_Cons) simp_all
    then show ?case using Cons by simp
  qed simp
  have ops: "\<forall>e \<in> set ?h. eOp e \<noteq> WQL_IS_TRUE" using conditionNodes_ops by fastforce
  have tree: "treeRefs (length ?ts) ?root ?h"
    using conditionNodes_refs [of 0 0 c] lives [OF ops, of 0] by (simp add: treeRefs_def)
  have low: "heapLow ?h" using conditionNodes_low [of _ c 0 0] by (auto simp: heapLow_def)
  have "pending (?h ! k)" if "k < length ?h" for k
  proof -
    have second: "getSecond e = stackRef (-1) True" if "e \<in> set (conditionNodes t n c)" "isNot (eOp e)" for e t n
      using that by (induction c arbitrary: t n) (auto split: if_splits)
    have "?h ! k \<in> set ?h" using that by (rule nth_mem)
    then show ?thesis using conditionNodes_ops second [of "?h ! k" 0 0] by (auto simp: pending_def)
  qed
  then have inv: "pushInv (length ?ts) (length ?h) ?root ?h" using low tree by (simp add: pushInv_def)
  have val: "rfold holds (\<lambda>t. v (?ts ! t)) ?h ?root = conditionHolds v c"
    using conditionNodes_holds [of c "\<lambda>t. v (?ts ! t)" 0 v "[]" 0 "[]"] by simp
  from pushNOTDown_ok [OF inv good] obtain root h ts where p: "pushNOTDown (length ?h) (?h, ?ts) = Inr (h, ts)"
    "pushInv (length ?ts) 0 root h" "length ts = length ?ts" "\<forall>t < length ?ts. ts ! t = ?ts ! t \<or> ts ! t = negateTerm (?ts ! t)"
    "rfold holds (\<lambda>t. v (ts ! t)) h root = rfold holds (\<lambda>t. v (?ts ! t)) ?h ?root" by blast
  have "passed (length ts) root h" using p(2,3) by (auto simp: passed_def pushInv_def in_set_conv_nth)
  moreover have "\<forall>t \<in> set ts. \<exists>u \<in> set ?ts. t = u \<or> t = negateTerm u"
    using p(3,4) by (metis in_set_conv_nth)
  ultimately show ?thesis using build p val by (intro exI [of _ root] exI [of _ h] exI [of _ ts]) simp
qed

end
