(* ===== verification/DnfFactor.thy ===== *)
theory DnfFactor
  imports DnfPush
begin

section \<open>Distributing, and reading off the tableau\<close>

text \<open>
  \<open>_factoring\<close> of \<^verbatim>\<open>CMPI_Wql2Dnf.cpp\<close> ends and keeps the value: a rewriting replaces a conjunction over a
  disjunction by two conjunctions with fewer disjuncts between them. The number of disjuncts and the value are both folds over the
  array in which conjunction distributes over disjunction, so one locale has the lemma for both.
\<close>

subsection \<open>The invariant\<close>

definition orRefs :: "evalEl \<Rightarrow> stackEl list" where
  "orRefs e = (if eOp e = WQL_OR then filter (\<lambda>r. \<not> isTerminal r) [getFirst e, getSecond e] else [])"

definition refsOk :: "nat \<Rightarrow> evalEl list \<Rightarrow> bool" where
  "refsOk M h \<longleftrightarrow> (\<forall>k < length h. \<forall>r \<in> set (refs (h ! k)).
     (\<exists>j < k. r = Node j \<and> binary (eOp (h ! j))) \<or> (\<exists>t < M. r = Leaf t))"

definition factored :: "evalEl list \<Rightarrow> nat \<Rightarrow> bool" where
  "factored h i \<longleftrightarrow> (\<forall>k < i. \<forall>j. eOp (h ! k) = WQL_AND \<longrightarrow> Node j \<in> set (refs (h ! k)) \<longrightarrow> eOp (h ! j) \<noteq> WQL_OR)"

definition factorInv :: "nat \<Rightarrow> nat \<Rightarrow> nat \<Rightarrow> evalEl list \<Rightarrow> bool" where
  "factorInv M i R h \<longleftrightarrow> i \<le> length h \<and> R < length h \<and> binary (eOp (h ! R)) \<and>
     (\<forall>k < length h. R < k \<longrightarrow> eOp (h ! k) = WQL_IS_TRUE) \<and>
     heapLow h \<and> (\<forall>e \<in> set h. settled e) \<and> refsOk M h \<and> distinct (concat (map orRefs h)) \<and> factored h i"

lemma settled_notNot: "settled e \<Longrightarrow> \<not> isNot (eOp e)"
  by (auto simp: settled_def dest: isNot_not_binary)

lemma passed_refsOk:
  assumes "passed M root h"
  shows "refsOk M h"
  unfolding refsOk_def
proof (intro allI impI ballI)
  fix k r assume k: "k < length h" and r: "r \<in> set (refs (h ! k))"
  have tree: "treeRefs M root h" and low: "heapLow h" and s: "\<forall>e \<in> set h. settled e" using assms by (simp_all add: passed_def)
  from treeRefs_ref [OF tree k r] show "(\<exists>j < k. r = Node j \<and> binary (eOp (h ! j))) \<or> (\<exists>t < M. r = Leaf t)"
  proof (elim disjE exE conjE)
    fix j assume j: "r = Node j" "j < length h" "eOp (h ! j) \<noteq> WQL_IS_TRUE"
    then have "binary (eOp (h ! j))" using s by (auto simp: settled_def)
    moreover have "j < k" using refs_low [OF low k r] j(1) by (simp add: lowRef_def)
    ultimately show ?thesis using j(1) by blast
  qed blast
qed

lemma passed_orRefs:
  assumes "passed M root h"
  shows "distinct (concat (map orRefs h))"
proof -
  have "orRefs e = filter (\<lambda>r. eOp e = WQL_OR \<and> \<not> isTerminal r) (refs e)" for e by (simp add: orRefs_def refs_def)
  then have "distinct (orRefs e)" if "distinct (refs e)" for e using that by simp
  have sub: "set (concat (map orRefs l)) \<subseteq> set (concat (map refs l))" for l by (auto simp: orRefs_def refs_def split: if_splits)
  have "distinct (concat (map refs l)) \<Longrightarrow> distinct (concat (map orRefs l))" for l
  proof (induction l)
    case (Cons e l)
    then have "distinct (orRefs e)" using \<open>\<And>e. distinct (refs e) \<Longrightarrow> distinct (orRefs e)\<close> by simp
    moreover have "set (orRefs e) \<subseteq> set (refs e)" using sub [of "[e]"] by simp
    ultimately show ?case using Cons sub [of l] by auto
  qed simp
  then show ?thesis using treeRefs_distinct [of M root h] assms by (simp add: passed_def)
qed

text \<open>The root is the last operator that is connected; without one, it is the only comparison.\<close>

lemma passed_root:
  assumes "passed M root h"
  shows "(\<exists>R. root = Node R \<and> factorInv M 0 R h) \<or> (root = Leaf 0 \<and> M = 1 \<and> (\<forall>e \<in> set h. eOp e = WQL_IS_TRUE))"
proof -
  have tree: "treeRefs M root h" and low: "heapLow h" and s: "\<forall>e \<in> set h. settled e" using assms by (simp_all add: passed_def)
  let ?L = "{k. k < length h \<and> eOp (h ! k) \<noteq> WQL_IS_TRUE}"
  show ?thesis
  proof (cases "?L = {}")
    case True
    then have dead: "\<forall>k < length h. eOp (h ! k) = WQL_IS_TRUE" by blast
    then have e: "\<forall>e \<in> set h. eOp e = WQL_IS_TRUE" by (auto simp: in_set_conv_nth)
    have c: "concat (map refs h) = []" using e by (auto simp: refs_def)
    have "set (liveNodes 0 h) = {}" unfolding set_liveNodes using dead by auto
    then have l: "liveNodes 0 h = []" by simp
    have "mset (map Leaf [0 ..< M]) = {#root#}" using tree unfolding treeRefs_def c l by simp
    then have "map Leaf [0 ..< M] = [root]" by (rule mset_single_iff [THEN iffD1])
    then have "length [0 ..< M] = 1" by (metis length_map list.size(3,4) One_nat_def add.commute plus_1_eq_Suc)
    then have "M = 1" by simp
    then show ?thesis using \<open>map Leaf [0 ..< M] = [root]\<close> e by simp
  next
    case False
    define R where "R = Max ?L"
    have fin: "finite ?L" by simp
    then have R: "R < length h" "eOp (h ! R) \<noteq> WQL_IS_TRUE" using Max_in [OF fin False] by (simp_all add: R_def)
    have last: "eOp (h ! k) = WQL_IS_TRUE" if "k < length h" "R < k" for k
    proof (rule ccontr)
      assume "eOp (h ! k) \<noteq> WQL_IS_TRUE"
      then have "k \<le> R" unfolding R_def using that(1) by (intro Max_ge fin) simp
      then show False using that(2) by simp
    qed
    have bin: "binary (eOp (h ! R))" using R s by (auto simp: settled_def)
    have "Node R \<in> set (root # concat (map refs h))" unfolding treeRefs_set [OF tree] using R by blast
    moreover have "Node R \<notin> set (refs (h ! k))" if "k < length h" for k
    proof
      assume r: "Node R \<in> set (refs (h ! k))"
      then have "R < k" using refs_low [OF low that r] by (simp add: lowRef_def)
      then have "refs (h ! k) = []" using last [OF that] by (simp add: refs_def)
      then show False using r by simp
    qed
    ultimately have "root = Node R" by (auto simp: in_set_conv_nth)
    moreover have "factorInv M 0 R h"
      using R bin last low s passed_refsOk [OF assms] passed_orRefs [OF assms] by (simp add: factorInv_def factored_def)
    ultimately show ?thesis by blast
  qed
qed

subsection \<open>One rewriting\<close>

definition shift :: "nat \<Rightarrow> nat \<Rightarrow> nat" where
  "shift i k = (if k < i then k else k + 2)"

definition shiftRef :: "nat \<Rightarrow> stackEl \<Rightarrow> stackEl" where
  "shiftRef i r = (if \<not> isTerminal r \<and> opn r \<ge> int i then stackRef (opn r + 2) False else r)"

lemma shiftRef_simps [simp]: "shiftRef i (Node k) = Node (shift i k)" "shiftRef i (Leaf t) = Leaf t"
  by (auto simp: shiftRef_def shift_def)

lemma adjust_fields [simp]:
  "eOp (adjust i e) = eOp e" "eMark (adjust i e) = eMark e"
  "getFirst (adjust i e) = shiftRef i (getFirst e)" "getSecond (adjust i e) = shiftRef i (getSecond e)"
  by (auto simp: adjust_def shiftRef_def getFirst_def getSecond_def stackRef_def)

lemma newAnd_fields [simp]: "eOp (newAnd s t e) = WQL_AND" "eMark (newAnd s t e) = False"
  by (simp_all add: newAnd_def setFirst_def setSecond_def)

lemma newAnd_refs:
  "getFirst (newAnd s t e) = s \<and> getSecond (newAnd s t e) = t \<or> getFirst (newAnd s t e) = t \<and> getSecond (newAnd s t e) = s"
  using order_refs [of "setSecond t (setFirst s (e\<lparr>eMark := False, eOp := WQL_AND\<rparr>))"]
  by (auto simp: newAnd_def setFirst_def setSecond_def getFirst_def getSecond_def stackRef_cases)

lemma newAnd_set: "set (refs (newAnd s t e)) = {s, t}"
  using newAnd_refs [of s t e] by (auto simp: refs_def)

definition orOf :: "nat \<Rightarrow> evalEl" where
  "orOf i = node2 WQL_OR (Node (i + 1)) (Node i)"

definition distributed :: "nat \<Rightarrow> stackEl \<Rightarrow> evalEl \<Rightarrow> evalEl list \<Rightarrow> evalEl list" where
  "distributed i s x h =
    take i h @ [newAnd s (getSecond x) (h ! i), newAnd s (getFirst x) (orOf i), orOf i] @ map (adjust i) (drop (Suc i) h)"

lemma distribute_eq:
  assumes "i < length h" and "j < i"
  shows "distribute i s (int j) h = Inr (distributed i s (h ! j) h)"
proof -
  let ?e = "\<lparr>eMark = False, eOp = WQL_OR, eOpn1 = int i + 1, eTerm1 = False, eOpn2 = int i, eTerm2 = False\<rparr>"
  have e: "?e = orOf i" by (simp add: orOf_def node2_def)
  have "insertAt (i + 1) ?e (insertAt (i + 1) ?e h) = take (i + 1) h @ [orOf i, orOf i] @ drop (i + 1) h"
    using assms(1) unfolding e insertAt_def by simp
  then have h1: "insertAt (i + 1) ?e (insertAt (i + 1) ?e h) = take i h @ [h ! i, orOf i, orOf i] @ drop (Suc i) h"
    using assms(1) by (simp add: take_Suc_conv_app_nth)
  have h2: "take (i + 3) (take i h @ [h ! i, orOf i, orOf i] @ drop (Suc i) h) @
      map (adjust i) (drop (i + 3) (take i h @ [h ! i, orOf i, orOf i] @ drop (Suc i) h)) =
    take i h @ [h ! i, orOf i, orOf i] @ map (adjust i) (drop (Suc i) h)"
    using assms(1) by (simp add: min_def)
  show ?thesis
    unfolding distribute_def Let_def h1 h2
    using assms by (simp add: elementAt_def nth_append list_update_append distributed_def)
qed

lemma distributed_length: "i < length h \<Longrightarrow> length (distributed i s x h) = length h + 2"
  by (simp add: distributed_def)

lemma distributed_nth:
  assumes "i < length h"
  shows "k < i \<Longrightarrow> distributed i s x h ! k = h ! k"
    and "distributed i s x h ! i = newAnd s (getSecond x) (h ! i)"
    and "distributed i s x h ! (i + 1) = newAnd s (getFirst x) (orOf i)"
    and "distributed i s x h ! (i + 2) = orOf i"
    and "i < k \<Longrightarrow> k < length h \<Longrightarrow> distributed i s x h ! (k + 2) = adjust i (h ! k)"
  using assms by (auto simp: distributed_def nth_append nth_Cons')


lemma factorInv_live: "factorInv M i R h \<Longrightarrow> k < length h \<Longrightarrow> binary (eOp (h ! k)) \<Longrightarrow> k \<le> R"
  by (rule ccontr) (auto simp: factorInv_def)

lemma shift_less [simp]: "shift i j < shift i k \<longleftrightarrow> j < k"
  by (auto simp: shift_def)

lemma shift_simps [simp]: "k < i \<Longrightarrow> shift i k = k" "shift i i = i + 2" "i < k \<Longrightarrow> shift i k = k + 2"
  by (simp_all add: shift_def)

text \<open>The operands of a conjunction to be distributed: \<open>s\<close> and a disjunction.\<close>

definition splits :: "evalEl list \<Rightarrow> nat \<Rightarrow> stackEl \<Rightarrow> nat \<Rightarrow> bool" where
  "splits h i s j \<longleftrightarrow> eOp (h ! i) = WQL_AND \<and> j < i \<and> eOp (h ! j) = WQL_OR \<and>
     (getFirst (h ! i) = s \<and> getSecond (h ! i) = Node j \<or> getFirst (h ! i) = Node j \<and> getSecond (h ! i) = s)"

lemma and_refs: "eOp e = WQL_AND \<Longrightarrow> set (refs e) = {getFirst e, getSecond e}"
  by (simp add: refs_def)

lemma splits_refs:
  assumes "splits h i s j"
  shows "set (refs (h ! i)) = {s, Node j}"
proof -
  have "set (refs (h ! i)) = {getFirst (h ! i), getSecond (h ! i)}" using assms by (intro and_refs) (simp add: splits_def)
  moreover have "(getFirst (h ! i) = s \<and> getSecond (h ! i) = Node j) \<or> (getFirst (h ! i) = Node j \<and> getSecond (h ! i) = s)"
    using assms by (simp add: splits_def)
  ultimately show ?thesis by (elim disjE conjE) (simp_all only: insert_commute)
qed

lemma first_fields: "getFirst e = stackRef a b \<Longrightarrow> eOpn1 e = a \<and> eTerm1 e = b"
  and second_fields: "getSecond e = stackRef a b \<Longrightarrow> eOpn2 e = a \<and> eTerm2 e = b"
  by (metis ref_fields(3,4) ref_fields(1,2)) (metis ref_fields(5,6) ref_fields(1,2))

lemma probe_none:
  assumes "(\<exists>j < length h. r = Node j) \<or> (\<exists>t. r = Leaf t)" and "\<And>j. r = Node j \<Longrightarrow> eOp (h ! j) \<noteq> WQL_OR"
  shows "(if \<not> isTerminal r then bindE (elementAt h (opn r)) (\<lambda>x. Inr (eOp x = WQL_OR)) else Inr False) = Inr False"
  using assms(1)
proof (elim disjE exE conjE)
  fix j assume "j < length h" "r = Node j"
  then show ?thesis using assms(2) [of j] by (simp add: elementAt_def)
qed simp

lemma findOr_spec:
  assumes ok: "refsOk M h" and i: "i < length h"
  shows "(\<exists>s j. findOr h (h ! i) = Inr (Some (s, int j)) \<and> splits h i s j) \<or>
    (findOr h (h ! i) = Inr None \<and> (eOp (h ! i) = WQL_AND \<longrightarrow> (\<forall>j. Node j \<in> set (refs (h ! i)) \<longrightarrow> eOp (h ! j) \<noteq> WQL_OR)))"
proof (cases "eOp (h ! i) = WQL_AND")
  case True
  let ?r = "getFirst (h ! i)" and ?s = "getSecond (h ! i)"
  note refs = and_refs [OF True]
  have low: "(\<exists>j < i. r = Node j) \<or> (\<exists>t. r = Leaf t)" if "r \<in> {?r, ?s}" for r
    using ok i that unfolding refs [symmetric] refsOk_def by blast
  have lowj: "j < i" if "?r = Node j \<or> ?s = Node j" for j
    using low [of "Node j"] that by auto
  have low': "(\<exists>j < length h. r = Node j) \<or> (\<exists>t. r = Leaf t)" if "r \<in> {?r, ?s}" for r
    using low [OF that] less_trans [OF _ i] by blast
  have at: "elementAt h (int j) = Inr (h ! j)" if "j < i" for j using that i by (simp add: elementAt_def)
  have none_thesis: ?thesis if "findOr h (h ! i) = Inr None" "\<And>j. ?r = Node j \<Longrightarrow> eOp (h ! j) \<noteq> WQL_OR" "\<And>j. ?s = Node j \<Longrightarrow> eOp (h ! j) \<noteq> WQL_OR"
    unfolding refs using that by (metis insert_iff singletonD)
  consider (or1) j where "?r = Node j" "j < i" "eOp (h ! j) = WQL_OR"
    | (or2) j where "?s = Node j" "j < i" "eOp (h ! j) = WQL_OR" "\<And>k. ?r = Node k \<Longrightarrow> eOp (h ! k) \<noteq> WQL_OR"
    | (none) "\<And>j. ?r = Node j \<Longrightarrow> eOp (h ! j) \<noteq> WQL_OR" "\<And>j. ?s = Node j \<Longrightarrow> eOp (h ! j) \<noteq> WQL_OR"
    using lowj by blast
  then show ?thesis
  proof cases
    case (or1 j)
    have "findOr h (h ! i) = Inr (Some (?s, int j))" using first_fields [OF or1(1)] or1(3) True at [OF or1(2)] by (simp add: findOr_def)
    moreover have "splits h i ?s j" using or1 True by (simp add: splits_def)
    ultimately show ?thesis by blast
  next
    case (or2 j)
    have no: "(if \<not> eTerm1 (h ! i) then bindE (elementAt h (eOpn1 (h ! i))) (\<lambda>x. Inr (eOp x = WQL_OR)) else Inr False) = Inr False"
      using probe_none [OF low' [of ?r] or2(4)] unfolding ref_fields by simp
    have "findOr h (h ! i) = Inr (Some (?r, int j))"
      using second_fields [OF or2(1)] or2(3) True at [OF or2(2)] unfolding findOr_def no by simp
    moreover have "splits h i ?r j" using or2 True by (simp add: splits_def)
    ultimately show ?thesis by blast
  next
    case none
    have no: "(if \<not> eTerm1 (h ! i) then bindE (elementAt h (eOpn1 (h ! i))) (\<lambda>x. Inr (eOp x = WQL_OR)) else Inr False) = Inr False"
      using probe_none [OF low' [of ?r] none(1)] unfolding ref_fields by simp
    have no2: "(if \<not> eTerm2 (h ! i) then bindE (elementAt h (eOpn2 (h ! i))) (\<lambda>x. Inr (eOp x = WQL_OR)) else Inr False) = Inr False"
      using probe_none [OF low' [of ?s] none(2)] unfolding ref_fields by simp
    have "findOr h (h ! i) = Inr None" unfolding findOr_def no no2 by simp
    then show ?thesis using none none_thesis by blast
  qed
qed (simp add: findOr_def)

subsection \<open>The value after a rewriting\<close>

lemma lowRef_cases: "lowRef k r \<Longrightarrow> isTerminal r \<or> (\<exists>j < k. r = Node j)"
  using stackRef_cases [of r] by (force simp: lowRef_def stackEl_eq)

lemma shiftRef_terminal: "isTerminal r \<Longrightarrow> shiftRef i r = r"
  by (simp add: shiftRef_def)

lemma rfold_next [simp]: "rfold f g h (stackRef (1 + int i) False) = hfold f g h (Suc i)"
  using rfold_simps(1) [of f g h "Suc i"] by simp

lemma lowRef_shift: "lowRef k r \<Longrightarrow> lowRef (k + 2) (shiftRef i r)"
  by (auto simp: lowRef_def shiftRef_def)

lemma splits_low:
  assumes "heapLow h" and "i < length h" and "splits h i s j"
  shows "lowRef i s" and "lowRef j (getFirst (h ! j))" and "lowRef j (getSecond (h ! j))" and "j < i"
proof -
  have "lowRef i (getFirst (h ! i))" "lowRef i (getSecond (h ! i))" using assms(1,2) by (simp_all add: heapLow_def)
  then show "lowRef i s" using assms(3) unfolding splits_def by blast
  show "j < i" using assms(3) by (simp add: splits_def)
  then show "lowRef j (getFirst (h ! j))" "lowRef j (getSecond (h ! j))" using assms(1,2) by (simp_all add: heapLow_def)
qed

lemma newAnd_low: "lowRef k s \<Longrightarrow> lowRef k t \<Longrightarrow> lowRef k (getFirst (newAnd s t e)) \<and> lowRef k (getSecond (newAnd s t e))"
  using newAnd_refs [of s t e] by auto

lemma distributed_cases:
  assumes "k < length h + 2" and "i < length h"
  obtains "k < i" | "k = i" | "k = i + 1" | "k = i + 2" | m where "i < m" "m < length h" "k = m + 2"
proof -
  have "k < i \<or> k = i \<or> k = i + 1 \<or> k = i + 2 \<or> (i < k - 2 \<and> k - 2 < length h \<and> k = k - 2 + 2)" using assms by linarith
  then show ?thesis using that by blast
qed

lemma heapLow_distributed:
  assumes low: "heapLow h" and i: "i < length h" and sp: "splits h i s j"
  shows "heapLow (distributed i s (h ! j) h)"
  unfolding heapLow_def
proof (intro allI impI)
  note l = splits_low [OF low i sp]
  have l2: "lowRef i (getFirst (h ! j))" "lowRef i (getSecond (h ! j))"
    using l lowRef_mono [OF l(2), of i] lowRef_mono [OF l(3), of i] by simp_all
  note d = distributed_nth [OF i]
  fix k assume "k < length (distributed i s (h ! j) h)"
  then have "k < length h + 2" by (simp add: distributed_length [OF i])
  then consider "k < i" | "k = i" | "k = i + 1" | "k = i + 2" | m where "i < m" "m < length h" "k = m + 2"
    by (rule distributed_cases [OF _ i])
  then show "lowRef k (getFirst (distributed i s (h ! j) h ! k)) \<and> lowRef k (getSecond (distributed i s (h ! j) h ! k))"
  proof cases
    case 1
    then show ?thesis using low i by (simp add: d(1) heapLow_def)
  next
    case 2
    then show ?thesis using newAnd_low [OF l(1) l2(2)] by (simp add: d)
  next
    case 3
    then show ?thesis using newAnd_low [of i s "getFirst (h ! j)" "orOf i"] l(1) l2(1) lowRef_mono [of i _ "Suc i"] by (simp add: d [simplified])
  next
    case 4
    then show ?thesis by (simp add: d [simplified] orOf_def lowRef_def)
  next
    case (5 m)
    then show ?thesis using low lowRef_shift [of m _ i] unfolding \<open>k = m + 2\<close> d(5) [OF 5(1,2)] by (simp add: heapLow_def)
  qed
qed

locale heap_algebra =
  fixes f :: "evalEl \<Rightarrow> 'a \<Rightarrow> 'a \<Rightarrow> 'a" and cj dj :: "'a \<Rightarrow> 'a \<Rightarrow> 'a"
  assumes and_node: "eOp e = WQL_AND \<Longrightarrow> \<not> eMark e \<Longrightarrow> f e a b = cj a b"
    and or_node: "eOp e = WQL_OR \<Longrightarrow> \<not> eMark e \<Longrightarrow> f e a b = dj a b"
    and node_cong: "eOp e' = eOp e \<Longrightarrow> eMark e' = eMark e \<Longrightarrow> f e' a b = f e a b"
    and cj_comm: "cj a b = cj b a"
    and cj_dj: "cj a (dj b c) = dj (cj a b) (cj a c)"
begin

lemma newAnd_value: "f (newAnd s t e) (val (getFirst (newAnd s t e))) (val (getSecond (newAnd s t e))) = cj (val s) (val t)"
  using newAnd_refs [of s t e] cj_comm [of "val s" "val t"] by (auto simp: and_node)

lemma splits_value:
  assumes low: "heapLow h" and i: "i < length h" and sp: "splits h i s j" and m: "\<forall>e \<in> set h. \<not> eMark e"
  shows "hfold f g h i =
    dj (cj (rfold f g h s) (rfold f g h (getFirst (h ! j)))) (cj (rfold f g h s) (rfold f g h (getSecond (h ! j))))"
proof -
  have j: "j < length h" and op: "eOp (h ! i) = WQL_AND" "eOp (h ! j) = WQL_OR" using sp i by (simp_all add: splits_def)
  have "rfold f g h (Node j) = dj (rfold f g h (getFirst (h ! j))) (rfold f g h (getSecond (h ! j)))"
    using low_eq [OF low j, of f g] m op j by (simp add: or_node)
  moreover have "hfold f g h i = cj (rfold f g h s) (rfold f g h (Node j))"
  proof -
    have "hfold f g h i = cj (rfold f g h (getFirst (h ! i))) (rfold f g h (getSecond (h ! i)))"
      unfolding low_eq [OF low i] using m op i by (simp add: and_node)
    then show ?thesis using sp cj_comm unfolding splits_def by (elim conjE disjE) (simp_all only:)
  qed
  ultimately show ?thesis by (simp add: cj_dj)
qed

lemma distributed_value:
  assumes low: "heapLow h" and i: "i < length h" and sp: "splits h i s j" and m: "\<forall>e \<in> set h. \<not> eMark e"
  defines "h' \<equiv> distributed i s (h ! j) h"
  shows "k < length h \<Longrightarrow> hfold f g h' (shift i k) = hfold f g h k"
    and "hfold f g h' i = cj (rfold f g h s) (rfold f g h (getSecond (h ! j)))"
    and "hfold f g h' (i + 1) = cj (rfold f g h s) (rfold f g h (getFirst (h ! j)))"
proof -
  note d = distributed_nth [OF i, where s = s and x = "h ! j", folded h'_def]
  note l = splits_low [OF low i sp]
  have low': "heapLow h'" unfolding h'_def by (rule heapLow_distributed [OF low i sp])
  have len: "length h' = length h + 2" by (simp add: h'_def distributed_length [OF i])
  have pre: "rfold f g h' r = rfold f g h r" if "lowRef i r" for r
    by (rule rfold_prefix [OF _ that]) (simp add: d)
  have below: "rfold f g h' s = rfold f g h s" "rfold f g h' (getFirst (h ! j)) = rfold f g h (getFirst (h ! j))"
    "rfold f g h' (getSecond (h ! j)) = rfold f g h (getSecond (h ! j))"
    using pre l lowRef_mono [OF l(2), of i] lowRef_mono [OF l(3), of i] by simp_all
  show second: "hfold f g h' i = cj (rfold f g h s) (rfold f g h (getSecond (h ! j)))"
    using low_eq [OF low', of i f g] len i newAnd_value [of s _ _ "rfold f g h'"] by (simp add: d below)
  show first: "hfold f g h' (i + 1) = cj (rfold f g h s) (rfold f g h (getFirst (h ! j)))"
    using low_eq [OF low', of "i + 1" f g] len i newAnd_value [of s _ _ "rfold f g h'"] by (simp add: d [simplified] below)
  show "k < length h \<Longrightarrow> hfold f g h' (shift i k) = hfold f g h k"
  proof (induction k rule: less_induct)
    case (less k)
    consider "k < i" | "k = i" | "i < k" by linarith
    then show ?case
    proof cases
      case 1
      then show ?thesis using hfold_prefix [of k h' h f g] by (simp add: d)
    next
      case 2
      have "hfold f g h' (i + 2) = dj (hfold f g h' (i + 1)) (hfold f g h' i)"
        using low_eq [OF low', of "i + 2" f g] len i d(4) by (simp add: orOf_def or_node)
      then show ?thesis using 2 first second splits_value [OF low i sp m, of g] by simp
    next
      case 3
      have r: "rfold f g h' (shiftRef i r) = rfold f g h r" if lr: "lowRef k r" for r
        using lowRef_cases [OF lr]
      proof (elim disjE exE conjE)
        assume "isTerminal r"
        then show ?thesis by (simp add: shiftRef_terminal) (simp add: rfold_def)
      next
        fix n assume "n < k" "r = Node n"
        then show ?thesis using less.IH [of n] less.prems by simp
      qed
      have "lowRef k (getFirst (h ! k))" "lowRef k (getSecond (h ! k))" using low less.prems by (simp_all add: heapLow_def)
      then show ?thesis
        using 3 less.prems low_eq [OF low', of "k + 2" f g] len
        by (simp add: d [simplified] r low_eq [OF low] node_cong [of "adjust i (h ! k)" "h ! k"])
    qed
  qed
qed

end

text \<open>The two algebras: truth, and the number of disjuncts.\<close>

definition disjuncts :: "evalEl \<Rightarrow> nat \<Rightarrow> nat \<Rightarrow> nat" where
  "disjuncts e a b = (if eOp e = WQL_OR then a + b else if eOp e = WQL_AND then a * b else a)"

interpretation truth: heap_algebra holds "(\<and>)" "(\<or>)"
  by unfold_locales (auto simp: holds_def)

interpretation count: heap_algebra disjuncts "(*)" "(+)"
  by unfold_locales (auto simp: disjuncts_def algebra_simps)

abbreviation disjunctsAt :: "evalEl list \<Rightarrow> nat \<Rightarrow> nat" where
  "disjunctsAt \<equiv> hfold disjuncts (\<lambda>_. 1)"

lemma disjunctsAt_pos: "0 < disjunctsAt h k"
proof (induction k rule: less_induct)
  case (less k)
  have "0 < disjuncts e a b" if "0 < a" "0 < b" for e a b using that by (simp add: disjuncts_def)
  then show ?case using less.IH by (subst hfold.simps) (simp add: Let_def)
qed

lemma disjunctsRef_pos: "0 < rfold disjuncts (\<lambda>_. 1) h r"
  using disjunctsAt_pos by (simp add: rfold_def)

subsection \<open>The invariant after a rewriting\<close>

lemma distributed_op:
  assumes "i < length h" and "k < length h" and "eOp (h ! i) = WQL_AND"
  shows "eOp (distributed i s x h ! shift i k) = (if k = i then WQL_OR else eOp (h ! k))"
  using assms by (auto simp: shift_def distributed_nth [OF assms(1)] distributed_nth(4) [OF assms(1), simplified] orOf_def
    distributed_nth(5) [OF assms(1), simplified])

lemma refs_adjust: "refs (adjust i e) = map (shiftRef i) (refs e)"
  by (simp add: refs_def)

lemma orRefs_adjust: "orRefs (adjust i e) = map (shiftRef i) (orRefs e)"
  by (simp add: orRefs_def shiftRef_def)

lemma refsOk_ref:
  "refsOk M h \<Longrightarrow> k < length h \<Longrightarrow> r \<in> set (refs (h ! k)) \<Longrightarrow>
    (\<exists>j < k. r = Node j \<and> binary (eOp (h ! j))) \<or> (\<exists>t < M. r = Leaf t)"
  by (simp add: refsOk_def)

lemma refsOk_distributed:
  assumes ok: "refsOk M h" and i: "i < length h" and sp: "splits h i s j"
  shows "refsOk M (distributed i s (h ! j) h)"
  unfolding refsOk_def
proof (intro allI impI ballI)
  let ?h' = "distributed i s (h ! j) h"
  note d = distributed_nth [OF i, where s = s and x = "h ! j"]
  have j: "j < i" and opi: "eOp (h ! i) = WQL_AND" and opj: "eOp (h ! j) = WQL_OR" using sp by (simp_all add: splits_def)
  fix k r assume k: "k < length ?h'" and r: "r \<in> set (refs (?h' ! k))"
  have old: "(\<exists>n < i. r = Node n \<and> binary (eOp (?h' ! n))) \<or> (\<exists>t < M. r = Leaf t)"
    if m: "m \<le> i" "r \<in> set (refs (h ! m))" for m r
    using refsOk_ref [OF ok _ m(2)] m(1) i d(1) by (metis le_less_trans less_le_trans)
  have sub: "(\<exists>n < i. r = Node n \<and> binary (eOp (?h' ! n))) \<or> (\<exists>t < M. r = Leaf t)"
    if "r = s \<or> r = getFirst (h ! j) \<or> r = getSecond (h ! j)"
  proof -
    have "s \<in> set (refs (h ! i))" using splits_refs [OF sp] by simp
    moreover have "set (refs (h ! j)) = {getFirst (h ! j), getSecond (h ! j)}" using opj by (simp add: refs_def)
    ultimately show ?thesis using that old [of i r] old [of j r] j by auto
  qed
  from k have "k < length h + 2" by (simp add: distributed_length [OF i])
  then consider "k < i" | "k = i" | "k = i + 1" | "k = i + 2" | m where "i < m" "m < length h" "k = m + 2"
    by (rule distributed_cases [OF _ i])
  then show "(\<exists>n < k. r = Node n \<and> binary (eOp (?h' ! n))) \<or> (\<exists>t < M. r = Leaf t)"
  proof cases
    case 1
    then show ?thesis using refsOk_ref [OF ok, of k r] r i by (auto simp: d(1))
  next
    case 2
    then show ?thesis using sub r by (auto simp: d(2) newAnd_set)
  next
    case 3
    then have "r = s \<or> r = getFirst (h ! j)" using r unfolding 3 d(3) newAnd_set by simp
    then show ?thesis using sub 3 by auto
  next
    case 4
    then have "r = Node (i + 1) \<or> r = Node i" using r unfolding 4 d(4) by (simp add: orOf_def refs_def)
    then show ?thesis using 4 d(2,3) by auto
  next
    case (5 m)
    then obtain r0 where r0: "r0 \<in> set (refs (h ! m))" "r = shiftRef i r0" using r unfolding 5(3) d(5) [OF 5(1,2)] refs_adjust by auto
    from refsOk_ref [OF ok 5(2) r0(1)] show ?thesis
    proof (elim disjE exE conjE)
      fix n assume n: "n < m" "r0 = Node n" "binary (eOp (h ! n))"
      have "r = Node (shift i n)" using r0(2) n(2) by simp
      moreover have "binary (eOp (?h' ! shift i n))" using distributed_op [OF i _ opi, of n s "h ! j"] n(1,3) 5(2) by simp
      moreover have "shift i n < m + 2" using n(1) by (simp add: shift_def)
      ultimately show ?thesis using 5(3) by blast
    qed (use r0(2) in simp)
  qed
qed

lemma orRefs_node:
  assumes "refsOk M h" and "k < length h" and "r \<in> set (orRefs (h ! k))"
  shows "\<exists>j < k. r = Node j"
proof -
  have "r \<in> set (refs (h ! k))" "\<not> isTerminal r" using assms(3) by (auto simp: orRefs_def refs_def split: if_splits)
  then show ?thesis using refsOk_ref [OF assms(1,2), of r] by auto
qed

lemma orRefs_distributed:
  assumes ok: "refsOk M h" and i: "i < length h" and opi: "eOp (h ! i) = WQL_AND" and dist: "distinct (concat (map orRefs h))"
  shows "distinct (concat (map orRefs (distributed i s x h)))"
proof -
  let ?A = "concat (map orRefs (take i h))" and ?B = "concat (map orRefs (drop (Suc i) h))"
  have nodes: "\<exists>j. r = Node j" if "r \<in> set (concat (map orRefs h))" for r
  proof -
    from that obtain e where e: "e \<in> set h" "r \<in> set (orRefs e)" by auto
    then obtain k where "k < length h" "e = h ! k" by (metis in_set_conv_nth)
    then show ?thesis using orRefs_node [OF ok] e(2) by blast
  qed
  have h: "concat (map orRefs h) = ?A @ ?B"
    by (subst id_take_nth_drop [OF i]) (simp add: orRefs_def opi)
  have "orRefs (h ! k) = map (shiftRef i) (orRefs (h ! k))" if "k < i" for k
  proof -
    have "shiftRef i r = r" if "r \<in> set (orRefs (h ! k))" for r
      using orRefs_node [OF ok _ that] \<open>k < i\<close> i by auto
    then show ?thesis by (simp add: map_idI)
  qed
  then have "map orRefs (take i h) = map (map (shiftRef i)) (map orRefs (take i h))"
    using i by (intro nth_equalityI) auto
  then have A: "concat (map orRefs (take i h)) = map (shiftRef i) ?A" by (metis map_concat)
  have B: "concat (map orRefs (map (adjust i) (drop (Suc i) h))) = map (shiftRef i) ?B"
    by (simp add: map_concat comp_def orRefs_adjust)
  have new: "concat (map orRefs (distributed i s x h)) = map (shiftRef i) ?A @ [Node (i + 1), Node i] @ map (shiftRef i) ?B"
    unfolding distributed_def map_append concat_append B using A by (simp add: orRefs_def orOf_def)
  have inj: "inj_on (shiftRef i) (set ?A \<union> set ?B)"
  proof (rule inj_onI)
    fix r r' assume rr: "r \<in> set ?A \<union> set ?B" "r' \<in> set ?A \<union> set ?B" "shiftRef i r = shiftRef i r'"
    then obtain a b where "r = Node a" "r' = Node b" using nodes [of r] nodes [of r'] unfolding h by auto
    then show "r = r'" using rr(3) by (auto simp: shift_def split: if_splits)
  qed
  have "distinct (map (shiftRef i) (?A @ ?B))" using dist inj unfolding h distinct_map by simp
  moreover have "Node i \<notin> shiftRef i ` set (?A @ ?B) \<and> Node (i + 1) \<notin> shiftRef i ` set (?A @ ?B)"
  proof -
    have "shiftRef i r \<noteq> Node i \<and> shiftRef i r \<noteq> Node (i + 1)" if "r \<in> set (?A @ ?B)" for r
    proof -
      have "\<exists>n. r = Node n" using that unfolding h [symmetric] by (rule nodes)
      then obtain n where "r = Node n" ..
      then show ?thesis by (simp add: shift_def)
    qed
    then show ?thesis by (metis imageE)
  qed
  moreover have "Node (i + 1) \<noteq> Node i" by simp
  ultimately show ?thesis unfolding new map_append distinct_append by (simp only: set_append set_map image_Un) auto
qed

lemma settled_distributed:
  assumes "\<forall>e \<in> set h. settled e"
  shows "\<forall>e \<in> set (distributed i s x h). settled e"
  using assms by (auto simp: distributed_def settled_def orOf_def dest: in_set_takeD in_set_dropD)

lemma factored_distributed:
  assumes ok: "refsOk M h" and i: "i < length h" and f: "factored h i"
  shows "factored (distributed i s x h) i"
  unfolding factored_def
proof (intro allI impI)
  fix k j assume k: "k < i" and a: "eOp (distributed i s x h ! k) = WQL_AND" "Node j \<in> set (refs (distributed i s x h ! k))"
  then have a': "eOp (h ! k) = WQL_AND" "Node j \<in> set (refs (h ! k))" by (simp_all add: distributed_nth(1) [OF i])
  have "j < k" using refsOk_ref [OF ok _ a'(2)] k i by auto
  then have "distributed i s x h ! j = h ! j" using k by (intro distributed_nth(1) [OF i]) simp
  then show "eOp (distributed i s x h ! j) \<noteq> WQL_OR" using f k a' by (simp add: factored_def)
qed

lemma factorInv_distributed:
  assumes inv: "factorInv M i R h" and i: "i < length h" and sp: "splits h i s j"
  shows "factorInv M i (R + 2) (distributed i s (h ! j) h)" and "shift i R = R + 2"
proof -
  let ?h' = "distributed i s (h ! j) h"
  have opi: "eOp (h ! i) = WQL_AND" using sp by (simp add: splits_def)
  have R: "i \<le> R" "R < length h" using factorInv_live [OF inv i] opi inv by (simp_all add: factorInv_def)
  show sh: "shift i R = R + 2" using R(1) by (simp add: shift_def)
  have ok: "refsOk M h" using inv by (simp add: factorInv_def)
  have "binary (eOp (?h' ! (R + 2)))"
    using distributed_op [OF i R(2) opi, of s "h ! j"] inv unfolding sh by (simp add: factorInv_def)
  moreover have "eOp (?h' ! k) = WQL_IS_TRUE" if k: "k < length ?h'" "R + 2 < k" for k
  proof -
    have k2: "k < length h + 2" using k(1) by (simp add: distributed_length [OF i])
    define m where "m = k - 2"
    have m: "k = m + 2" "R < m" "m < length h" using k(2) k2 by (simp_all add: m_def)
    then have "eOp (?h' ! k) = eOp (h ! m)" using R distributed_nth(5) [OF i, of m s "h ! j"] by simp
    then show ?thesis using m inv by (simp add: factorInv_def)
  qed
  moreover have "heapLow ?h'" using inv by (intro heapLow_distributed i sp) (simp add: factorInv_def)
  ultimately show "factorInv M i (R + 2) ?h'"
    using inv R i distributed_length [OF i] settled_distributed [of h i s "h ! j"] refsOk_distributed [OF ok i sp]
      orRefs_distributed [OF ok i opi] factored_distributed [OF ok i]
    by (simp add: factorInv_def)
qed

lemma factorInv_next:
  assumes "factorInv M i R h" and "i < length h"
    and "eOp (h ! i) = WQL_AND \<longrightarrow> (\<forall>j. Node j \<in> set (refs (h ! i)) \<longrightarrow> eOp (h ! j) \<noteq> WQL_OR)"
  shows "factorInv M (i + 1) R h"
  using assms by (auto simp: factorInv_def factored_def less_Suc_eq)

subsection \<open>Factoring ends\<close>

text \<open>A conjunction weighs one less than its disjuncts; a rewriting takes one off the weight and adds two entries.\<close>

definition weight :: "evalEl list \<Rightarrow> nat \<Rightarrow> nat" where
  "weight h k = (if eOp (h ! k) = WQL_AND then disjunctsAt h k - 1 else 0)"

definition remaining :: "evalEl list \<Rightarrow> nat \<Rightarrow> nat" where
  "remaining h i = (length h - i) + 3 * (\<Sum>k = i ..< length h. weight h k)"

lemma remaining_next: "i < length h \<Longrightarrow> remaining h (i + 1) < remaining h i"
  by (simp add: remaining_def sum.atLeast_Suc_lessThan)

lemma less_weight:
  "i < n \<Longrightarrow> 0 < a \<Longrightarrow> 0 < b \<Longrightarrow> n + 2 - i + 3 * (b - 1 + (a - 1) + S) < n - i + 3 * (a + b - 1 + S)" for n :: nat
  by (cases a; cases b) auto

lemma remaining_distributed:
  assumes low: "heapLow h" and s: "\<forall>e \<in> set h. settled e" and i: "i < length h" and sp: "splits h i s j"
  shows "remaining (distributed i s (h ! j) h) i < remaining h i"
proof -
  let ?h' = "distributed i s (h ! j) h" and ?c = "rfold disjuncts (\<lambda>_. 1) h"
  have m: "\<forall>e \<in> set h. \<not> eMark e" using s by (simp add: settled_def)
  have opi: "eOp (h ! i) = WQL_AND" using sp by (simp add: splits_def)
  note v = count.distributed_value [OF low i sp m, where g = "\<lambda>_. 1"]
  note d = distributed_nth [OF i, where s = s and x = "h ! j"]
  let ?a = "?c s * ?c (getFirst (h ! j))" and ?b = "?c s * ?c (getSecond (h ! j))"
  have pos: "0 < ?a" "0 < ?b" using disjunctsRef_pos by simp_all
  have w: "weight ?h' i = ?b - 1" "weight ?h' (i + 1) = ?a - 1" "weight ?h' (i + 2) = 0"
    unfolding weight_def v(2,3) d(2,3,4) by (simp_all add: orOf_def)
  have wi: "weight h i = ?a + ?b - 1" using count.splits_value [OF low i sp m, of "\<lambda>_. 1"] opi by (simp add: weight_def)
  have wm: "weight ?h' (k + 2) = weight h k" if "k \<in> {Suc i ..< length h}" for k
  proof -
    have k: "i < k" "k < length h" using that by simp_all
    then show ?thesis using v(1) [OF k(2)] d(5) [OF k] by (simp add: weight_def)
  qed
  have "(\<Sum>k = i ..< length h + 2. weight ?h' k) =
    weight ?h' i + weight ?h' (i + 1) + weight ?h' (i + 2) + (\<Sum>k = Suc i + 2 ..< length h + 2. weight ?h' k)"
    using i sum.atLeast_Suc_lessThan [of i "length h + 2" "weight ?h'"] sum.atLeast_Suc_lessThan [of "i + 1" "length h + 2" "weight ?h'"]
      sum.atLeast_Suc_lessThan [of "i + 2" "length h + 2" "weight ?h'"] by simp
  also have "(\<Sum>k = Suc i + 2 ..< length h + 2. weight ?h' k) = (\<Sum>k = Suc i ..< length h. weight h k)"
    unfolding sum.shift_bounds_nat_ivl using wm by (intro sum.cong) simp_all
  finally have new: "(\<Sum>k = i ..< length h + 2. weight ?h' k) = (?b - 1) + (?a - 1) + (\<Sum>k = Suc i ..< length h. weight h k)"
    unfolding w by simp
  have old: "(\<Sum>k = i ..< length h. weight h k) = (?a + ?b - 1) + (\<Sum>k = Suc i ..< length h. weight h k)"
    using i wi by (simp add: sum.atLeast_Suc_lessThan)
  show ?thesis unfolding remaining_def distributed_length [OF i] new old by (rule less_weight [OF i pos])
qed

lemma factoring_ok:
  assumes "factorInv M i R h"
  shows "\<exists>h' R'. factoring i (length h) h = Some (Inr h') \<and> factorInv M (length h') R' h' \<and>
    (\<forall>g. hfold holds g h' R' = hfold holds g h R)"
  using assms
proof (induction "remaining h i" arbitrary: i R h rule: less_induct)
  case less
  note inv = less.prems
  have ok: "refsOk M h" and low: "heapLow h" and s: "\<forall>e \<in> set h. settled e" using inv by (simp_all add: factorInv_def)
  have m: "\<forall>e \<in> set h. \<not> eMark e" using s by (simp add: settled_def)
  show ?case
  proof (cases "i < length h")
    case True
    from findOr_spec [OF ok True] show ?thesis
    proof (elim disjE exE conjE)
      fix a j assume f: "findOr h (h ! i) = Inr (Some (a, int j))" and sp: "splits h i a j"
      let ?h' = "distributed i a (h ! j) h"
      have "j < i" using sp by (simp add: splits_def)
      then have step: "factoring i (length h) h = factoring i (length ?h') ?h'"
        by (subst factoring.simps) (simp add: True f distribute_eq [OF True] distributed_length [OF True])
      have "remaining ?h' i < remaining h i" by (rule remaining_distributed [OF low s True sp])
      from less.hyps [OF this factorInv_distributed(1) [OF inv True sp]] obtain h2 R2 where
        h2: "factoring i (length ?h') ?h' = Some (Inr h2)" "factorInv M (length h2) R2 h2"
          "\<forall>g. hfold holds g h2 R2 = hfold holds g ?h' (R + 2)" by blast
      have "hfold holds g ?h' (R + 2) = hfold holds g h R" for g
        using truth.distributed_value(1) [OF low True sp m, of R g] inv factorInv_distributed(2) [OF inv True sp]
        by (simp add: factorInv_def)
      then show ?thesis using h2 step by auto
    next
      assume f: "findOr h (h ! i) = Inr None"
        "eOp (h ! i) = WQL_AND \<longrightarrow> (\<forall>j. Node j \<in> set (refs (h ! i)) \<longrightarrow> eOp (h ! j) \<noteq> WQL_OR)"
      have step: "factoring i (length h) h = factoring (i + 1) (length h) h"
        by (subst factoring.simps) (simp add: True f(1))
      from less.hyps [OF remaining_next [OF True] factorInv_next [OF inv True f(2)]] show ?thesis unfolding step .
    qed
  next
    case False
    then have "i = length h" using inv by (simp add: factorInv_def)
    then have "factoring i (length h) h = Some (Inr h)" by (subst factoring.simps) simp
    then show ?thesis using inv \<open>i = length h\<close> by blast
  qed
qed

end
