(* ===== verification/DnfGather.thy ===== *)
theory DnfGather
  imports DnfFactor
begin

section \<open>Reading off the tableau\<close>

text \<open>
  \<open>_gather\<close> of \<^verbatim>\<open>CMPI_Wql2Dnf.cpp\<close> ends: gathering the disjuncts reaches each disjunction once, so marking
  it as disconnected does no harm; gathering the conjuncts of a disjunct of a factored array meets conjunctions and
  comparisons only. The last theorem is that the tableau has the value of the condition.
\<close>

subsection \<open>The array while it is read\<close>

text \<open>Entries at the end have been dropped, and the disjunctions in \<open>D\<close> are marked as disconnected.\<close>

definition marked :: "evalEl list \<Rightarrow> evalEl list \<Rightarrow> nat set \<Rightarrow> bool" where
  "marked H h D \<longleftrightarrow> length h \<le> length H \<and> (\<forall>k \<in> D. eOp (H ! k) = WQL_OR) \<and>
     (\<forall>k < length h. h ! k = (if k \<in> D then (H ! k)\<lparr>eOp := WQL_IS_TRUE\<rparr> else H ! k))"

definition refAt :: "nat \<Rightarrow> nat \<Rightarrow> evalEl list \<Rightarrow> stackEl \<Rightarrow> bool" where
  "refAt M n H r \<longleftrightarrow> (\<exists>k < n. r = Node k \<and> binary (eOp (H ! k))) \<or> (\<exists>t < M. r = Leaf t)"

definition opFor :: "bool \<Rightarrow> wqlOperation" where
  "opFor orFlag = (if orFlag then WQL_OR else WQL_AND)"

definition stops :: "bool \<Rightarrow> evalEl list \<Rightarrow> stackEl \<Rightarrow> bool" where
  "stops orFlag H r \<longleftrightarrow> (\<forall>k. r = Node k \<longrightarrow> eOp (H ! k) \<noteq> opFor orFlag)"

definition pool :: "stackEl list \<Rightarrow> evalEl list \<Rightarrow> stackEl multiset" where
  "pool stk h = filter_mset (\<lambda>r. \<not> isTerminal r) (mset stk) + mset (concat (map orRefs h))"

definition fresh :: "stackEl list \<Rightarrow> evalEl list \<Rightarrow> nat set \<Rightarrow> bool" where
  "fresh stk h D \<longleftrightarrow> (\<forall>r. count (pool stk h) r \<le> 1) \<and> (\<forall>k \<in> D. Node k \<notin># pool stk h)"

definition gsize :: "bool \<Rightarrow> evalEl \<Rightarrow> nat \<Rightarrow> nat \<Rightarrow> nat" where
  "gsize orFlag e a b = (if eOp e = opFor orFlag then a + b + 1 else 1)"

definition unread :: "bool \<Rightarrow> evalEl list \<Rightarrow> stackEl list \<Rightarrow> nat" where
  "unread orFlag H stk = sum_list (map (rfold (gsize orFlag) (\<lambda>_. 1) H) stk)"

lemma gsize_pos: "0 < rfold (gsize orFlag) (\<lambda>_. 1) H r"
proof -
  have "0 < hfold (gsize orFlag) (\<lambda>_. 1) H k" for k by (subst hfold.simps) (simp add: gsize_def Let_def)
  then show ?thesis by (simp add: rfold_def)
qed

lemma refAt_mono: "refAt M n H r \<Longrightarrow> n \<le> n' \<Longrightarrow> refAt M n' H r"
  unfolding refAt_def using less_le_trans by blast

lemma opFor_refs: "eOp e = opFor orFlag \<Longrightarrow> refs e = [getFirst e, getSecond e]"
  by (simp add: opFor_def refs_def split: if_splits)

lemma refAt_child:
  assumes "refsOk M H" and "k < n" and "n \<le> length H" and "r \<in> set (refs (H ! k))"
  shows "refAt M n H r"
  using refsOk_ref [OF assms(1) _ assms(4)] assms(2,3) less_trans less_le_trans unfolding refAt_def by blast

lemma marked_op:
  assumes "marked H h D" and "k < length h"
  shows "eOp (h ! k) = (if k \<in> D then WQL_IS_TRUE else eOp (H ! k))"
  using assms by (simp add: marked_def)

lemma pool_step:
  assumes "i < length stk" and "stk ! i = Node k" and "k < length h" and "eOp (h ! k) = WQL_OR"
  shows "pool stk h = add_mset (Node k) (pool (take i stk @ getFirst (h ! k) # getSecond (h ! k) # drop (Suc i) stk) (h[k := (h ! k)\<lparr>eOp := WQL_IS_TRUE\<rparr>]))"
proof -
  have s: "mset stk = add_mset (Node k) (mset (take i stk) + mset (drop (Suc i) stk))"
    using assms(1,2) by (subst id_take_nth_drop [OF assms(1)]) simp
  have h: "mset (concat (map orRefs h)) = mset (concat (map orRefs (take k h))) + (mset (orRefs (h ! k)) + mset (concat (map orRefs (drop (Suc k) h))))"
    by (subst id_take_nth_drop [OF assms(3)]) simp
  have h': "mset (concat (map orRefs (h[k := (h ! k)\<lparr>eOp := WQL_IS_TRUE\<rparr>]))) =
    mset (concat (map orRefs (take k h))) + mset (concat (map orRefs (drop (Suc k) h)))"
    unfolding upd_conv_take_nth_drop [OF assms(3)] by (simp add: orRefs_def)
  have o: "mset (orRefs (h ! k)) = filter_mset (\<lambda>r. \<not> isTerminal r) {#getFirst (h ! k), getSecond (h ! k)#}"
    using assms(4) by (simp add: orRefs_def)
  show ?thesis unfolding pool_def s h h' o by simp
qed

lemma fresh_step:
  assumes f: "fresh stk h D" and "i < length stk" and "stk ! i = Node k" and "k < length h" and "eOp (h ! k) = WQL_OR"
  shows "fresh (take i stk @ getFirst (h ! k) # getSecond (h ! k) # drop (Suc i) stk) (h[k := (h ! k)\<lparr>eOp := WQL_IS_TRUE\<rparr>]) (insert k D)"
proof -
  let ?p = "pool (take i stk @ getFirst (h ! k) # getSecond (h ! k) # drop (Suc i) stk) (h[k := (h ! k)\<lparr>eOp := WQL_IS_TRUE\<rparr>])"
  have p: "pool stk h = add_mset (Node k) ?p" by (rule pool_step [OF assms(2-5)])
  have c: "count (add_mset (Node k) ?p) r \<le> 1" for r using f unfolding fresh_def p by blast
  have "count ?p r \<le> 1" for r using c [of r] by (simp split: if_splits)
  moreover have "Node k \<notin># ?p" using c [of "Node k"] by (simp add: not_in_iff)
  moreover have "Node m \<notin># ?p" if "m \<in> D" for m using f that unfolding fresh_def p by simp
  ultimately show ?thesis unfolding fresh_def by blast
qed

subsection \<open>The loop ends\<close>

text \<open>The value of what has been gathered: a disjunction or a conjunction.\<close>

definition gathered :: "bool \<Rightarrow> (nat \<Rightarrow> bool) \<Rightarrow> evalEl list \<Rightarrow> stackEl list \<Rightarrow> bool" where
  "gathered orFlag g H stk \<longleftrightarrow>
     (if orFlag then \<exists>r \<in> set stk. rfold holds g H r else \<forall>r \<in> set stk. rfold holds g H r)"

lemma gathered_step:
  assumes "heapLow H" and "\<forall>e \<in> set H. settled e" and "k < length H" and "eOp (H ! k) = opFor orFlag" and "i < length stk" and "stk ! i = Node k"
  shows "gathered orFlag g H (take i stk @ getFirst (H ! k) # getSecond (H ! k) # drop (Suc i) stk) = gathered orFlag g H stk"
proof -
  have m: "\<not> eMark (H ! k)" using assms(2,3) by (auto simp: settled_def)
  have v: "rfold holds g H (Node k) = (if orFlag then rfold holds g H (getFirst (H ! k)) \<or> rfold holds g H (getSecond (H ! k))
    else rfold holds g H (getFirst (H ! k)) \<and> rfold holds g H (getSecond (H ! k)))"
    using low_eq [OF assms(1,3), of holds g] assms(4) m by (simp add: holds_simps opFor_def split: if_splits)
  have s: "set stk = insert (Node k) (set (take i stk) \<union> set (drop (Suc i) stk))"
    using assms(5,6) by (subst id_take_nth_drop [OF assms(5)]) simp
  show ?thesis unfolding gathered_def s using v by auto
qed

lemma unread_step:
  assumes "heapLow H" and "k < length H" and "eOp (H ! k) = opFor orFlag" and "i < length stk" and "stk ! i = Node k"
  shows "unread orFlag H (drop i (take i stk @ getFirst (H ! k) # getSecond (H ! k) # drop (Suc i) stk)) < unread orFlag H (drop i stk)"
proof -
  have "drop i stk = Node k # drop (Suc i) stk" using assms(4,5) by (metis Cons_nth_drop_Suc)
  moreover have "rfold (gsize orFlag) (\<lambda>_. 1) H (Node k) =
    rfold (gsize orFlag) (\<lambda>_. 1) H (getFirst (H ! k)) + rfold (gsize orFlag) (\<lambda>_. 1) H (getSecond (H ! k)) + 1"
    using low_eq [OF assms(1,2), of "gsize orFlag" "\<lambda>_. 1"] assms(3) by (simp add: gsize_def)
  ultimately show ?thesis using assms(4) by (simp add: unread_def)
qed

lemma unread_next: "i < length stk \<Longrightarrow> unread orFlag H (drop (i + 1) stk) < unread orFlag H (drop i stk)"
  using gsize_pos [of orFlag H "stk ! i"] by (simp add: unread_def flip: Cons_nth_drop_Suc)

lemma take_step: "i < length stk \<Longrightarrow> set (take (i + 1) stk) = insert (stk ! i) (set (take i stk))"
  by (simp add: take_Suc_conv_app_nth)

lemma gatherLoop_ok:
  assumes low: "heapLow H" and s: "\<forall>e \<in> set H. settled e" and ok: "refsOk M H"
    and closed: "\<And>k r. k < length H \<Longrightarrow> eOp (H ! k) = opFor orFlag \<Longrightarrow> Q (Node k) \<Longrightarrow> r \<in> set (refs (H ! k)) \<Longrightarrow> Q r"
  shows "marked H h D \<Longrightarrow> \<forall>r \<in> set stk. refAt M (length h) H r \<and> Q r \<Longrightarrow> (orFlag \<Longrightarrow> fresh stk h D) \<Longrightarrow>
    \<forall>r \<in> set (take i stk). stops orFlag H r \<Longrightarrow> i \<le> length stk \<Longrightarrow>
    \<exists>stk' h' D'. gatherLoop orFlag i stk h = Some (Inr (stk', h')) \<and> marked H h' D' \<and> length h' = length h \<and>
      (stk \<noteq> [] \<longrightarrow> stk' \<noteq> []) \<and> (\<forall>r \<in> set stk'. refAt M (length h) H r \<and> Q r \<and> stops orFlag H r) \<and>
      (\<forall>g. gathered orFlag g H stk' = gathered orFlag g H stk)"
proof (induction "unread orFlag H (drop i stk)" arbitrary: i stk h D rule: less_induct)
  case less
  note mk = less.prems(1) and refs = less.prems(2) and fr = less.prems(3) and stop = less.prems(4)
  have len: "length h \<le> length H" using mk by (simp add: marked_def)
  show ?case
  proof (cases "i < length stk")
    case False
    then have "gatherLoop orFlag i stk h = Some (Inr (stk, h))" by (subst gatherLoop.simps) simp
    moreover have "take i stk = stk" using False by simp
    ultimately show ?thesis using mk refs stop by auto
  next
    case True
    have skip: ?thesis if "stops orFlag H (stk ! i)" "gatherLoop orFlag i stk h = gatherLoop orFlag (i + 1) stk h"
      using less.hyps [OF unread_next [OF True] mk refs fr] stop that take_step [OF True] True by simp
    have "refAt M (length h) H (stk ! i)" using refs True by simp
    from this [unfolded refAt_def] show ?thesis
    proof (elim disjE exE conjE)
      fix t assume "stk ! i = Leaf t"
      then show ?thesis by (intro skip) (simp_all add: stops_def True gatherLoop.simps [of orFlag i])
    next
      fix k assume k: "k < length h" "stk ! i = Node k" and bin: "binary (eOp (H ! k))"
      have at: "elementAt h (int k) = Inr (h ! k)" using k(1) by (simp add: elementAt_def)
      have notD: "k \<notin> D" if orFlag
      proof -
        have "Node k \<in># pool stk h" unfolding pool_def using True k(2) nth_mem [OF True] by simp
        then show ?thesis using fr [OF that] by (auto simp: fresh_def)
      qed
      show ?thesis
      proof (cases "eOp (H ! k) = opFor orFlag")
        case False
        have "eOp (h ! k) \<noteq> opFor orFlag" using marked_op [OF mk k(1)] False by (cases orFlag) (simp_all add: opFor_def)
        then have "eOp (h ! k) \<noteq> WQL_OR \<and> orFlag \<or> eOp (h ! k) \<noteq> WQL_AND \<and> \<not> orFlag" by (simp add: opFor_def split: if_splits)
        then have "gatherLoop orFlag i stk h = gatherLoop orFlag (i + 1) stk h"
          by (subst gatherLoop.simps) (simp add: True k(2) at)
        then show ?thesis using False k(2) by (intro skip) (simp_all add: stops_def)
      next
        case op: True
        have kH: "k < length H" using k(1) len by simp
        have "k \<notin> D"
        proof (cases orFlag)
          case False
          then have "eOp (H ! k) \<noteq> WQL_OR" using op by (simp add: opFor_def)
          then show ?thesis using mk by (auto simp: marked_def)
        qed (rule notD)
        then have hk: "h ! k = H ! k" using mk k(1) by (simp add: marked_def)
        let ?stk = "take i stk @ getFirst (H ! k) # getSecond (H ! k) # drop (Suc i) stk"
        let ?h = "if orFlag then h[k := (H ! k)\<lparr>eOp := WQL_IS_TRUE\<rparr>] else h" and ?D = "if orFlag then insert k D else D"
        have step: "gatherLoop orFlag i stk h = gatherLoop orFlag i ?stk ?h"
          by (subst gatherLoop.simps) (use op in \<open>simp add: True k(2) at hk opFor_def split: if_splits\<close>)
        have mk': "marked H ?h ?D" using mk k(1) op by (auto simp: marked_def opFor_def nth_list_update)
        have "fresh ?stk ?h ?D" if orFlag
          using fresh_step [OF fr [OF that] True k(2) k(1)] op that by (simp add: hk opFor_def)
        moreover have "refAt M (length ?h) H r \<and> Q r" if "r \<in> set ?stk" for r
        proof (cases "r \<in> set (refs (H ! k))")
          case r: True
          have "Q (Node k)" using refs True k(2) by (metis nth_mem)
          then show ?thesis using closed [OF kH op _ r] refAt_child [OF ok k(1) len r] by simp
        next
          case False
          then have "r \<in> set (take i stk) \<union> set (drop (Suc i) stk)" using that opFor_refs [OF op] by simp
          then have "r \<in> set stk" using set_take_subset [of i stk] set_drop_subset [of "Suc i" stk] by blast
          then show ?thesis using refs by simp
        qed
        moreover have "\<forall>r \<in> set (take i ?stk). stops orFlag H r" using stop True by simp
        moreover have "i \<le> length ?stk" using True by simp
        ultimately have "\<exists>stk' h' D'. gatherLoop orFlag i ?stk ?h = Some (Inr (stk', h')) \<and> marked H h' D' \<and> length h' = length ?h \<and>
          (?stk \<noteq> [] \<longrightarrow> stk' \<noteq> []) \<and> (\<forall>r \<in> set stk'. refAt M (length ?h) H r \<and> Q r \<and> stops orFlag H r) \<and>
          (\<forall>g. gathered orFlag g H stk' = gathered orFlag g H ?stk)"
          by (intro less.hyps [OF unread_step [OF low kH op True k(2)] mk']) blast+
        then show ?thesis unfolding step gathered_step [OF low s kH op True k(2)] by auto
      qed
    qed
  qed
qed

subsection \<open>Gathering the disjuncts\<close>

lemma dropTrue_spec:
  "\<exists>m \<le> length h. dropTrue h = take m h \<and> (\<forall>k < length h. m \<le> k \<longrightarrow> eOp (h ! k) = WQL_IS_TRUE) \<and>
    (0 < m \<longrightarrow> eOp (h ! (m - 1)) \<noteq> WQL_IS_TRUE)"
proof (induction h rule: rev_induct)
  case Nil
  then show ?case by (simp add: dropTrue.simps)
next
  case (snoc e h)
  show ?case
  proof (cases "eOp e = WQL_IS_TRUE")
    case True
    from snoc obtain m where m: "m \<le> length h" "dropTrue h = take m h" "\<forall>k < length h. m \<le> k \<longrightarrow> eOp (h ! k) = WQL_IS_TRUE"
      "0 < m \<longrightarrow> eOp (h ! (m - 1)) \<noteq> WQL_IS_TRUE" by blast
    have "dropTrue (h @ [e]) = dropTrue h" using True by (subst dropTrue.simps) simp
    then show ?thesis using m True by (intro exI [of _ m]) (auto simp: nth_append less_Suc_eq)
  next
    case False
    then have "dropTrue (h @ [e]) = h @ [e]" by (subst dropTrue.simps) simp
    then show ?thesis using False by (intro exI [of _ "length (h @ [e])"]) simp
  qed
qed

lemma factorInv_take:
  assumes inv: "factorInv M (length H0) R H0"
  shows "factorInv M (Suc R) R (take (Suc R) H0)" and "hfold f g (take (Suc R) H0) R = hfold f g H0 R"
    and "dropTrue H0 = take (Suc R) H0"
proof -
  have R: "R < length H0" "binary (eOp (H0 ! R))" "\<forall>k < length H0. R < k \<longrightarrow> eOp (H0 ! k) = WQL_IS_TRUE" using inv by (simp_all add: factorInv_def)
  from dropTrue_spec [of H0] obtain m where m: "m \<le> length H0" "dropTrue H0 = take m H0"
    "\<forall>k < length H0. m \<le> k \<longrightarrow> eOp (H0 ! k) = WQL_IS_TRUE" "0 < m \<longrightarrow> eOp (H0 ! (m - 1)) \<noteq> WQL_IS_TRUE" by blast
  have "R < m" using m(3) R(1,2) by (metis not_less op_kinds(9))
  moreover have "m \<le> Suc R"
  proof (rule ccontr)
    assume "\<not> m \<le> Suc R"
    then show False using m(1,4) R(3) by simp
  qed
  ultimately have "m = Suc R" by simp
  then show "dropTrue H0 = take (Suc R) H0" using m(2) by simp
  show "hfold f g (take (Suc R) H0) R = hfold f g H0 R" by (rule hfold_prefix) simp
  have "distinct (concat (map orRefs (take (Suc R) H0)))"
  proof -
    have "concat (map orRefs H0) = concat (map orRefs (take (Suc R) H0)) @ concat (map orRefs (drop (Suc R) H0))"
      by (metis append_take_drop_id concat_append map_append)
    then show ?thesis using inv unfolding factorInv_def by (metis distinct_append)
  qed
  moreover have "factored (take (Suc R) H0) (Suc R)"
    unfolding factored_def
  proof (intro allI impI)
    fix k j assume a: "k < Suc R" "eOp (take (Suc R) H0 ! k) = WQL_AND" "Node j \<in> set (refs (take (Suc R) H0 ! k))"
    then have k: "k < length H0" "eOp (H0 ! k) = WQL_AND" "Node j \<in> set (refs (H0 ! k))" using R(1) by simp_all
    have "j < k" using refsOk_ref [of M H0 k "Node j"] k(1,3) inv by (auto simp: factorInv_def)
    moreover have "eOp (H0 ! j) \<noteq> WQL_OR" using inv k unfolding factorInv_def factored_def by blast
    ultimately show "eOp (take (Suc R) H0 ! j) \<noteq> WQL_OR" using a(1) by simp
  qed
  moreover have "refsOk M (take (Suc R) H0)"
    unfolding refsOk_def
  proof (intro allI impI ballI)
    fix k r assume "k < length (take (Suc R) H0)" "r \<in> set (refs (take (Suc R) H0 ! k))"
    then have k: "k < length H0" "k < Suc R" "r \<in> set (refs (H0 ! k))" by simp_all
    have "(\<exists>j < k. r = Node j \<and> binary (eOp (H0 ! j))) \<or> (\<exists>t < M. r = Leaf t)"
      using inv k(1,3) by (intro refsOk_ref) (simp_all add: factorInv_def)
    then show "(\<exists>j < k. r = Node j \<and> binary (eOp (take (Suc R) H0 ! j))) \<or> (\<exists>t < M. r = Leaf t)"
      using k(2) by auto
  qed
  ultimately show "factorInv M (Suc R) R (take (Suc R) H0)"
    using inv by (auto simp: factorInv_def heapLow_def dest: in_set_takeD)
qed

text \<open>A disjunct: a comparison or a conjunction.\<close>

definition disjunct :: "nat \<Rightarrow> nat \<Rightarrow> evalEl list \<Rightarrow> stackEl \<Rightarrow> bool" where
  "disjunct M n H r \<longleftrightarrow> (\<exists>k < n. r = Node k \<and> eOp (H ! k) = WQL_AND) \<or> (\<exists>t < M. r = Leaf t)"

lemma disjunct_iff: "disjunct M n H r \<longleftrightarrow> refAt M n H r \<and> stops True H r"
  by (auto simp: disjunct_def refAt_def stops_def opFor_def binary_def)

lemma gatherDisj_ok:
  assumes inv: "factorInv M (Suc R) R H" and len: "length H = Suc R"
  shows "\<exists>djs h D. gatherLoop True 0 [Node R] H = Some (Inr (djs, h)) \<and> marked H h D \<and> length h = length H \<and> djs \<noteq> [] \<and>
    (\<forall>d \<in> set djs. disjunct M (length h) H d) \<and> (\<forall>g. (\<exists>d \<in> set djs. rfold holds g H d) = hfold holds g H R)"
proof -
  have ok: "refsOk M H" and low: "heapLow H" and s: "\<forall>e \<in> set H. settled e" and bin: "binary (eOp (H ! R))"
    and dist: "distinct (concat (map orRefs H))" using inv by (simp_all add: factorInv_def)
  have "Node R \<notin> set (concat (map orRefs H))"
  proof
    assume "Node R \<in> set (concat (map orRefs H))"
    then obtain e where "e \<in> set H" "Node R \<in> set (orRefs e)" by auto
    then obtain k where "k < length H" "Node R \<in> set (orRefs (H ! k))" by (metis in_set_conv_nth)
    then show False using orRefs_node [OF ok] len by fastforce
  qed
  then have "fresh [Node R] H {}"
    using dist distinct_count_atmost_1 [of "concat (map orRefs H)"]
    by (auto simp: fresh_def pool_def)
  then have "\<exists>stk' h' D'. gatherLoop True 0 [Node R] H = Some (Inr (stk', h')) \<and> marked H h' D' \<and> length h' = length H \<and>
    ([Node R] \<noteq> [] \<longrightarrow> stk' \<noteq> []) \<and> (\<forall>r \<in> set stk'. refAt M (length H) H r \<and> True \<and> stops True H r) \<and>
    (\<forall>g. gathered True g H stk' = gathered True g H [Node R])"
    using bin len by (intro gatherLoop_ok [OF low s ok, where D = "{}"]) (simp_all add: marked_def refAt_def)
  then show ?thesis by (auto simp: disjunct_iff gathered_def)
qed

subsection \<open>The rows of the tableau\<close>

definition respectsEqual :: "(termEl \<Rightarrow> bool) \<Rightarrow> termEl list \<Rightarrow> bool" where
  "respectsEqual v ts \<longleftrightarrow> (\<forall>x \<in> set ts. \<forall>y \<in> set ts. termEqual x y \<longrightarrow> v x = v y)"

lemma addIfNotExists_ok:
  assumes "respectsEqual v ts" and "t \<in> set ts" and "set tr \<subseteq> set ts"
  shows "set (addIfNotExists tr t) \<subseteq> set ts" and "(\<forall>x \<in> set (addIfNotExists tr t). v x) \<longleftrightarrow> (\<forall>x \<in> set tr. v x) \<and> v t"
    and "addIfNotExists tr t \<noteq> []"
proof -
  have "v x = v t" if "x \<in> set tr" "termEqual x t" for x using assms that unfolding respectsEqual_def by blast
  then show "(\<forall>x \<in> set (addIfNotExists tr t). v x) \<longleftrightarrow> (\<forall>x \<in> set tr. v x) \<and> v t" by (auto simp: addIfNotExists_def)
  show "set (addIfNotExists tr t) \<subseteq> set ts" using assms by (auto simp: addIfNotExists_def)
  show "addIfNotExists tr t \<noteq> []" by (auto simp: addIfNotExists_def)
qed

lemma addTerms_ok:
  assumes r: "respectsEqual v ts"
  shows "\<forall>s \<in> set cs. \<exists>t < length ts. s = Leaf t \<Longrightarrow> set tr0 \<subseteq> set ts \<Longrightarrow>
    \<exists>tr. addTerms ts cs tr0 = Inr tr \<and> set tr \<subseteq> set ts \<and> (cs \<noteq> [] \<or> tr0 \<noteq> [] \<longrightarrow> tr \<noteq> []) \<and>
      ((\<forall>x \<in> set tr. v x) \<longleftrightarrow> (\<forall>x \<in> set tr0. v x) \<and> (\<forall>s \<in> set cs. rfold holds (\<lambda>t. v (ts ! t)) H s))"
proof (induction cs arbitrary: tr0)
  case (Cons s cs)
  then obtain t where t: "t < length ts" "s = Leaf t" by auto
  note add = addIfNotExists_ok [OF r nth_mem [OF t(1)] Cons.prems(2)]
  have "\<forall>s \<in> set cs. \<exists>t < length ts. s = Leaf t" using Cons.prems(1) by simp
  from Cons.IH [OF this add(1)] show ?case using t add(2,3) by (auto simp: elementAt_def)
qed auto

lemma row_ok:
  assumes inv: "factorInv M (length H) R H" and mk: "marked H h D" and d: "disjunct M (length h) H d"
  shows "\<exists>cs h' D'. (if \<not> isTerminal d then gather False d h else Some (Inr ([d], h))) = Some (Inr (cs, h')) \<and> marked H h' D' \<and>
    (\<forall>k < length h. eOp (H ! k) = WQL_AND \<longrightarrow> k < length h') \<and> cs \<noteq> [] \<and> (\<forall>s \<in> set cs. \<exists>t < M. s = Leaf t) \<and>
    (\<forall>g. (\<forall>s \<in> set cs. rfold holds g H s) = rfold holds g H d)"
  using d [unfolded disjunct_def]
proof (elim disjE exE conjE)
  fix t assume "t < M" "d = Leaf t"
  then show ?thesis using mk by auto
next
  fix k assume k: "k < length h" "d = Node k" "eOp (H ! k) = WQL_AND"
  have ok: "refsOk M H" and low: "heapLow H" and s: "\<forall>e \<in> set H. settled e" and fac: "factored H (length H)"
    using inv by (simp_all add: factorInv_def)
  have keep: "eOp (h ! n) = WQL_AND" if "n < length h" "eOp (H ! n) = WQL_AND" for n
    using marked_op [OF mk that(1)] mk that(2) by (auto simp: marked_def)
  from dropTrue_spec [of h] obtain m where m: "m \<le> length h" "dropTrue h = take m h"
    "\<forall>k < length h. m \<le> k \<longrightarrow> eOp (h ! k) = WQL_IS_TRUE" by blast
  have live: "n < m" if "n < length h" "eOp (H ! n) = WQL_AND" for n
    using m(3) keep [OF that] that(1) by (metis not_less wqlOperation.distinct op_kinds(8,9))
  have mk': "marked H (take m h) D" using mk m(1) by (simp add: marked_def)
  have "k < m" by (rule live [OF k(1,3)])
  then have run: "gather False d h = gatherLoop False 0 [d] (take m h)" using m(1,2) k(1,2) by (auto simp: gather_def Let_def)
  have closed: "stops True H r" if "n < length H" "eOp (H ! n) = opFor False" "r \<in> set (refs (H ! n))" for n r
    using fac that by (auto simp: factored_def stops_def opFor_def)
  have len: "length (take m h) = m" using m(1) by simp
  have "\<exists>stk' h' D'. gatherLoop False 0 [d] (take m h) = Some (Inr (stk', h')) \<and> marked H h' D' \<and> length h' = length (take m h) \<and>
    ([d] \<noteq> [] \<longrightarrow> stk' \<noteq> []) \<and> (\<forall>r \<in> set stk'. refAt M (length (take m h)) H r \<and> stops True H r \<and> stops False H r) \<and>
    (\<forall>g. gathered False g H stk' = gathered False g H [d])"
    using k \<open>k < m\<close> m(1) closed
    by (intro gatherLoop_ok [OF low s ok _ mk']) (simp_all add: len refAt_def stops_def opFor_def)
  then obtain cs h' D' where r: "gatherLoop False 0 [d] (take m h) = Some (Inr (cs, h'))" "marked H h' D'" "length h' = m" "cs \<noteq> []"
    "\<forall>r \<in> set cs. refAt M m H r \<and> stops True H r \<and> stops False H r" "\<forall>g. gathered False g H cs = gathered False g H [d]"
    unfolding len by blast
  have "\<exists>t < M. r = Leaf t" if "r \<in> set cs" for r
    using r(5) that by (auto simp: refAt_def stops_def opFor_def binary_def)
  then show ?thesis using run r live k(2) by (auto simp: gathered_def)
qed

lemma buildRows_ok:
  assumes inv: "factorInv (length ts) (length H) R H" and r: "respectsEqual v ts"
  shows "marked H h D \<Longrightarrow> \<forall>d \<in> set ds. disjunct (length ts) (length h) H d \<Longrightarrow>
    \<exists>rows. buildRows ts ds h = Some (Inr rows) \<and> (\<forall>row \<in> set rows. row \<noteq> [] \<and> set row \<subseteq> set ts) \<and>
      ((\<exists>row \<in> set rows. \<forall>t \<in> set row. v t) \<longleftrightarrow> (\<exists>d \<in> set ds. rfold holds (\<lambda>t. v (ts ! t)) H d))"
proof (induction ds arbitrary: h D)
  case (Cons d ds)
  from row_ok [OF inv Cons.prems(1), of d] Cons.prems(2) obtain cs h' D' where
    row: "(if \<not> isTerminal d then gather False d h else Some (Inr ([d], h))) = Some (Inr (cs, h'))" "marked H h' D'"
      "\<forall>k < length h. eOp (H ! k) = WQL_AND \<longrightarrow> k < length h'" "cs \<noteq> []" "\<forall>s \<in> set cs. \<exists>t < length ts. s = Leaf t"
      "\<forall>g. (\<forall>s \<in> set cs. rfold holds g H s) = rfold holds g H d" by auto
  from addTerms_ok [OF r row(5), of "[]" H] obtain tr where tr: "addTerms ts cs [] = Inr tr" "set tr \<subseteq> set ts" "tr \<noteq> []"
    "(\<forall>x \<in> set tr. v x) \<longleftrightarrow> (\<forall>s \<in> set cs. rfold holds (\<lambda>t. v (ts ! t)) H s)" using row(4) by auto
  have "\<forall>d \<in> set ds. disjunct (length ts) (length h') H d"
    using Cons.prems(2) row(3) unfolding disjunct_def by fastforce
  from Cons.IH [OF row(2) this] obtain rows where rows: "buildRows ts ds h' = Some (Inr rows)"
    "\<forall>row \<in> set rows. row \<noteq> [] \<and> set row \<subseteq> set ts"
    "(\<exists>row \<in> set rows. \<forall>t \<in> set row. v t) \<longleftrightarrow> (\<exists>d \<in> set ds. rfold holds (\<lambda>t. v (ts ! t)) H d)" by blast
  have "buildRows ts (d # ds) h = Some (Inr (tr # rows))"
    by (subst buildRows.simps) (simp only: row(1) tr(1) rows(1) option.case sum.case prod.case)
  then show ?case using tr rows row(6) by (intro exI [of _ "tr # rows"]) simp
qed simp

subsection \<open>Compiling a condition\<close>

lemma conditionTerms_not_Nil: "conditionTerms c \<noteq> []"
  by (induction c) simp_all

lemma factoring_dead: "\<forall>e \<in> set h. eOp e = WQL_IS_TRUE \<Longrightarrow> factoring i (length h) h = Some (Inr h)"
proof (induction "length h - i" arbitrary: i)
  case 0
  then show ?case by (subst factoring.simps) simp
next
  case (Suc n)
  then have i: "i < length h" by simp
  have "findOr h (h ! i) = Inr None" using Suc.prems i by (simp add: findOr_def)
  moreover have "factoring (i + 1) (length h) h = Some (Inr h)" using Suc by simp
  ultimately show ?case using i by (subst factoring.simps) simp
qed

lemma dropTrue_dead: "\<forall>e \<in> set h. eOp e = WQL_IS_TRUE \<Longrightarrow> dropTrue h = []"
  using dropTrue_spec [of h] by (metis diff_less list.size(3) nth_mem take_0 zero_less_one less_le_trans not_gr_zero)

definition compiled :: "wqlCondition \<Rightarrow> (termEl \<Rightarrow> bool) \<Rightarrow> wqlStatement \<Rightarrow> dnf \<Rightarrow> bool" where
  "compiled c v s d \<longleftrightarrow> compileDnf s newDnf = Some (Inr d) \<and>
     (\<forall>row \<in> set (tableau d). row \<noteq> [] \<and> (\<forall>t \<in> set row. \<exists>u \<in> set (conditionTerms c). t = u \<or> t = negateTerm u)) \<and>
     ((\<exists>row \<in> set (tableau d). \<forall>t \<in> set row. v t) \<longleftrightarrow> conditionHolds v c)"

lemma compile_ok:
  assumes good: "\<forall>t \<in> set (conditionTerms c). v (negateTerm t) \<noteq> v t"
    and r: "respectsEqual v (conditionTerms c @ map negateTerm (conditionTerms c))"
    and s: "s = emitStatement sel from (Some c) s0"
  shows "\<exists>d. compiled c v s d"
proof -
  from build_and_push [OF good s] obtain root h ts where
    b: "bindE (buildEvalHeap (operands s) (operations s) ([], [], [], 0)) (\<lambda>(_, ts, h, _). pushNOTDown (length h) (h, ts)) = Inr (h, ts)"
    and p: "passed (length ts) root h" and len: "length ts = length (conditionTerms c)"
    and terms: "\<forall>t \<in> set ts. \<exists>u \<in> set (conditionTerms c). t = u \<or> t = negateTerm u"
    and val: "rfold holds (\<lambda>t. v (ts ! t)) h root = conditionHolds v c" by blast
  have clause: "hasWhereClause s" using conditionOperations_not_Nil [of c] by (simp add: s hasWhereClause_def wql_emit)
  have "set ts \<subseteq> set (conditionTerms c @ map negateTerm (conditionTerms c))" using terms by auto
  then have r': "respectsEqual v ts" using r unfolding respectsEqual_def by blast
  have ts: "ts \<noteq> []" using len conditionTerms_not_Nil [of c] by auto
  have "\<exists>h2 djs h3 rows. factoring 0 (length h) h = Some (Inr h2) \<and> gather True (stackRef 0 True) h2 = Some (Inr (djs, h3)) \<and>
    buildRows ts (if djs = [] \<and> ts \<noteq> [] then [stackRef 0 True] else djs) h3 = Some (Inr rows) \<and>
    (\<forall>row \<in> set rows. row \<noteq> [] \<and> set row \<subseteq> set ts) \<and>
    ((\<exists>row \<in> set rows. \<forall>t \<in> set row. v t) \<longleftrightarrow> rfold holds (\<lambda>t. v (ts ! t)) h root)"
    using passed_root [OF p]
  proof (elim disjE exE conjE)
    fix R assume R: "root = Node R" "factorInv (length ts) 0 R h"
    from factoring_ok [OF R(2)] obtain h2 R2 where f: "factoring 0 (length h) h = Some (Inr h2)"
      "factorInv (length ts) (length h2) R2 h2" "\<forall>g. hfold holds g h2 R2 = hfold holds g h R" by blast
    let ?H = "take (Suc R2) h2"
    have lenH: "length ?H = Suc R2" using f(2) by (simp add: factorInv_def)
    note t = factorInv_take [OF f(2)]
    from gatherDisj_ok [OF t(1) lenH] obtain djs h3 D where g: "gatherLoop True 0 [Node R2] ?H = Some (Inr (djs, h3))"
      "marked ?H h3 D" "djs \<noteq> []" "\<forall>d \<in> set djs. disjunct (length ts) (length h3) ?H d"
      "\<forall>g. (\<exists>d \<in> set djs. rfold holds g ?H d) = hfold holds g ?H R2" by blast
    have ga: "gather True (stackRef 0 True) h2 = Some (Inr (djs, h3))"
      using g(1) lenH unfolding gather_def t(3) by (auto simp: Let_def)
    have "factorInv (length ts) (length ?H) R2 ?H" using t(1) lenH by simp
    from buildRows_ok [OF this r' g(2,4)] obtain rows where rows: "buildRows ts djs h3 = Some (Inr rows)"
      "\<forall>row \<in> set rows. row \<noteq> [] \<and> set row \<subseteq> set ts"
      "(\<exists>row \<in> set rows. \<forall>t \<in> set row. v t) \<longleftrightarrow> (\<exists>d \<in> set djs. rfold holds (\<lambda>t. v (ts ! t)) ?H d)" by blast
    have "rfold holds (\<lambda>t. v (ts ! t)) h root = (\<exists>d \<in> set djs. rfold holds (\<lambda>t. v (ts ! t)) ?H d)"
      using f(3) g(5) t(2) [of holds "\<lambda>t. v (ts ! t)"] R(1) by simp
    then show ?thesis using rows g(3) by (intro exI conjI) (rule f(1), rule ga, simp_all)
  next
    assume dead: "root = Leaf 0" "length ts = 1" "\<forall>e \<in> set h. eOp e = WQL_IS_TRUE"
    have "gather True (stackRef 0 True) h = Some (Inr ([], []))" using dropTrue_dead [OF dead(3)] by (simp add: gather_def)
    moreover have "buildRows ts [stackRef 0 True] [] = Some (Inr [[ts ! 0]])"
      using dead(2) by (simp add: elementAt_def addIfNotExists_def)
    ultimately show ?thesis using factoring_dead [OF dead(3), of 0] dead(1,2) ts by auto
  qed
  then obtain h2 djs h3 rows where q: "factoring 0 (length h) h = Some (Inr h2)" "gather True (stackRef 0 True) h2 = Some (Inr (djs, h3))"
    "buildRows ts (if djs = [] \<and> ts \<noteq> [] then [stackRef 0 True] else djs) h3 = Some (Inr rows)"
    "\<forall>row \<in> set rows. row \<noteq> [] \<and> set row \<subseteq> set ts"
    "(\<exists>row \<in> set rows. \<forall>t \<in> set row. v t) \<longleftrightarrow> rfold holds (\<lambda>t. v (ts ! t)) h root" by blast
  have "compileDnf s newDnf = Some (Inr \<lparr>terminalHeap = ts, evalHeap = [], tableau = rows\<rparr>)"
    using clause b by (simp add: compileDnf_def newDnf_def q(1,2,3) del: buildRows.simps)
  moreover have "row \<noteq> [] \<and> (\<forall>t \<in> set row. \<exists>u \<in> set (conditionTerms c). t = u \<or> t = negateTerm u)" if "row \<in> set rows" for row
    using q(4) terms that by blast
  ultimately show ?thesis using q(5) val unfolding compiled_def
    by (intro exI [of _ "\<lparr>terminalHeap = ts, evalHeap = [], tableau = rows\<rparr>"]) simp
qed

subsection \<open>The value of a comparison\<close>

text \<open>A comparison of the tableau, at a property source. One with a null operand is a test for null.\<close>

definition termHolds :: "wqlSource \<Rightarrow> termEl \<Rightarrow> bool" where
  "termHolds source t \<longleftrightarrow>
     (if tOpn2 t = NullValue
      then (resolveProperty source (tOpn1 t) = NullValue) = (tOp t = WQL_EQ)
      else evaluateOperands (resolveProperty source (tOpn1 t)) (resolveProperty source (tOpn2 t)) (tOp t) = Inr True)"

text \<open>Two values that can be compared: of one type, neither null nor not a number.\<close>

fun comparableValues :: "wqlOperand \<Rightarrow> wqlOperand \<Rightarrow> bool" where
  "comparableValues (IntegerValue x) (IntegerValue y) = True"
| "comparableValues (DoubleValue x) (DoubleValue y) = (\<not> realNaN x \<and> \<not> realNaN y)"
| "comparableValues (BooleanValue x) (BooleanValue y) = True"
| "comparableValues (StringValue x) (StringValue y) = True"
| "comparableValues _ _ = False"

definition comparable :: "wqlSource \<Rightarrow> wqlTerm \<times> wqlTerm \<Rightarrow> bool" where
  "comparable source = (\<lambda>(l, r).
     comparableValues (resolveProperty source (termOperand l)) (resolveProperty source (termOperand r)))"

lemma termOperand_not_null: "termOperand t \<noteq> NullValue"
  by (cases t) simp_all

lemma compare_negated:
  assumes "comparableValues x y"
  shows "evaluateOperands x y (negateOp (compareOperation c)) = Inr True \<longleftrightarrow> evaluateOperands x y (compareOperation c) \<noteq> Inr True"
  using assms
  by (cases "(x, y)" rule: comparableValues.cases; cases c)
    (auto simp: compareIntegers_def compareDoubles_def compareBooleans_def compareStrings_def realLess_def realLessEq_def)

lemma compare_total:
  "comparableValues x y \<Longrightarrow> operandType x = operandType y \<and> (\<exists>b. evaluateOperands x y op = Inr b)"
  by (cases "(x, y)" rule: comparableValues.cases) auto

lemma compare_realEqual:
  assumes "realEqual x x'"
  shows "compareDoubles op x y = compareDoubles op x' y" and "compareDoubles op y x = compareDoubles op y x'"
  using assms by (cases op; simp add: compareDoubles_def realEqual_def realLess_def realLessEq_def)+

lemma stringEqual_eq: "stringEqual x y \<longleftrightarrow> x = y"
  by (auto simp: stringEqual_def)

lemma evaluate_equal:
  assumes "operandEqual x x'" and "operandEqual y y'"
  shows "evaluateOperands (resolveProperty source x) (resolveProperty source y) op =
    evaluateOperands (resolveProperty source x') (resolveProperty source y') op" and "x = NullValue \<longleftrightarrow> x' = NullValue"
    and "resolveProperty source x = NullValue \<longleftrightarrow> resolveProperty source x' = NullValue"
proof -
  have e: "x = x' \<or> (\<exists>a a'. x = DoubleValue a \<and> x' = DoubleValue a' \<and> realEqual a a')" if "operandEqual x x'" for x x'
    using that by (cases "(x, x')" rule: operandEqual.cases) (auto simp: stringEqual_eq signed_word_eqI)
  have l: "evaluateOperands (DoubleValue a) z op = evaluateOperands (DoubleValue a') z op" if "realEqual a a'" for a a' z
    using compare_realEqual(1) [OF that] by (cases z) simp_all
  have r: "evaluateOperands z (DoubleValue a) op = evaluateOperands z (DoubleValue a') op" if "realEqual a a'" for a a' z
    using compare_realEqual(2) [OF that] by (cases z) simp_all
  show "evaluateOperands (resolveProperty source x) (resolveProperty source y) op =
    evaluateOperands (resolveProperty source x') (resolveProperty source y') op"
  proof -
    have "evaluateOperands (resolveProperty source x) z op = evaluateOperands (resolveProperty source x') z op" for z
      using e [OF assms(1)] l by (elim disjE exE conjE) (simp_all only: resolveProperty.simps)
    moreover have "evaluateOperands z (resolveProperty source y) op = evaluateOperands z (resolveProperty source y') op" for z
      using e [OF assms(2)] r by (elim disjE exE conjE) (simp_all only: resolveProperty.simps)
    ultimately show ?thesis by (simp only:)
  qed
  show "x = NullValue \<longleftrightarrow> x' = NullValue" using e [OF assms(1)] by auto
  show "resolveProperty source x = NullValue \<longleftrightarrow> resolveProperty source x' = NullValue" using e [OF assms(1)] by auto
qed

lemma termHolds_respects: "respectsEqual (termHolds source) ts"
  unfolding respectsEqual_def
proof (intro ballI impI)
  fix x y assume "termEqual x y"
  then have e: "tOp x = tOp y" "operandEqual (tOpn1 x) (tOpn1 y)" "operandEqual (tOpn2 x) (tOpn2 y)" by (simp_all add: termEqual_def)
  show "termHolds source x = termHolds source y"
    using evaluate_equal [OF e(2,3)] evaluate_equal(2) [OF e(3,2)] by (simp add: termHolds_def e(1))
qed

lemma predicateValue_term:
  assumes "\<forall>p \<in> set (predicateComparisons q). comparable source p"
  shows "predicateValue source q = Inr (termHolds source (predicateTerm q))"
    and "termHolds source (negateTerm (predicateTerm q)) \<noteq> termHolds source (predicateTerm q)"
proof -
  show "predicateValue source q = Inr (termHolds source (predicateTerm q))"
  proof (cases q)
    case (Comparison l c r)
    let ?x = "resolveProperty source (termOperand l)" and ?y = "resolveProperty source (termOperand r)"
    have "operandType ?x = operandType ?y \<and> (\<exists>b. evaluateOperands ?x ?y (compareOperation c) = Inr b)"
      using assms Comparison by (intro compare_total) (simp add: comparable_def)
    then show ?thesis using Comparison by (auto simp: termHolds_def termOf_def termOperand_not_null)
  qed (simp_all add: termHolds_def termOf_def)
  show "termHolds source (negateTerm (predicateTerm q)) \<noteq> termHolds source (predicateTerm q)"
  proof (cases q)
    case (Comparison l c r)
    have "comparableValues (resolveProperty source (termOperand l)) (resolveProperty source (termOperand r))"
      using assms Comparison by (simp add: comparable_def)
    from compare_negated [OF this, of c] show ?thesis
      using Comparison by (simp add: termHolds_def termOf_def negateTerm_def termOperand_not_null)
  qed (simp_all add: termHolds_def termOf_def negateTerm_def)
qed

lemma conditionValue_terms:
  "\<forall>p \<in> set (comparisons c). comparable source p \<Longrightarrow> conditionValue source c = Inr (conditionHolds (termHolds source) c)"
  by (induction c) (simp_all add: predicateValue_term)

lemma conditionTerms_negated:
  "\<forall>p \<in> set (comparisons c). comparable source p \<Longrightarrow>
    \<forall>t \<in> set (conditionTerms c). termHolds source (negateTerm t) \<noteq> termHolds source t"
  by (induction c) (auto simp: predicateValue_term)

lemma predicateTerm_op: "tOp (predicateTerm p) \<in> {WQL_EQ, WQL_NE, WQL_LT, WQL_LE, WQL_GT, WQL_GE}"
proof (cases p)
  case (Comparison l c r)
  then show ?thesis by (cases c) (simp_all add: termOf_def)
qed (simp_all add: termOf_def)

lemma conditionTerms_op: "\<forall>t \<in> set (conditionTerms c). tOp t \<in> {WQL_EQ, WQL_NE, WQL_LT, WQL_LE, WQL_GT, WQL_GE}"
  using predicateTerm_op by (induction c) (auto simp del: insert_iff)

subsection \<open>Properties\<close>

text \<open>
  C14: compiling a statement to its disjunctive normal form ends without an exception, whatever the
  condition. The distribution stops, although each rewriting makes the array longer and \<open>_gather\<close> follows
  operands that several entries share. Without a condition nothing changes; otherwise no row of the tableau is empty, and a row has
  only comparisons of the condition, as written or negated.
\<close>

theorem dnf_compiles:
  "\<exists>d. compileDnf (emitStatement sel from cond s0) newDnf = Some (Inr d) \<and>
    (case cond of
       None \<Rightarrow> d = newDnf
     | Some c \<Rightarrow> [] \<notin> set (tableau d) \<and>
         set (concat (tableau d)) \<subseteq> set (conditionTerms c) \<union> negateTerm ` set (conditionTerms c))"
proof (cases cond)
  case None
  then show ?thesis by (simp add: compileDnf_def hasWhereClause_def wql_emit)
next
  case (Some c)
  define v where "v t \<longleftrightarrow> tOp t \<in> {WQL_EQ, WQL_LT, WQL_LE}" for t :: termEl
  have "\<forall>t \<in> set (conditionTerms c). v (negateTerm t) \<noteq> v t" using conditionTerms_op by (fastforce simp: v_def negateTerm_def)
  moreover have "respectsEqual v ts" for ts by (simp add: respectsEqual_def v_def termEqual_def)
  ultimately obtain d where "compiled c v (emitStatement sel from cond s0) d" using compile_ok Some by blast
  then show ?thesis unfolding compiled_def Some by (intro exI [of _ d]) fastforce
qed

text \<open>
  C13: the tableau means what the where clause says. When each comparison of the condition has values that
  can be compared, of one type and neither null nor not a number, evaluating the where clause gives true exactly when all the comparisons of some row
  of the tableau hold.
\<close>

theorem dnf_evaluates:
  assumes "\<forall>p \<in> set (comparisons c). comparable source p"
  shows "\<exists>d b. compileDnf (emitStatement sel from (Some c) s0) newDnf = Some (Inr d) \<and>
    evaluateWhereClause source (emitStatement sel from (Some c) s0) = Inr b \<and>
    (b \<longleftrightarrow> (\<exists>row \<in> set (tableau d). \<forall>t \<in> set row. termHolds source t))"
proof -
  from compile_ok [OF conditionTerms_negated [OF assms] termHolds_respects refl] obtain d where
    "compiled c (termHolds source) (emitStatement sel from (Some c) s0) d" by blast
  then show ?thesis using conditionValue_terms [OF assms] by (auto simp: compiled_def evaluate_emitted)
qed

theorem dnf_evaluates_witness:
  "\<exists>d. compileDnf (emitStatement None (units ''C'')
      (Some (SearchAnd (SearchOr (Predicate (Comparison (PropertyTerm (units ''a'')) TOK_EQ (IntegerTerm 1))) (Predicate (IsNull (PropertyTerm (units ''b'')))))
        (SearchNot (Predicate (Comparison (PropertyTerm (units ''a'')) TOK_LT (IntegerTerm 5)))))) newStatement) newDnf = Some (Inr d) \<and>
    (\<exists>row \<in> set (tableau d). list_all (termHolds (\<lambda>p. if p = units ''a'' then Some (IntegerValue 7) else None)) row)"
proof -
  let ?c = "SearchAnd (SearchOr (Predicate (Comparison (PropertyTerm (units ''a'')) TOK_EQ (IntegerTerm 1))) (Predicate (IsNull (PropertyTerm (units ''b'')))))
        (SearchNot (Predicate (Comparison (PropertyTerm (units ''a'')) TOK_LT (IntegerTerm 5))))"
  let ?source = "\<lambda>p. if p = units ''a'' then Some (IntegerValue 7) else None"
  have "\<forall>p \<in> set (comparisons ?c). comparable ?source p" by (simp add: comparable_def)
  from dnf_evaluates [OF this, of None "units ''C''" newStatement] obtain d b where
    d: "compileDnf (emitStatement None (units ''C'') (Some ?c) newStatement) newDnf = Some (Inr d)"
      "evaluateWhereClause ?source (emitStatement None (units ''C'') (Some ?c) newStatement) = Inr b"
      "b \<longleftrightarrow> (\<exists>row \<in> set (tableau d). \<forall>t \<in> set row. termHolds ?source t)" by blast
  have ab: "units ''b'' \<noteq> units ''a''" by code_simp
  have b using d(2) ab by (simp add: evaluate_emitted compareIntegers_def)
  then show ?thesis using d(1,3) by (auto simp: list_all_iff)
qed

text \<open>
  C32: what goes wrong. Used again, an object keeps the comparisons of its last condition, and the tableau of a
  single comparison is then the first one of those. And a negated comparison of two properties without values is true where
  its row in the tableau, the opposite comparison, is false.
\<close>

theorem dnf_defects:
  "(\<exists>d d'. compileDnf (emitStatement sel from (Some (Predicate p)) s0) newDnf = Some (Inr d) \<and>
      compileDnf (emitStatement sel from (Some (Predicate q)) s0) d = Some (Inr d') \<and> tableau d' = [[predicateTerm p]]) \<and>
   (\<exists>d t. compileDnf (emitStatement sel from (Some (SearchNot (Predicate (Comparison (PropertyTerm x) TOK_EQ (PropertyTerm y))))) s0) newDnf =
        Some (Inr d) \<and> tableau d = [[t]] \<and> \<not> termHolds (\<lambda>_. None) t \<and>
      evaluateWhereClause (\<lambda>_. None)
        (emitStatement sel from (Some (SearchNot (Predicate (Comparison (PropertyTerm x) TOK_EQ (PropertyTerm y))))) s0) = Inr True)"
proof
  have single: "compileDnf (emitStatement sel from (Some (Predicate p)) s0) \<lparr>terminalHeap = ts, evalHeap = [], tableau = tr\<rparr> =
    Some (Inr \<lparr>terminalHeap = ts @ [predicateTerm p], evalHeap = [], tableau = [[(ts @ [predicateTerm p]) ! 0]]\<rparr>)" for p ts tr
  proof -
    have "buildEvalHeap (predicateOperands p) [predicateOperation p] ([], ts, [], 0) =
      Inr ([Leaf (length ts)], ts @ [predicateTerm p], [], length (predicateOperands p))"
      using buildPredicate [of "[]" p "[]" "[]" ts "[]"] by (simp del: buildOperation.simps)
    moreover have "factoring 0 0 [] = Some (Inr [])" using factoring_dead [of "[]" 0] by simp
    ultimately show ?thesis
      by (simp add: compileDnf_def hasWhereClause_def wql_emit dropTrue_dead gather_def elementAt_def addIfNotExists_def
        del: buildEvalHeap.simps buildOperation.simps)
  qed
  show "\<exists>d d'. compileDnf (emitStatement sel from (Some (Predicate p)) s0) newDnf = Some (Inr d) \<and>
      compileDnf (emitStatement sel from (Some (Predicate q)) s0) d = Some (Inr d') \<and> tableau d' = [[predicateTerm p]]"
    unfolding newDnf_def single by (simp add: single)
next
  let ?c = "SearchNot (Predicate (Comparison (PropertyTerm x) TOK_EQ (PropertyTerm y)))"
  let ?t = "termOf WQL_NE (PropertyName x) (PropertyName y)"
  have b: "buildEvalHeap (conditionOperands ?c) (conditionOperations ?c) ([], [], [], 0) =
    Inr ([Node 0], [termOf WQL_EQ (PropertyName x) (PropertyName y)], [node1 WQL_NOT (Leaf 0)], 2)"
    using buildCondition [of "[]" ?c "[]" "[]" "[]" "[]" "[]"] by simp
  have p: "pushNOTDown 1 ([node1 WQL_NOT (Leaf 0)], [termOf WQL_EQ (PropertyName x) (PropertyName y)]) =
    Inr ([node1 WQL_IS_TRUE (Leaf 0)], [?t])"
    by (simp add: pushStep_def order_def node2_def flipOperand_def elementAt_def getFirst_def stackRef_def negateTerm_def termOf_def)
  have "compileDnf (emitStatement sel from (Some ?c) s0) newDnf = Some (Inr \<lparr>terminalHeap = [?t], evalHeap = [], tableau = [[?t]]\<rparr>)"
  proof -
    let ?s = "emitStatement sel from (Some ?c) s0"
    have s: "operands ?s = conditionOperands ?c" "operations ?s = conditionOperations ?c" "hasWhereClause ?s"
      by (simp_all add: hasWhereClause_def wql_emit)
    have "factoring 0 1 [node1 WQL_IS_TRUE (Leaf 0)] = Some (Inr [node1 WQL_IS_TRUE (Leaf 0)])"
      using factoring_dead [of "[node1 WQL_IS_TRUE (Leaf 0)]" 0] by simp
    then show ?thesis unfolding compileDnf_def newDnf_def dnf.simps s b using s(3) p
      by (simp add: dropTrue_dead gather_def elementAt_def addIfNotExists_def del: pushNOTDown.simps)
  qed
  moreover have "\<not> termHolds (\<lambda>_. None) ?t" by (simp add: termHolds_def termOf_def)
  ultimately show "\<exists>d t. compileDnf (emitStatement sel from (Some ?c) s0) newDnf = Some (Inr d) \<and> tableau d = [[t]] \<and>
    \<not> termHolds (\<lambda>_. None) t \<and> evaluateWhereClause (\<lambda>_. None) (emitStatement sel from (Some ?c) s0) = Inr True"
    by (simp add: evaluate_emitted)
qed

end
