(* ===== verification/XmlText.thy ===== *)
theory XmlText
  imports CommonUtf "HOL-Library.Sublist"
begin

section \<open>Characters of XML: escaping and normalizing\<close>

text \<open>
  How text gets into XML and out of it. \<^verbatim>\<open>Common/XmlGenerator.cpp\<close> writes the characters that XML reserves as
  references; \<^verbatim>\<open>Common/XmlParser.cpp\<close> reads references and normalizes white space, in place: the text of an element
  or an attribute is moved down over the input while it is read, and ended with a NUL. The input is a
  list of bytes, the array, whose last byte is the NUL; a pointer into it is an index, and \<open>cstrAt\<close> is the C string there.
  Functions that only read take the C string. \<open>char\<close> is signed, as on most platforms.

  The lemmas show that the in-place loops compute what they would compute into a new buffer, without writing
  outside the part they have read; and that reading undoes writing.
\<close>

subsection \<open>Writing\<close>

definition specialChars :: "string list" where
  "specialChars =
  [''&#0;'', ''&#1;'', ''&#2;'', ''&#3;'', ''&#4;'', ''&#5;'', ''&#6;'', ''&#7;'', ''&#8;'', ''&#9;'',
   ''&#10;'', ''&#11;'', ''&#12;'', ''&#13;'', ''&#14;'', ''&#15;'', ''&#16;'', ''&#17;'', ''&#18;'',
   ''&#19;'', ''&#20;'', ''&#21;'', ''&#22;'', ''&#23;'', ''&#24;'', ''&#25;'', ''&#26;'', ''&#27;'',
   ''&#28;'', ''&#29;'', ''&#30;'', ''&#31;'', '' '', ''!'', ''&quot;'', ''#'', ''$'', ''%'', ''&amp;'',
   ''&apos;'', ''('', '')'', ''*'', ''+'', '','', ''-'', ''.'', ''/'', ''0'', ''1'', ''2'', ''3'', ''4'',
   ''5'', ''6'', ''7'', ''8'', ''9'', '':'', '';'', ''&lt;'', ''='', ''&gt;'', ''?'', ''@'', ''A'', ''B'',
   ''C'', ''D'', ''E'', ''F'', ''G'', ''H'', ''I'', ''J'', ''K'', ''L'', ''M'', ''N'', ''O'', ''P'', ''Q'',
   ''R'', ''S'', ''T'', ''U'', ''V'', ''W'', ''X'', ''Y'', ''Z'', ''['', [CHR 0x5C], '']'', ''^'', ''_'', [CHR 0x60],
   ''a'', ''b'', ''c'', ''d'', ''e'', ''f'', ''g'', ''h'', ''i'', ''j'', ''k'', ''l'', ''m'', ''n'', ''o'',
   ''p'', ''q'', ''r'', ''s'', ''t'', ''u'', ''v'', ''w'', ''x'', ''y'', ''z'', ''{'', ''|'', ''}'', ''~'',
   ''&#127;'']"

definition isSpecialChar7Table :: "nat list" where
  "isSpecialChar7Table =
  [1, 1, 1, 1, 1, 1, 1, 1, 1, 1, 1, 1, 1, 1, 1, 1, 1, 1, 1, 1, 1, 1, 1, 1, 1, 1, 1, 1, 1, 1, 1, 1,
   0, 0, 1, 0, 0, 0, 1, 1, 0, 0, 0, 0, 0, 0, 0, 0, 0, 0, 0, 0, 0, 0, 0, 0, 0, 0, 0, 0, 1, 0, 1, 0,
   0, 0, 0, 0, 0, 0, 0, 0, 0, 0, 0, 0, 0, 0, 0, 0, 0, 0, 0, 0, 0, 0, 0, 0, 0, 0, 0, 0, 0, 0, 0, 0,
   0, 0, 0, 0, 0, 0, 0, 0, 0, 0, 0, 0, 0, 0, 0, 0, 0, 0, 0, 0, 0, 0, 0, 0, 0, 0, 0, 0, 0, 0, 0, 1,
   0, 0, 0, 0, 0, 0, 0, 0, 0, 0, 0, 0, 0, 0, 0, 0, 0, 0, 0, 0, 0, 0, 0, 0, 0, 0, 0, 0, 0, 0, 0, 0,
   0, 0, 0, 0, 0, 0, 0, 0, 0, 0, 0, 0, 0, 0, 0, 0, 0, 0, 0, 0, 0, 0, 0, 0, 0, 0, 0, 0, 0, 0, 0, 0,
   0, 0, 0, 0, 0, 0, 0, 0, 0, 0, 0, 0, 0, 0, 0, 0, 0, 0, 0, 0, 0, 0, 0, 0, 0, 0, 0, 0, 0, 0, 0, 0,
   0, 0, 0, 0, 0, 0, 0, 0, 0, 0, 0, 0, 0, 0, 0, 0, 0, 0, 0, 0, 0, 0, 0, 0, 0, 0, 0, 0, 0, 0, 0, 0]"

definition isNormalChar7Table :: "nat list" where
  "isNormalChar7Table =
  [0, 0, 0, 0, 0, 0, 0, 0, 0, 0, 0, 0, 0, 0, 0, 0, 0, 0, 0, 0, 0, 0, 0, 0, 0, 0, 0, 0, 0, 0, 0, 0,
   1, 1, 0, 1, 1, 1, 0, 0, 1, 1, 1, 1, 1, 1, 1, 1, 1, 1, 1, 1, 1, 1, 1, 1, 1, 1, 1, 1, 0, 1, 0, 1,
   1, 1, 1, 1, 1, 1, 1, 1, 1, 1, 1, 1, 1, 1, 1, 1, 1, 1, 1, 1, 1, 1, 1, 1, 1, 1, 1, 1, 1, 1, 1, 1,
   1, 1, 1, 1, 1, 1, 1, 1, 1, 1, 1, 1, 1, 1, 1, 1, 1, 1, 1, 1, 1, 1, 1, 1, 1, 1, 1, 1, 1, 1, 1, 0,
   1, 1, 1, 1, 1, 1, 1, 1, 1, 1, 1, 1, 1, 1, 1, 1, 1, 1, 1, 1, 1, 1, 1, 1, 1, 1, 1, 1, 1, 1, 1, 1,
   1, 1, 1, 1, 1, 1, 1, 1, 1, 1, 1, 1, 1, 1, 1, 1, 1, 1, 1, 1, 1, 1, 1, 1, 1, 1, 1, 1, 1, 1, 1, 1,
   1, 1, 1, 1, 1, 1, 1, 1, 1, 1, 1, 1, 1, 1, 1, 1, 1, 1, 1, 1, 1, 1, 1, 1, 1, 1, 1, 1, 1, 1, 1, 1,
   1, 1, 1, 1, 1, 1, 1, 1, 1, 1, 1, 1, 1, 1, 1, 1, 1, 1, 1, 1, 1, 1, 1, 1, 1, 1, 1, 1, 1, 1, 1, 1]"

text \<open>The bytes written for one byte.\<close>

definition specialChar7 :: "u8 \<Rightarrow> u8 list" where
  "specialChar7 c = (if isSpecialChar7Table ! unat c \<noteq> 0 then bytes (specialChars ! unat c) else [c])"

text \<open>\<open>_appendSpecialChar7\<close> takes a \<open>char\<close>; a negative one is an index before the table.\<close>

definition appendSpecialChar7 :: "u8 list \<Rightarrow> u8 \<Rightarrow> (unit, u8 list) outcome" where
  "appendSpecialChar7 out c = (if c \<ge> 128 then Undefined else Done (out @ specialChar7 c))"

fun appendSpecialCString :: "u8 list \<Rightarrow> cstr \<Rightarrow> (unit, u8 list) outcome" where
  "appendSpecialCString out [] = Done out"
| "appendSpecialCString out (c # str) = bindO (appendSpecialChar7 out c) (\<lambda>out'. appendSpecialCString out' str)"

text \<open>The conversion of one unit, or of two, into a buffer of six bytes that was cleared.\<close>

definition utf8Buffer :: "u16 list \<Rightarrow> u8 list" where
  "utf8Buffer us = (case UTF16toUTF8 us 0 5 [] of (_, _, str) \<Rightarrow> str @ replicate (6 - length str) 0)"

definition xmlAppendChar :: "u8 list \<Rightarrow> u16 \<Rightarrow> u8 list" where
  "xmlAppendChar out c = out @ take (trailBytes (cur (utf8Buffer [c])) + 1) (utf8Buffer [c])"

definition appendSurrogatePair :: "u8 list \<Rightarrow> u16 \<Rightarrow> u16 \<Rightarrow> u8 list" where
  "appendSurrogatePair out high low = out @ take (trailBytes (cur (utf8Buffer [high, low])) + 1) (utf8Buffer [high, low])"

definition surrogateUnit :: "u16 \<Rightarrow> bool" where
  "surrogateUnit c \<longleftrightarrow> (c \<ge> 0xD800 \<and> c \<le> 0xDBFF) \<or> (c \<ge> 0xDC00 \<and> c \<le> 0xDFFF)"

text \<open>The loop over the units of a \<open>String\<close>, up to a NUL; the flag is \<open>prevCharIsSpace\<close>.\<close>

function specialLoop :: "u8 list \<Rightarrow> pstr \<Rightarrow> bool \<Rightarrow> u8 list \<times> bool" where
  "specialLoop out p prevCharIsSpace =
    (let c = cur p; q = tl p in
     if c = 0 then (out, prevCharIsSpace)
     else if c < 128 then
       (if isSpecialChar7Table ! unat c \<noteq> 0 then specialLoop (out @ bytes (specialChars ! unat c)) q False
        else if prevCharIsSpace \<and> c = 32 then specialLoop (out @ bytes ''&#32;'') q False
        else specialLoop (out @ [ucast c]) q (c = 32))
     else if surrogateUnit c \<and> cur q \<noteq> 0 then specialLoop (appendSurrogatePair out c (cur q)) (tl q) False
     else specialLoop (xmlAppendChar out c) q False)"
  by pat_completeness auto
termination
proof (relation "measure (\<lambda>(out, p, b). length p)", goal_cases)
qed (auto simp: Let_def cur_def split: list.splits)

declare specialLoop.simps [simp del]

definition appendSpecialString :: "u8 list \<Rightarrow> pstr \<Rightarrow> u8 list" where
  "appendSpecialString out str =
    (let (out1, p) = (if cur str = 32 then (out @ bytes ''&#32;'', tl str) else (out, str));
         (out2, prevCharIsSpace) = specialLoop out1 p False
     in if prevCharIsSpace then butlast out2 @ bytes ''&#32;'' else out2)"

text \<open>The text of \<open>size\<close> bytes: a prefix without special characters, then blocks of eight, blocks of four and the rest.\<close>

function normalFours :: "u8 list \<Rightarrow> u8 list \<times> u8 list" where
  "normalFours p =
    (if length p \<ge> 4 \<and> isNormalChar7Table ! unat (p ! 0) \<noteq> 0 \<and> isNormalChar7Table ! unat (p ! 1) \<noteq> 0 \<and>
        isNormalChar7Table ! unat (p ! 2) \<noteq> 0 \<and> isNormalChar7Table ! unat (p ! 3) \<noteq> 0
     then (let (a, r) = normalFours (drop 4 p) in (take 4 p @ a, r))
     else ([], p))"
  by pat_completeness auto
termination by (relation "measure length") auto

declare normalFours.simps [simp del]

function specialEights :: "u8 list \<Rightarrow> u8 list \<Rightarrow> u8 list \<times> u8 list" where
  "specialEights out str =
    (if length str \<ge> 8
     then specialEights (out @ specialChar7 (str ! 0) @ specialChar7 (str ! 1) @ specialChar7 (str ! 2) @ specialChar7 (str ! 3) @
            specialChar7 (str ! 4) @ specialChar7 (str ! 5) @ specialChar7 (str ! 6) @ specialChar7 (str ! 7)) (drop 8 str)
     else (out, str))"
  by pat_completeness auto
termination by (relation "measure (\<lambda>(out, str). length str)") auto

declare specialEights.simps [simp del]

function specialFours :: "u8 list \<Rightarrow> u8 list \<Rightarrow> u8 list \<times> u8 list" where
  "specialFours out str =
    (if length str \<ge> 4
     then specialFours (out @ specialChar7 (str ! 0) @ specialChar7 (str ! 1) @ specialChar7 (str ! 2) @ specialChar7 (str ! 3)) (drop 4 str)
     else (out, str))"
  by pat_completeness auto
termination by (relation "measure (\<lambda>(out, str). length str)") auto

declare specialFours.simps [simp del]

fun specialRest :: "u8 list \<Rightarrow> u8 list \<Rightarrow> u8 list" where
  "specialRest out [] = out"
| "specialRest out (c # str) = specialRest (out @ specialChar7 c) str"

definition appendSpecialSized :: "u8 list \<Rightarrow> u8 list \<Rightarrow> u8 list" where
  "appendSpecialSized out str =
    (let (a, r) = normalFours str;
         (out1, r1) = specialEights (out @ a) r;
         (out2, r2) = specialFours out1 r1
     in specialRest out2 r2)"

subsection \<open>References\<close>

datatype xmlCode =
    BAD_START_TAG | BAD_END_TAG | BAD_ATTRIBUTE_NAME | EXPECTED_EQUAL_SIGN | BAD_ATTRIBUTE_VALUE
  | MINUS_MINUS_IN_COMMENT | UNTERMINATED_COMMENT | UNTERMINATED_CDATA | UNTERMINATED_DOCTYPE | MALFORMED_REFERENCE
  | EXPECTED_COMMENT_OR_CDATA | START_END_MISMATCH | UNCLOSED_TAGS | MULTIPLE_ROOTS | VALIDATION_ERROR
  | SEMANTIC_ERROR | UNDECLARED_NAMESPACE

datatype xmlError = XmlException xmlCode u32

definition xmlSpace :: "u8 \<Rightarrow> bool" where
  "xmlSpace c = isXmlWhiteSpace c"

text \<open>White space is skipped, and lines are counted.\<close>

fun skipWhitespace :: "u32 \<Rightarrow> cstr \<Rightarrow> u32 \<times> cstr" where
  "skipWhitespace line [] = (line, [])"
| "skipWhitespace line (c # p) =
    (if c \<noteq> 0 \<and> xmlSpace c then skipWhitespace (if c = 10 then line + 1 else line) p else (line, c # p))"

definition getEntityRef :: "cstr \<Rightarrow> (u8 \<times> cstr) option" where
  "getEntityRef p =
    (if peek p 0 = chr8 CHR ''g'' \<and> peek p 1 = chr8 CHR ''t'' \<and> peek p 2 = chr8 CHR '';'' then Some (chr8 CHR ''>'', drop 3 p)
     else if peek p 0 = chr8 CHR ''l'' \<and> peek p 1 = chr8 CHR ''t'' \<and> peek p 2 = chr8 CHR '';'' then Some (chr8 CHR ''<'', drop 3 p)
     else if peek p 0 = chr8 CHR ''a'' \<and> peek p 1 = chr8 CHR ''p'' \<and> peek p 2 = chr8 CHR ''o'' \<and> peek p 3 = chr8 CHR ''s'' \<and>
       peek p 4 = chr8 CHR '';'' then Some (39, drop 5 p)
     else if peek p 0 = chr8 CHR ''q'' \<and> peek p 1 = chr8 CHR ''u'' \<and> peek p 2 = chr8 CHR ''o'' \<and> peek p 3 = chr8 CHR ''t'' \<and>
       peek p 4 = chr8 CHR '';'' then Some (34, drop 5 p)
     else if peek p 0 = chr8 CHR ''a'' \<and> peek p 1 = chr8 CHR ''m'' \<and> peek p 2 = chr8 CHR ''p'' \<and> peek p 3 = chr8 CHR '';''
       then Some (chr8 CHR ''&'', drop 4 p)
     else None)"

text \<open>\<open>strtoul\<close> of the C library: white space, a sign, for base 16 a prefix, and the digits; without digits nothing is read.\<close>

definition digitOf :: "u8 \<Rightarrow> nat" where
  "digitOf c = (if isdigit c then unat c - 48 else if c \<ge> 97 then unat c - 87 else unat c - 55)"

definition isDigitOf :: "nat \<Rightarrow> u8 \<Rightarrow> bool" where
  "isDigitOf base c \<longleftrightarrow> (if base = 16 then isxdigit c else isdigit c)"

definition strtoulStart :: "nat \<Rightarrow> cstr \<Rightarrow> bool \<times> cstr" where
  "strtoulStart base p =
    (let p1 = dropWhile (\<lambda>c. 9 \<le> c \<and> c \<le> 13 \<or> c = 32) p;
         negative = (peek p1 0 = chr8 CHR ''-'');
         p2 = (if negative \<or> peek p1 0 = chr8 CHR ''+'' then drop 1 p1 else p1)
     in (negative,
         if base = 16 \<and> peek p2 0 = 48 \<and> (peek p2 1 = chr8 CHR ''x'' \<or> peek p2 1 = chr8 CHR ''X'') \<and> isxdigit (peek p2 2)
         then drop 2 p2 else p2))"

definition strtoul :: "nat \<Rightarrow> cstr \<Rightarrow> nat \<times> cstr" where
  "strtoul base p =
    (case strtoulStart base p of (negative, p3) \<Rightarrow>
       let digits = takeWhile (isDigitOf base) p3;
           v = foldl (\<lambda>v c. v * base + digitOf c) 0 digits
       in if digits = [] then (0, p)
          else (if v \<ge> 2 ^ 64 then 2 ^ 64 - 1 else if negative then (2 ^ 64 - v) mod 2 ^ 64 else v, drop (length digits) p3))"

definition getCharRef :: "cstr \<Rightarrow> (u8 \<times> cstr) option" where
  "getCharRef p0 =
    (let hex = (peek p0 0 = chr8 CHR ''x'');
         p = (if hex then drop 1 p0 else p0);
         (ch, end') = strtoul (if hex then 16 else 10) p;
         n = length p - length end'
     in if n = 0 \<or> peek end' 0 \<noteq> chr8 CHR '';'' \<or> ch > 255 then None
        else if hex \<and> n > 4 \<or> \<not> hex \<and> n > 5 then None
        else Some (of_nat ch, drop 1 end'))"

definition getRef :: "u32 \<Rightarrow> cstr \<Rightarrow> xmlError + u8 \<times> cstr" where
  "getRef line p =
    (case (if peek p 0 = chr8 CHR ''#'' then getCharRef (drop 1 p) else getEntityRef p) of
       None \<Rightarrow> Inl (XmlException MALFORMED_REFERENCE line)
     | Some r \<Rightarrow> Inr r)"

subsection \<open>Normalizing in place\<close>

definition cstrAt :: "u8 list \<Rightarrow> nat \<Rightarrow> cstr" where
  "cstrAt b p = takeWhile (\<lambda>c. c \<noteq> 0) (drop p b)"

lemma skipWhitespace_length: "skipWhitespace line p = (l, r) \<Longrightarrow> length r \<le> length p"
  by (induction line p rule: skipWhitespace.induct) (auto split: if_splits simp: le_SucI)

lemma if_drop_length: "length (if P then drop n x else x) \<le> length x"
  by simp

lemma strtoulStart_length: "length (snd (strtoulStart base p)) \<le> length p"
  unfolding strtoulStart_def Let_def snd_conv by (rule le_trans [OF if_drop_length le_trans [OF if_drop_length length_dropWhile_le]])

lemma strtoul_length: "strtoul base p = (v, r) \<Longrightarrow> length r \<le> length p"
  using strtoulStart_length [of base p] by (cases "strtoulStart base p") (auto simp: strtoul_def Let_def split: if_splits)

lemma getEntityRef_length:
  assumes "getEntityRef p = Some (ch, r)"
  shows "length r < length p"
proof -
  have "p \<noteq> []" using assms by (auto simp: getEntityRef_def)
  moreover have "r \<in> {drop 3 p, drop 4 p, drop 5 p}" using assms by (auto simp: getEntityRef_def split: if_splits)
  ultimately show ?thesis by (cases p) auto
qed

lemma getCharRef_length:
  assumes g: "getCharRef q = Some (ch, r)"
  shows "length r < length q"
proof -
  let ?hex = "peek q 0 = chr8 CHR ''x''"
  let ?p = "if ?hex then drop 1 q else q"
  obtain v e where s: "strtoul (if ?hex then 16 else 10) ?p = (v, e)" by fastforce
  then have l: "length e \<le> length ?p" by (rule strtoul_length)
  have "length ?p - length e \<noteq> 0" "r = drop 1 e" using g unfolding getCharRef_def Let_def s by (simp_all split: if_splits)
  moreover have "length ?p \<le> length q" by simp
  ultimately show ?thesis using l by simp
qed

lemma getRef_length:
  assumes "getRef line p = Inr (ch, r)"
  shows "length r < length p"
proof (cases "peek p 0 = chr8 CHR ''#''")
  case True
  then have "getCharRef (drop 1 p) = Some (ch, r)" using assms by (simp add: getRef_def split: option.splits)
  from getCharRef_length [OF this] show ?thesis by simp
next
  case False
  then have "getEntityRef p = Some (ch, r)" using assms by (simp add: getRef_def split: option.splits)
  then show ?thesis by (rule getEntityRef_length)
qed

text \<open>The loop \<open>while (i < p) *q++ = *i++\<close>, for \<open>n\<close> bytes.\<close>

fun copyDown :: "u8 list \<Rightarrow> nat \<Rightarrow> nat \<Rightarrow> nat \<Rightarrow> u8 list" where
  "copyDown b i q 0 = b"
| "copyDown b i q (Suc n) = copyDown (b[q := b ! i]) (i + 1) (q + 1) n"

lemma copyDown_length [simp]: "length (copyDown b i q n) = length b"
  by (induction n arbitrary: b i q) simp_all

lemma consumed: "r < l \<Longrightarrow> l \<le> n - p \<Longrightarrow> n - (p + (l - r)) < n - p" for n :: nat
  by linarith

lemma cstrAt_length: "length (cstrAt b p) \<le> length b - p"
  using length_takeWhile_le [of "\<lambda>c. c \<noteq> 0" "drop p b"] by (simp add: cstrAt_def)

lemma bindE_cong [fundef_cong]:
  "m = m' \<Longrightarrow> (\<And>x. m' = Inr x \<Longrightarrow> f x = g x) \<Longrightarrow> bindE m f = bindE m' g"
  by (cases m') auto

function normalizeElement :: "u8 list \<Rightarrow> u32 \<Rightarrow> nat \<Rightarrow> nat \<Rightarrow> xmlError + u8 list \<times> u32 \<times> nat \<times> nat" where
  "normalizeElement b line p q =
    (let s = cstrAt b p in
     if s = [] \<or> hd s = chr8 CHR ''<'' then Inr (b, line, p, q)
     else if xmlSpace (hd s) then
       (case skipWhitespace (if hd s = 10 then line + 1 else line) (tl s) of (line', r) \<Rightarrow>
          let p' = p + (length s - length r) in
          if r \<noteq> [] \<and> hd r \<noteq> chr8 CHR ''<'' then normalizeElement (copyDown b p q (p' - p)) line' p' (q + (p' - p))
          else Inr (b, line', p', q))
     else if hd s = chr8 CHR ''&'' then
       bindE (getRef line (tl s)) (\<lambda>(ch, r). normalizeElement (b[q := ch]) line (p + (length s - length r)) (q + 1))
     else normalizeElement (b[q := hd s]) line (p + 1) (q + 1))"
  by pat_completeness auto
termination
proof (relation "measure (\<lambda>(b, line, p, q). length b - p)", goal_cases)
  case (2 b line p q s l r p')
  then have "length r \<le> length (tl s)" using skipWhitespace_length by metis
  moreover have "0 < length s" using 2 by simp
  ultimately have "length r < length s" by (cases s) simp_all
  moreover have "length s \<le> length b - p" using 2 cstrAt_length by simp
  ultimately show ?case using 2 consumed by simp
next
  case (3 b line p q s x ch r)
  then have "length r < length (tl s)" using getRef_length by metis
  then have "length r < length s" by simp
  moreover have "length s \<le> length b - p" using 3 cstrAt_length by simp
  ultimately show ?case using consumed by simp
next
  case (4 b line p q s)
  then have "s \<noteq> []" "length s \<le> length b - p" using cstrAt_length by auto
  then show ?case by (cases s) simp_all
qed simp

declare normalizeElement.simps [simp del]

text \<open>The whole of \<open>_normalizeElementValue\<close>: the array, the line, the pointer behind, and the length.\<close>

definition normalizeElementValue :: "u8 list \<Rightarrow> u32 \<Rightarrow> nat \<Rightarrow> xmlError + u8 list \<times> u32 \<times> nat \<times> nat" where
  "normalizeElementValue b line p =
    bindE (normalizeElement b line p p) (\<lambda>(b', line', p', q).
      Inr (if q \<noteq> p' then b'[q := 0] else b', line', p', q - p))"

function normalizeAttribute :: "u8 \<Rightarrow> u8 list \<Rightarrow> u32 \<Rightarrow> nat \<Rightarrow> nat \<Rightarrow> xmlError + u8 list \<times> u32 \<times> nat \<times> nat" where
  "normalizeAttribute endChar b line p q =
    (let s = cstrAt b p in
     if s = [] \<or> hd s = endChar then Inr (b, line, p, q)
     else if xmlSpace (hd s) then
       (case skipWhitespace (if hd s = 10 then line + 1 else line) (tl s) of (line', r) \<Rightarrow>
          normalizeAttribute endChar (b[q := 32]) line' (p + (length s - length r)) (q + 1))
     else if hd s = chr8 CHR ''&'' then
       bindE (getRef line (tl s)) (\<lambda>(ch, r). normalizeAttribute endChar (b[q := ch]) line (p + (length s - length r)) (q + 1))
     else normalizeAttribute endChar (b[q := hd s]) line (p + 1) (q + 1))"
  by pat_completeness auto
termination
proof (relation "measure (\<lambda>(e, b, line, p, q). length b - p)", goal_cases)
  case (2 e b line p q s l r)
  then have "length r \<le> length (tl s)" using skipWhitespace_length by metis
  moreover have "0 < length s" using 2 by simp
  ultimately have "length r < length s" by (cases s) simp_all
  moreover have "length s \<le> length b - p" using 2 cstrAt_length by simp
  ultimately show ?case using consumed by simp
next
  case (3 e b line p q s x ch r)
  then have "length r < length (tl s)" using getRef_length by metis
  then have "length r < length s" by simp
  moreover have "length s \<le> length b - p" using 3 cstrAt_length by simp
  ultimately show ?case using consumed by simp
next
  case (4 e b line p q s)
  then have "s \<noteq> []" "length s \<le> length b - p" using cstrAt_length by auto
  then show ?case by (cases s) simp_all
qed simp

declare normalizeAttribute.simps [simp del]

text \<open>
  The whole of \<open>_normalizeAttributeValue\<close>: the array, the line, the pointer at the end character or the NUL, and the start of the value.
  The white space before the end is seen in the input, at \<open>p[-1]\<close>.
\<close>

definition normalizeAttributeValue :: "u8 list \<Rightarrow> u32 \<Rightarrow> nat \<Rightarrow> u8 \<Rightarrow> xmlError + u8 list \<times> u32 \<times> nat \<times> nat" where
  "normalizeAttributeValue b line p endChar =
    (case skipWhitespace line (cstrAt b p) of (line1, r) \<Rightarrow>
       let start = p + (length (cstrAt b p) - length r) in
       bindE (normalizeAttribute endChar b line1 start start) (\<lambda>(b', line', p', q).
         let adjust = (p' \<noteq> start \<and> xmlSpace (b' ! (p' - 1)));
             b2 = b'[q := b' ! p'];
             q2 = (if adjust then q - 1 else q)
         in Inr (if q2 \<noteq> p' then b2[q2 := 0] else b2, line', p', start)))"

section \<open>What the loops compute\<close>

subsection \<open>Suffixes\<close>

lemma skipWhitespace_suffix: "skipWhitespace line p = (l, r) \<Longrightarrow> suffix r p"
  by (induction line p rule: skipWhitespace.induct) (auto split: if_splits simp: suffix_Cons)

lemma if_drop_suffix: "suffix (if P then drop m x else x) x"
  by (simp add: suffix_drop)

lemma strtoulStart_suffix: "suffix (snd (strtoulStart base p)) p"
  unfolding strtoulStart_def Let_def snd_conv
  by (rule suffix_order.trans [OF if_drop_suffix suffix_order.trans [OF if_drop_suffix suffix_dropWhile]])

lemma strtoul_suffix: "strtoul base p = (v, r) \<Longrightarrow> suffix r p"
  using strtoulStart_suffix [of base p]
  by (cases "strtoulStart base p") (auto simp: strtoul_def Let_def split: if_splits intro: suffix_order.trans suffix_drop)

lemma getCharRef_suffix:
  assumes "getCharRef p = Some (ch, r)"
  shows "suffix r p"
proof -
  let ?hex = "peek p 0 = chr8 CHR ''x''"
  let ?q = "if ?hex then drop 1 p else p"
  obtain v e where s: "strtoul (if ?hex then 16 else 10) ?q = (v, e)" by fastforce
  have "r = drop 1 e" using assms unfolding getCharRef_def Let_def s by (simp split: if_splits)
  then show ?thesis using strtoul_suffix [OF s] if_drop_suffix [of ?hex 1 p] suffix_drop [of 1 e] by (metis suffix_order.trans)
qed

lemma getRef_suffix:
  assumes "getRef line p = Inr (ch, r)"
  shows "suffix r p"
proof (cases "peek p 0 = chr8 CHR ''#''")
  case True
  then have "getCharRef (drop 1 p) = Some (ch, r)" using assms by (simp add: getRef_def split: option.splits)
  from getCharRef_suffix [OF this] show ?thesis using suffix_drop suffix_order.trans by blast
next
  case False
  then have "getEntityRef p = Some (ch, r)" using assms by (simp add: getRef_def split: option.splits)
  then have "r \<in> {drop 3 p, drop 4 p, drop 5 p}" by (auto simp: getEntityRef_def split: if_splits)
  then show ?thesis using suffix_drop by auto
qed

lemma suffix_tl: "suffix r (tl s) \<Longrightarrow> s \<noteq> [] \<Longrightarrow> suffix r s \<and> length r < length s"
  by (cases s) (auto simp: suffix_Cons dest: suffix_length_le)

subsection \<open>Writing behind the reader\<close>

definition put :: "nat \<Rightarrow> 'a list \<Rightarrow> 'a list \<Rightarrow> 'a list" where
  "put q v b = take q b @ v @ drop (q + length v) b"

lemma put_Nil [simp]: "put q [] b = b"
  by (simp add: put_def)

lemma put_length [simp]: "q + length v \<le> length b \<Longrightarrow> length (put q v b) = length b"
  by (simp add: put_def)

lemma put_single: "q < length b \<Longrightarrow> b[q := x] = put q [x] b"
  by (simp add: put_def upd_conv_take_nth_drop)

lemma put_put:
  "q + length v + length w \<le> length b \<Longrightarrow> put (q + length v) w (put q v b) = put q (v @ w) b"
  by (simp add: put_def ac_simps)

lemma put_drop: "q + length v \<le> p \<Longrightarrow> p \<le> length b \<Longrightarrow> drop p (put q v b) = drop p b"
  by (simp add: put_def)

lemma cstrAt_put: "q + length v \<le> p \<Longrightarrow> p \<le> length b \<Longrightarrow> cstrAt (put q v b) p = cstrAt b p"
  by (simp add: cstrAt_def put_drop)

lemma cstrAt_split: "\<exists>w. drop p b = cstrAt b p @ w \<and> takeWhile (\<lambda>c. c \<noteq> 0) w = []"
proof (intro exI conjI)
  show "drop p b = cstrAt b p @ dropWhile (\<lambda>c. c \<noteq> 0) (drop p b)" by (simp add: cstrAt_def)
  show "takeWhile (\<lambda>c. c \<noteq> 0) (dropWhile (\<lambda>c. c \<noteq> 0) (drop p b)) = []"
    by (metis hd_dropWhile takeWhile_eq_Nil_iff)
qed

lemma cstrAt_nul_free: "0 \<notin> set (cstrAt b p)"
  by (auto simp: cstrAt_def dest: set_takeWhileD)

lemma cstrAt_suffix:
  assumes "suffix r (cstrAt b p)"
  shows "cstrAt b (p + (length (cstrAt b p) - length r)) = r"
proof -
  obtain a where a: "cstrAt b p = a @ r" using assms by (auto simp: suffix_def)
  obtain w where w: "drop p b = cstrAt b p @ w" "takeWhile (\<lambda>c. c \<noteq> 0) w = []" using cstrAt_split by blast
  have "drop (p + length a) b = drop (length a) (drop p b)" by (simp add: add.commute)
  also have "\<dots> = r @ w" by (simp add: w(1) a)
  finally have "cstrAt b (p + length a) = takeWhile (\<lambda>c. c \<noteq> 0) (r @ w)" by (simp add: cstrAt_def)
  also have "\<dots> = r"
  proof -
    have "0 \<notin> set r" using cstrAt_nul_free [of b p] a by simp
    then have "\<And>x. x \<in> set r \<Longrightarrow> x \<noteq> 0" by metis
    then show ?thesis by (subst takeWhile_append2) (simp_all add: w(2))
  qed
  finally show ?thesis by (simp add: a)
qed

lemma cstrAt_bound: "p \<le> length b \<Longrightarrow> p + length (cstrAt b p) \<le> length b"
  using cstrAt_length [of b p] by simp

lemma cstrAt_take: "k \<le> length (cstrAt b p) \<Longrightarrow> take k (drop p b) = take k (cstrAt b p)"
  using cstrAt_split [of p b] by auto

lemma copyDown_put:
  "q \<le> p \<Longrightarrow> p + n \<le> length b \<Longrightarrow> copyDown b p q n = put q (take n (drop p b)) b"
proof (induction n arbitrary: b p q)
  case (Suc n)
  let ?b = "put q [b ! p] b"
  have "copyDown b p q (Suc n) = copyDown ?b (p + 1) (q + 1) n" using Suc.prems by (simp add: put_single)
  also have "\<dots> = put (q + 1) (take n (drop (p + 1) ?b)) ?b" using Suc.prems by (intro Suc.IH) simp_all
  also have "drop (p + 1) ?b = drop (p + 1) b" using Suc.prems by (intro put_drop) simp_all
  also have "put (q + 1) (take n (drop (p + 1) b)) ?b = put q ([b ! p] @ take n (drop (p + 1) b)) b"
    using put_put [of q "[b ! p]" "take n (drop (p + 1) b)" b] Suc.prems by simp
  also have "[b ! p] @ take n (drop (p + 1) b) = take (Suc n) (drop p b)"
    using Suc.prems by (simp add: Cons_nth_drop_Suc [symmetric])
  finally show ?case .
qed simp

subsection \<open>The values, as new lists\<close>

text \<open>One round of a loop stops, throws, or writes some bytes and goes on.\<close>

datatype action = Stop u32 cstr | Fail xmlError | Write "u8 list" u32 cstr

definition elementStep :: "u32 \<Rightarrow> cstr \<Rightarrow> action" where
  "elementStep line s =
    (if s = [] \<or> hd s = chr8 CHR ''<'' then Stop line s
     else if xmlSpace (hd s) then
       (case skipWhitespace (if hd s = 10 then line + 1 else line) (tl s) of (l, r) \<Rightarrow>
          if r \<noteq> [] \<and> hd r \<noteq> chr8 CHR ''<'' then Write (take (length s - length r) s) l r else Stop l r)
     else if hd s = chr8 CHR ''&'' then
       (case getRef line (tl s) of Inl e \<Rightarrow> Fail e | Inr (ch, r) \<Rightarrow> Write [ch] line r)
     else Write [hd s] line (tl s))"

definition attributeStep :: "u8 \<Rightarrow> u32 \<Rightarrow> cstr \<Rightarrow> action" where
  "attributeStep endChar line s =
    (if s = [] \<or> hd s = endChar then Stop line s
     else if xmlSpace (hd s) then
       (case skipWhitespace (if hd s = 10 then line + 1 else line) (tl s) of (l, r) \<Rightarrow> Write [32] l r)
     else if hd s = chr8 CHR ''&'' then
       (case getRef line (tl s) of Inl e \<Rightarrow> Fail e | Inr (ch, r) \<Rightarrow> Write [ch] line r)
     else Write [hd s] line (tl s))"

text \<open>The value, the line, and what is left of the input.\<close>

type_synonym textResult = "xmlError + u8 list \<times> u32 \<times> cstr"

definition prefixed :: "u8 list \<Rightarrow> textResult \<Rightarrow> textResult" where
  "prefixed w res = bindE res (\<lambda>(v, l, r). Inr (w @ v, l, r))"

lemma prefixed_cong [fundef_cong]: "w = w' \<Longrightarrow> res = res' \<Longrightarrow> prefixed w res = prefixed w' res'"
  by simp

definition goodStep :: "cstr \<Rightarrow> action \<Rightarrow> bool" where
  "goodStep s a \<longleftrightarrow>
    (case a of
       Stop l r \<Rightarrow> suffix r s
     | Fail e \<Rightarrow> True
     | Write w l r \<Rightarrow> suffix r s \<and> length r < length s \<and> length w + length r \<le> length s)"

lemma goodStep_Write:
  "goodStep s (Write w l r) \<longleftrightarrow> suffix r s \<and> length r < length s \<and> length w + length r \<le> length s"
  by (simp add: goodStep_def)

lemma goodStep_simps: "goodStep s (Stop l r) \<longleftrightarrow> suffix r s" "goodStep s (Fail e)"
  by (simp_all add: goodStep_def)

lemma skipped: "skipWhitespace n p = (l, r) \<Longrightarrow> suffix r (c # p) \<and> length r \<le> length p"
  using skipWhitespace_suffix [of n p l r] skipWhitespace_length [of n p l r] by (auto simp: suffix_Cons)

lemma referred: "getRef line p = Inr (ch, r) \<Longrightarrow> suffix r (c # p) \<and> length r < length p"
  using getRef_suffix [of line p ch r] getRef_length [of line p ch r] by (auto simp: suffix_Cons)

lemma refStep_good:
  "goodStep (c # p) (case getRef line p of Inl e \<Rightarrow> Fail e | Inr (ch, r) \<Rightarrow> Write [ch] line r)"
proof (cases "getRef line p")
  case (Inr x)
  then obtain ch r where x: "getRef line p = Inr (ch, r)" by (cases x) auto
  show ?thesis using referred [OF x, of c] by (simp add: x goodStep_Write)
qed (simp add: goodStep_simps)

lemma elementStep_good: "goodStep s (elementStep line s)"
proof (cases s)
  case (Cons c p)
  obtain l r where w: "skipWhitespace (if c = 10 then line + 1 else line) p = (l, r)" by fastforce
  note s = skipped [OF w, of c]
  have "goodStep (c # p) (if r \<noteq> [] \<and> hd r \<noteq> chr8 CHR ''<'' then Write (take (length (c # p) - length r) (c # p)) l r else Stop l r)"
  proof (cases "r \<noteq> [] \<and> hd r \<noteq> chr8 CHR ''<''")
    case True
    have "length (take (length (c # p) - length r) (c # p)) + length r \<le> length (c # p)" unfolding length_take using s by simp
    then show ?thesis unfolding if_P [OF True] goodStep_Write using s by simp
  next
    case False
    show ?thesis unfolding if_not_P [OF False] goodStep_simps using s by simp
  qed
  moreover have "goodStep (c # p) (Write [c] line p)" by (simp add: goodStep_Write suffix_ConsI)
  ultimately show ?thesis unfolding elementStep_def Cons list.sel w prod.case using refStep_good [of c p line] by (auto simp: goodStep_simps)
qed (simp add: elementStep_def goodStep_simps)

lemma attributeStep_good: "goodStep s (attributeStep e line s)"
proof (cases s)
  case (Cons c p)
  obtain l r where w: "skipWhitespace (if c = 10 then line + 1 else line) p = (l, r)" by fastforce
  have "goodStep (c # p) (Write [32] l r)" using skipped [OF w, of c] by (simp add: goodStep_Write)
  moreover have "goodStep (c # p) (Write [c] line p)" by (simp add: goodStep_Write suffix_ConsI)
  ultimately show ?thesis unfolding attributeStep_def Cons list.sel w prod.case using refStep_good [of c p line] by (auto simp: goodStep_simps)
qed (simp add: attributeStep_def goodStep_simps)

function elementText :: "u32 \<Rightarrow> cstr \<Rightarrow> textResult" where
  "elementText line s =
    (case elementStep line s of Stop l r \<Rightarrow> Inr ([], l, r) | Fail e \<Rightarrow> Inl e | Write w l r \<Rightarrow> prefixed w (elementText l r))"
  by pat_completeness auto
termination
proof (relation "measure (\<lambda>(line, s). length s)", goal_cases)
  case (2 line s w l r)
  then show ?case using elementStep_good [of s line] by (simp add: goodStep_def)
qed simp

function attributeText :: "u8 \<Rightarrow> u32 \<Rightarrow> cstr \<Rightarrow> textResult" where
  "attributeText e line s =
    (case attributeStep e line s of Stop l r \<Rightarrow> Inr ([], l, r) | Fail e \<Rightarrow> Inl e | Write w l r \<Rightarrow> prefixed w (attributeText e l r))"
  by pat_completeness auto
termination
proof (relation "measure (\<lambda>(e, line, s). length s)", goal_cases)
  case (2 e line s w l r)
  then show ?case using attributeStep_good [of s e line] by (simp add: goodStep_def)
qed simp

declare elementText.simps [simp del] attributeText.simps [simp del]

subsection \<open>The loops in place\<close>

text \<open>
  What the array is after a run: \<open>v\<close> is written at \<open>q\<close>, and the reader has come to \<open>r\<close>. The value never gets
  past the reader. A loop in place is given by the action of a round and by what it does to the array.
\<close>

definition wrote :: "u8 list \<Rightarrow> nat \<Rightarrow> nat \<Rightarrow> textResult \<Rightarrow> xmlError + u8 list \<times> u32 \<times> nat \<times> nat" where
  "wrote b p q res = bindE res (\<lambda>(v, line, r). Inr (put q v b, line, p + (length (cstrAt b p) - length r), q + length v))"

definition within :: "cstr \<Rightarrow> textResult \<Rightarrow> bool" where
  "within s res \<longleftrightarrow> (\<forall>v line r. res = Inr (v, line, r) \<longrightarrow> suffix r s \<and> length v + length r \<le> length s)"

locale in_place =
  fixes step :: "u32 \<Rightarrow> cstr \<Rightarrow> action"
    and text' :: "u32 \<Rightarrow> cstr \<Rightarrow> textResult"
    and run :: "u8 list \<Rightarrow> u32 \<Rightarrow> nat \<Rightarrow> nat \<Rightarrow> xmlError + u8 list \<times> u32 \<times> nat \<times> nat"
  assumes good: "goodStep s (step line s)"
    and text_eq: "text' line s =
      (case step line s of Stop l r \<Rightarrow> Inr ([], l, r) | Fail e \<Rightarrow> Inl e | Write w l r \<Rightarrow> prefixed w (text' l r))"
    and run_eq: "q \<le> p \<Longrightarrow> p \<le> length b \<Longrightarrow> s = cstrAt b p \<Longrightarrow> run b line p q =
      (case step line s of
         Stop l r \<Rightarrow> Inr (b, l, p + (length s - length r), q)
       | Fail e \<Rightarrow> Inl e
       | Write w l r \<Rightarrow> run (put q w b) l (p + (length s - length r)) (q + length w))"
begin

lemma text_within: "within s (text' line s)"
proof (induction "length s" arbitrary: line s rule: less_induct)
  case less
  show ?case
  proof (cases "step line s")
    case (Write w l r)
    then have g: "suffix r s" "length r < length s" "length w + length r \<le> length s" using good [of s line] by (simp_all add: goodStep_def)
    have IH: "within r (text' l r)" using less g(2) by simp
    show ?thesis unfolding within_def text_eq [of line s] Write action.case
    proof (intro allI impI)
      fix v line' r' assume "prefixed w (text' l r) = Inr (v, line', r')"
      then obtain v' where v: "text' l r = Inr (v', line', r')" "v = w @ v'" by (auto simp: prefixed_def bindE_eq_Inr)
      then have "suffix r' r" "length v' + length r' \<le> length r" using IH by (simp_all add: within_def)
      then show "suffix r' s \<and> length v + length r' \<le> length s" using v(2) g suffix_order.trans by auto
    qed
  qed (use good [of s line] suffix_length_le in \<open>auto simp: text_eq [of line s] within_def goodStep_def\<close>)
qed

lemma run_wrote: "q \<le> p \<Longrightarrow> p \<le> length b \<Longrightarrow> run b line p q = wrote b p q (text' line (cstrAt b p))"
proof (induction "length (cstrAt b p)" arbitrary: b line p q rule: less_induct)
  case less
  define s where "s = cstrAt b p"
  note qp = less.prems(1) and pb = less.prems(2)
  have bound: "p + length s \<le> length b" unfolding s_def by (rule cstrAt_bound [OF pb])
  have eqs: "run b line p q =
      (case step line s of
         Stop l r \<Rightarrow> Inr (b, l, p + (length s - length r), q)
       | Fail e \<Rightarrow> Inl e
       | Write w l r \<Rightarrow> run (put q w b) l (p + (length s - length r)) (q + length w))"
    "text' line s = (case step line s of Stop l r \<Rightarrow> Inr ([], l, r) | Fail e \<Rightarrow> Inl e | Write w l r \<Rightarrow> prefixed w (text' l r))"
    by (rule run_eq [OF qp pb s_def], rule text_eq)
  show ?case
  proof (cases "step line s")
    case (Write w l r)
    then have g: "suffix r s" "length r < length s" "length w + length r \<le> length s" using good [of s line] by (simp_all add: goodStep_def)
    let ?p = "p + (length s - length r)"
    have n: "q + length w \<le> ?p" "?p \<le> length b" using qp bound g(3) by simp_all
    have c: "cstrAt (put q w b) ?p = r"
      using cstrAt_put [OF n] cstrAt_suffix [OF g(1) [unfolded s_def]] by (simp add: s_def)
    have "run (put q w b) l ?p (q + length w) = wrote (put q w b) ?p (q + length w) (text' l r)"
      using less.hyps [of "put q w b" ?p "q + length w" l] c g(2) n by (simp add: s_def)
    also have "\<dots> = wrote b p q (prefixed w (text' l r))"
    proof (cases "text' l r")
      case (Inr x)
      obtain v line' r' where x: "x = (v, line', r')" by (cases x)
      have v: "suffix r' r" "length v + length r' \<le> length r" using text_within [of r l] Inr x by (simp_all add: within_def)
      have "put (q + length w) v (put q w b) = put q (w @ v) b"
        using n bound v(2) suffix_length_le [OF g(1)] by (intro put_put) simp
      moreover have "?p + (length r - length r') = p + (length s - length r')"
        using suffix_length_le [OF g(1)] suffix_length_le [OF v(1)] by simp
      ultimately show ?thesis unfolding wrote_def prefixed_def Inr x by (simp add: c flip: s_def)
    qed (simp add: wrote_def prefixed_def)
    finally show ?thesis unfolding eqs s_def [symmetric] Write by simp
  qed (simp_all add: eqs wrote_def flip: s_def)
qed

end

lemma normalizeElement_run:
  assumes "q \<le> p" and "p \<le> length b" and s: "s = cstrAt b p"
  shows "normalizeElement b line p q =
    (case elementStep line s of
       Stop l r \<Rightarrow> Inr (b, l, p + (length s - length r), q)
     | Fail e \<Rightarrow> Inl e
     | Write w l r \<Rightarrow> normalizeElement (put q w b) l (p + (length s - length r)) (q + length w))"
proof -
  have bound: "p + length s \<le> length b" unfolding s by (rule cstrAt_bound [OF assms(2)])
  have single: "b[q := x] = put q [x] b" if "s \<noteq> []" for x using that bound assms(1) by (intro put_single) (cases s; simp)
  have copy: "copyDown b p q n = put q (take n s) b" if "n \<le> length s" for n
    using copyDown_put [of q p n b] cstrAt_take [of n b p] that bound assms(1) by (simp add: s)
  show ?thesis
  proof (cases s)
    case Nil
    then show ?thesis by (subst normalizeElement.simps) (simp add: elementStep_def flip: s)
  next
    case (Cons c t)
    consider "c = chr8 CHR ''<''" | "\<not> c = chr8 CHR ''<''" "xmlSpace c" | "\<not> c = chr8 CHR ''<''" "\<not> xmlSpace c" "c = chr8 CHR ''&''"
      | "\<not> c = chr8 CHR ''<''" "\<not> xmlSpace c" "c \<noteq> chr8 CHR ''&''" by blast
    then show ?thesis
    proof cases
      case 1
      then show ?thesis by (subst normalizeElement.simps) (simp add: elementStep_def Cons flip: s)
    next
      case 2
      obtain l r where "skipWhitespace (if c = 10 then line + 1 else line) t = (l, r)" by fastforce
      with 2 show ?thesis using single copy by (subst normalizeElement.simps) (simp add: elementStep_def Cons Let_def flip: s)
    next
      case 3
      then show ?thesis using single by (subst normalizeElement.simps, cases "getRef line t") (auto simp: elementStep_def Cons simp flip: s)
    next
      case 4
      then show ?thesis using single by (subst normalizeElement.simps) (simp add: elementStep_def Cons flip: s)
    qed
  qed
qed

lemma normalizeAttribute_run:
  assumes "q \<le> p" and "p \<le> length b" and s: "s = cstrAt b p"
  shows "normalizeAttribute e b line p q =
    (case attributeStep e line s of
       Stop l r \<Rightarrow> Inr (b, l, p + (length s - length r), q)
     | Fail e \<Rightarrow> Inl e
     | Write w l r \<Rightarrow> normalizeAttribute e (put q w b) l (p + (length s - length r)) (q + length w))"
proof -
  have bound: "p + length s \<le> length b" unfolding s by (rule cstrAt_bound [OF assms(2)])
  have single: "b[q := x] = put q [x] b" if "s \<noteq> []" for x using that bound assms(1) by (intro put_single) (cases s; simp)
  show ?thesis
  proof (cases s)
    case Nil
    then show ?thesis by (subst normalizeAttribute.simps) (simp add: attributeStep_def flip: s)
  next
    case (Cons c t)
    consider "c = e" | "\<not> c = e" "xmlSpace c" | "\<not> c = e" "\<not> xmlSpace c" "c = chr8 CHR ''&''"
      | "\<not> c = e" "\<not> xmlSpace c" "c \<noteq> chr8 CHR ''&''" by blast
    then show ?thesis
    proof cases
      case 1
      then show ?thesis by (subst normalizeAttribute.simps) (simp add: attributeStep_def Cons flip: s)
    next
      case 2
      obtain l r where "skipWhitespace (if c = 10 then line + 1 else line) t = (l, r)" by fastforce
      with 2 show ?thesis using single by (subst normalizeAttribute.simps) (simp add: attributeStep_def Cons Let_def flip: s)
    next
      case 3
      then show ?thesis using single by (subst normalizeAttribute.simps, cases "getRef line t") (auto simp: attributeStep_def Cons simp flip: s)
    next
      case 4
      then show ?thesis using single by (subst normalizeAttribute.simps) (simp add: attributeStep_def Cons flip: s)
    qed
  qed
qed

interpretation element: in_place elementStep elementText normalizeElement
  by unfold_locales (rule elementStep_good, rule elementText.simps, rule normalizeElement_run)

interpretation attribute: in_place "attributeStep e" "attributeText e" "normalizeAttribute e" for e
  by unfold_locales (rule attributeStep_good, rule attributeText.simps, rule normalizeAttribute_run)

subsection \<open>The whole values\<close>

text \<open>
  The value of an attribute loses the space of trailing white space; the last byte that was read tells whether there was some.
\<close>

definition trailing :: "cstr \<Rightarrow> cstr \<Rightarrow> bool" where
  "trailing s r \<longleftrightarrow> length r < length s \<and> xmlSpace (s ! (length s - length r - 1))"

lemma byteRead:
  "k < length (cstrAt b p) \<Longrightarrow> b ! (p + k) = cstrAt b p ! k"
  using takeWhile_nth [of k "\<lambda>c. c \<noteq> 0" "drop p b"] cstrAt_length [of b p] by (simp add: cstrAt_def)

text \<open>If nothing was dropped so far, the last byte of the value is a copy of the last byte that was read, or is a space for it.\<close>

definition lastByte :: "cstr \<Rightarrow> textResult \<Rightarrow> bool" where
  "lastByte s res \<longleftrightarrow>
    (\<forall>v line r. res = Inr (v, line, r) \<longrightarrow> length r < length s \<longrightarrow>
       v \<noteq> [] \<and> (length v + length r = length s \<longrightarrow> (xmlSpace (last v) \<longleftrightarrow> trailing s r)))"

lemma xmlSpace_iff: "xmlSpace c \<longleftrightarrow> c = 9 \<or> c = 10 \<or> c = 13 \<or> c = 32"
  by (simp add: xmlSpace_def charset_eq isXmlSpace_def)

lemma xmlSpace_blank: "xmlSpace 32"
  by (simp add: xmlSpace_iff)

lemma attributeStep_last:
  assumes "attributeStep e line s = Write w l r"
  shows "length w = 1" and "length w + length r = length s \<longrightarrow> (xmlSpace (hd w) \<longleftrightarrow> xmlSpace (hd s))" and "s \<noteq> []"
proof -
  obtain c p where s: "s = c # p" using assms by (cases s) (auto simp: attributeStep_def)
  show "s \<noteq> []" by (simp add: s)
  have n: "c \<noteq> e" using assms by (auto simp: attributeStep_def s)
  obtain l' r' where w: "skipWhitespace (if c = 10 then line + 1 else line) p = (l', r')" by fastforce
  have "length w = 1 \<and> (length w + length r = length s \<longrightarrow> (xmlSpace (hd w) \<longleftrightarrow> xmlSpace (hd s)))"
  proof (cases "xmlSpace c")
    case True
    then show ?thesis using assms n by (auto simp: attributeStep_def s w xmlSpace_blank)
  next
    case False
    show ?thesis
    proof (cases "c = chr8 CHR ''&''")
      case True
      then obtain ch where g: "getRef line p = Inr (ch, r)" "w = [ch]"
        using assms n False by (auto simp: attributeStep_def s split: sum.splits)
      from getRef_length [OF g(1)] show ?thesis by (simp add: s g(2))
    next
      case amp: False
      then show ?thesis using assms n False by (simp add: attributeStep_def s) auto
    qed
  qed
  then show "length w = 1" "length w + length r = length s \<longrightarrow> (xmlSpace (hd w) \<longleftrightarrow> xmlSpace (hd s))" by simp_all
qed

lemma trailing_suffix:
  assumes "suffix r s" and "length r' < length r"
  shows "trailing s r' \<longleftrightarrow> trailing r r'"
proof -
  obtain a where s: "s = a @ r" using assms(1) by (auto simp: suffix_def)
  have "length s - length r' - 1 = length a + (length r - length r' - 1)" using assms(2) by (simp add: s)
  then have "s ! (length s - length r' - 1) = r ! (length r - length r' - 1)" by (simp only: s nth_append_length_plus)
  then show ?thesis using assms(2) by (simp add: trailing_def s)
qed

lemma attributeText_last: "lastByte s (attributeText e line s)"
proof (induction "length s" arbitrary: line s rule: less_induct)
  case less
  show ?case unfolding lastByte_def
  proof (intro allI impI)
    fix v line' r'
    assume t: "attributeText e line s = Inr (v, line', r')" and n: "length r' < length s"
    show "v \<noteq> [] \<and> (length v + length r' = length s \<longrightarrow> (xmlSpace (last v) \<longleftrightarrow> trailing s r'))"
    proof (cases "attributeStep e line s")
      case (Stop l r)
      then have "s = r' \<or> length r' = length s" using t
        by (auto simp: attributeText.simps [of e line s] attributeStep_def split: if_splits prod.splits sum.splits)
      then show ?thesis using n by auto
    next
      case (Fail x)
      then show ?thesis using t by (simp add: attributeText.simps [of e line s])
    next
      case (Write w l r)
      note a = attributeStep_last [OF Write]
      have g: "suffix r s" "length r < length s" "length w + length r \<le> length s"
        using attributeStep_good [of s e line] Write by (simp_all add: goodStep_Write)
      obtain v' where v: "attributeText e l r = Inr (v', line', r')" "v = w @ v'"
        using t Write by (auto simp: attributeText.simps [of e line s] prefixed_def bindE_eq_Inr)
      have wi: "suffix r' r" "length v' + length r' \<le> length r"
        using attribute.text_within [of r e l] v(1) by (simp_all add: within_def)
      have IH: "length r' < length r \<Longrightarrow> v' \<noteq> [] \<and> (length v' + length r' = length r \<longrightarrow> (xmlSpace (last v') \<longleftrightarrow> trailing r r'))"
        using less [OF g(2), of l] v(1) by (simp add: lastByte_def)
      have w: "w = [hd w]" using a(1) by (cases w) auto
      show ?thesis
      proof (cases "length r' < length r")
        case True
        then show ?thesis using IH v(2) g(3) wi(2) trailing_suffix [OF g(1) True] by auto
      next
        case False
        then have r: "r' = r" using wi(1) suffix_length_le [OF wi(1)] by (auto simp: suffix_def)
        then have "v' = []" using wi(2) by simp
        moreover have "s ! (length s - length r - 1) = hd s" if "1 + length r = length s"
          using that a(3) by (simp add: hd_conv_nth flip: that)
        moreover have "length v = 1" "last v = hd w" using v(2) a(1) calculation(1) w by (simp_all, metis last.simps)
        ultimately show ?thesis using v(2) a(2) a(1) w n by (auto simp: r trailing_def)
      qed
    qed
  qed
qed

definition attributeValue :: "u8 \<Rightarrow> u32 \<Rightarrow> cstr \<Rightarrow> textResult" where
  "attributeValue e line s =
    (case skipWhitespace line s of (l, s1) \<Rightarrow>
       bindE (attributeText e l s1) (\<lambda>(v, l', r). Inr (if trailing s1 r then butlast v else v, l', r)))"

text \<open>
  What a normalization promises: the value is at \<open>start\<close>, it ends at the reader \<open>p'\<close> or with a NUL before it, and the
  array is as before in front of \<open>start\<close> and from the reader on.
\<close>

definition valueAt :: "u8 list \<Rightarrow> u8 list \<Rightarrow> nat \<Rightarrow> nat \<Rightarrow> u8 list \<Rightarrow> bool" where
  "valueAt b b' start p' v \<longleftrightarrow>
    length b' = length b \<and> take start b' = take start b \<and> drop p' b' = drop p' b \<and> start + length v \<le> p' \<and> p' < length b \<and>
    take (length v) (drop start b') = v \<and> (start + length v < p' \<longrightarrow> b' ! (start + length v) = 0)"

lemma valueAt_put:
  assumes "start + length w \<le> p'" and "p' < length b" and "w = v \<or> (\<exists>x. w = v @ 0 # x)" and "w = v \<longrightarrow> start + length v = p'"
  shows "valueAt b (put start w b) start p' v"
proof -
  have "drop p' (put start w b) = drop p' b" using assms by (intro put_drop) simp_all
  moreover have "drop start (put start w b) = w @ drop (start + length w) b" using assms(1,2) by (simp add: put_def)
  moreover have "put start w b ! (start + length v) = 0" if "w = v @ 0 # x" for x
    using that assms(1,2) by (simp add: put_def nth_append)
  moreover have "take start (put start w b) = take start b" using assms(1,2) by (simp add: put_def)
  ultimately show ?thesis using assms by (auto simp: valueAt_def)
qed

lemma put_snoc: "start + length v < length b \<Longrightarrow> (put start v b)[start + length v := x] = put start (v @ [x]) b"
  using put_single [of "start + length v" "put start v b" x] put_put [of start v "[x]" b] by simp

lemma put_same:
  assumes "start + length v < length b"
  shows "put start (v @ [b ! (start + length v)]) b = put start v b"
  using assms by (simp add: put_def Cons_nth_drop_Suc)

lemma put_ends: "start + length v = p' \<Longrightarrow> p' < length b \<Longrightarrow> put start v b ! p' = b ! p'"
  by (auto simp: put_def nth_append)

lemma cstrAt_ends:
  assumes "0 \<in> set (drop p b)"
  shows "p + length (cstrAt b p) < length b"
proof -
  have "length (cstrAt b p) < length (drop p b)"
    using assms unfolding cstrAt_def by (metis (mono_tags) length_takeWhile_le order_le_imp_less_or_eq takeWhile_eq_all_conv takeWhile_eq_take take_all_iff order_refl)
  then show ?thesis by simp
qed

lemma element_normalizes:
  assumes "0 \<in> set (drop p b)" and e: "elementText line (cstrAt b p) = Inr (v, line', r)"
  obtains b' p' where "normalizeElementValue b line p = Inr (b', line', p', length v)" and "valueAt b b' p p' v"
    and "cstrAt b p' = r" and "suffix r (cstrAt b p)"
proof -
  let ?s = "cstrAt b p"
  let ?p = "p + (length ?s - length r)"
  have run: "normalizeElement b line p p = Inr (put p v b, line', ?p, p + length v)"
    using element.run_wrote [of p p b line] cstrAt_ends [OF assms(1)] e by (simp add: wrote_def)
  have w: "suffix r ?s" "length v + length r \<le> length ?s"
    using element.text_within [of ?s line] e by (simp_all add: within_def)
  have p: "p + length v \<le> ?p" "?p < length b" using w cstrAt_ends [OF assms(1)] by simp_all
  have res: "normalizeElementValue b line p =
      Inr (put p (if p + length v = ?p then v else v @ [0]) b, line', ?p, length v)"
    using p by (simp add: normalizeElementValue_def run put_snoc del: cstrAt_length)
  have val: "valueAt b (put p (if p + length v = ?p then v else v @ [0]) b) p ?p v"
    using p by (intro valueAt_put) auto
  show ?thesis using that [OF res val cstrAt_suffix [OF w(1)] w(1)] .
qed

text \<open>
  C0: \<open>_normalizeElementValue\<close> is correct in place: on an array with a NUL from \<open>p\<close> on, it throws what reading the C string
  at \<open>p\<close> into a new list throws; otherwise the text is at \<open>p\<close>, its length is returned, a NUL follows when the text is
  shorter than what was read, and nothing before \<open>p\<close> and nothing that is still to be read has changed.
\<close>

theorem element_in_place:
  assumes "0 \<in> set (drop p b)"
  shows "case elementText line (cstrAt b p) of
      Inl e \<Rightarrow> normalizeElementValue b line p = Inl e
    | Inr (v, line', r) \<Rightarrow> suffix r (cstrAt b p) \<and>
        (\<exists>b' p'. normalizeElementValue b line p = Inr (b', line', p', length v) \<and> valueAt b b' p p' v \<and> cstrAt b p' = r)"
proof (cases "elementText line (cstrAt b p)")
  case (Inl e)
  then show ?thesis using element.run_wrote [of p p b line] cstrAt_ends [OF assms]
    by (simp add: normalizeElementValue_def wrote_def)
next
  case (Inr x)
  then show ?thesis using element_normalizes [OF assms] by (cases x) fastforce
qed

theorem element_in_place_witness:
  "\<exists>b' p'. normalizeElementValue (bytes ''a &lt; b </p>'' @ [0]) 1 0 = Inr (b', 1, p', 5) \<and>
     valueAt (bytes ''a &lt; b </p>'' @ [0]) b' 0 p' (bytes ''a < b'')"
proof -
  have t: "elementText 1 (cstrAt (bytes ''a &lt; b </p>'' @ [0]) 0) = Inr (bytes ''a < b'', 1, bytes ''</p>'')"
    by code_simp
  have l: "length (bytes ''a < b'') = 5" by (simp add: bytes_def)
  show ?thesis using element_in_place [of 0 "bytes ''a &lt; b </p>'' @ [0]" 1] by (auto simp: t l)
qed

lemma put_nth: "start + length v \<le> k \<Longrightarrow> k < length b \<Longrightarrow> put start v b ! k = b ! k"
  by (auto simp: put_def nth_append)

text \<open>The end of \<open>_normalizeAttributeValue\<close>, after its loop.\<close>

lemma attribute_adjust:
  assumes c: "cstrAt b start = s1" and n: "start + length s1 < length b" and t: "attributeText e l s1 = Inr (v, line', r)"
    and p: "p' = start + (length s1 - length r)"
  shows "p' \<noteq> start \<and> xmlSpace (put start v b ! (p' - 1)) \<longleftrightarrow> trailing s1 r" and "trailing s1 r \<longrightarrow> v \<noteq> []"
proof -
  have w: "length v + length r \<le> length s1" using attribute.text_within [of s1 e l] t by (simp add: within_def)
  have L: "length r < length s1 \<Longrightarrow> v \<noteq> [] \<and> (length v + length r = length s1 \<longrightarrow> (xmlSpace (last v) \<longleftrightarrow> trailing s1 r))"
    using attributeText_last [of s1 e l] t by (simp add: lastByte_def)
  have "xmlSpace (put start v b ! (p' - 1)) \<longleftrightarrow> trailing s1 r" if m: "length r < length s1"
  proof (cases "length v + length r = length s1")
    case True
    have v: "v \<noteq> []" using L m by simp
    then have "p' - 1 = start + (length v - 1)" using True p by (cases v) auto
    moreover have "put start v b ! (start + (length v - 1)) = last v"
      using v n w by (cases v rule: rev_cases) (simp_all add: put_def nth_append)
    ultimately show ?thesis using L m True by simp
  next
    case False
    then have q: "start + length v \<le> p' - 1" "p' - 1 < length b" using w n m p by simp_all
    then have "put start v b ! (p' - 1) = b ! (p' - 1)" by (rule put_nth)
    also have "b ! (p' - 1) = b ! (start + (length s1 - length r - 1))" using m p by simp
    also have "\<dots> = s1 ! (length s1 - length r - 1)"
      using byteRead [of "length s1 - length r - 1" b start] m by (simp add: c)
    finally show ?thesis using m by (simp add: trailing_def)
  qed
  then show "p' \<noteq> start \<and> xmlSpace (put start v b ! (p' - 1)) \<longleftrightarrow> trailing s1 r" "trailing s1 r \<longrightarrow> v \<noteq> []"
    using L p by (auto simp: trailing_def)
qed

lemma attribute_ends:
  assumes p: "start + length v \<le> p'" "p' < length b" and v: "adjust \<longrightarrow> v \<noteq> []"
    and q2: "q2 = (if adjust then start + length v - 1 else start + length v)"
    and b2: "b2 = (put start v b)[start + length v := put start v b ! p']"
  shows "valueAt b (if q2 \<noteq> p' then b2[q2 := 0] else b2) start p' (if adjust then butlast v else v)"
proof -
  have same: "put start v b ! p' = b ! p'" using p by (auto simp: put_def nth_append)
  have b2': "b2 = put start (v @ [b ! p']) b" unfolding b2 same using p by (intro put_snoc) simp
  show ?thesis
  proof (cases adjust)
    case True
    then obtain v' c where v': "v = v' @ [c]" using v by (cases v rule: rev_cases) auto
    have q: "q2 = start + length v'" "q2 \<noteq> p'" using True p(1) by (simp_all add: q2 v')
    have "b2[q2 := 0] = put start (v' @ 0 # [b ! p']) b"
      using p by (simp add: b2' q(1) v' put_def list_update_append)
    moreover have "valueAt b (put start (v' @ 0 # [b ! p']) b) start p' v'"
    proof (cases "start + length v = p'")
      case True
      then have e: "put start (v' @ 0 # [b ! p']) b = put start (v' @ [0]) b"
        using put_same [of start "v' @ [0]" b] p v' by simp
      show ?thesis unfolding e using p v' by (intro valueAt_put) simp_all
    next
      case False
      then show ?thesis using p v' by (intro valueAt_put) simp_all
    qed
    ultimately show ?thesis using q True by (simp add: v')
  next
    case False
    then have q: "q2 = start + length v" by (simp add: q2)
    show ?thesis
    proof (cases "q2 = p'")
      case True
      then have "b2 = put start v b" using put_same [of start v b] p(2) by (simp add: b2' q)
      moreover have "valueAt b (put start v b) start p' v" using True p q by (intro valueAt_put) simp_all
      ultimately show ?thesis using False True by simp
    next
      case ne: False
      have "b2[q2 := 0] = put start (v @ [0]) b" using p ne by (simp add: b2' q put_def list_update_append)
      moreover have "valueAt b (put start (v @ [0]) b) start p' v" using ne p q by (intro valueAt_put) simp_all
      ultimately show ?thesis using False ne by simp
    qed
  qed
qed

lemma attribute_normalizes:
  assumes "0 \<in> set (drop p b)" and e: "attributeValue e line (cstrAt b p) = Inr (v', line', r)"
    and k: "skipWhitespace line (cstrAt b p) = (l, s1)" and start: "start = p + (length (cstrAt b p) - length s1)"
  obtains b' p' where "normalizeAttributeValue b line p e = Inr (b', line', p', start)" and "valueAt b b' start p' v'"
    and "cstrAt b p' = r" and "cstrAt b start = s1" and "suffix r (cstrAt b p)"
proof -
  let ?s = "cstrAt b p"
  have s1: "suffix s1 ?s" by (rule skipWhitespace_suffix [OF k])
  have c: "cstrAt b start = s1" unfolding start by (rule cstrAt_suffix [OF s1])
  have n: "start + length s1 < length b" using cstrAt_ends [OF assms(1)] suffix_length_le [OF s1] by (simp add: start)
  obtain v where v: "attributeText e l s1 = Inr (v, line', r)" "v' = (if trailing s1 r then butlast v else v)"
    using e by (auto simp: attributeValue_def k bindE_eq_Inr)
  define p' where "p' = start + (length s1 - length r)"
  have w: "suffix r s1" "length v + length r \<le> length s1"
    using attribute.text_within [of s1 e l] v(1) by (simp_all add: within_def)
  have p: "start + length v \<le> p'" "p' < length b" using w n by (simp_all add: p'_def)
  note adj = attribute_adjust [OF c n v(1) p'_def]
  note val = attribute_ends [OF p adj(2) refl refl]
  have run: "normalizeAttribute e b l start start = wrote b start start (attributeText e l s1)"
    using attribute.run_wrote [of start start b e l] n c by simp
  have at: "cstrAt b p' = r" using cstrAt_suffix [of r b start] w(1) by (simp add: c p'_def)
  have res: "normalizeAttributeValue b line p e =
        Inr (let b2 = (put start v b)[start + length v := put start v b ! p'];
                 q2 = (if trailing s1 r then start + length v - 1 else start + length v)
             in if q2 \<noteq> p' then b2[q2 := 0] else b2, line', p', start)"
    using run v(1) adj(1) by (simp add: normalizeAttributeValue_def k wrote_def Let_def c flip: start p'_def)
  show ?thesis using that [OF res _ at c suffix_order.trans [OF w(1) s1]] val by (simp add: Let_def v(2))
qed

text \<open>
  C31: \<open>_normalizeAttributeValue\<close> is correct in place, in the same sense: the value, without the white space around it and with
  every other run of white space as one space, is at the \<open>start\<close> that is returned.
\<close>

theorem attribute_in_place:
  assumes "0 \<in> set (drop p b)"
  shows "case attributeValue e line (cstrAt b p) of
      Inl x \<Rightarrow> normalizeAttributeValue b line p e = Inl x
    | Inr (v, line', r) \<Rightarrow> suffix r (cstrAt b p) \<and>
        (\<exists>b' p' start. normalizeAttributeValue b line p e = Inr (b', line', p', start) \<and>
           cstrAt b start = snd (skipWhitespace line (cstrAt b p)) \<and> valueAt b b' start p' v \<and> cstrAt b p' = r)"
proof -
  let ?s = "cstrAt b p"
  obtain l s1 where k: "skipWhitespace line ?s = (l, s1)" by fastforce
  define start where "start = p + (length ?s - length s1)"
  have s1: "suffix s1 ?s" by (rule skipWhitespace_suffix [OF k])
  have c: "cstrAt b start = s1" unfolding start_def by (rule cstrAt_suffix [OF s1])
  have n: "start + length s1 < length b" using cstrAt_ends [OF assms] suffix_length_le [OF s1] by (simp add: start_def)
  show ?thesis
  proof (cases "attributeValue e line ?s")
    case (Inl x)
    moreover have "normalizeAttribute e b l start start = wrote b start start (attributeText e l s1)"
      using attribute.run_wrote [of start start b e l] n c by simp
    ultimately show ?thesis
      by (cases "attributeText e l s1") (auto simp: normalizeAttributeValue_def attributeValue_def k wrote_def simp flip: start_def)
  next
    case (Inr x)
    obtain v line' r where x: "x = (v, line', r)" by (cases x)
    from attribute_normalizes [OF assms Inr [unfolded x] k start_def]
    obtain b' p' where "normalizeAttributeValue b line p e = Inr (b', line', p', start)" "valueAt b b' start p' v"
      "cstrAt b p' = r" "suffix r ?s" by blast
    then show ?thesis using Inr x c by (auto simp: k)
  qed
qed

theorem attribute_in_place_witness:
  "\<exists>b' p' start. normalizeAttributeValue (bytes '' a  b '' @ [34, 0]) 1 0 34 = Inr (b', 1, p', start) \<and>
     cstrAt (bytes '' a  b '' @ [34, 0]) start = bytes ''a  b '' @ [34] \<and>
     valueAt (bytes '' a  b '' @ [34, 0]) b' start p' (bytes ''a b'')"
proof -
  have t: "attributeValue 34 1 (cstrAt (bytes '' a  b '' @ [34, 0]) 0) = Inr (bytes ''a b'', 1, [34])"
    "snd (skipWhitespace 1 (cstrAt (bytes '' a  b '' @ [34, 0]) 0)) = bytes ''a  b '' @ [34]"
    by code_simp+
  show ?thesis using attribute_in_place [of 0 "bytes '' a  b '' @ [34, 0]" 1 34] by (auto simp: t)
qed

end
