(* ===== verification/XmlEscape.thy ===== *)
theory XmlEscape
  imports XmlText
begin

section \<open>Reading what was written\<close>

subsection \<open>Special characters\<close>

lemma isSpecialChar7Table_map:
  "isSpecialChar7Table = map (\<lambda>n. if n < 32 \<or> n = 34 \<or> n = 38 \<or> n = 39 \<or> n = 60 \<or> n = 62 \<or> n = 127 then 1 else 0) [0..<256]"
  by code_simp

lemma isNormalChar7Table_map: "isNormalChar7Table = map (\<lambda>t. 1 - t) isSpecialChar7Table"
  by (simp add: isNormalChar7Table_def isSpecialChar7Table_def)

lemma table_lengths: "length isSpecialChar7Table = 256" "length isNormalChar7Table = 256" "length specialChars = 128"
  by (simp_all add: isSpecialChar7Table_def isNormalChar7Table_def specialChars_def)

definition special :: "nat \<Rightarrow> bool" where
  "special n \<longleftrightarrow> n < 32 \<or> n = 34 \<or> n = 38 \<or> n = 39 \<or> n = 60 \<or> n = 62 \<or> n = 127"

lemma isSpecial_iff: "n < 256 \<Longrightarrow> isSpecialChar7Table ! n \<noteq> 0 \<longleftrightarrow> special n"
  by (simp add: isSpecialChar7Table_map special_def)

lemma isNormal_iff: "n < 256 \<Longrightarrow> isNormalChar7Table ! n \<noteq> 0 \<longleftrightarrow> \<not> special n"
  unfolding isNormalChar7Table_map using isSpecial_iff [of n] by (simp add: table_lengths isSpecialChar7Table_map special_def)

text \<open>What is written for a special character other than NUL is a reference that is read as the character.\<close>

definition referenceOf :: "nat \<Rightarrow> bool" where
  "referenceOf n \<longleftrightarrow> (case bytes (specialChars ! n) of
     [] \<Rightarrow> False
   | a # x \<Rightarrow> a = chr8 CHR ''&'' \<and> (\<forall>line s. getRef line (x @ s) = Inr (of_nat n, s)))"

lemmas getRef_defs = getRef_def getEntityRef_def getCharRef_def strtoul_def strtoulStart_def isDigitOf_def digitOf_def
  bytes_def specialChars_def isdigit_def isxdigit_def

lemma reference_entities: "\<forall>n\<in>set [34, 38, 39, 60, 62]. referenceOf n"
  by (simp add: referenceOf_def getRef_defs Let_def peek_numeral)

lemma digit_start:
  assumes "isdigit a"
  shows "strtoulStart 10 (a # s) = (False, a # s)" and "peek (a # s) 0 \<noteq> chr8 CHR ''x''"
proof -
  have "48 \<le> a" "a \<le> 57" using assms by (simp_all add: isdigit_def)
  then have "a \<noteq> 32" "\<not> a \<le> 13" "a \<noteq> 43" "a \<noteq> 45" "a \<noteq> 120" by (auto simp: word_le_unat)
  then show "strtoulStart 10 (a # s) = (False, a # s)" "peek (a # s) 0 \<noteq> chr8 CHR ''x''"
    by (simp_all add: strtoulStart_def)
qed

lemma decimal_reference:
  assumes "ds \<noteq> []" and "length ds \<le> 5" and "\<forall>d\<in>set ds. isdigit d"
    and v: "v = foldl (\<lambda>v c. v * 10 + (unat c - 48)) 0 ds" "v < 256"
  shows "getRef line (chr8 CHR ''#'' # ds @ chr8 CHR '';'' # s) = Inr (of_nat v, s)"
proof -
  obtain a r where ds: "ds = a # r" using assms(1) by (cases ds) auto
  have st: "strtoulStart 10 (ds @ chr8 CHR '';'' # s) = (False, ds @ chr8 CHR '';'' # s)"
    and x: "peek (ds @ chr8 CHR '';'' # s) 0 \<noteq> chr8 CHR ''x''"
    using digit_start [of a] assms(3) by (simp_all add: ds)
  have "takeWhile (isDigitOf 10) (ds @ chr8 CHR '';'' # s) = ds @ takeWhile (isDigitOf 10) (chr8 CHR '';'' # s)"
    using assms(3) by (intro takeWhile_append2) (simp add: isDigitOf_def)
  also have "takeWhile (isDigitOf 10) (chr8 CHR '';'' # s) = []" by (simp add: isDigitOf_def isdigit_def)
  finally have tw: "takeWhile (isDigitOf 10) (ds @ chr8 CHR '';'' # s) = ds" by simp
  have "foldl (\<lambda>v c. v * 10 + digitOf c) 0 ds = v"
    unfolding v(1) by (intro foldl_cong refl) (use assms(3) in \<open>simp add: digitOf_def\<close>)
  then have "strtoul 10 (ds @ chr8 CHR '';'' # s) = (v, chr8 CHR '';'' # s)"
    using assms(1) v(2) unfolding strtoul_def st prod.case Let_def tw by simp
  then have "getCharRef (ds @ chr8 CHR '';'' # s) = Some (of_nat v, s)"
    using x assms(1,2) v(2) unfolding getCharRef_def Let_def by (simp add: ds)
  then show ?thesis by (simp add: getRef_def)
qed

lemma referenceOf_decimal:
  assumes "bytes (specialChars ! n) = chr8 CHR ''&'' # chr8 CHR ''#'' # ds @ [chr8 CHR '';'']"
    and "ds \<noteq> []" and "length ds \<le> 5" and "\<forall>d\<in>set ds. isdigit d"
    and "n = foldl (\<lambda>v c. v * 10 + (unat c - 48)) 0 ds" and "n < 256"
  shows "referenceOf n"
  using decimal_reference [OF assms(2-6)] unfolding referenceOf_def assms(1) by simp

text \<open>The digits of a number below 128.\<close>

definition decimal :: "nat \<Rightarrow> u8 list" where
  "decimal n =
    (if n < 10 then [of_nat (48 + n)] else if n < 100 then [of_nat (48 + n div 10), of_nat (48 + n mod 10)]
     else [of_nat (48 + n div 100), of_nat (48 + n div 10 mod 10), of_nat (48 + n mod 10)])"

lemma decimal_digits:
  "\<forall>n\<in>set ([1..<32] @ [127]). bytes (specialChars ! n) = chr8 CHR ''&'' # chr8 CHR ''#'' # decimal n @ [chr8 CHR '';''] \<and>
     list_all isdigit (decimal n) \<and> decimal n \<noteq> [] \<and> length (decimal n) \<le> 5 \<and>
     n = foldl (\<lambda>v c. v * 10 + (unat c - 48)) 0 (decimal n)"
  by code_simp

lemma reference_digits: "n \<in> set ([1..<32] @ [127]) \<Longrightarrow> referenceOf n"
  using decimal_digits by (intro referenceOf_decimal [of n "decimal n"]) (auto simp: list_all_iff)

lemma reference_ok:
  assumes "special n" and "n \<noteq> 0"
  shows "referenceOf n"
proof -
  have "n \<in> set ([1..<32] @ [127]) \<or> n \<in> set [34, 38, 39, 60, 62]" using assms by (auto simp: special_def)
  then show ?thesis using reference_digits reference_entities by blast
qed

lemma reference_blank: "getRef line (tl (bytes ''&#32;'') @ s) = Inr (32, s)"
  using decimal_reference [of "[51, 50]" 32 line s] by (simp add: bytes_def isdigit_def)

subsection \<open>The forms of a text\<close>

text \<open>
  The bytes \<open>x\<close> stand for the bytes \<open>v\<close>: plain bytes for themselves, references, and single spaces, each with something
  that is not white space behind it.
\<close>

definition plain :: "u8 \<Rightarrow> bool" where
  "plain c \<longleftrightarrow> c \<noteq> 0 \<and> \<not> xmlSpace c \<and> c \<notin> {chr8 CHR ''&'', chr8 CHR ''<'', 34, 39}"

definition blankStop :: "cstr \<Rightarrow> bool" where
  "blankStop s \<longleftrightarrow> s \<noteq> [] \<and> hd s \<noteq> 0 \<and> \<not> xmlSpace (hd s) \<and> hd s \<noteq> chr8 CHR ''<''"

inductive stands :: "u8 list \<Rightarrow> u8 list \<Rightarrow> bool" where
  end': "stands [] []"
| plain: "plain c \<Longrightarrow> stands x v \<Longrightarrow> stands (c # x) (c # v)"
| ref: "(\<And>line s. getRef line (y @ s) = Inr (c, s)) \<Longrightarrow> y \<noteq> [] \<Longrightarrow> \<not> xmlSpace (last y) \<Longrightarrow> stands x v \<Longrightarrow> stands (chr8 CHR ''&'' # y @ x) (c # v)"
| blank: "blankStop x \<Longrightarrow> stands x v \<Longrightarrow> stands (32 # x) (32 # v)"

locale reader =
  fixes text' :: "u32 \<Rightarrow> cstr \<Rightarrow> textResult"
  assumes plain_byte: "plain c \<Longrightarrow> text' line (c # s) = prefixed [c] (text' line s)"
    and reference: "getRef line (y @ s) = Inr (c, s) \<Longrightarrow> text' line (chr8 CHR ''&'' # y @ s) = prefixed [c] (text' line s)"
    and one_blank: "blankStop s \<Longrightarrow> text' line (32 # s) = prefixed [32] (text' line s)"
begin

lemma prefixed_prefixed: "prefixed v (prefixed w res) = prefixed (v @ w) res"
  by (cases res) (auto simp: prefixed_def)

lemma reads: "stands x v \<Longrightarrow> text' line (x @ s) = prefixed v (text' line s)"
proof (induction rule: stands.induct)
  case end'
  then show ?case by (cases "text' line s") (auto simp: prefixed_def)
next
  case (plain c x v)
  then show ?case by (simp add: plain_byte prefixed_prefixed)
next
  case (ref y c x v)
  then show ?case using reference [of line y "x @ s" c] by (simp add: prefixed_prefixed)
next
  case (blank x v)
  then have "blankStop (x @ s)" by (simp add: blankStop_def)
  then show ?case using blank by (simp add: one_blank prefixed_prefixed)
qed

end

lemma skip_blank: "blankStop s \<Longrightarrow> skipWhitespace line s = (line, s)"
  by (cases s) (auto simp: blankStop_def)

interpretation element_reader: reader elementText
proof
  show "plain c \<Longrightarrow> elementText line (c # s) = prefixed [c] (elementText line s)" for c line s
    by (subst elementText.simps) (simp add: elementStep_def plain_def)
  show "getRef line (y @ s) = Inr (c, s) \<Longrightarrow> elementText line (chr8 CHR ''&'' # y @ s) = prefixed [c] (elementText line s)" for c line s y
    by (subst elementText.simps) (simp add: elementStep_def xmlSpace_iff)
  show "blankStop s \<Longrightarrow> elementText line (32 # s) = prefixed [32] (elementText line s)" for line s
    by (subst elementText.simps) (simp add: elementStep_def xmlSpace_iff skip_blank, auto simp: blankStop_def)
qed

lemma attributeText_reader:
  assumes that: "e = 34 \<or> e = 39"
  shows "reader (attributeText e)"
proof
  show "plain c \<Longrightarrow> attributeText e line (c # s) = prefixed [c] (attributeText e line s)" for c line s
    using that by (subst attributeText.simps) (auto simp: attributeStep_def plain_def)
  show "getRef line (y @ s) = Inr (c, s) \<Longrightarrow> attributeText e line (chr8 CHR ''&'' # y @ s) = prefixed [c] (attributeText e line s)" for c line s y
    using that by (subst attributeText.simps) (auto simp: attributeStep_def xmlSpace_iff)
  show "blankStop s \<Longrightarrow> attributeText e line (32 # s) = prefixed [32] (attributeText e line s)" for line s
    using that by (subst attributeText.simps) (auto simp: attributeStep_def xmlSpace_iff skip_blank)
qed

interpretation quoted: reader "attributeText 34"
  by (rule attributeText_reader) simp

interpretation single_quoted: reader "attributeText 39"
  by (rule attributeText_reader) simp

subsection \<open>What is written\<close>

lemma utf8_nonempty: "utf8 n \<noteq> []" "length (utf8 n) \<le> 4"
  by (simp_all add: utf8_def)

lemma unitsToBytes_end: "UTF16toUTF8 us (length us) room out = (0, length us, out)"
  by (simp add: UTF16toUTF8.simps)

lemma xmlAppendChar_utf8:
  assumes "scalar n" and "n < 0x10000"
  shows "xmlAppendChar out (of_nat n) = out @ utf8 n"
proof -
  have "UTF16toUTF8 [of_nat n] 0 5 [] = (0, 1, utf8 n)"
    using UTF16toUTF8_bmp [of n 0 "[of_nat n]" "[]" 5] unitsToBytes_end [of "[of_nat n]"] assms utf8_nonempty(2) [of n]
    by (simp flip: byteCount_length)
  moreover have "cur (utf8 n @ r) = utf8 n ! 0" for r using utf8_nonempty [of n] by (cases "utf8 n") (simp_all add: cur_def)
  ultimately show ?thesis
    using trail_utf8 [of n] assms(1) utf8_nonempty(2) [of n] by (simp add: xmlAppendChar_def utf8Buffer_def scalar_def)
qed

lemma appendSurrogatePair_utf8:
  assumes "scalar n" and "0x10000 \<le> n" and "utf16 n = [h, l]"
  shows "appendSurrogatePair out h l = out @ utf8 n"
proof -
  have hl: "h = of_nat (0xD800 + (n - 0x10000) div 1024)" "l = of_nat (0xDC00 + (n - 0x10000) mod 1024)"
    using assms(2,3) by (auto simp: utf16_def simp del: of_nat_add)
  have "UTF16toUTF8 [h, l] 0 5 [] = UTF16toUTF8 [h, l] (0 + 2) 5 ([] @ utf8 n)"
    using assms(1,2) hl by (intro UTF16toUTF8_pair) (simp_all add: scalar_def)
  then have "UTF16toUTF8 [h, l] 0 5 [] = (0, 2, utf8 n)"
    using unitsToBytes_end [of "[h, l]"] by (simp add: numeral_2_eq_2)
  moreover have "cur (utf8 n @ r) = utf8 n ! 0" for r using utf8_nonempty [of n] by (cases "utf8 n") (simp_all add: cur_def)
  ultimately show ?thesis
    using trail_utf8 [of n] assms(1) utf8_nonempty(2) [of n] by (simp add: appendSurrogatePair_def utf8Buffer_def scalar_def)
qed

lemma utf8_plain:
  assumes "128 \<le> n" and "scalar n" and "c \<in> set (utf8 n)"
  shows "plain c"
proof -
  have "codePoint n" using assms(2) by (simp add: scalar_def)
  then have "128 \<le> unat c" by (cases rule: utf8_cases) (use assms in auto)
  then show ?thesis by (auto simp: plain_def xmlSpace_iff)
qed

lemma stands_plain: "\<forall>c\<in>set w. plain c \<Longrightarrow> stands x v \<Longrightarrow> stands (w @ x) (w @ v)"
  by (induction w) (auto intro: stands.plain)

text \<open>A space that was written waits for what follows.\<close>

definition held :: "bool \<Rightarrow> u8 list" where
  "held prevCharIsSpace = (if prevCharIsSpace then [32] else [])"

lemma stands_held: "blankStop x \<Longrightarrow> stands x v \<Longrightarrow> stands (held b @ x) (held b @ v)"
  by (auto simp: held_def intro: stands.blank)

lemma stands_special:
  assumes "special n" and "n \<noteq> 0" and "stands x v"
  shows "stands (bytes (specialChars ! n) @ x) (of_nat n # v)" and "blankStop (bytes (specialChars ! n))"
proof -
  have ok: "referenceOf n" by (rule reference_ok [OF assms(1,2)])
  then obtain y where y: "bytes (specialChars ! n) = chr8 CHR ''&'' # y" "\<And>line s. getRef line (y @ s) = Inr (of_nat n, s)"
    by (auto simp: referenceOf_def split: list.splits)
  have "\<forall>n\<in>set (filter special [1..<128]). tl (bytes (specialChars ! n)) \<noteq> [] \<and> last (tl (bytes (specialChars ! n))) = chr8 CHR '';''"
    by code_simp
  moreover have "n \<in> set (filter special [1..<128])" using assms(1,2) by (auto simp: special_def)
  ultimately have "y \<noteq> []" "\<not> xmlSpace (last y)" using y(1) by (auto simp: xmlSpace_iff)
  then show "stands (bytes (specialChars ! n) @ x) (of_nat n # v)" unfolding y(1) append_Cons
    by (intro stands.ref y(2) assms(3))
  show "blankStop (bytes (specialChars ! n))" unfolding y(1) by (simp add: blankStop_def xmlSpace_iff)
qed

lemma stands_blank_reference: "stands x v \<Longrightarrow> stands (bytes ''&#32;'' @ x) (32 # v)"
proof -
  assume x: "stands x v"
  have y: "bytes ''&#32;'' = chr8 CHR ''&'' # tl (bytes ''&#32;'')" "tl (bytes ''&#32;'') \<noteq> []" "\<not> xmlSpace (last (tl (bytes ''&#32;'')))"
    by (simp_all add: bytes_def xmlSpace_iff)
  show ?thesis by (subst y(1), unfold append_Cons) (intro stands.ref reference_blank y x)
qed

lemma blankStop_append: "blankStop w \<Longrightarrow> blankStop (w @ x)"
  by (auto simp: blankStop_def)

definition finishSpecial :: "u8 list \<times> bool \<Rightarrow> u8 list" where
  "finishSpecial r = (case r of (out, prevCharIsSpace) \<Rightarrow> if prevCharIsSpace then butlast out @ bytes ''&#32;'' else out)"

lemma plain_blankStop: "plain c \<Longrightarrow> blankStop (c # x)"
  by (simp add: plain_def blankStop_def)

lemma plain_ascii:
  assumes "n < 128" and "n \<noteq> 0" and "\<not> special n" and "n \<noteq> 32"
  shows "plain (of_nat n)"
proof -
  have "unat (of_nat n :: u8) = n" using assms(1) by (simp add: unat_of_nat_small)
  then show ?thesis using assms by (simp add: plain_def xmlSpace_iff word_unat_eq_iff special_def)
qed

lemma utf8_blank: "utf8 32 = [32]"
  by (simp add: utf8_def)

text \<open>The branches of a round, for the units of a code point.\<close>

lemma utf16_single:
  assumes "scalar n" and "n < 0x10000"
  shows "utf16 n = [of_nat n]" and "unat (of_nat n :: u16) = n" and "\<not> surrogateUnit (of_nat n)"
proof -
  show u: "unat (of_nat n :: u16) = n" using assms(2) by (simp add: unat_of_nat_small)
  show "utf16 n = [of_nat n]" using assms(2) by (simp add: utf16_def)
  show "\<not> surrogateUnit (of_nat n)" using assms(1) by (auto simp: surrogateUnit_def word_le_unat u scalar_def surrogate_def)
qed

lemma utf16_double:
  assumes "scalar n" and "0x10000 \<le> n"
  obtains h l where "utf16 n = [h, l]" and "\<not> h < 128" and "surrogateUnit h" and "l \<noteq> 0"
proof -
  let ?h = "(n - 0x10000) div 1024" and ?l = "(n - 0x10000) mod 1024"
  have "n \<le> 0x10FFFF" using assms by (simp add: codePoint_def scalar_def)
  then have "n - 0x10000 < 1024 * 1024" using assms(2) by linarith
  then have b: "?h < 1024" "?l < 1024" by (simp_all add: less_mult_imp_div_less)
  have u: "unat (of_nat (0xD800 + ?h) :: u16) = 0xD800 + ?h" by (rule unat_of_nat_small) (use b in simp)
  have v: "unat (of_nat (0xDC00 + ?l) :: u16) = 0xDC00 + ?l" by (rule unat_of_nat_small) (use b(2) in \<open>simp del: mod_less_divisor\<close>)
  show ?thesis
  proof (rule that)
    show "utf16 n = [of_nat (0xD800 + ?h), of_nat (0xDC00 + ?l)]" unfolding utf16_def using assms(2) by (subst if_not_P) (simp, rule refl)
    show "\<not> (of_nat (0xD800 + ?h) :: u16) < 128" unfolding word_less_unat u by simp
    show "surrogateUnit (of_nat (0xD800 + ?h))" unfolding surrogateUnit_def word_le_unat u using b by simp
    show "(of_nat (0xDC00 + ?l) :: u16) \<noteq> 0" unfolding word_unat_eq_iff v by simp
  qed
qed

lemma specialLoop_single:
  assumes "scalar n" and "n \<noteq> 0" and "n < 0x10000"
  shows "specialLoop out (utf16 n @ q) prev =
    (if n < 128 then
       (if special n then specialLoop (out @ bytes (specialChars ! n)) q False
        else if prev \<and> n = 32 then specialLoop (out @ bytes ''&#32;'') q False
        else specialLoop (out @ [of_nat n]) q (n = 32))
     else specialLoop (out @ utf8 n) q False)"
proof -
  note u = utf16_single [OF assms(1,3)]
  have "(of_nat n :: u16) \<noteq> 0" "(of_nat n :: u16) < 128 \<longleftrightarrow> n < 128" "(of_nat n :: u16) = 32 \<longleftrightarrow> n = 32"
    using assms(2) by (simp_all add: word_unat_eq_iff word_less_unat u(2) del: of_nat_eq_0_iff)
  moreover have "(ucast (of_nat n :: u16) :: u8) = of_nat n" if "n < 128"
    using that by (intro unsigned_word_eqI [where ?'a = nat]) (simp add: unsigned_ucast_eq unat_of_nat_small take_bit_nat_eq_self)
  ultimately show ?thesis
    using isSpecial_iff [of n] xmlAppendChar_utf8 [OF assms(1,3)] u
    by (subst specialLoop.simps) (simp add: Let_def cur_def)
qed

lemma specialLoop_pair:
  assumes "scalar n" and "0x10000 \<le> n"
  shows "specialLoop out (utf16 n @ q) prev = specialLoop (out @ utf8 n) q False"
proof -
  obtain h l where u: "utf16 n = [h, l]" "\<not> h < 128" "surrogateUnit h" "l \<noteq> 0" by (rule utf16_double [OF assms])
  have "h \<noteq> 0" using u(2) by auto
  then show ?thesis using u appendSurrogatePair_utf8 [OF assms u(1)]
    by (subst specialLoop.simps) (simp add: Let_def cur_def)
qed

lemma specialLoop_stands:
  "\<forall>n\<in>set cs. scalar n \<and> n \<noteq> 0 \<Longrightarrow>
   \<exists>x. finishSpecial (specialLoop (out @ held prev) (concat (map utf16 cs)) prev) = out @ x \<and> stands x (held prev @ concat (map utf8 cs))"
proof (induction cs arbitrary: out prev)
  case Nil
  have "specialLoop (out @ held prev) [] prev = (out @ held prev, prev)" by (subst specialLoop.simps) (simp add: cur_def)
  then show ?case
    using stands_blank_reference [OF stands.end'] by (cases prev) (auto simp: finishSpecial_def held_def butlast_append intro: stands.end')
next
  case (Cons n cs)
  have n: "scalar n" "n \<noteq> 0" using Cons.prems by simp_all
  let ?q = "concat (map utf16 cs)" and ?v = "concat (map utf8 cs)"
  have IH: "\<exists>x. finishSpecial (specialLoop (out @ held b) ?q b) = out @ x \<and> stands x (held b @ ?v)" for out b
    using Cons.IH [of out b] Cons.prems by simp
  have goon: "\<exists>x. finishSpecial (specialLoop (out @ held prev @ w) ?q False) = out @ x \<and> stands x (held prev @ utf8 n @ ?v)"
    if w: "blankStop w" "\<And>x v. stands x v \<Longrightarrow> stands (w @ x) (utf8 n @ v)" for w
  proof -
    obtain x where x: "finishSpecial (specialLoop (out @ held prev @ w) ?q False) = (out @ held prev @ w) @ x" "stands x ?v"
      using IH [of "out @ held prev @ w" False] by (auto simp: held_def)
    have "stands (held prev @ w @ x) (held prev @ utf8 n @ ?v)" using w x(2) by (intro stands_held blankStop_append) simp_all
    with x(1) show ?thesis by (intro exI [of _ "held prev @ w @ x"]) simp
  qed
  have one: "utf8 n = [of_nat n]" if "n < 128" using that by (simp add: utf8_def)
  show ?case
  proof (cases "n < 128")
    case True
    note split = specialLoop_single [OF n, of "out @ held prev" ?q prev]
    consider "special n" | "\<not> special n" "n = 32" "prev" | "\<not> special n" "n = 32" "\<not> prev" | "\<not> special n" "n \<noteq> 32" by blast
    then show ?thesis
    proof cases
      case 1
      then show ?thesis using split True goon [of "bytes (specialChars ! n)"] stands_special [OF 1 n(2)] stands.end' by (auto simp: one)
    next
      case 2
      have "blankStop (bytes ''&#32;'')" by (simp add: blankStop_def bytes_def xmlSpace_iff)
      then show ?thesis using 2 split True goon [of "bytes ''&#32;''"] stands_blank_reference utf8_blank by (auto simp: one)
    next
      case 3
      then show ?thesis using split True IH [of out True] by (simp add: utf8_blank held_def)
    next
      case 4
      have p: "plain (of_nat n)" using plain_ascii True n(2) 4 by simp
      then show ?thesis using 4 split True goon [of "[of_nat n]"] plain_blankStop by (auto simp: one intro: stands.plain)
    qed
  next
    case False
    have p: "\<forall>c\<in>set (utf8 n). plain c" using utf8_plain [of n] False n(1) by auto
    then have "blankStop (utf8 n)" using plain_blankStop utf8_nonempty [of n] by (cases "utf8 n") auto
    note g = goon [OF this stands_plain [OF p]]
    show ?thesis
    proof (cases "n < 0x10000")
      case True
      then show ?thesis using specialLoop_single [OF n True, of "out @ held prev" ?q prev] False g by simp
    next
      case big: False
      then show ?thesis using specialLoop_pair [OF n(1), of "out @ held prev" ?q prev] g by simp
    qed
  qed
qed

lemma stands_last: "stands x v \<Longrightarrow> x \<noteq> [] \<Longrightarrow> \<not> xmlSpace (last x)"
  by (induction rule: stands.induct) (auto simp: plain_def blankStop_def last_append)

lemma stands_head: "stands x v \<Longrightarrow> v \<noteq> [] \<Longrightarrow> hd v \<noteq> 32 \<Longrightarrow> blankStop x"
  by (cases rule: stands.cases) (auto simp: blankStop_def xmlSpace_iff plain_def)

lemma stands_Nil: "stands x v \<Longrightarrow> x = [] \<longleftrightarrow> v = []"
  by (cases rule: stands.cases) auto

lemma texts_nonempty: "concat (map utf8 cs) = [] \<longleftrightarrow> cs = []" "concat (map utf16 cs) = [] \<longleftrightarrow> cs = []"
  by (cases cs; simp add: utf8_nonempty utf16_def)+

lemma head_space:
  assumes "\<forall>n\<in>set cs. scalar n \<and> n \<noteq> 0" and "cs \<noteq> []"
  shows "cur (concat (map utf16 cs)) = 32 \<longleftrightarrow> hd cs = 32" and "hd (concat (map utf8 cs)) = 32 \<longleftrightarrow> hd cs = 32"
proof -
  obtain n r where cs: "cs = n # r" using assms(2) by (cases cs) auto
  then have n: "scalar n" using assms(1) by simp
  show "cur (concat (map utf16 cs)) = 32 \<longleftrightarrow> hd cs = 32"
  proof (cases "n < 0x10000")
    case True
    then show ?thesis using utf16_single(1,2) [OF n True] by (simp add: cs cur_def word_unat_eq_iff)
  next
    case False
    then obtain h l where "utf16 n = [h, l]" "\<not> h < 128" using utf16_double [OF n] by (metis not_less)
    then show ?thesis using False by (auto simp: cs cur_def)
  qed
  show "hd (concat (map utf8 cs)) = 32 \<longleftrightarrow> hd cs = 32"
  proof (cases "n < 128")
    case True
    then show ?thesis by (simp add: cs utf8_def word_unat_eq_iff unat_of_nat_small)
  next
    case False
    then have "plain (hd (utf8 n))" using utf8_plain [of n "hd (utf8 n)"] n utf8_nonempty by simp
    then show ?thesis using False utf8_nonempty [of n] by (auto simp: cs plain_def xmlSpace_iff)
  qed
qed

lemma appendSpecialString_stands:
  assumes cs: "\<forall>n\<in>set cs. scalar n \<and> n \<noteq> 0"
  obtains x where "appendSpecialString out (concat (map utf16 cs)) = out @ x" and "stands x (concat (map utf8 cs))"
    and "cs \<noteq> [] \<Longrightarrow> blankStop x"
proof (cases "cs \<noteq> [] \<and> hd cs = 32")
  case True
  then obtain r where r: "cs = 32 # r" by (cases cs) auto
  obtain x where x: "finishSpecial (specialLoop (out @ bytes ''&#32;'') (concat (map utf16 r)) False) = (out @ bytes ''&#32;'') @ x"
    "stands x (concat (map utf8 r))"
    using specialLoop_stands [of r "out @ bytes ''&#32;''" False] cs by (auto simp: r held_def)
  have "appendSpecialString out (concat (map utf16 cs)) = out @ (bytes ''&#32;'' @ x)"
    using x(1) by (simp add: appendSpecialString_def r utf16_def cur_def finishSpecial_def split: prod.splits)
  moreover have "stands (bytes ''&#32;'' @ x) (concat (map utf8 cs))"
    using stands_blank_reference [OF x(2)] by (simp add: r utf8_def)
  moreover have "blankStop (bytes ''&#32;'' @ x)" by (simp add: blankStop_def bytes_def xmlSpace_iff)
  ultimately show ?thesis by (rule that)
next
  case False
  obtain x where x: "finishSpecial (specialLoop out (concat (map utf16 cs)) False) = out @ x" "stands x (concat (map utf8 cs))"
    using specialLoop_stands [of cs out False] cs by (auto simp: held_def)
  have "cur (concat (map utf16 cs)) \<noteq> 32" using head_space(1) [OF cs] False by (cases "cs = []") (auto simp: cur_def)
  then have "appendSpecialString out (concat (map utf16 cs)) = out @ x"
    using x(1) by (simp add: appendSpecialString_def finishSpecial_def split: prod.splits)
  moreover have "blankStop x" if "cs \<noteq> []"
    using stands_head [OF x(2)] head_space(2) [OF cs that] False that by (simp add: texts_nonempty del: concat_eq_Nil_conv)
  ultimately show ?thesis using that x(2) by blast
qed

subsection \<open>The round trip\<close>

lemma attributeText_end: "attributeText e line (e # s) = Inr ([], line, e # s)"
  by (subst attributeText.simps) (simp add: attributeStep_def)

lemma elementText_end: "elementText line (chr8 CHR ''<'' # s) = Inr ([], line, chr8 CHR ''<'' # s)"
  by (subst elementText.simps) (simp add: elementStep_def)

lemma skip_start:
  assumes "x \<noteq> [] \<longrightarrow> blankStop x" and "blankStop (c # s) \<or> \<not> xmlSpace c"
  shows "skipWhitespace line (x @ c # s) = (line, x @ c # s)"
  using assms by (cases x) (auto simp: blankStop_def)

lemma attributeValue_stands:
  assumes "stands x v" and "x \<noteq> [] \<longrightarrow> blankStop x" and e: "e = 34 \<or> e = 39"
  shows "attributeValue e line (x @ e # s) = Inr (v, line, e # s)"
proof -
  have k: "skipWhitespace line (x @ e # s) = (line, x @ e # s)" using assms(2) e by (intro skip_start) (auto simp: xmlSpace_iff)
  have t: "attributeText e line (x @ e # s) = Inr (v, line, e # s)"
    using reader.reads [OF attributeText_reader [OF e] assms(1)] by (simp add: attributeText_end prefixed_def)
  have "\<not> trailing (x @ e # s) (e # s)"
    using stands_last [OF assms(1)] by (cases x rule: rev_cases) (auto simp: trailing_def nth_append)
  then show ?thesis by (simp add: attributeValue_def k t)
qed

lemma elementText_stands:
  assumes "stands x v"
  shows "elementText line (x @ chr8 CHR ''<'' # s) = Inr (v, line, chr8 CHR ''<'' # s)"
  using element_reader.reads [OF assms, of line "chr8 CHR ''<'' # s"] by (simp only: elementText_end prefixed_def bindE.simps prod.case append_Nil2)

text \<open>
  C29: text survives XML. For every text of Unicode scalar values but NUL, what \<open>appendSpecial\<close> writes for the \<open>String\<close>
  is read back in place as the UTF-8 of the text, exactly, white space included: between quotes of either kind by
  \<open>_normalizeAttributeValue\<close>, and in front of a tag by \<open>_normalizeElementValue\<close>, where the white space that \<open>_next\<close>
  skips first takes nothing away.
\<close>

theorem special_string_roundtrip:
  assumes cs: "\<forall>n\<in>set cs. scalar n \<and> n \<noteq> 0" and nul: "0 \<in> set (drop p b)"
    and out: "appendSpecialString [] (concat (map utf16 cs)) = x" and e: "e = 34 \<or> e = 39"
  shows "(cstrAt b p = x @ e # s \<longrightarrow>
           (\<exists>b' p'. normalizeAttributeValue b line p e = Inr (b', line, p', p) \<and>
              valueAt b b' p p' (concat (map utf8 cs)) \<and> cstrAt b p' = e # s)) \<and>
         (cstrAt b p = x @ chr8 CHR ''<'' # s \<longrightarrow> skipWhitespace line (cstrAt b p) = (line, cstrAt b p) \<and>
           (\<exists>b' p'. normalizeElementValue b line p = Inr (b', line, p', length (concat (map utf8 cs))) \<and>
              valueAt b b' p p' (concat (map utf8 cs)) \<and> cstrAt b p' = chr8 CHR ''<'' # s))"
proof -
  obtain x' where "appendSpecialString [] (concat (map utf16 cs)) = [] @ x'" "stands x' (concat (map utf8 cs))" "cs \<noteq> [] \<Longrightarrow> blankStop x'"
    using appendSpecialString_stands [OF cs, of "[]"] by metis
  then have x: "stands x (concat (map utf8 cs))" "x \<noteq> [] \<longrightarrow> blankStop x"
    using out stands_Nil texts_nonempty(1) [of cs] by auto
  have "\<exists>b' p'. normalizeAttributeValue b line p e = Inr (b', line, p', p) \<and>
              valueAt b b' p p' (concat (map utf8 cs)) \<and> cstrAt b p' = e # s" if at: "cstrAt b p = x @ e # s"
  proof -
    have k: "skipWhitespace line (cstrAt b p) = (line, cstrAt b p)" unfolding at using x(2) e by (intro skip_start) (auto simp: xmlSpace_iff)
    have v: "attributeValue e line (cstrAt b p) = Inr (concat (map utf8 cs), line, e # s)"
      unfolding at by (rule attributeValue_stands [OF x e])
    from attribute_normalizes [OF nul v k refl] show ?thesis by (metis add.right_neutral diff_self_eq_0)
  qed
  moreover have "skipWhitespace line (cstrAt b p) = (line, cstrAt b p) \<and>
           (\<exists>b' p'. normalizeElementValue b line p = Inr (b', line, p', length (concat (map utf8 cs))) \<and>
              valueAt b b' p p' (concat (map utf8 cs)) \<and> cstrAt b p' = chr8 CHR ''<'' # s)"
    if at: "cstrAt b p = x @ chr8 CHR ''<'' # s"
  proof -
    have k: "skipWhitespace line (cstrAt b p) = (line, cstrAt b p)" unfolding at using x(2) by (intro skip_start) (auto simp: xmlSpace_iff)
    have v: "elementText line (cstrAt b p) = Inr (concat (map utf8 cs), line, chr8 CHR ''<'' # s)"
      unfolding at by (rule elementText_stands [OF x(1)])
    from element_normalizes [OF nul v] k show ?thesis by metis
  qed
  ultimately show ?thesis by blast
qed

lemma isSpecial_pos: "n < 256 \<Longrightarrow> 0 < isSpecialChar7Table ! n \<longleftrightarrow> special n"
  using isSpecial_iff [of n] by simp

theorem special_string_roundtrip_witness:
  "\<exists>b' p'. normalizeAttributeValue (bytes ''&#32;a &#32;&lt;&#32;'' @ [34, 0]) 1 0 34 = Inr (b', 1, p', 0) \<and>
     valueAt (bytes ''&#32;a &#32;&lt;&#32;'' @ [34, 0]) b' 0 p' (bytes '' a  < '')"
proof -
  let ?cs = "[32, 97, 32, 32, 60, 32]" and ?x = "bytes ''&#32;a &#32;&lt;&#32;''"
  have s: "\<forall>n\<in>set ?cs. scalar n \<and> n \<noteq> 0" by (simp add: scalar_def codePoint_def surrogate_def)
  have "appendSpecialString [] [32, 97, 32, 32, 60, 32] = ?x"
    by (simp add: appendSpecialString_def specialLoop.simps cur_def isSpecial_pos special_def specialChars_def bytes_def Let_def)
  then have x: "appendSpecialString [] (concat (map utf16 ?cs)) = ?x" by (simp add: utf16_def)
  have v: "concat (map utf8 ?cs) = bytes '' a  < ''" by code_simp
  have c: "cstrAt (?x @ [34, 0]) 0 = ?x @ 34 # []" by code_simp
  show ?thesis using special_string_roundtrip [OF s _ x, of 0 "?x @ [34, 0]" 34 "[]" 1] c v by auto
qed

subsection \<open>Unrolled loops\<close>

lemma byte_less: "unat (c :: u8) < 256"
  using unsigned_less [of c, where ?'a = nat] by simp

lemma normalFours_splits:
  "normalFours p = (a, r) \<Longrightarrow> p = a @ r \<and> (\<forall>c\<in>set a. isNormalChar7Table ! unat c \<noteq> 0)"
proof (induction p arbitrary: a r rule: normalFours.induct)
  case (1 p)
  show ?case
  proof (cases "length p \<ge> 4 \<and> isNormalChar7Table ! unat (p ! 0) \<noteq> 0 \<and> isNormalChar7Table ! unat (p ! 1) \<noteq> 0 \<and>
        isNormalChar7Table ! unat (p ! 2) \<noteq> 0 \<and> isNormalChar7Table ! unat (p ! 3) \<noteq> 0")
    case True
    obtain a' where a': "normalFours (drop 4 p) = (a', r)" "a = take 4 p @ a'"
      using "1.prems" True by (subst (asm) normalFours.simps) (auto split: prod.splits)
    have t: "take 4 p = [p ! 0, p ! 1, p ! 2, p ! 3]" using True by (auto simp: numeral_eq_Suc Suc_le_length_iff)
    have "drop 4 p = a' @ r \<and> (\<forall>c\<in>set a'. isNormalChar7Table ! unat c \<noteq> 0)" by (rule "1.IH" [OF True a'(1)])
    then show ?thesis using True a'(2) append_take_drop_id [of 4 p] by (auto simp: t)
  next
    case False
    then show ?thesis using "1.prems" by (subst (asm) normalFours.simps) auto
  qed
qed

lemma specialEights_splits:
  "specialEights out str = (out', r) \<Longrightarrow> \<exists>a. str = a @ r \<and> out' = out @ concat (map specialChar7 a)"
proof (induction out str arbitrary: out' r rule: specialEights.induct)
  case (1 out str)
  show ?case
  proof (cases "length str \<ge> 8")
    case True
    have t: "take 8 str = [str ! 0, str ! 1, str ! 2, str ! 3, str ! 4, str ! 5, str ! 6, str ! 7]"
      using True by (auto simp: numeral_eq_Suc Suc_le_length_iff)
    have "specialEights (out @ concat (map specialChar7 (take 8 str))) (drop 8 str) = (out', r)"
      using "1.prems" True by (subst (asm) specialEights.simps) (simp add: t)
    then obtain a where "drop 8 str = a @ r" "out' = (out @ concat (map specialChar7 (take 8 str))) @ concat (map specialChar7 a)"
      using "1.IH" [OF True] by (fastforce simp: t)
    then show ?thesis using append_take_drop_id [of 8 str] by (intro exI [of _ "take 8 str @ a"]) simp
  next
    case False
    then show ?thesis using "1.prems" by (subst (asm) specialEights.simps) auto
  qed
qed

lemma specialFours_splits:
  "specialFours out str = (out', r) \<Longrightarrow> \<exists>a. str = a @ r \<and> out' = out @ concat (map specialChar7 a)"
proof (induction out str arbitrary: out' r rule: specialFours.induct)
  case (1 out str)
  show ?case
  proof (cases "length str \<ge> 4")
    case True
    have t: "take 4 str = [str ! 0, str ! 1, str ! 2, str ! 3]"
      using True by (auto simp: numeral_eq_Suc Suc_le_length_iff)
    have "specialFours (out @ concat (map specialChar7 (take 4 str))) (drop 4 str) = (out', r)"
      using "1.prems" True by (subst (asm) specialFours.simps) (simp add: t)
    then obtain a where "drop 4 str = a @ r" "out' = (out @ concat (map specialChar7 (take 4 str))) @ concat (map specialChar7 a)"
      using "1.IH" [OF True] by (fastforce simp: t)
    then show ?thesis using append_take_drop_id [of 4 str] by (intro exI [of _ "take 4 str @ a"]) simp
  next
    case False
    then show ?thesis using "1.prems" by (subst (asm) specialFours.simps) auto
  qed
qed

lemma specialRest_eq: "specialRest out str = out @ concat (map specialChar7 str)"
  by (induction out str rule: specialRest.induct) simp_all

lemma specialChar7_normal: "isNormalChar7Table ! unat c \<noteq> 0 \<Longrightarrow> specialChar7 c = [c]"
  using isNormal_iff [of "unat c"] isSpecial_iff [of "unat c"] byte_less [of c] by (simp add: specialChar7_def)

lemma specialChars_id: "\<forall>c\<in>set a. isNormalChar7Table ! unat c \<noteq> 0 \<Longrightarrow> concat (map specialChar7 a) = a"
  by (induction a) (simp_all add: specialChar7_normal)

lemma appendSpecialSized_eq: "appendSpecialSized out str = out @ concat (map specialChar7 str)"
proof -
  obtain a r where n: "normalFours str = (a, r)" by fastforce
  obtain out1 r1 where e: "specialEights (out @ a) r = (out1, r1)" by fastforce
  obtain out2 r2 where f: "specialFours out1 r1 = (out2, r2)" by fastforce
  have a: "str = a @ r" "concat (map specialChar7 a) = a"
    using normalFours_splits [OF n] specialChars_id by blast+
  obtain b where b: "r = b @ r1" "out1 = (out @ a) @ concat (map specialChar7 b)" using specialEights_splits [OF e] by blast
  obtain c where c: "r1 = c @ r2" "out2 = out1 @ concat (map specialChar7 c)" using specialFours_splits [OF f] by blast
  have "appendSpecialSized out str = out2 @ concat (map specialChar7 r2)" by (simp add: appendSpecialSized_def n e f specialRest_eq)
  also have "\<dots> = out @ concat (map specialChar7 str)" using a b c by simp
  finally show ?thesis .
qed

lemma specialChar7_length: "length (specialChar7 c) \<le> 6"
proof -
  have "\<forall>n\<in>set [0..<128]. length (specialChars ! n) \<le> 6" by code_simp
  moreover have "special (unat c) \<Longrightarrow> unat c < 128" by (auto simp: special_def)
  ultimately show ?thesis using isSpecial_iff [of "unat c"] byte_less [of c] by (auto simp: specialChar7_def bytes_def)
qed

lemma specials_length: "length (concat (map specialChar7 str)) \<le> 6 * length str"
proof (induction str)
  case (Cons c str)
  then show ?case using specialChar7_length [of c] by simp
qed simp

lemma appendSpecialCString_eq:
  "appendSpecialCString out str = (if \<forall>c\<in>set str. c < 128 then Done (out @ concat (map specialChar7 str)) else Undefined)"
  by (induction out str rule: appendSpecialCString.induct) (auto simp: appendSpecialChar7_def not_le)

text \<open>
  C38: \<open>appendSpecial\<close> of \<open>size\<close> bytes, with its prefix of plain characters and its unrolled loops, appends byte by byte
  what \<open>_appendSpecialChar7\<close> appends, at most six bytes for each, the room that was reserved: a reference for the control
  characters, quotes, ampersand, angle brackets and DEL, and every other byte, those from 128 on too, as it is. The overload
  for a C string appends the same up to 127 and reads in front of its tables for a byte from 128 on.
\<close>

theorem special_sized_exact:
  "appendSpecialSized out str = out @ concat (map specialChar7 str) \<and>
   length (appendSpecialSized out str) \<le> length out + 6 * length str \<and>
   (\<forall>c. specialChar7 c = (if special (unat c) then bytes (specialChars ! unat c) else [c])) \<and>
   appendSpecialCString out str = (if list_all (\<lambda>c. c < 128) str then Done (appendSpecialSized out str) else Undefined)"
proof -
  have "specialChar7 c = (if special (unat c) then bytes (specialChars ! unat c) else [c])" for c
    using isSpecial_iff [of "unat c"] byte_less [of c] by (simp add: specialChar7_def)
  then show ?thesis using specials_length [of str] by (simp add: appendSpecialSized_eq appendSpecialCString_eq list_all_iff)
qed

lemma lenient_references:
  "getRef 1 (bytes ''# 65;'') = Inr (65, [])" "getRef 1 (bytes ''#+65;'') = Inr (65, [])"
  "getRef 1 (bytes ''#x0x41;'') = Inr (65, [])"
  by (simp_all add: getRef_defs Let_def peek_numeral)

lemma nul_reference: "attributeText 34 1 (bytes ''&#0;'' @ [34]) = Inr ([0], 1, [34])"
proof -
  have "getRef 1 (tl (bytes ''&#0;'') @ [34]) = Inr (0, [34])"
    using decimal_reference [of "[48]" 0 1 "[34]"] by (simp add: bytes_def isdigit_def)
  then show ?thesis
    by (subst attributeText.simps) (simp add: attributeStep_def bytes_def xmlSpace_iff attributeText_end prefixed_def)
qed


end
