(* ===== verification/Spec2Isabelle.thy ===== *)
theory Spec2Isabelle
  imports StringConv DateTimeText StringHeap HashTab CimName RepositoryStart DnfGather XmlEscape
begin

text \<open>
  OpenPegasus is a CIM server: clients send operations on classes and instances, in XML or in binary; the
  server decodes them, consults its repository of namespaces and classes, and calls providers. This
  development models parts of the core under \<^verbatim>\<open>src/pegasus/src/Pegasus\<close>: the data types everything else is
  made of, in \<^verbatim>\<open>Common\<close>, the namespaces and class hierarchies of the repository, in \<^verbatim>\<open>Repository\<close>, and the
  statements of the query language WQL that filter indications, in \<^verbatim>\<open>WQL\<close>, with their normal form for providers.

  \<^bold>\<open>Theories and code.\<close> Paths are below \<^verbatim>\<open>Pegasus\<close>; definitions have the names of the functions, with a
  suffix or a prefix where a name is taken.

  \<^item> \<open>Prelude\<close>: machine integers as words, C strings as byte lists read through their suffixes, \<open>String\<close>
    as a list of 16-bit units, the sum type of results that throw, and \<open>outcome\<close>, which adds undefined
    behaviour. Lemmas on words and lists.
  \<^item> \<open>CharSetModel\<close>: the tables of \<^verbatim>\<open>Common/CharSet.cpp\<close>, as data.
  \<^item> \<open>PegString\<close>: the reading half of \<^verbatim>\<open>Common/String.cpp\<close> and \<^verbatim>\<open>StringInline.h\<close>: case conversion, capacity
    rounding, searching, comparing, with the unrolled loops as they are.
  \<^item> \<open>CommonUtf\<close>: \<^verbatim>\<open>Common/CommonUTF.cpp\<close> and the two conversions of \<^verbatim>\<open>String.cpp\<close> between UTF-8 and UTF-16,
    against a reference encoding of code points.
  \<^item> \<open>StringHeap\<close>: the writing half of \<^verbatim>\<open>String.cpp\<close> and \<^verbatim>\<open>StringRep.h\<close>: strings point to shared buffers with
    reference counts, capacities and stale contents; copy on write.
  \<^item> \<open>XmlText\<close>, \<open>XmlEscape\<close>: characters of XML: writing text with references (\<^verbatim>\<open>Common/XmlGenerator.cpp\<close>), and
    reading references and normalizing white space in place (\<^verbatim>\<open>Common/XmlParser.cpp\<close>).
  \<^item> \<open>StringConv\<close>: \<^verbatim>\<open>Common/StringConversion.cpp\<close>, printers and parsers of integers.
  \<^item> \<open>HashTab\<close>: \<^verbatim>\<open>Common/HashTable.cpp\<close> and \<^verbatim>\<open>HashTable.h\<close>, chains of entries, generic in hash and equality.
  \<^item> \<open>CimName\<close>: \<^verbatim>\<open>Common/CIMName.cpp\<close>, names of classes, properties and namespaces.
  \<^item> \<open>Calendar\<close>, \<open>DateTime\<close>, \<open>DateTimeText\<close>: \<^verbatim>\<open>Common/CIMDateTime.cpp\<close>: Julian days, time stamps and
    intervals with wildcards, comparison, arithmetic, parsing and printing.
  \<^item> \<open>InheritTree\<close>, \<open>InheritQueries\<close>: \<^verbatim>\<open>Repository/InheritanceTree.cpp\<close>: nodes with pointers to superclass,
    sibling and first subclass, the extension nodes of dependent namespaces, the table of names.
  \<^item> \<open>NameSpaces\<close>, \<open>NameSpaceClasses\<close>: \<^verbatim>\<open>Repository/NameSpaceManager.cpp\<close>: namespaces linked to parents and
    dependents, each with its inheritance tree; the checks and updates the repository makes.
  \<^item> \<open>RepositoryStart\<close>: the loop of the constructor of \<^verbatim>\<open>Repository/CIMRepository.cpp\<close> that loads them.
  \<^item> \<open>Wql\<close>: \<^verbatim>\<open>WQL\<close>: operands and operations, the statement the actions of \<^verbatim>\<open>WQL.y\<close> fill, the evaluation of its
    where clause on a stack, properties of an instance as operands, projection and property lists.
  \<^item> \<open>WqlDnf\<close>: \<^verbatim>\<open>ProviderManager2/CMPI/CMPI_Wql2Dnf.cpp\<close>, which turns the where clause into a disjunction of
    conjunctions. \<open>DnfPush\<close> (the arrays it builds, negations), \<open>DnfFactor\<close> (distribution) and \<open>DnfGather\<close> (the
    rows) prove its passes correct, in the order in which they run.

  \<^bold>\<open>How the parts interact.\<close> The names of the manager and of the trees are looked up in \<open>HashTab\<close> tables
  under the equality and hash of \<open>PegString\<close> and \<open>CharSetModel\<close> without regard to case; the tree programs
  run inside the programs of the manager, and those inside the start-up loop. The interfaces are locales:
  \<open>hash_key\<close> (a hash that respects an equality on the valid keys) makes a table an instance of \<open>key_map\<close>
  (a finite map up to that equality); it is interpreted for \<open>String\<close>, for names and for numbers.
  \<open>unit_order\<close> is interpreted for the two comparisons of strings, \<open>digit_accumulator\<close> for the four parsers.
  WQL compares names and strings with \<open>PegString\<close> and \<open>CimName\<close> and prints date properties with \<open>DateTime\<close>; its normal form starts from the arrays a statement holds. The locale \<open>heap_algebra\<close> has what a
  rewriting of those arrays does to a fold over them; it is interpreted for truth and for the number of disjuncts,
  of which the first gives that distributing keeps the meaning and the second that it ends.

  The locale \<open>in_place\<close> has what a loop that writes behind its reader computes; it is interpreted for elements and
  attributes, and so is \<open>reader\<close>, with what both do to escaped text.

  \<^bold>\<open>State and errors.\<close> An object is an entry of a store, a pointer a number; a program is a function from
  the store to an \<open>outcome\<close>: \<open>Done\<close> with a result and a new store, \<open>Throws\<close> an exception, or \<open>Undefined\<close>
  where C++ promises nothing (a null pointer, a freed or missing object, the wrong member of a union, a
  read outside a buffer). So a theorem that a program is \<open>Done\<close> is one of memory safety too. Integers
  wrap at their width where the code computes with them. Assertions are compiled out, as in a release
  build, unless a theory says otherwise; tracing is left out.

  \<^bold>\<open>What the lemmas show.\<close> Each component has the behaviour of its operations on every branch; an invariant
  of its state, kept by every operation (\<open>memOk\<close>, \<open>tableOk\<close>, \<open>treeOk\<close>, \<open>spacesOk\<close>, \<open>managerOk\<close>); and an
  abstract view that the operations are shown to implement: texts of variables for the string buffers,
  finite maps for tables, a hierarchy of names for a tree (\<open>view\<close>), a map from names to attributes for the
  manager (\<open>registry\<close>). Postfix code and normal form of a condition have the value of the condition. Unrolled and table driven routines are proved equal to plain ones, parsers and
  printers inverse to each other. Where the code is wrong, a theorem states what it does instead.

  \<^bold>\<open>Fuel.\<close> Loops over pointers take a number of rounds: one more than the number of objects ever made, which
  is enough on every well-formed store, as the theorems on those loops show; when it is used up the result
  is \<open>Undefined\<close>. The loop at start-up takes its number of rounds as an argument; the square of the number
  of namespaces and a few more are enough without a cycle of parents, and none is with one. The loops that
  distribute and gather in \<open>WqlDnf\<close> have no fuel: they are functions into an \<open>option\<close>, \<open>None\<close> if they do not
  return, and the theorem \<open>dnf_compiles\<close> is that they do.

  \<^bold>\<open>Not modelled.\<close> The stores behind the repository, the CIM objects and their encodings, and the whole of
  the server above them: request dispatch, provider managers, indications, the query
  languages CQL and FQL, the MOF compiler, clients, security, tools. They are glue to the operating system, to foreign code or to
  generated parsers, or need those first. Of the modelled files: ICU, Windows and VMS branches, \<open>sprintf\<close>
  of real numbers, output for debugging. Of WQL: the
  scanner and parser tables, the validation against a class, and the texts of the operands in the normal form. Of XML: the entries of \<open>XmlParser\<close> (tags,
  attributes, comments, the stack of open tags, namespaces) and the writing of tags.
\<close>

end
